(* ===== verification/Mugo_Prelude.thy ===== *)
theory Mugo_Prelude
  imports Main "HOL-Library.Word"
begin

text \<open>
  Shared vocabulary of the development: the machine integers of
  \<^verbatim>\<open>include/types/base.h\<close> and \<^verbatim>\<open>arch_types_base.h\<close>, the result type that makes
  every panic, failed assertion, divide error and bad memory access of the C code a value,
  and the byte-addressed little-endian memory on which the pointer code works, with the
  read-over-write lemmas that carry the proofs of the components.
\<close>

unbundle bit_operations_syntax

named_theorems outcome_simps \<open>rules that evaluate and invert the sequencing of fallible steps\<close>
named_theorems mem_simps \<open>read-over-write rules of the byte memory\<close>

section \<open>Machine integers\<close>

type_synonym u8 = "8 word"
type_synonym u16 = "16 word"
type_synonym u32 = "32 word"
type_synonym u64 = "64 word"

type_synonym word_t = u32
type_synonym size_t = u32
type_synonym vaddr_t = u32
type_synonym paddr_t = u32
type_synonym reg_t = u32
type_synonym pid_t = u32
type_synonym tid_t = u32
type_synonym time_t = u64

section \<open>Outcomes\<close>

text \<open>
  \<open>Panic\<close> is \<^verbatim>\<open>panic()\<close> of \<^verbatim>\<open>kern/util.c\<close> (it prints and halts), \<open>Assert_Halt\<close> a failed
  \<^verbatim>\<open>ASSERT\<close> in a build with \<^verbatim>\<open>DEBUG\<close> defined, \<open>Divide_Error\<close> the processor's trap on a
  zero divisor, \<open>Null_Deref\<close> a load or store through a null pointer, \<open>Out_Of_Bounds\<close> an
  access outside an array or past the terminator of a string (both are undefined in C, so the
  model stops there, whatever the machine happens to have mapped), \<open>Page_Fault\<close> an access to
  an address that the page tables do not map, \<open>Bad_Arg\<close> a variadic argument that is missing
  or has the wrong kind, \<open>No_Return\<close> a loop that has not ended within its fuel.
\<close>

datatype fault =
    Panic string
  | Assert_Halt
  | Divide_Error
  | Null_Deref
  | Out_Of_Bounds
  | Page_Fault u32
  | Bad_Arg
  | No_Return

type_synonym 'a outcome = "fault + 'a"

definition bindE :: "'a outcome \<Rightarrow> ('a \<Rightarrow> 'b outcome) \<Rightarrow> 'b outcome" where
  "bindE r f = (case r of Inl e \<Rightarrow> Inl e | Inr x \<Rightarrow> f x)"

lemma bindE_simps [simp, outcome_simps]:
  "bindE (Inl e) f = Inl e"
  "bindE (Inr x) f = f x"
  by (simp_all add: bindE_def)

lemma bindE_Inr_iff [outcome_simps]:
  "bindE r f = Inr y \<longleftrightarrow> (\<exists>x. r = Inr x \<and> f x = Inr y)"
  by (cases r) simp_all

lemma bindE_Inl_iff:
  "bindE r f = Inl e \<longleftrightarrow> r = Inl e \<or> (\<exists>x. r = Inr x \<and> f x = Inl e)"
  by (cases r) auto

lemma bindE_assoc: "bindE (bindE r f) g = bindE r (\<lambda>x. bindE (f x) g)"
  by (cases r) simp_all

text \<open>
  \<^verbatim>\<open>ASSERT\<close> and \<^verbatim>\<open>ASSERT_MSG\<close> of \<^verbatim>\<open>kern/assert.h\<close>: nothing at all unless the build
  defines \<^verbatim>\<open>DEBUG\<close>, a message and \<^verbatim>\<open>hlt\<close> on a false condition when it does. The first
  argument says which build is meant.
\<close>

definition ASSERT :: "bool \<Rightarrow> bool \<Rightarrow> unit outcome" where
  "ASSERT debug c = (if debug \<and> \<not> c then Inl Assert_Halt else Inr ())"

lemma ASSERT_simps [simp, outcome_simps]:
  "ASSERT False c = Inr ()"
  "c \<Longrightarrow> ASSERT debug c = Inr ()"
  "\<not> c \<Longrightarrow> ASSERT True c = Inl Assert_Halt"
  by (simp_all add: ASSERT_def)

lemma ASSERT_Inr_iff [outcome_simps]: "ASSERT debug c = Inr u \<longleftrightarrow> (debug \<longrightarrow> c)"
  by (simp add: ASSERT_def)

section \<open>Words\<close>

lemma unat_u32_lt: "unat (a :: u32) < 4294967296"
  using unsigned_less [of a] by simp

lemma unat_u64_lt: "unat (a :: u64) < 18446744073709551616"
  using unsigned_less [of a] by simp

lemma unat_add_no_wrap:
  "unat (a :: u32) + unat b < 4294967296 \<Longrightarrow> unat (a + b) = unat a + unat b"
  by (simp add: unat_word_ariths)

lemma unat_plus_of_nat:
  "unat (a :: u32) + n < 4294967296 \<Longrightarrow> unat (a + of_nat n) = unat a + n"
  by (simp add: unat_word_ariths unat_of_nat)

lemma unat_of_nat_u32: "n < 4294967296 \<Longrightarrow> unat (of_nat n :: u32) = n"
  by (simp add: unat_of_nat)

lemma unat_inc [simp]: "(p :: u32) < n \<Longrightarrow> unat (p + 1) = unat p + 1"
  using unat_u32_lt [of n] by (simp add: word_less_nat_alt unat_word_ariths)

lemma unat_dec [simp]: "0 < (n :: u32) \<Longrightarrow> unat (n - 1) = unat n - 1"
  by (simp add: unat_sub word_less_nat_alt word_le_nat_alt)

lemma u32_div_mod:
  "unat ((num :: u32) div k) = unat num div unat k"
  "unat (num mod k) = unat num mod unat k"
  "of_nat (unat num div unat k) = num div k"
proof -
  show d: "unat (num div k) = unat num div unat k" by (rule unat_div)
  show "unat (num mod k) = unat num mod unat k" by (rule unat_mod)
  show "of_nat (unat num div unat k) = num div k" unfolding d [symmetric] by simp
qed

text \<open>Stepping through a region: the distance from its start drops by one, except at the start.\<close>

lemma region_step:
  assumes "x \<noteq> (a :: u32)"
  shows "unat (x - (a + 1)) = unat (x - a) - 1" "0 < unat (x - a)"
  using assms unat_dec [of "x - a"] by (simp_all add: algebra_simps word_greater_zero_iff unat_gt_0)

lemma region_start: "unat ((a :: u32) - (a + 1)) = 4294967295"
  by (simp add: unsigned_minus_1_eq_mask mask_eq_exp_minus_1)

section \<open>Byte memory\<close>

text \<open>
  Memory is the flat address space the kernel's pointers name; a 16, 32 or 64-bit access
  reads or writes consecutive bytes, the least significant one first, and addresses wrap at
  the width of the machine.
\<close>

type_synonym mem = "u32 \<Rightarrow> u8"

definition load16 :: "mem \<Rightarrow> u32 \<Rightarrow> u16" where
  "load16 m a = ucast (m a) OR push_bit 8 (ucast (m (a + 1)))"

definition store16 :: "mem \<Rightarrow> u32 \<Rightarrow> u16 \<Rightarrow> mem" where
  "store16 m a v = m(a := ucast v, a + 1 := ucast (drop_bit 8 v))"

definition load32 :: "mem \<Rightarrow> u32 \<Rightarrow> u32" where
  "load32 m a = ucast (m a) OR push_bit 8 (ucast (m (a + 1)))
     OR push_bit 16 (ucast (m (a + 2))) OR push_bit 24 (ucast (m (a + 3)))"

definition store32 :: "mem \<Rightarrow> u32 \<Rightarrow> u32 \<Rightarrow> mem" where
  "store32 m a v = m(a := ucast v, a + 1 := ucast (drop_bit 8 v),
     a + 2 := ucast (drop_bit 16 v), a + 3 := ucast (drop_bit 24 v))"

definition load64 :: "mem \<Rightarrow> u32 \<Rightarrow> u64" where
  "load64 m a = ucast (load32 m a) OR push_bit 32 (ucast (load32 m (a + 4)))"

definition store64 :: "mem \<Rightarrow> u32 \<Rightarrow> u64 \<Rightarrow> mem" where
  "store64 m a v = store32 (store32 m a (ucast v)) (a + 4) (ucast (drop_bit 32 v))"

definition aligned4 :: "u32 \<Rightarrow> bool" where
  "aligned4 a \<longleftrightarrow> unat a mod 4 = 0"

lemma bytes_join32:
  "ucast (ucast v :: u8) OR push_bit 8 (ucast (ucast (drop_bit 8 v) :: u8))
     OR push_bit 16 (ucast (ucast (drop_bit 16 v) :: u8))
     OR push_bit 24 (ucast (ucast (drop_bit 24 v) :: u8)) = (v :: u32)"
proof (rule bit_word_eqI)
  fix n assume n: "n < LENGTH(32)"
  consider "n < 8" | "8 \<le> n \<and> n < 16" | "16 \<le> n \<and> n < 24" | "24 \<le> n"
    by linarith
  then show "bit (ucast (ucast v :: u8) OR push_bit 8 (ucast (ucast (drop_bit 8 v) :: u8))
     OR push_bit 16 (ucast (ucast (drop_bit 16 v) :: u8))
     OR push_bit 24 (ucast (ucast (drop_bit 24 v) :: u8)) :: u32) n \<longleftrightarrow> bit v n"
    using n by cases (auto simp: bit_simps)
qed

lemma load32_store32_same [simp, mem_simps]: "load32 (store32 m a v) a = v"
  by (simp add: load32_def store32_def bytes_join32)

lemma aligned4_plus:
  assumes "aligned4 a" "i < 4" shows "unat (a + of_nat i) = unat a + i"
proof -
  have "unat a + i < 4294967296"
    using assms unat_u32_lt [of a] unfolding aligned4_def by presburger
  then show ?thesis by (simp add: unat_word_ariths unat_of_nat)
qed

lemma aligned4_cells_distinct:
  assumes "aligned4 a" "aligned4 b" "i < 4" "j < 4"
  shows "a + of_nat i = b + of_nat j \<longleftrightarrow> a = b \<and> i = j"
proof
  assume "a + of_nat i = b + of_nat j"
  then have "unat a + i = unat b + j"
    using assms aligned4_plus by metis
  then have "unat a = unat b \<and> i = j"
    using assms unfolding aligned4_def by presburger
  then show "a = b \<and> i = j" by (simp add: word_unat_eq_iff)
qed simp

lemma load32_store32_other [mem_simps]:
  assumes "aligned4 a" "aligned4 b" "a \<noteq> b"
  shows "load32 (store32 m a v) b = load32 m b"
proof -
  have ne: "b + of_nat j \<noteq> a + of_nat i" if "i < 4" "j < 4" for i j
    using aligned4_cells_distinct [OF assms(2,1) that(2,1)] assms(3) by simp
  show ?thesis
    using ne [of 0 0] ne [of 1 0] ne [of 2 0] ne [of 3 0]
      ne [of 0 1] ne [of 1 1] ne [of 2 1] ne [of 3 1]
      ne [of 0 2] ne [of 1 2] ne [of 2 2] ne [of 3 2]
      ne [of 0 3] ne [of 1 3] ne [of 2 3] ne [of 3 3]
    by (simp add: load32_def store32_def)
qed
lemma store32_byte_other:
  assumes "4 \<le> unat (x - a)"
  shows "store32 m a v x = m x"
proof -
  have "x \<noteq> a + of_nat i" if "i < 4" for i
    using assms that by (auto simp: unat_of_nat)
  from this [of 0] this [of 1] this [of 2] this [of 3] show ?thesis
    by (simp add: store32_def)
qed

lemma load32_cong:
  "(\<And>i. i < 4 \<Longrightarrow> m (a + of_nat i) = m' (a + of_nat i)) \<Longrightarrow> load32 m a = load32 m' a"
proof -
  assume h: "\<And>i. i < 4 \<Longrightarrow> m (a + of_nat i) = m' (a + of_nat i)"
  from h [of 0] h [of 1] h [of 2] h [of 3] show ?thesis
    by (simp add: load32_def)
qed

section \<open>Cells and the chains threaded through them\<close>

text \<open>
  The free lists of the kernel thread a pointer through the free objects themselves. What
  the lists need of memory is the contract of \<open>cell_store\<close>: on valid addresses a read sees
  the last write. \<open>chain\<close> is the abstract reading of such a list: the addresses met from
  the head up to the sentinel.
\<close>

primrec chain :: "('a \<Rightarrow> 'a) \<Rightarrow> 'a \<Rightarrow> 'a \<Rightarrow> 'a list \<Rightarrow> bool" where
  "chain nxt nil p [] \<longleftrightarrow> p = nil"
| "chain nxt nil p (x # xs) \<longleftrightarrow> p = x \<and> x \<noteq> nil \<and> chain nxt nil (nxt x) xs"

lemma chain_cong:
  "(\<And>x. x \<in> set xs \<Longrightarrow> f x = g x) \<Longrightarrow> chain f nil p xs \<longleftrightarrow> chain g nil p xs"
  by (induction xs arbitrary: p) auto

lemma chain_unique: "chain nxt nil p xs \<Longrightarrow> chain nxt nil p ys \<Longrightarrow> xs = ys"
proof (induction xs arbitrary: p ys)
  case Nil
  then show ?case by (cases ys) auto
next
  case (Cons x xs)
  then show ?case by (cases ys) auto
qed

lemma chain_nil [simp]: "chain nxt nil nil xs \<longleftrightarrow> xs = []"
  by (cases xs) auto

locale cell_store =
  fixes ld :: "'m \<Rightarrow> 'a \<Rightarrow> 'v" and st :: "'m \<Rightarrow> 'a \<Rightarrow> 'v \<Rightarrow> 'm" and ok :: "'a \<Rightarrow> bool"
  assumes ld_st: "ok a \<Longrightarrow> ok b \<Longrightarrow> ld (st m a v) b = (if a = b then v else ld m b)"
begin

lemma ld_st_same: "ok a \<Longrightarrow> ld (st m a v) a = v"
  by (simp add: ld_st)

lemma ld_st_other: "ok a \<Longrightarrow> ok b \<Longrightarrow> a \<noteq> b \<Longrightarrow> ld (st m a v) b = ld m b"
  by (simp add: ld_st)

lemma ld_st_twice: "ok a \<Longrightarrow> ok b \<Longrightarrow> ld (st (st m a v) a w) b = ld (st m a w) b"
  by (simp add: ld_st)

end

locale chain_store = cell_store ld st ok
  for ld :: "'m \<Rightarrow> 'a \<Rightarrow> 'a" and st :: "'m \<Rightarrow> 'a \<Rightarrow> 'a \<Rightarrow> 'm" and ok :: "'a \<Rightarrow> bool"
begin

lemma chain_frame:
  assumes "ok a" "\<forall>x \<in> set xs. ok x" "a \<notin> set xs"
  shows "chain (ld (st m a v)) nil p xs \<longleftrightarrow> chain (ld m) nil p xs"
  using assms by (intro chain_cong) (auto simp: ld_st)

lemma chain_push:
  assumes "ok a" "\<forall>x \<in> set xs. ok x" "a \<notin> set xs" "a \<noteq> nil" "chain (ld m) nil p xs"
  shows "chain (ld (st m a p)) nil a (a # xs)"
  using assms by (simp add: ld_st_same chain_frame)

end

interpretation word_cells: chain_store load32 store32 aligned4
  by unfold_locales (simp add: load32_store32_other)

section \<open>Pages\<close>

definition PAGE_SIZE :: u32 where "PAGE_SIZE = 4096"
definition PAGE_MASK :: u32 where "PAGE_MASK = 0xFFFFF000"

lemma page_mask_unat: "unat ((x :: u32) AND PAGE_MASK) = unat x div 4096 * 4096"
proof -
  have "PAGE_MASK = NOT (mask 12)" by (simp add: PAGE_MASK_def mask_eq_exp_minus_1 not_eq_complement)
  moreover have "x AND NOT (mask 12) = push_bit 12 (drop_bit 12 x)"
    by (auto intro!: bit_word_eqI simp: bit_simps)
  moreover have "unat x div 4096 * 4096 < 4294967296"
    using unat_u32_lt [of x] div_times_less_eq_dividend [of "unat x" 4096] by linarith
  ultimately show ?thesis
    by (simp add: push_bit_eq_mult drop_bit_eq_div unat_word_ariths unat_div)
qed

lemma page_aligned_mask:
  assumes "unat (x :: u32) mod 4096 = 0"
  shows "x AND NOT PAGE_MASK = 0"
proof -
  have "unat (x AND PAGE_MASK) = unat x" using assms by (auto simp: page_mask_unat)
  then have "x AND PAGE_MASK = x" by (simp add: word_unat_eq_iff)
  then have "x AND NOT PAGE_MASK = (x AND PAGE_MASK) AND NOT PAGE_MASK" by simp
  then show ?thesis by (simp add: and.assoc)
qed

end
