(* ===== verification/Pages.thy ===== *)
theory Pages
  imports Mugo_Prelude
begin

text \<open>
  Pages of memory seen as arrays of aligned words: the vocabulary shared by the heap, whose pages
  carry a header and a free list, and by the paging code, whose pages are tables of entries. A
  word store inside one page is invisible in every other page and in the other words of the same
  page.
\<close>

section \<open>Pages and their cells\<close>

definition pg_ok :: "u32 \<Rightarrow> bool" where
  "pg_ok p \<longleftrightarrow> p \<noteq> 0 \<and> unat p mod 4096 = 0 \<and> unat p + 4096 < 2 ^ 32"

text \<open>The word at byte offset \<open>d\<close> of a page.\<close>

definition cell :: "u32 \<Rightarrow> nat \<Rightarrow> u32" where
  "cell p d = p + of_nat d"

abbreviation offset_ok :: "nat \<Rightarrow> bool" where
  "offset_ok d \<equiv> d mod 4 = 0 \<and> d < 4096"

lemma unat_cell: "pg_ok p \<Longrightarrow> d \<le> 4096 \<Longrightarrow> unat (cell p d) = unat p + d"
  by (simp add: cell_def pg_ok_def unat_plus_of_nat)

lemma cell_aligned:
  assumes "pg_ok p" "offset_ok d"
  shows "aligned4 (cell p d)"
proof -
  obtain a where a: "unat p = 4096 * a" using assms(1) by (auto simp: pg_ok_def elim!: dvdE [OF mod_0_imp_dvd])
  have "unat (cell p d) = 4096 * a + d" using assms unat_cell [of p d] a by simp
  moreover have "(4 :: nat) dvd 4096 * a + d" using assms(2) by (intro dvd_add) (auto intro: dvd_mult2)
  ultimately show ?thesis by (simp add: aligned4_def)
qed

lemma cell_eq_iff:
  assumes "pg_ok p" "pg_ok q" "d < 4096" "e < 4096"
  shows "cell p d = cell q e \<longleftrightarrow> p = q \<and> d = e"
proof
  assume eq: "cell p d = cell q e"
  obtain a b where ab: "unat p = 4096 * a" "unat q = 4096 * b"
    using assms(1,2) by (auto simp: pg_ok_def elim!: dvdE [OF mod_0_imp_dvd])
  have "4096 * a + d = 4096 * b + e"
    using eq unat_cell [OF assms(1), of d] unat_cell [OF assms(2), of e] assms(3,4) ab by simp
  moreover from this have "a = b"
    using assms(3,4) by linarith
  ultimately show "p = q \<and> d = e" using ab by (simp add: word_unat_eq_iff)
qed simp

lemma load_store_cell:
  assumes "pg_ok p" "pg_ok q" "offset_ok d" "offset_ok e"
  shows "load32 (store32 m (cell p d) v) (cell q e) = (if p = q \<and> d = e then v else load32 m (cell q e))"
  using assms cell_eq_iff [of p q d e] cell_aligned
  by (simp add: word_cells.ld_st)

lemma cell_0: "cell p 0 = p" by (simp add: cell_def)
lemma cell_4: "cell p 4 = p + 4" by (simp add: cell_def)

lemma pg_ok_nonzero: "pg_ok p \<Longrightarrow> p \<noteq> 0"
  by (simp add: pg_ok_def)

text \<open>Two memories agree on a page.\<close>

definition same_page :: "mem \<Rightarrow> mem \<Rightarrow> u32 \<Rightarrow> bool" where
  "same_page m m' q \<longleftrightarrow> (\<forall>d. offset_ok d \<longrightarrow> load32 m' (cell q d) = load32 m (cell q d))"

lemma same_page_refl [simp]: "same_page m m q"
  by (simp add: same_page_def)

lemma same_page_trans: "same_page m m' q \<Longrightarrow> same_page m' m'' q \<Longrightarrow> same_page m m'' q"
  by (simp add: same_page_def)

lemma same_page_store:
  "pg_ok p \<Longrightarrow> pg_ok q \<Longrightarrow> p \<noteq> q \<Longrightarrow> offset_ok d \<Longrightarrow> same_page m (store32 m (cell p d) v) q"
  by (simp add: same_page_def load_store_cell)

lemma cell_page: "pg_ok p \<Longrightarrow> d < 4096 \<Longrightarrow> cell p d AND PAGE_MASK = p"
proof -
  assume p: "pg_ok p" "d < 4096"
  then obtain a where "unat p = 4096 * a" by (auto simp: pg_ok_def elim!: dvdE [OF mod_0_imp_dvd])
  then have "unat (cell p d AND PAGE_MASK) = unat p"
    using p unat_cell [of p d] by (simp add: page_mask_unat)
  then show ?thesis by (simp add: word_unat_eq_iff)
qed

section \<open>Bytes and pages\<close>

lemma load32_byte:
  assumes "i < 4" shows "m (a + of_nat i) = (ucast (drop_bit (8 * i) (load32 m a)) :: u8)"
proof -
  have "i \<in> {0, 1, 2, 3}" using assms by auto
  then show ?thesis
  proof (elim insertE emptyE)
    show ?thesis if "i = 0"
      unfolding that by (rule bit_word_eqI) (auto simp: load32_def bit_simps)
    show ?thesis if "i = 1"
      unfolding that by (rule bit_word_eqI) (auto simp: load32_def bit_simps dest: bit_imp_le_length)
    show ?thesis if "i = 2"
      unfolding that by (rule bit_word_eqI) (auto simp: load32_def bit_simps dest: bit_imp_le_length)
    show ?thesis if "i = 3"
      unfolding that by (rule bit_word_eqI) (auto simp: load32_def bit_simps dest: bit_imp_le_length)
  qed
qed

lemma same_page_bytes: "same_page m m' q \<longleftrightarrow> (\<forall>x < 4096. m' (cell q x) = m (cell q x))"
proof
  assume s: "same_page m m' q"
  show "\<forall>x < 4096. m' (cell q x) = m (cell q x)"
  proof (intro allI impI)
    fix x :: nat assume x: "x < 4096"
    let ?d = "4 * (x div 4)" and ?i = "x mod 4"
    have d: "offset_ok ?d" using x by auto
    have "x = ?d + ?i" by simp
    then have "(of_nat x :: u32) = of_nat ?d + of_nat ?i" by (metis of_nat_add)
    then have c: "cell q x = cell q ?d + of_nat ?i" by (simp add: cell_def add.assoc)
    have "load32 m' (cell q ?d) = load32 m (cell q ?d)" using s d by (simp add: same_page_def)
    then show "m' (cell q x) = m (cell q x)"
      unfolding c using load32_byte [of ?i m' "cell q ?d"] load32_byte [of ?i m "cell q ?d"] by simp
  qed
next
  assume b: "\<forall>x < 4096. m' (cell q x) = m (cell q x)"
  show "same_page m m' q"
    unfolding same_page_def
  proof (intro allI impI load32_cong)
    fix d i :: nat assume d: "offset_ok d" "i < 4"
    then have "d + i < 4096" by presburger
    then show "m' (cell q d + of_nat i) = m (cell q d + of_nat i)"
      using b by (simp add: cell_def add.assoc flip: of_nat_add)
  qed
qed

lemma addr_cell: "a = cell (a AND PAGE_MASK) (unat a mod 4096)"
proof -
  have "unat (a AND PAGE_MASK) + unat a mod 4096 = unat a" by (simp add: page_mask_unat)
  moreover have "unat (cell (a AND PAGE_MASK) (unat a mod 4096)) = unat (a AND PAGE_MASK) + unat a mod 4096"
    unfolding cell_def using calculation unat_u32_lt [of a] by (intro unat_plus_of_nat) simp
  ultimately show ?thesis by (simp add: word_unat_eq_iff)
qed

text \<open>A change confined to a set of pages.\<close>

definition only_in :: "u32 set \<Rightarrow> mem \<Rightarrow> mem \<Rightarrow> bool" where
  "only_in W m m' \<longleftrightarrow> (\<forall>q. pg_ok q \<longrightarrow> q \<notin> W \<longrightarrow> same_page m m' q)"

lemma only_in_upd:
  assumes "pg_ok w" "w \<in> W" "x < 4096"
  shows "only_in W m (m(cell w x := b))"
  unfolding only_in_def same_page_bytes
proof (intro allI impI)
  fix q y assume "pg_ok q" "q \<notin> W" "y < (4096 :: nat)"
  then have "cell q y \<noteq> cell w x" using cell_eq_iff [of q w y x] assms by auto
  then show "(m(cell w x := b)) (cell q y) = m (cell q y)" by simp
qed

lemma only_in_trans: "only_in W m m1 \<Longrightarrow> only_in W m1 m2 \<Longrightarrow> only_in W m m2"
  unfolding only_in_def using same_page_trans by blast

lemma only_in_refl [simp]: "only_in W m m"
  by (simp add: only_in_def)

lemma only_in_mono: "only_in W m m' \<Longrightarrow> W \<subseteq> W' \<Longrightarrow> only_in W' m m'"
  by (auto simp: only_in_def)

lemma only_in_store:
  assumes "pg_ok p" "p \<in> W" "d + 4 \<le> 4096"
  shows "only_in W m (store32 m (cell p d) v)"
proof -
  have c: "cell p d + 1 = cell p (d + 1)" "cell p d + 2 = cell p (d + 2)" "cell p d + 3 = cell p (d + 3)"
    by (simp_all add: cell_def)
  show ?thesis
    unfolding store32_def c
    by (rule only_in_trans [OF only_in_trans [OF only_in_trans [OF only_in_upd only_in_upd] only_in_upd] only_in_upd]) (use assms in auto)
qed

lemma only_in_byte:
  assumes "only_in W m m'" "pg_ok (x AND PAGE_MASK)" "x AND PAGE_MASK \<notin> W"
  shows "m' x = m x"
proof -
  have "m' (cell (x AND PAGE_MASK) (unat x mod 4096)) = m (cell (x AND PAGE_MASK) (unat x mod 4096))"
    using assms by (auto simp: only_in_def same_page_bytes)
  then show ?thesis by (simp flip: addr_cell)
qed

section \<open>The contract of a page source\<close>

text \<open>
  Several parts of the kernel hand out pages: the boot code cuts frames off the first memory map,
  the heap takes pages off its free list, a page of the heap hands out its objects. What they
  have in common: \<open>avail\<close> names the sequence of pages still to come, without repetition, and a
  request takes the first one. Hence any number of requests within the supply succeeds and
  returns different pages.
\<close>

locale frame_source =
  fixes fetch :: "'s \<Rightarrow> ('a \<times> 's) outcome" and avail :: "'s \<Rightarrow> 'a list \<Rightarrow> bool"
  assumes fetch_ok: "avail s (a # as) \<Longrightarrow> \<exists>s'. fetch s = Inr (a, s') \<and> avail s' as"
    and avail_distinct: "avail s as \<Longrightarrow> distinct as"
begin

primrec fetch_n :: "nat \<Rightarrow> 's \<Rightarrow> ('a list \<times> 's) outcome" where
  "fetch_n 0 s = Inr ([], s)"
| "fetch_n (Suc n) s = bindE (fetch s) (\<lambda>(a, s). bindE (fetch_n n s) (\<lambda>(as, s). Inr (a # as, s)))"

lemma fetch_n_ok:
  "avail s (as @ bs) \<Longrightarrow> \<exists>s'. fetch_n (length as) s = Inr (as, s') \<and> avail s' bs"
proof (induction as arbitrary: s)
  case (Cons a as)
  then obtain s1 where s1: "fetch s = Inr (a, s1)" "avail s1 (as @ bs)" using fetch_ok by fastforce
  then show ?case using Cons.IH [of s1] by auto
qed simp

lemma fetch_n_distinct:
  assumes "avail s as" "n \<le> length as"
  shows "\<exists>rs s'. fetch_n n s = Inr (rs, s') \<and> distinct rs \<and> length rs = n \<and> set rs \<subseteq> set as"
proof -
  have "\<exists>s'. fetch_n (length (take n as)) s = Inr (take n as, s') \<and> avail s' (drop n as)"
    by (rule fetch_n_ok) (simp add: assms(1))
  then show ?thesis
    using assms avail_distinct [OF assms(1)] by (auto simp: distinct_take dest: in_set_takeD)
qed

end

end
