(* ===== verification/Kmalloc.thy ===== *)
theory Kmalloc
  imports Pages "HOL-Library.Signed_Division"
begin

text \<open>
  The small-object allocator of \<^verbatim>\<open>kern/kmalloc.c\<close>: a pool of pages threaded on a free list, and
  nine bags, one per object size, each with a list of pages that have free objects and a list of
  full ones. A page starts with an eight-byte header; the free objects of a page are threaded by
  index through their first words.

  The code is modelled at the level of its loads and stores on the byte memory. The abstract
  allocator keeps, for each size class, the page in use and the sequence of its free indices; the
  refinement lemmas say what \<^verbatim>\<open>kmalloc\<close> and \<^verbatim>\<open>kfree\<close> do to it.
\<close>

section \<open>Definitions\<close>

definition NO_CLASSES :: nat where "NO_CLASSES = 9"
definition MIN_BLOCK_SIZE :: u32 where "MIN_BLOCK_SIZE = 4"
definition BAG_FREELIST_SENTINEL :: "16 word" where "BAG_FREELIST_SENTINEL = -1"
definition PAGE_FREELIST_SENTINEL :: u32 where "PAGE_FREELIST_SENTINEL = 0"

text \<open>\<^verbatim>\<open>__builtin_ffs\<close> and \<^verbatim>\<open>__builtin_clz\<close> on a 32-bit argument.\<close>

definition ffs :: "u32 \<Rightarrow> nat" where
  "ffs x = (if x = 0 then 0 else Suc (length (takeWhile (\<lambda>n. \<not> bit x n) [0..<32])))"

definition clz :: "u32 \<Rightarrow> nat" where
  "clz x = length (takeWhile (\<lambda>n. \<not> bit x n) (rev [0..<32]))"

text \<open>
  The page header: \<^verbatim>\<open>next\<close> in its first word; in its second word the two bit fields,
  \<^verbatim>\<open>object_size\<close> in the low half and the signed \<^verbatim>\<open>freelist_head_offset\<close> in the high half.
\<close>

definition hdr_next :: "mem \<Rightarrow> u32 \<Rightarrow> u32" where
  "hdr_next m h = load32 m h"

definition hdr_object_size :: "mem \<Rightarrow> u32 \<Rightarrow> u32" where
  "hdr_object_size m h = load32 m (h + 4) AND 0xFFFF"

definition hdr_freelist :: "mem \<Rightarrow> u32 \<Rightarrow> u16" where
  "hdr_freelist m h = ucast (drop_bit 16 (load32 m (h + 4)))"

definition set_hdr_next :: "mem \<Rightarrow> u32 \<Rightarrow> u32 \<Rightarrow> mem" where
  "set_hdr_next m h v = store32 m h v"

definition set_hdr_object_size :: "mem \<Rightarrow> u32 \<Rightarrow> u32 \<Rightarrow> mem" where
  "set_hdr_object_size m h v =
     store32 m (h + 4) ((load32 m (h + 4) AND 0xFFFF0000) OR (v AND 0xFFFF))"

definition set_hdr_freelist :: "mem \<Rightarrow> u32 \<Rightarrow> u16 \<Rightarrow> mem" where
  "set_hdr_freelist m h v =
     store32 m (h + 4) ((load32 m (h + 4) AND 0xFFFF) OR push_bit 16 (ucast v))"

record bag_t =
  bag_free :: u32
  bag_full :: u32

record kheap =
  km_mem :: mem
  pool_start :: vaddr_t
  pool_end :: vaddr_t
  page_freelist_head :: vaddr_t
  bags :: "bag_t list"

definition fetch_page :: "kheap \<Rightarrow> (vaddr_t \<times> kheap) outcome" where
  "fetch_page s =
     (if page_freelist_head s = PAGE_FREELIST_SENTINEL then Inl (Panic ''Kmalloc: No free pages left'')
      else Inr (page_freelist_head s,
                s\<lparr>page_freelist_head := load32 (km_mem s) (page_freelist_head s)\<rparr>))"

text \<open>
  The loop of \<^verbatim>\<open>init_page\<close>, with fuel for the turns it may take: it returns the memory and the
  address at which it stopped.
\<close>

fun init_page_loop :: "nat \<Rightarrow> vaddr_t \<Rightarrow> vaddr_t \<Rightarrow> size_t \<Rightarrow> u32 \<Rightarrow> mem \<Rightarrow> (vaddr_t \<times> mem) outcome" where
  "init_page_loop 0 addr lim obj_size i m = Inl No_Return"
| "init_page_loop (Suc n) addr lim obj_size i m =
     (if addr < lim then init_page_loop n (addr + obj_size) lim obj_size (i + 1) (store32 m addr (i + 1))
      else Inr (addr, m))"

definition init_page :: "vaddr_t \<Rightarrow> size_t \<Rightarrow> mem \<Rightarrow> mem outcome" where
  "init_page page obj_size m =
     bindE (init_page_loop 4096 (page + 8) (page + PAGE_SIZE) obj_size 0 m) (\<lambda>(addr, m).
       Inr (store32 m (addr - obj_size) (-1)))"

definition freelist_dequeue :: "u32 \<Rightarrow> size_t \<Rightarrow> mem \<Rightarrow> (u32 \<times> mem) outcome" where
  "freelist_dequeue hdr obj_size m =
     (if hdr = 0 then Inl Null_Deref
      else let ret = hdr + 8 + scast (hdr_freelist m hdr) * obj_size
           in Inr (ret, set_hdr_freelist m hdr (ucast (load32 m ret))))"

definition freelist_enqueue :: "u32 \<Rightarrow> u32 \<Rightarrow> mem \<Rightarrow> mem outcome" where
  "freelist_enqueue hdr ptr m =
     (let objs_start = hdr + 8
      in if hdr_object_size m hdr = 0 then Inl Divide_Error
         else let offset = word_of_int (sint (ptr - objs_start) sdiv sint (hdr_object_size m hdr)) :: u32;
                  m = store32 m ptr (scast (hdr_freelist m hdr))
              in Inr (set_hdr_freelist m hdr (ucast offset)))"

definition initialize_bag :: "nat \<Rightarrow> kheap \<Rightarrow> kheap outcome" where
  "initialize_bag idx s =
     bindE (fetch_page s) (\<lambda>(bag_page, s).
       let bag_obj_size = push_bit idx 1;
           m = set_hdr_next (km_mem s) bag_page 0;
           m = set_hdr_freelist m bag_page 0;
           m = set_hdr_object_size m bag_page bag_obj_size
       in bindE (init_page bag_page bag_obj_size m) (\<lambda>m.
            Inr (s\<lparr>km_mem := m, bags := (bags s)[idx := \<lparr>bag_free = bag_page, bag_full = 0\<rparr>]\<rparr>)))"

text \<open>The two parts of \<^verbatim>\<open>fetch_object\<close> after the first dequeue: the page has become full.\<close>

definition retire_page :: "nat \<Rightarrow> size_t \<Rightarrow> kheap \<Rightarrow> kheap outcome" where
  "retire_page idx object_size s =
     (let tmp_hdr = bag_free (bags s ! idx);
          free' = hdr_next (km_mem s) tmp_hdr;
          m = set_hdr_next (km_mem s) tmp_hdr (bag_full (bags s ! idx));
          s = s\<lparr>km_mem := m, bags := (bags s)[idx := \<lparr>bag_free = free', bag_full = tmp_hdr\<rparr>]\<rparr>
      in if free' = 0
         then bindE (fetch_page s) (\<lambda>(new_page, s).
                let m = set_hdr_next (km_mem s) new_page 0;
                    m = set_hdr_object_size m new_page object_size;
                    m = set_hdr_freelist m new_page 0
                in bindE (init_page new_page object_size m) (\<lambda>m. Inr (s\<lparr>km_mem := m\<rparr>)))
         else Inr s)"

definition fetch_object :: "nat \<Rightarrow> kheap \<Rightarrow> (u32 \<times> kheap) outcome" where
  "fetch_object idx s =
     (if length (bags s) \<le> idx then Inl Out_Of_Bounds
      else let object_size = push_bit idx 1
           in if bag_free (bags s ! idx) = 0 \<and> bag_full (bags s ! idx) = 0
              then bindE (initialize_bag idx s) (\<lambda>s.
                   bindE (freelist_dequeue (bag_free (bags s ! idx)) object_size (km_mem s)) (\<lambda>(ret, m).
                     Inr (ret, s\<lparr>km_mem := m\<rparr>)))
              else bindE (freelist_dequeue (bag_free (bags s ! idx)) object_size (km_mem s)) (\<lambda>(ret, m).
                   if hdr_freelist m (bag_free (bags s ! idx)) = BAG_FREELIST_SENTINEL
                   then bindE (retire_page idx object_size (s\<lparr>km_mem := m\<rparr>)) (\<lambda>s. Inr (ret, s))
                   else Inr (ret, s\<lparr>km_mem := m\<rparr>)))"

text \<open>The loop of \<^verbatim>\<open>kmalloc_init\<close>; an address space has at most \<open>2 ^ 20\<close> pages.\<close>

fun pool_loop :: "nat \<Rightarrow> vaddr_t \<Rightarrow> vaddr_t \<Rightarrow> mem \<Rightarrow> mem outcome" where
  "pool_loop 0 addr lim m = Inl No_Return"
| "pool_loop (Suc n) addr lim m =
     (if addr < lim then pool_loop n (addr + PAGE_SIZE) lim (store32 m addr (addr + PAGE_SIZE)) else Inr m)"

definition kmalloc_init :: "bool \<Rightarrow> u32 \<Rightarrow> size_t \<Rightarrow> kheap \<Rightarrow> kheap outcome" where
  "kmalloc_init debug pool_vaddr sz s =
     bindE (ASSERT debug (pool_vaddr AND NOT PAGE_MASK = 0)) (\<lambda>_.
       bindE (pool_loop (2 ^ 20) pool_vaddr (pool_vaddr + sz) (km_mem s)) (\<lambda>m.
         Inr (s\<lparr>pool_start := pool_vaddr, pool_end := pool_vaddr + sz,
                km_mem := store32 m (pool_vaddr + sz - PAGE_SIZE) PAGE_FREELIST_SENTINEL,
                page_freelist_head := pool_vaddr\<rparr>)))"

definition bag_index :: "size_t \<Rightarrow> nat" where
  "bag_index sz = (if sz AND (sz - 1) \<noteq> 0 then clz sz + 1 else ffs sz - 1)"

definition kmalloc :: "size_t \<Rightarrow> kheap \<Rightarrow> (u32 \<times> kheap) outcome" where
  "kmalloc sz s =
     (if sz < MIN_BLOCK_SIZE \<or> sz > push_bit NO_CLASSES 1 then Inr (0, s)
      else fetch_object (bag_index sz) s)"

text \<open>The search of \<^verbatim>\<open>kfree\<close> for the page before the given one in the list of full pages.\<close>

fun find_page_before :: "nat \<Rightarrow> u32 \<Rightarrow> u32 \<Rightarrow> mem \<Rightarrow> u32 outcome" where
  "find_page_before 0 current target m = Inl No_Return"
| "find_page_before (Suc n) current target m =
     (if current = 0 then Inl Null_Deref
      else if hdr_next m current \<noteq> 0 \<and> hdr_next m current \<noteq> target
      then find_page_before n (hdr_next m current) target m
      else Inr current)"

definition kfree :: "bool \<Rightarrow> u32 \<Rightarrow> kheap \<Rightarrow> kheap outcome" where
  "kfree debug ptr s =
     bindE (ASSERT debug (ptr > pool_start s \<and> ptr \<le> pool_end s)) (\<lambda>_.
       let hdr = ptr AND PAGE_MASK; m = km_mem s
       in if hdr = 0 then Inl Null_Deref
          else bindE
            (if hdr_freelist m hdr = BAG_FREELIST_SENTINEL
             then if hdr_object_size m hdr = 0 then Inl Out_Of_Bounds
               else let bag_idx = ffs (hdr_object_size m hdr) - 1
               in if length (bags s) \<le> bag_idx then Inl Out_Of_Bounds
                  else let bag = bags s ! bag_idx
                  in if bag_full bag \<noteq> hdr
                     then bindE (find_page_before (2 ^ 20) (bag_full bag) hdr m) (\<lambda>current.
                          bindE (ASSERT debug (hdr_next m current \<noteq> 0)) (\<lambda>_.
                            if hdr_next m current = 0 then Inl Null_Deref
                            else let m = set_hdr_next m current (hdr_next m (hdr_next m current));
                                     m = set_hdr_next m hdr (bag_free bag)
                                 in Inr (s\<lparr>km_mem := m, bags := (bags s)[bag_idx := bag\<lparr>bag_free := hdr\<rparr>]\<rparr>)))
                     else let full' = hdr_next m hdr;
                              m = set_hdr_next m hdr (bag_free bag)
                          in Inr (s\<lparr>km_mem := m,
                                  bags := (bags s)[bag_idx := \<lparr>bag_free = hdr, bag_full = full'\<rparr>]\<rparr>)
             else Inr s)
            (\<lambda>s. bindE (freelist_enqueue hdr ptr (km_mem s)) (\<lambda>m. Inr (s\<lparr>km_mem := m\<rparr>))))"

section \<open>Page headers\<close>

lemma hdr_cells:
  "hdr_next m p = load32 m (cell p 0)"
  "hdr_object_size m p = load32 m (cell p 4) AND 0xFFFF"
  "hdr_freelist m p = ucast (drop_bit 16 (load32 m (cell p 4)))"
  "set_hdr_next m p v = store32 m (cell p 0) v"
  "set_hdr_object_size m p v = store32 m (cell p 4) ((load32 m (cell p 4) AND 0xFFFF0000) OR (v AND 0xFFFF))"
  "set_hdr_freelist m p h = store32 m (cell p 4) ((load32 m (cell p 4) AND 0xFFFF) OR push_bit 16 (ucast h))"
  by (simp_all add: hdr_next_def hdr_object_size_def hdr_freelist_def set_hdr_next_def
      set_hdr_object_size_def set_hdr_freelist_def cell_4 cell_0)

lemma halves:
  fixes w :: u32 and h :: u16
  shows "((w AND 0xFFFF) OR push_bit 16 (ucast h)) AND 0xFFFF = w AND 0xFFFF"
    and "(ucast (drop_bit 16 ((w AND 0xFFFF) OR push_bit 16 (ucast h))) :: u16) = h"
    and "((w AND 0xFFFF0000) OR (v AND 0xFFFF)) AND 0xFFFF = v AND 0xFFFF"
    and "(ucast (drop_bit 16 ((w AND 0xFFFF0000) OR (v AND 0xFFFF))) :: u16) = ucast (drop_bit 16 w)"
proof -
  have m: "(0xFFFF :: u32) = mask 16" "(0xFFFF0000 :: u32) = push_bit 16 (mask 16)"
    by (simp_all add: mask_eq_exp_minus_1 push_bit_eq_mult)
  show "((w AND 0xFFFF) OR push_bit 16 (ucast h)) AND 0xFFFF = w AND 0xFFFF"
    "(ucast (drop_bit 16 ((w AND 0xFFFF) OR push_bit 16 (ucast h))) :: u16) = h"
    "((w AND 0xFFFF0000) OR (v AND 0xFFFF)) AND 0xFFFF = v AND 0xFFFF"
    "(ucast (drop_bit 16 ((w AND 0xFFFF0000) OR (v AND 0xFFFF))) :: u16) = ucast (drop_bit 16 w)"
    unfolding m by (rule bit_word_eqI; auto simp: bit_simps)+
qed

lemma set_hdr_fields:
  assumes "pg_ok p"
  shows "hdr_next (set_hdr_next m p v) p = v"
    "hdr_object_size (set_hdr_next m p v) p = hdr_object_size m p"
    "hdr_freelist (set_hdr_next m p v) p = hdr_freelist m p"
    "hdr_next (set_hdr_object_size m p v) p = hdr_next m p"
    "hdr_object_size (set_hdr_object_size m p v) p = v AND 0xFFFF"
    "hdr_freelist (set_hdr_object_size m p v) p = hdr_freelist m p"
    "hdr_next (set_hdr_freelist m p h) p = hdr_next m p"
    "hdr_object_size (set_hdr_freelist m p h) p = hdr_object_size m p"
    "hdr_freelist (set_hdr_freelist m p h) p = h"
proof -
  have c: "load32 (store32 m (cell p 0) v) (cell p 0) = v" "load32 (store32 m (cell p 4) v) (cell p 4) = v"
    "load32 (store32 m (cell p 0) v) (cell p 4) = load32 m (cell p 4)"
    "load32 (store32 m (cell p 4) v) (cell p 0) = load32 m (cell p 0)" for m v
    using assms by (simp_all add: load_store_cell)
  show "hdr_next (set_hdr_next m p v) p = v"
    "hdr_object_size (set_hdr_next m p v) p = hdr_object_size m p"
    "hdr_freelist (set_hdr_next m p v) p = hdr_freelist m p"
    "hdr_next (set_hdr_object_size m p v) p = hdr_next m p"
    "hdr_object_size (set_hdr_object_size m p v) p = v AND 0xFFFF"
    "hdr_freelist (set_hdr_object_size m p v) p = hdr_freelist m p"
    "hdr_next (set_hdr_freelist m p h) p = hdr_next m p"
    "hdr_object_size (set_hdr_freelist m p h) p = hdr_object_size m p"
    "hdr_freelist (set_hdr_freelist m p h) p = h"
    by (simp_all only: hdr_cells c halves)
qed

lemma same_page_set_hdr:
  assumes "pg_ok p" "pg_ok q" "p \<noteq> q"
  shows "same_page m (set_hdr_next m p v) q" "same_page m (set_hdr_object_size m p v) q"
    "same_page m (set_hdr_freelist m p h) q"
  unfolding hdr_cells using assms by (auto intro!: same_page_store)

section \<open>The free objects of a page\<close>

text \<open>How many objects \<^verbatim>\<open>init_page\<close> makes in a page for class \<open>i\<close>, and the \<open>k\<close>-th of them.\<close>

definition nobj :: "nat \<Rightarrow> nat" where
  "nobj i = (4087 + 2 ^ i) div 2 ^ i"

definition obj_off :: "nat \<Rightarrow> nat \<Rightarrow> nat" where
  "obj_off i k = 8 + k * 2 ^ i"

definition obj_at :: "u32 \<Rightarrow> nat \<Rightarrow> nat \<Rightarrow> u32" where
  "obj_at p i k = cell p (obj_off i k)"

abbreviation class_ok :: "nat \<Rightarrow> bool" where
  "class_ok i \<equiv> 2 \<le> i \<and> i \<le> 8"

lemma class_cases: "class_ok i \<Longrightarrow> i \<in> {2, 3, 4, 5, 6, 7, 8}"
  by auto

lemma obj_off_ok:
  assumes "class_ok i" "k < nobj i"
  shows "offset_ok (obj_off i k)" "8 \<le> obj_off i k"
proof -
  have c: "(4 :: nat) dvd 2 ^ i" using assms(1) le_imp_power_dvd [of 2 i "2 :: nat"] by simp
  then have "(4 :: nat) dvd obj_off i k" unfolding obj_off_def by (intro dvd_add) auto
  moreover have "(k + 1) * 2 ^ i \<le> 4087 + 2 ^ i"
    using assms(2) by (simp add: nobj_def less_eq_div_iff_mult_less_eq Suc_le_eq [symmetric])
  then have "obj_off i k < 4096" by (simp add: obj_off_def)
  ultimately show "offset_ok (obj_off i k)" by simp
  show "8 \<le> obj_off i k" by (simp add: obj_off_def)
qed

lemma obj_off_end:
  assumes "class_ok i" shows "4096 \<le> obj_off i (nobj i)" "obj_off i (nobj i) < 4096 + 2 ^ i"
  using class_cases [OF assms] by (auto simp: obj_off_def nobj_def)

lemma nobj_bounds: "class_ok i \<Longrightarrow> 2 \<le> nobj i \<and> nobj i \<le> 1022"
  using class_cases [of i] by (auto simp: nobj_def)

lemma obj_off_inj: "obj_off i k = obj_off i l \<longleftrightarrow> k = l"
  by (simp add: obj_off_def)

fun free_objs :: "mem \<Rightarrow> u32 \<Rightarrow> nat \<Rightarrow> u16 \<Rightarrow> nat list \<Rightarrow> bool" where
  "free_objs m p i h [] \<longleftrightarrow> h = BAG_FREELIST_SENTINEL"
| "free_objs m p i h (k # ks) \<longleftrightarrow> h = of_nat k \<and> free_objs m p i (ucast (load32 m (obj_at p i k))) ks"

definition page_rep :: "u32 \<Rightarrow> nat \<Rightarrow> mem \<Rightarrow> nat list \<Rightarrow> bool" where
  "page_rep p i m ks \<longleftrightarrow> hdr_next m p = 0 \<and> hdr_object_size m p = 2 ^ i
     \<and> free_objs m p i (hdr_freelist m p) ks \<and> distinct ks \<and> (\<forall>k \<in> set ks. k < nobj i)"

lemma free_objs_cong:
  assumes "\<And>k. k \<in> set ks \<Longrightarrow> load32 m' (obj_at p i k) = load32 m (obj_at p i k)"
  shows "free_objs m' p i h ks \<longleftrightarrow> free_objs m p i h ks"
  using assms by (induction ks arbitrary: h) auto

lemma page_rep_cong:
  assumes "class_ok i" "same_page m m' p"
  shows "page_rep p i m ks \<Longrightarrow> page_rep p i m' ks"
proof -
  have "load32 m' (cell p d) = load32 m (cell p d)" if "offset_ok d" for d
    using assms(2) that by (simp add: same_page_def)
  then have h: "hdr_next m' p = hdr_next m p" "hdr_object_size m' p = hdr_object_size m p"
    "hdr_freelist m' p = hdr_freelist m p" and
    o: "k < nobj i \<Longrightarrow> load32 m' (obj_at p i k) = load32 m (obj_at p i k)" for k
    using obj_off_ok [OF assms(1)] by (simp_all add: hdr_cells obj_at_def)
  show "page_rep p i m ks \<Longrightarrow> page_rep p i m' ks"
    using free_objs_cong [of ks m' p i m "hdr_freelist m p"] o by (simp add: page_rep_def h)
qed

text \<open>An index and a link word survive the sixteen-bit field.\<close>

lemma index_roundtrip:
  assumes "k < 1024"
  shows "scast (of_nat k :: u16) = (of_nat k :: u32)" "ucast (of_nat k :: u32) = (of_nat k :: u16)"
    "(of_nat k :: u16) \<noteq> BAG_FREELIST_SENTINEL"
proof -
  have s: "sint (of_nat k :: u16) = int k"
    using assms by (simp add: sint_uint unsigned_of_nat take_bit_nat_eq_self signed_take_bit_int_eq_self)
  then show "scast (of_nat k :: u16) = (of_nat k :: u32)" by (simp add: signed_scast_eq scast_eq)
  show "ucast (of_nat k :: u32) = (of_nat k :: u16)" using assms by (simp add: unsigned_of_nat take_bit_nat_eq_self)
  show "(of_nat k :: u16) \<noteq> BAG_FREELIST_SENTINEL"
    using s by (auto simp: BAG_FREELIST_SENTINEL_def)
qed

section \<open>The contract of an object pool\<close>

text \<open>
  A pool of interchangeable objects: \<open>rep\<close> says which of the valid keys are free, in the order in
  which they will be handed out; the address of a key does not change. What a client gets from
  the contract is that the objects it is given come in that order, all different, and that an
  object given back is the next one handed out.
\<close>

locale object_pool =
  fixes rep :: "'s \<Rightarrow> 'k list \<Rightarrow> bool" and addr :: "'k \<Rightarrow> 'a" and valid :: "'k \<Rightarrow> bool"
    and take_obj :: "'s \<Rightarrow> ('a \<times> 's) outcome" and give_obj :: "'a \<Rightarrow> 's \<Rightarrow> 's outcome"
  assumes take_ok: "rep s (k # ks) \<Longrightarrow> \<exists>s'. take_obj s = Inr (addr k, s') \<and> rep s' ks"
    and give_ok: "rep s ks \<Longrightarrow> valid k \<Longrightarrow> k \<notin> set ks \<Longrightarrow> \<exists>s'. give_obj (addr k) s = Inr s' \<and> rep s' (k # ks)"
    and rep_valid: "rep s ks \<Longrightarrow> distinct ks \<and> (\<forall>k \<in> set ks. valid k)"
    and addr_inj: "rep s ks \<Longrightarrow> inj_on addr (set ks)"
begin

lemma take_after_give:
  assumes "rep s ks" "valid k" "k \<notin> set ks"
  shows "\<exists>s' s''. give_obj (addr k) s = Inr s' \<and> take_obj s' = Inr (addr k, s'') \<and> rep s'' ks"
  using give_ok [OF assms] take_ok by meson

end

text \<open>A pool is a source of its free objects.\<close>

sublocale object_pool \<subseteq> frame_source take_obj "\<lambda>s as. \<exists>ks. as = map addr ks \<and> rep s ks"
proof
  fix s a as
  show "\<exists>ks. a # as = map addr ks \<and> rep s ks \<Longrightarrow> \<exists>s'. take_obj s = Inr (a, s') \<and> (\<exists>ks. as = map addr ks \<and> rep s' ks)"
    using take_ok by (fastforce simp: Cons_eq_map_conv)
  show "\<exists>ks. as = map addr ks \<and> rep s ks \<Longrightarrow> distinct as"
    using rep_valid addr_inj by (auto simp: distinct_map)
qed

lemma obj_store_other_hdr:
  assumes "pg_ok p" "class_ok i" "k < nobj i"
  shows "hdr_next (store32 m (obj_at p i k) v) p = hdr_next m p"
    "hdr_object_size (store32 m (obj_at p i k) v) p = hdr_object_size m p"
    "hdr_freelist (store32 m (obj_at p i k) v) p = hdr_freelist m p"
  using assms obj_off_ok [OF assms(2,3)] by (simp_all add: hdr_cells obj_at_def load_store_cell)

lemma obj_load_store:
  assumes "pg_ok p" "class_ok i" "k < nobj i" "l < nobj i"
  shows "load32 (store32 m (obj_at p i k) v) (obj_at p i l) = (if k = l then v else load32 m (obj_at p i l))"
    "load32 (set_hdr_freelist m p h) (obj_at p i l) = load32 m (obj_at p i l)"
    "load32 (set_hdr_next m p w) (obj_at p i l) = load32 m (obj_at p i l)"
  using assms obj_off_ok [OF assms(2,3)] obj_off_ok [OF assms(2,4)]
  by (simp_all add: hdr_cells obj_at_def load_store_cell obj_off_inj)

lemma dequeue_eq:
  assumes p: "pg_ok p" "class_ok i" and r: "page_rep p i m (k # ks)"
  defines "m' \<equiv> set_hdr_freelist m p (ucast (load32 m (obj_at p i k)))"
  shows "freelist_dequeue p (push_bit i 1) m = Inr (obj_at p i k, m')" "page_rep p i m' ks"
    "hdr_freelist m' p = BAG_FREELIST_SENTINEL \<longleftrightarrow> ks = []" "\<And>q. pg_ok q \<Longrightarrow> q \<noteq> p \<Longrightarrow> same_page m m' q"
proof -
  from r have k: "k < nobj i" "hdr_freelist m p = of_nat k" "k \<notin> set ks"
    and ks: "free_objs m p i (ucast (load32 m (obj_at p i k))) ks" "\<forall>l \<in> set ks. l < nobj i"
    by (auto simp: page_rep_def)
  have k1: "k < 1024" using k(1) nobj_bounds [OF p(2)] by simp
  have "p + 8 + scast (hdr_freelist m p) * push_bit i 1 = obj_at p i k"
    using k(2) index_roundtrip(1) [OF k1]
    by (simp add: obj_at_def cell_def obj_off_def push_bit_eq_mult)
  then show "freelist_dequeue p (push_bit i 1) m = Inr (obj_at p i k, m')"
    using pg_ok_nonzero [OF p(1)] by (simp add: freelist_dequeue_def m'_def Let_def)
  have "free_objs m' p i (ucast (load32 m (obj_at p i k))) ks"
    using ks obj_load_store(2) [OF p k(1)] free_objs_cong [of ks m' p i m] by (simp add: m'_def)
  then show rep: "page_rep p i m' ks"
    using r by (simp add: page_rep_def m'_def set_hdr_fields [OF p(1)])
  show "hdr_freelist m' p = BAG_FREELIST_SENTINEL \<longleftrightarrow> ks = []"
  proof (cases ks)
    case (Cons l ls)
    then have "l < 1024" using ks(2) nobj_bounds [OF p(2)] by fastforce
    then show ?thesis using rep Cons index_roundtrip(3) [of l] by (simp add: page_rep_def)
  qed (use rep in \<open>simp add: page_rep_def\<close>)
  show "same_page m m' q" if "pg_ok q" "q \<noteq> p" for q
    unfolding m'_def using that p by (intro same_page_set_hdr) auto
qed

lemma ucast_minus_1: "ucast (- 1 :: u32) = (- 1 :: u16)"
  by (rule bit_word_eqI) (simp add: bit_simps)

lemma free_head_roundtrip:
  assumes "class_ok i" "page_rep p i m ks"
  shows "ucast (scast (hdr_freelist m p) :: u32) = hdr_freelist m p"
proof (cases ks)
  case Nil
  then show ?thesis using assms by (simp add: page_rep_def BAG_FREELIST_SENTINEL_def ucast_minus_1)
next
  case (Cons k ls)
  then have "k < 1024" using assms nobj_bounds [of i] by (fastforce simp: page_rep_def)
  then show ?thesis using assms Cons index_roundtrip by (simp add: page_rep_def)
qed

lemma obj_index:
  assumes "class_ok i" "k < nobj i"
  shows "word_of_int (sint (obj_at p i k - (p + 8)) sdiv sint (2 ^ i :: u32)) = (of_nat k :: u32)"
proof -
  have off: "obj_off i k < 4096" using obj_off_ok [OF assms] by simp
  then have b: "k * 2 ^ i < 4096" by (simp add: obj_off_def)
  have "obj_at p i k - (p + 8) = of_nat (k * 2 ^ i)" by (simp add: obj_at_def cell_def obj_off_def)
  moreover have "sint (of_nat n :: u32) = int n" if "n < 4096" for n
    using that by (simp add: sint_uint unsigned_of_nat take_bit_nat_eq_self signed_take_bit_int_eq_self)
  moreover have "2 ^ i < (4096 :: nat)" "(2 ^ i :: u32) = of_nat (2 ^ i)"
    using class_cases [OF assms(1)] by auto
  ultimately have "sint (obj_at p i k - (p + 8)) sdiv sint (2 ^ i :: u32) = int (k * 2 ^ i) sdiv int (2 ^ i)"
    using b by metis
  also have "\<dots> = int k" by (cases "k = 0") (simp_all add: signed_divide_int_def sgn_mult)
  finally show ?thesis by simp
qed

lemma enqueue_eq:
  assumes p: "pg_ok p" "class_ok i" and r: "page_rep p i m ks" and k: "k < nobj i" "k \<notin> set ks"
  shows "\<exists>m'. freelist_enqueue p (obj_at p i k) m = Inr m' \<and> page_rep p i m' (k # ks)
    \<and> (\<forall>q. pg_ok q \<longrightarrow> q \<noteq> p \<longrightarrow> same_page m m' q)"
proof -
  let ?m1 = "store32 m (obj_at p i k) (scast (hdr_freelist m p))"
  let ?m' = "set_hdr_freelist ?m1 p (of_nat k)"
  have osz: "hdr_object_size m p = 2 ^ i" using r by (simp add: page_rep_def)
  have k1: "k < 1024" using k(1) nobj_bounds [OF p(2)] by simp
  have "(2 ^ i :: u32) \<noteq> 0" using class_cases [OF p(2)] by auto
  then have run: "freelist_enqueue p (obj_at p i k) m = Inr ?m'"
    using osz obj_index [OF p(2) k(1)] index_roundtrip(2) [OF k1]
    by (simp add: freelist_enqueue_def Let_def)
  have fields: "hdr_next ?m' p = hdr_next m p" "hdr_object_size ?m' p = hdr_object_size m p"
    "hdr_freelist ?m' p = of_nat k"
    using set_hdr_fields [OF p(1)] obj_store_other_hdr [OF p k(1)] by simp_all
  have l: "load32 ?m' (obj_at p i l) = (if k = l then scast (hdr_freelist m p) else load32 m (obj_at p i l))"
    if "l < nobj i" for l
    using obj_load_store [OF p k(1) that] by simp
  have "free_objs ?m' p i (hdr_freelist m p) ks"
    using r k l by (subst free_objs_cong [of _ _ _ _ m]) (auto simp: page_rep_def)
  then have "page_rep p i ?m' (k # ks)"
    using r k l [OF k(1)] free_head_roundtrip [OF p(2) r] fields by (simp add: page_rep_def)
  moreover have "same_page m ?m' q" if "pg_ok q" "q \<noteq> p" for q
  proof (rule same_page_trans)
    show "same_page m ?m1 q"
      unfolding obj_at_def using that p obj_off_ok [OF p(2) k(1)] by (intro same_page_store) auto
    show "same_page ?m1 ?m' q" using that p by (intro same_page_set_hdr) auto
  qed
  ultimately show ?thesis using run by blast
qed

text \<open>A page of the allocator meets the contract, for the page and class at hand.\<close>

interpretation page: object_pool "\<lambda>m ks. pg_ok p \<and> class_ok i \<and> page_rep p i m ks" "obj_at p i" "\<lambda>k. k < nobj i"
    "freelist_dequeue p (push_bit i 1)" "freelist_enqueue p" for p i
proof
  fix m k ks
  show "pg_ok p \<and> class_ok i \<and> page_rep p i m (k # ks) \<Longrightarrow>
    \<exists>m'. freelist_dequeue p (push_bit i 1) m = Inr (obj_at p i k, m') \<and> pg_ok p \<and> class_ok i \<and> page_rep p i m' ks"
    using dequeue_eq [of p i] by blast
  show "pg_ok p \<and> class_ok i \<and> page_rep p i m ks \<Longrightarrow> k < nobj i \<Longrightarrow> k \<notin> set ks \<Longrightarrow>
    \<exists>m'. freelist_enqueue p (obj_at p i k) m = Inr m' \<and> pg_ok p \<and> class_ok i \<and> page_rep p i m' (k # ks)"
    using enqueue_eq [of p i] by blast
  show "inj_on (obj_at p i) (set ks)" if r: "pg_ok p \<and> class_ok i \<and> page_rep p i m ks"
  proof (rule inj_onI)
    fix k l assume k: "k \<in> set ks" "l \<in> set ks" "obj_at p i k = obj_at p i l"
    then have o: "obj_off i k < 4096" "obj_off i l < 4096" using r obj_off_ok [of i] by (auto simp: page_rep_def)
    have p: "pg_ok p" using r by simp
    have "obj_off i k = obj_off i l"
      using k(3) cell_eq_iff [OF p p o] unfolding obj_at_def by simp
    then show "k = l" by (simp add: obj_off_inj)
  qed
qed (auto simp: page_rep_def)

section \<open>Initialising a page\<close>

lemma init_page_loop_ok:
  assumes "pg_ok p" "class_ok i" "k \<le> nobj i" "nobj i < k + n"
  shows "\<exists>m'. init_page_loop n (obj_at p i k) (p + PAGE_SIZE) (push_bit i 1) (of_nat k) m =
      Inr (obj_at p i (nobj i), m')
    \<and> (\<forall>d q. pg_ok q \<longrightarrow> offset_ok d \<longrightarrow>
        (q = p \<longrightarrow> (\<forall>l. k \<le> l \<longrightarrow> l < nobj i \<longrightarrow> d \<noteq> obj_off i l)) \<longrightarrow> load32 m' (cell q d) = load32 m (cell q d))
    \<and> (\<forall>l. k \<le> l \<longrightarrow> l < nobj i \<longrightarrow> load32 m' (obj_at p i l) = of_nat (l + 1))"
  using assms
proof (induction n arbitrary: k m)
  case 0
  then show ?case by simp
next
  case (Suc n)
  have lim: "unat (p + PAGE_SIZE) = unat p + 4096"
    using unat_cell [OF assms(1), of 4096] by (simp add: cell_def PAGE_SIZE_def)
  show ?case
  proof (cases "k < nobj i")
    case True
    note off = obj_off_ok [OF assms(2) True]
    have lt: "obj_at p i k < p + PAGE_SIZE"
      using unat_cell [OF assms(1), of "obj_off i k"] off lim by (simp add: obj_at_def word_less_nat_alt)
    have step: "obj_at p i k + push_bit i 1 = obj_at p i (Suc k)"
      by (simp add: obj_at_def cell_def obj_off_def push_bit_eq_mult)
    let ?m = "store32 m (obj_at p i k) (of_nat k + 1)"
    obtain m' where m': "init_page_loop n (obj_at p i (Suc k)) (p + PAGE_SIZE) (push_bit i 1) (of_nat (Suc k)) ?m =
        Inr (obj_at p i (nobj i), m')"
      and same: "\<And>d q. pg_ok q \<Longrightarrow> offset_ok d \<Longrightarrow>
        (q = p \<longrightarrow> (\<forall>l. Suc k \<le> l \<longrightarrow> l < nobj i \<longrightarrow> d \<noteq> obj_off i l)) \<Longrightarrow> load32 m' (cell q d) = load32 ?m (cell q d)"
      and vals: "\<And>l. Suc k \<le> l \<Longrightarrow> l < nobj i \<Longrightarrow> load32 m' (obj_at p i l) = of_nat (l + 1)"
      using Suc.IH [of "Suc k" ?m] Suc.prems True by auto
    have "load32 m' (cell q d) = load32 m (cell q d)"
      if "pg_ok q" "offset_ok d" "q = p \<longrightarrow> (\<forall>l. k \<le> l \<longrightarrow> l < nobj i \<longrightarrow> d \<noteq> obj_off i l)" for q d
      using same [of q d] that True off load_store_cell [OF assms(1) that(1) off(1) that(2)]
      by (auto simp: obj_at_def)
    moreover have "load32 m' (obj_at p i k) = of_nat (k + 1)"
      using same [OF assms(1) off(1)] by (auto simp: obj_at_def obj_off_inj)
    then have "load32 m' (obj_at p i l) = of_nat (l + 1)" if "k \<le> l" "l < nobj i" for l
      using vals [of l] that by (cases "l = k") auto
    ultimately show ?thesis
      using m' lt step by (auto simp: add.commute)
  next
    case False
    then have k: "k = nobj i" using Suc.prems by simp
    have "unat p + 4096 + 256 \<le> 2 ^ 32" using assms(1) by (auto simp: pg_ok_def elim!: dvdE [OF mod_0_imp_dvd])
    moreover have "(2::nat) ^ i \<le> 256" using class_cases [OF assms(2)] by auto
    ultimately have "unat (obj_at p i k) = unat p + obj_off i k"
      using obj_off_end [OF assms(2)] k by (simp add: obj_at_def cell_def unat_plus_of_nat)
    then have "\<not> obj_at p i k < p + PAGE_SIZE"
      using lim obj_off_end [OF assms(2)] k by (simp add: word_less_nat_alt)
    then show ?thesis using k by auto
  qed
qed

lemma free_objs_fresh:
  assumes "class_ok i" "k < nobj i"
    and "\<And>l. l < nobj i - 1 \<Longrightarrow> load32 m (obj_at p i l) = of_nat (l + 1)"
    and "load32 m (obj_at p i (nobj i - 1)) = - 1"
  shows "free_objs m p i (of_nat k) [k..<nobj i]"
  using assms(2)
proof (induction "nobj i - k" arbitrary: k)
  case (Suc n)
  show ?case
  proof (cases "Suc k = nobj i")
    case True
    then have "nobj i - 1 = k" by simp
    then show ?thesis
      using True assms(4) Suc.prems by (simp add: upt_conv_Cons ucast_minus_1 BAG_FREELIST_SENTINEL_def)
  next
    case False
    then have "Suc k < nobj i" using Suc.prems by simp
    moreover have "Suc k < 1024" using calculation nobj_bounds [OF assms(1)] by simp
    ultimately show ?thesis
      using Suc.hyps assms(3) [of k] index_roundtrip(2) [of "Suc k"] by (simp add: upt_conv_Cons)
  qed
qed simp

lemma init_page_ok:
  assumes p: "pg_ok p" "class_ok i"
    and h: "hdr_next m p = 0" "hdr_object_size m p = 2 ^ i" "hdr_freelist m p = 0"
  shows "\<exists>m'. init_page p (push_bit i 1) m = Inr m' \<and> page_rep p i m' [0..<nobj i]
    \<and> (\<forall>q. pg_ok q \<longrightarrow> q \<noteq> p \<longrightarrow> same_page m m' q)"
proof -
  let ?n = "nobj i - 1"
  have n: "nobj i < 4096" "?n < nobj i" "Suc ?n = nobj i" using nobj_bounds [OF p(2)] by auto
  note off = obj_off_ok [OF p(2) n(2)]
  obtain m1 where m1: "init_page_loop 4096 (obj_at p i 0) (p + PAGE_SIZE) (push_bit i 1) (of_nat 0) m =
      Inr (obj_at p i (nobj i), m1)"
    and same: "\<And>d q. pg_ok q \<Longrightarrow> offset_ok d \<Longrightarrow>
        (q = p \<longrightarrow> (\<forall>l < nobj i. d \<noteq> obj_off i l)) \<Longrightarrow> load32 m1 (cell q d) = load32 m (cell q d)"
    and vals: "\<And>l. l < nobj i \<Longrightarrow> load32 m1 (obj_at p i l) = of_nat (l + 1)"
    using init_page_loop_ok [OF p, of 0 4096 m] n(1) by auto
  let ?m = "store32 m1 (obj_at p i ?n) (- 1)"
  have prev_obj: "obj_at p i (nobj i) - push_bit i 1 = obj_at p i ?n"
    by (subst n(3) [symmetric]) (simp add: obj_at_def cell_def obj_off_def push_bit_eq_mult)
  have "obj_at p i 0 = p + 8" by (simp add: obj_at_def cell_def obj_off_def)
  then have run: "init_page p (push_bit i 1) m = Inr ?m"
    using m1 prev_obj by (simp add: init_page_def)
  have hdw: "load32 m1 (cell p d) = load32 m (cell p d)" if "d \<in> {0, 4}" for d
    using that by (intro same [OF p(1)]) (auto simp: obj_off_def)
  have "hdr_next m1 p = 0" "hdr_object_size m1 p = 2 ^ i" "hdr_freelist m1 p = 0"
    using h hdw [of 0] hdw [of 4] by (simp_all add: hdr_cells)
  then have h': "hdr_next ?m p = 0" "hdr_object_size ?m p = 2 ^ i" "hdr_freelist ?m p = 0"
    using obj_store_other_hdr [OF p n(2)] by simp_all
  have "free_objs ?m p i (of_nat 0) [0..<nobj i]"
    using vals obj_load_store(1) [OF p n(2)] n by (intro free_objs_fresh [OF p(2)]) auto
  then have "page_rep p i ?m [0..<nobj i]" using h' by (simp add: page_rep_def)
  moreover have "same_page m ?m q" if "pg_ok q" "q \<noteq> p" for q
  proof (rule same_page_trans [of _ m1])
    show "same_page m m1 q" using same [OF that(1)] that(2) by (simp add: same_page_def)
    show "same_page m1 ?m q" unfolding obj_at_def using that p off by (intro same_page_store) auto
  qed
  ultimately show ?thesis using run by blast
qed

text \<open>Preparing a fresh page: the header in either order of its stores, then the objects.\<close>

lemma fresh_page_ok:
  assumes p: "pg_ok p" "class_ok i"
  shows "\<exists>m'. init_page p (push_bit i 1) (set_hdr_object_size (set_hdr_freelist (set_hdr_next m p 0) p 0) p (push_bit i 1)) = Inr m'
      \<and> page_rep p i m' [0..<nobj i] \<and> (\<forall>q. pg_ok q \<longrightarrow> q \<noteq> p \<longrightarrow> same_page m m' q)"
    and "\<exists>m'. init_page p (push_bit i 1) (set_hdr_freelist (set_hdr_object_size (set_hdr_next m p 0) p (push_bit i 1)) p 0) = Inr m'
      \<and> page_rep p i m' [0..<nobj i] \<and> (\<forall>q. pg_ok q \<longrightarrow> q \<noteq> p \<longrightarrow> same_page m m' q)"
proof -
  let ?m1 = "set_hdr_object_size (set_hdr_freelist (set_hdr_next m p 0) p 0) p (push_bit i 1)"
  let ?m2 = "set_hdr_freelist (set_hdr_object_size (set_hdr_next m p 0) p (push_bit i 1)) p 0"
  have sz: "push_bit i 1 AND 0xFFFF = (2 ^ i :: u32)"
    using class_cases [OF p(2)] by (auto simp: push_bit_eq_mult)
  have "same_page m ?m1 q" "same_page m ?m2 q" if "pg_ok q" "q \<noteq> p" for q
    using that p by (auto intro!: same_page_set_hdr intro: same_page_trans)
  then show "\<exists>m'. init_page p (push_bit i 1) ?m1 = Inr m' \<and> page_rep p i m' [0..<nobj i]
      \<and> (\<forall>q. pg_ok q \<longrightarrow> q \<noteq> p \<longrightarrow> same_page m m' q)"
    and "\<exists>m'. init_page p (push_bit i 1) ?m2 = Inr m' \<and> page_rep p i m' [0..<nobj i]
      \<and> (\<forall>q. pg_ok q \<longrightarrow> q \<noteq> p \<longrightarrow> same_page m m' q)"
    using init_page_ok [OF p, of ?m1] init_page_ok [OF p, of ?m2] sz
    by (simp_all add: set_hdr_fields [OF p(1)]) (meson same_page_trans)+
qed

section \<open>The abstract allocator\<close>

text \<open>
  The abstract state: the free pages of the pool, and per size class the page in use with its
  free indices. There is at most one page per class, which is how the code behaves: a page
  that it fetches when the last object is handed out is prepared and then forgotten.
\<close>

type_synonym a_heap = "u32 list \<times> (nat \<Rightarrow> (u32 \<times> nat list) option)"

fun a_malloc :: "nat \<Rightarrow> a_heap \<Rightarrow> (u32 \<times> a_heap) outcome" where
  "a_malloc i (ps, C) =
     (case C i of
        None \<Rightarrow> (case ps of
            [] \<Rightarrow> Inl (Panic ''Kmalloc: No free pages left'')
          | p # ps' \<Rightarrow> Inr (obj_at p i 0, (ps', C(i \<mapsto> (p, [1..<nobj i])))))
      | Some (p, []) \<Rightarrow> Inl Null_Deref
      | Some (p, [k]) \<Rightarrow> (case ps of
            [] \<Rightarrow> Inl (Panic ''Kmalloc: No free pages left'')
          | q # ps' \<Rightarrow> Inr (obj_at p i k, (ps', C(i \<mapsto> (p, [])))))
      | Some (p, k # ks) \<Rightarrow> Inr (obj_at p i k, (ps, C(i \<mapsto> (p, ks)))))"

definition class_rel :: "mem \<Rightarrow> u32 list \<Rightarrow> nat \<Rightarrow> bag_t \<Rightarrow> (u32 \<times> nat list) option \<Rightarrow> bool" where
  "class_rel m ps i b c = (case c of
     None \<Rightarrow> bag_free b = 0 \<and> bag_full b = 0
   | Some (p, ks) \<Rightarrow> class_ok i \<and> pg_ok p \<and> p \<notin> set ps \<and> page_rep p i m ks
       \<and> bag_free b = (if ks = [] then 0 else p) \<and> bag_full b = (if ks = [] then p else 0))"

definition pages_apart :: "(nat \<Rightarrow> (u32 \<times> nat list) option) \<Rightarrow> bool" where
  "pages_apart C \<longleftrightarrow> (\<forall>i j p ks q ls. C i = Some (p, ks) \<longrightarrow> C j = Some (q, ls) \<longrightarrow> i \<noteq> j \<longrightarrow> p \<noteq> q)"

definition pool_rel :: "mem \<Rightarrow> u32 \<Rightarrow> u32 list \<Rightarrow> bool" where
  "pool_rel m h ps \<longleftrightarrow> chain (load32 m) PAGE_FREELIST_SENTINEL h ps \<and> (\<forall>p \<in> set ps. pg_ok p) \<and> distinct ps"

definition heap_rel :: "kheap \<Rightarrow> a_heap \<Rightarrow> bool" where
  "heap_rel s a \<longleftrightarrow> (case a of (ps, C) \<Rightarrow>
     length (bags s) = NO_CLASSES \<and> pool_rel (km_mem s) (page_freelist_head s) ps \<and> pages_apart C
     \<and> (\<forall>i < NO_CLASSES. class_rel (km_mem s) ps i (bags s ! i) (C i))
     \<and> (\<forall>i \<ge> NO_CLASSES. C i = None))"

lemma pool_rel_cong:
  assumes "\<And>q. q \<in> set ps \<Longrightarrow> same_page m m' q"
  shows "pool_rel m h ps \<Longrightarrow> pool_rel m' h ps"
proof -
  have "load32 m' q = load32 m q" if "q \<in> set ps" for q
    using assms [OF that] by (simp add: same_page_def) (metis cell_0 less_zeroE mod_0 zero_less_numeral)
  then show "pool_rel m h ps \<Longrightarrow> pool_rel m' h ps"
    using chain_cong [of ps "load32 m'" "load32 m"] by (simp add: pool_rel_def)
qed

text \<open>
  A change confined to one page \<open>p\<close>, to one class \<open>i\<close> and to the pool keeps the relation, if the
  new pool is part of the old one and the class is again well represented.
\<close>

lemma heap_rel_update:
  assumes rel: "heap_rel s (ps, C)" and i: "i < NO_CLASSES"
    and same: "\<And>q. pg_ok q \<Longrightarrow> q \<notin> P \<Longrightarrow> same_page (km_mem s) m' q"
    and P: "\<And>j q ks. C j = Some (q, ks) \<Longrightarrow> j \<noteq> i \<Longrightarrow> q \<notin> P"
    and pool: "pool_rel m' h' ps'" "set ps' \<subseteq> set ps"
    and cls: "class_rel m' ps' i b c" "\<And>p ks. c = Some (p, ks) \<Longrightarrow> p \<in> set ps \<or> (\<exists>ls. C i = Some (p, ls))"
    and s': "km_mem s' = m'" "page_freelist_head s' = h'" "bags s' = (bags s)[i := b]"
  shows "heap_rel s' (ps', C(i := c))"
proof -
  from rel have len: "length (bags s) = NO_CLASSES" and ap: "pages_apart C"
    and cl: "\<And>j. j < NO_CLASSES \<Longrightarrow> class_rel (km_mem s) ps j (bags s ! j) (C j)"
    and big: "\<forall>j \<ge> NO_CLASSES. C j = None"
    by (auto simp: heap_rel_def)
  have other: "class_rel m' ps' j (bags s ! j) (C j)" if j: "j < NO_CLASSES" "j \<noteq> i" for j
  proof (cases "C j")
    case None
    then show ?thesis using cl [OF j(1)] by (simp add: class_rel_def)
  next
    case (Some a)
    obtain q ks where a: "a = (q, ks)" by (cases a)
    then show ?thesis
      using cl [OF j(1)] Some P [OF Some [unfolded a] j(2)] same [of q] page_rep_cong [of j "km_mem s" m' q ks] pool(2)
      by (auto simp: class_rel_def)
  qed
  have notin: "p \<notin> set ps" if "C j = Some (p, ks)" for j p ks
    using cl [of j] big that by (cases "j < NO_CLASSES") (auto simp: class_rel_def)
  have "pages_apart (C(i := c))"
    unfolding pages_apart_def
  proof (intro allI impI)
    fix j k p ks q ls
    assume a: "(C(i := c)) j = Some (p, ks)" "(C(i := c)) k = Some (q, ls)" "j \<noteq> k"
    show "p \<noteq> q"
      using a cls(2) notin ap unfolding pages_apart_def by (auto split: if_splits) metis+
  qed
  moreover have "class_rel m' ps' j (bags s' ! j) ((C(i := c)) j)" if "j < NO_CLASSES" for j
    using other [OF that] cls(1) s'(3) that len by (cases "j = i") auto
  ultimately show ?thesis
    using pool(1) s' len big i by (simp add: heap_rel_def)
qed

lemma fetch_page_eq:
  assumes "pool_rel (km_mem s) (page_freelist_head s) ps"
  shows "fetch_page s = (case ps of [] \<Rightarrow> Inl (Panic ''Kmalloc: No free pages left'')
    | p # ps' \<Rightarrow> Inr (p, s\<lparr>page_freelist_head := load32 (km_mem s) p\<rparr>))"
    "ps = p # ps' \<Longrightarrow> pool_rel (km_mem s) (load32 (km_mem s) p) ps' \<and> pg_ok p \<and> p \<notin> set ps'"
  using assms by (auto simp: fetch_page_def pool_rel_def split: list.splits)

interpretation heap_pages: frame_source fetch_page "\<lambda>s ps. pool_rel (km_mem s) (page_freelist_head s) ps"
proof
  fix s p ps
  show "pool_rel (km_mem s) (page_freelist_head s) (p # ps) \<Longrightarrow>
    \<exists>s'. fetch_page s = Inr (p, s') \<and> pool_rel (km_mem s') (page_freelist_head s') ps"
    using fetch_page_eq(1) [of s "p # ps"] fetch_page_eq(2) [of s "p # ps" p ps] by auto
qed (simp add: pool_rel_def)

section \<open>Allocation\<close>

lemma ffs_power:
  assumes i: "class_ok i"
  shows "ffs (2 ^ i) = Suc i" "(2 ^ i :: u32) \<noteq> 0"
proof -
  have "[0..<32] = [0..<i] @ [i..<32]" using i upt_add_eq_append [of 0 i "32 - i"] by simp
  then have up: "[0..<32] = [0..<i] @ i # [Suc i..<32]" using i by (simp add: upt_conv_Cons)
  have b: "bit (2 ^ i :: u32) n \<longleftrightarrow> n = i" for n using i by (auto simp: bit_exp_iff)
  have "takeWhile (\<lambda>n. \<not> bit (2 ^ i :: u32) n) [0..<32] = [0..<i]"
    unfolding up b by (subst takeWhile_append2) auto
  moreover show "(2 ^ i :: u32) \<noteq> 0" using class_cases [OF i] by auto
  ultimately show "ffs (2 ^ i) = Suc i" by (simp add: ffs_def)
qed

lemma bag_index_power:
  assumes "class_ok i" shows "bag_index (2 ^ i) = i"
proof -
  have "(2 ^ i :: u32) AND (2 ^ i - 1) = 0" using class_cases [OF assms] by auto
  then show ?thesis using ffs_power [OF assms] by (simp add: bag_index_def)
qed

lemma kmalloc_class:
  assumes "class_ok i"
  shows "kmalloc (2 ^ i) s = fetch_object i s"
proof -
  have "\<not> (2 ^ i :: u32) < MIN_BLOCK_SIZE" "\<not> (2 ^ i :: u32) > push_bit NO_CLASSES 1"
    using class_cases [OF assms] by (auto simp: MIN_BLOCK_SIZE_def NO_CLASSES_def)
  then show ?thesis using bag_index_power [OF assms] by (simp add: kmalloc_def)
qed

lemma class_lt: "class_ok i \<Longrightarrow> i < NO_CLASSES"
  by (simp add: NO_CLASSES_def)

lemma heap_relD:
  assumes "heap_rel s (ps, C)" "i < NO_CLASSES"
  shows "length (bags s) = NO_CLASSES" "pool_rel (km_mem s) (page_freelist_head s) ps"
    "class_rel (km_mem s) ps i (bags s ! i) (C i)" "\<And>j q ks p ls. C j = Some (q, ks) \<Longrightarrow> C i = Some (p, ls) \<Longrightarrow> j \<noteq> i \<Longrightarrow> q \<noteq> p"
    "\<And>j q ks. C j = Some (q, ks) \<Longrightarrow> q \<notin> set ps"
proof -
  show "length (bags s) = NO_CLASSES" "pool_rel (km_mem s) (page_freelist_head s) ps"
    "class_rel (km_mem s) ps i (bags s ! i) (C i)"
    using assms by (auto simp: heap_rel_def)
  show "q \<noteq> p" if "C j = Some (q, ks)" "C i = Some (p, ls)" "j \<noteq> i" for j q ks p ls
    using assms(1) that unfolding heap_rel_def pages_apart_def prod.case by metis
  show "q \<notin> set ps" if "C j = Some (q, ks)" for j q ks
    using assms that by (cases "j < NO_CLASSES") (auto simp: heap_rel_def class_rel_def)
qed

lemma fetch_object_first:
  assumes rel: "heap_rel s (ps, C)" and i: "class_ok i" and c: "C i = None"
  shows "ps = [] \<Longrightarrow> fetch_object i s = Inl (Panic ''Kmalloc: No free pages left'')"
    and "ps = p # ps' \<Longrightarrow> \<exists>s'. fetch_object i s = Inr (obj_at p i 0, s')
      \<and> heap_rel s' (ps', C(i \<mapsto> (p, [1..<nobj i])))"
proof -
  note il = class_lt [OF i]
  note D = heap_relD [OF rel il]
  have b: "bag_free (bags s ! i) = 0" "bag_full (bags s ! i) = 0" using D(3) c by (auto simp: class_rel_def)
  note fp = fetch_page_eq [OF D(2)]
  show "fetch_object i s = Inl (Panic ''Kmalloc: No free pages left'')" if "ps = []"
    using b D(1) il fp(1) that by (simp add: fetch_object_def initialize_bag_def)
  show "\<exists>s'. fetch_object i s = Inr (obj_at p i 0, s') \<and> heap_rel s' (ps', C(i \<mapsto> (p, [1..<nobj i])))"
    if ps: "ps = p # ps'"
  proof -
    let ?m = "km_mem s"
    have p: "pool_rel ?m (load32 ?m p) ps'" "pg_ok p" "p \<notin> set ps'" using fp(2) [OF ps] by auto
    obtain m1 where m1: "init_page p (push_bit i 1)
        (set_hdr_object_size (set_hdr_freelist (set_hdr_next ?m p 0) p 0) p (push_bit i 1)) = Inr m1"
      "page_rep p i m1 [0..<nobj i]" "\<And>q. pg_ok q \<Longrightarrow> q \<noteq> p \<Longrightarrow> same_page ?m m1 q"
      using fresh_page_ok(1) [OF p(2) i, of ?m] by blast
    have up: "[0..<nobj i] = 0 # [1..<nobj i]" using nobj_bounds [OF i] by (simp add: upt_conv_Cons)
    define m2 where "m2 = set_hdr_freelist m1 p (ucast (load32 m1 (obj_at p i 0)))"
    note dq = dequeue_eq [OF p(2) i m1(2) [unfolded up], folded m2_def]
    define s' where "s' = s\<lparr>page_freelist_head := load32 ?m p, km_mem := m2,
      bags := (bags s)[i := \<lparr>bag_free = p, bag_full = 0\<rparr>]\<rparr>"
    have run: "fetch_object i s = Inr (obj_at p i 0, s')"
      using b D(1) il fp(1) ps m1(1) dq(1) by (simp add: fetch_object_def initialize_bag_def s'_def Let_def)
    have same: "same_page ?m m2 q" if "pg_ok q" "q \<notin> {p}" for q
      using that m1(3) [of q] dq(4) [of q] by (auto intro: same_page_trans)
    have pool: "pool_rel m2 (load32 ?m p) ps'"
      using p same by (intro pool_rel_cong [OF _ p(1)]) (auto simp: pool_rel_def)
    have cls: "class_rel m2 ps' i \<lparr>bag_free = p, bag_full = 0\<rparr> (Some (p, [1..<nobj i]))"
      using i p dq(2) nobj_bounds [OF i] by (simp add: class_rel_def)
    have "heap_rel s' (ps', C(i := Some (p, [1..<nobj i])))"
      by (rule heap_rel_update [OF rel il same _ pool _ cls]) (use ps D(5) in \<open>auto simp: s'_def\<close>)
    then show ?thesis using run by simp
  qed
qed

lemma fetch_object_next:
  assumes rel: "heap_rel s (ps, C)" and i: "class_ok i" and c: "C i = Some (p, k # ks)" and ks: "ks \<noteq> []"
  shows "\<exists>s'. fetch_object i s = Inr (obj_at p i k, s') \<and> heap_rel s' (ps, C(i \<mapsto> (p, ks)))"
proof -
  note il = class_lt [OF i]
  note D = heap_relD [OF rel il]
  let ?m = "km_mem s"
  have cl: "pg_ok p" "p \<notin> set ps" "page_rep p i ?m (k # ks)" "bag_free (bags s ! i) = p" "bag_full (bags s ! i) = 0"
    using D(3) c by (auto simp: class_rel_def)
  define m' where "m' = set_hdr_freelist ?m p (ucast (load32 ?m (obj_at p i k)))"
  note dq = dequeue_eq [OF cl(1) i cl(3), folded m'_def]
  define s' where "s' = s\<lparr>km_mem := m'\<rparr>"
  have run: "fetch_object i s = Inr (obj_at p i k, s')"
    using D(1) il cl dq(1,3) ks pg_ok_nonzero [OF cl(1)] by (simp add: fetch_object_def s'_def Let_def)
  have same: "same_page ?m m' q" if "pg_ok q" "q \<notin> {p}" for q using dq(4) that by simp
  have pool: "pool_rel m' (page_freelist_head s) ps"
    using cl(2) D(2) same by (intro pool_rel_cong [OF _ D(2)]) (auto simp: pool_rel_def)
  have cls: "class_rel m' ps i (bags s ! i) (Some (p, ks))"
    using i cl dq(2) ks by (simp add: class_rel_def)
  have "heap_rel s' (ps, C(i := Some (p, ks)))"
    by (rule heap_rel_update [OF rel il same _ pool _ cls]) (use c D(4) in \<open>auto simp: s'_def\<close>)
  then show ?thesis using run by simp
qed

lemma fetch_object_last:
  assumes rel: "heap_rel s (ps, C)" and i: "class_ok i" and c: "C i = Some (p, [k])"
  shows "ps = [] \<Longrightarrow> fetch_object i s = Inl (Panic ''Kmalloc: No free pages left'')"
    and "ps = q # ps' \<Longrightarrow> \<exists>s'. fetch_object i s = Inr (obj_at p i k, s') \<and> heap_rel s' (ps', C(i \<mapsto> (p, [])))"
proof -
  note il = class_lt [OF i]
  note D = heap_relD [OF rel il]
  let ?m = "km_mem s"
  have cl: "pg_ok p" "p \<notin> set ps" "page_rep p i ?m [k]" "bag_free (bags s ! i) = p" "bag_full (bags s ! i) = 0"
    using D(3) c by (auto simp: class_rel_def)
  define m1 where "m1 = set_hdr_freelist ?m p (ucast (load32 ?m (obj_at p i k)))"
  note dq = dequeue_eq [OF cl(1) i cl(3), folded m1_def]
  define m2 where "m2 = set_hdr_next m1 p 0"
  let ?b = "\<lparr>bag_free = 0, bag_full = p\<rparr>"
  have nx: "hdr_next m1 p = 0" using dq(2) by (simp add: page_rep_def)
  have rep2: "page_rep p i m2 []"
    using dq(2) by (simp add: page_rep_def m2_def set_hdr_fields [OF cl(1)])
  have same2: "same_page ?m m2 r" if "pg_ok r" "r \<noteq> p" for r
    using that dq(4) [of r] same_page_set_hdr(1) [OF cl(1) that(1)] same_page_trans by (auto simp: m2_def)
  have pool2: "pool_rel m2 (page_freelist_head s) ps"
    using cl(2) D(2) same2 by (intro pool_rel_cong [OF _ D(2)]) (auto simp: pool_rel_def)
  let ?s2 = "s\<lparr>km_mem := m2, bags := (bags s)[i := ?b]\<rparr>"
  have pool2': "pool_rel (km_mem ?s2) (page_freelist_head ?s2) ps" using pool2 by simp
  note fp = fetch_page_eq [OF pool2']
  have run: "fetch_object i s = bindE (retire_page i (push_bit i 1) (s\<lparr>km_mem := m1\<rparr>)) (\<lambda>s. Inr (obj_at p i k, s))"
    using D(1) il cl dq(1,3) pg_ok_nonzero [OF cl(1)] by (simp add: fetch_object_def Let_def)
  have retire: "retire_page i (push_bit i 1) (s\<lparr>km_mem := m1\<rparr>) = bindE (fetch_page ?s2) (\<lambda>(q, s).
      bindE (init_page q (push_bit i 1) (set_hdr_freelist (set_hdr_object_size (set_hdr_next (km_mem s) q 0) q (push_bit i 1)) q 0))
        (\<lambda>m. Inr (s\<lparr>km_mem := m\<rparr>)))"
    using cl nx by (simp add: retire_page_def Let_def m2_def)
  show "fetch_object i s = Inl (Panic ''Kmalloc: No free pages left'')" if "ps = []"
    unfolding run retire using fp(1) that by simp
  show "\<exists>s'. fetch_object i s = Inr (obj_at p i k, s') \<and> heap_rel s' (ps', C(i \<mapsto> (p, [])))" if ps: "ps = q # ps'"
  proof -
    have q: "pool_rel m2 (load32 m2 q) ps'" "pg_ok q" "q \<notin> set ps'" "q \<noteq> p" using fp(2) [OF ps] ps cl by auto
    obtain m3 where m3: "init_page q (push_bit i 1)
        (set_hdr_freelist (set_hdr_object_size (set_hdr_next m2 q 0) q (push_bit i 1)) q 0) = Inr m3"
      "\<And>r. pg_ok r \<Longrightarrow> r \<noteq> q \<Longrightarrow> same_page m2 m3 r"
      using fresh_page_ok(2) [OF q(2) i, of m2] by blast
    define s' where "s' = ?s2\<lparr>page_freelist_head := load32 m2 q, km_mem := m3\<rparr>"
    have run': "fetch_object i s = Inr (obj_at p i k, s')"
      unfolding run retire using fp(1) ps m3(1) by (simp add: s'_def)
    have same: "same_page ?m m3 r" if "pg_ok r" "r \<notin> {p, q}" for r
      using same2 [of r] m3(2) [of r] that same_page_trans by auto
    have pool: "pool_rel m3 (load32 m2 q) ps'"
      using q m3(2) by (intro pool_rel_cong [OF _ q(1)]) (auto simp: pool_rel_def)
    have "page_rep p i m3 []" using rep2 m3(2) [of p] cl(1) q(4) i page_rep_cong by blast
    then have cls: "class_rel m3 ps' i ?b (Some (p, []))" using i cl ps by (simp add: class_rel_def)
    have "heap_rel s' (ps', C(i := Some (p, [])))"
      by (rule heap_rel_update [where P = "{p, q}", OF rel il same _ pool _ cls]) (use c ps D(4,5) in \<open>auto simp: s'_def\<close>)
    then show ?thesis using run' by simp
  qed
qed

lemma fetch_object_none:
  assumes rel: "heap_rel s (ps, C)" and i: "class_ok i" and c: "C i = Some (p, [])"
  shows "fetch_object i s = Inl Null_Deref"
proof -
  note D = heap_relD [OF rel class_lt [OF i]]
  have "bag_free (bags s ! i) = 0" "bag_full (bags s ! i) \<noteq> 0"
    using D(3) c by (auto simp: class_rel_def pg_ok_def)
  then show ?thesis using D(1) class_lt [OF i] by (simp add: fetch_object_def freelist_dequeue_def)
qed

lemma kmalloc_refines_aux:
  assumes "heap_rel s a" "class_ok i"
  shows "case a_malloc i a of Inl e \<Rightarrow> kmalloc (2 ^ i) s = Inl e
    | Inr (r, a') \<Rightarrow> \<exists>s'. kmalloc (2 ^ i) s = Inr (r, s') \<and> heap_rel s' a'"
proof -
  obtain ps C where a: "a = (ps, C)" by (cases a)
  note rel = assms(1) [unfolded a]
  consider "C i = None" | p where "C i = Some (p, [])" | p k where "C i = Some (p, [k])"
    | p k l ls where "C i = Some (p, k # l # ls)"
    by (metis list.exhaust option.exhaust surj_pair)
  then show ?thesis
  proof cases
    case 1
    then show ?thesis
      using fetch_object_first [OF rel assms(2) 1] kmalloc_class [OF assms(2)] a by (auto split: list.splits)
  next
    case 2
    then show ?thesis
      using fetch_object_none [OF rel assms(2) 2] kmalloc_class [OF assms(2)] a by simp
  next
    case 3
    then show ?thesis
      using fetch_object_last [OF rel assms(2) 3] kmalloc_class [OF assms(2)] a by (auto split: list.splits)
  next
    case 4
    then show ?thesis
      using fetch_object_next [OF rel assms(2) 4] kmalloc_class [OF assms(2)] a by simp
  qed
qed

section \<open>Release\<close>

lemma kfree_eq:
  assumes rel: "heap_rel s (ps, C)" and c: "C i = Some (p, ks)" and k: "k < nobj i" "k \<notin> set ks"
    and pool: "pool_start s \<le> p" "p + PAGE_SIZE \<le> pool_end s"
  shows "\<exists>s'. kfree debug (obj_at p i k) s = Inr s' \<and> heap_rel s' (ps, C(i \<mapsto> (p, k # ks)))"
proof -
  have il: "i < NO_CLASSES" using rel c by (auto simp: heap_rel_def) (metis not_le option.distinct(1))
  note D = heap_relD [OF rel il]
  let ?m = "km_mem s"
  have cl: "class_ok i" "pg_ok p" "p \<notin> set ps" "page_rep p i ?m ks" "bag_free (bags s ! i) = (if ks = [] then 0 else p)"
    "bag_full (bags s ! i) = (if ks = [] then p else 0)"
    using D(3) c by (auto simp: class_rel_def)
  note off = obj_off_ok [OF cl(1) k(1)]
  have pg: "obj_at p i k AND PAGE_MASK = p" using cell_page [OF cl(2)] off by (simp add: obj_at_def)
  have u: "unat (obj_at p i k) = unat p + obj_off i k" "unat (p + PAGE_SIZE) = unat p + 4096"
    using unat_cell [OF cl(2), of "obj_off i k"] unat_cell [OF cl(2), of 4096] off
    by (simp_all add: obj_at_def cell_def PAGE_SIZE_def)
  then have as: "ASSERT debug (obj_at p i k > pool_start s \<and> obj_at p i k \<le> pool_end s) = Inr ()"
    using pool off by (simp add: word_le_nat_alt word_less_nat_alt)
  let ?m1 = "if ks = [] then set_hdr_next ?m p 0 else ?m"
  let ?b = "\<lparr>bag_free = p, bag_full = 0\<rparr>"
  have sen: "hdr_freelist ?m p = BAG_FREELIST_SENTINEL \<longleftrightarrow> ks = []"
  proof (cases ks)
    case (Cons l ls)
    then have "l < 1024" using cl(4) nobj_bounds [OF cl(1)] by (fastforce simp: page_rep_def)
    then show ?thesis using cl(4) Cons index_roundtrip(3) [of l] by (simp add: page_rep_def)
  qed (use cl(4) in \<open>simp add: page_rep_def\<close>)
  have osz: "hdr_object_size ?m p = 2 ^ i" "hdr_next ?m p = 0" using cl(4) by (auto simp: page_rep_def)
  have same1: "same_page ?m ?m1 q" if "pg_ok q" "q \<noteq> p" for q
    using that cl(2) by (simp add: same_page_set_hdr)
  have rep1: "page_rep p i ?m1 ks"
    using cl(4) by (auto simp: page_rep_def set_hdr_fields [OF cl(2)])
  obtain m2 where m2: "freelist_enqueue p (obj_at p i k) ?m1 = Inr m2" "page_rep p i m2 (k # ks)"
    "\<And>q. pg_ok q \<Longrightarrow> q \<noteq> p \<Longrightarrow> same_page ?m1 m2 q"
    using enqueue_eq [OF cl(2,1) rep1 k] by blast
  define s' where "s' = s\<lparr>km_mem := m2, bags := (bags s)[i := ?b]\<rparr>"
  have bag: "\<not> ks = [] \<Longrightarrow> (bags s)[i := ?b] = bags s"
    using cl(5,6) by (metis (full_types) bag_t.surjective list_update_id old.unit.exhaust)
  have run: "kfree debug (obj_at p i k) s = Inr s'"
  proof (cases "ks = []")
    case True
    then show ?thesis
      using as sen osz ffs_power [OF cl(1)] D(1) il cl(5,6) m2(1) pg_ok_nonzero [OF cl(2)]
      unfolding kfree_def Let_def s'_def pg by simp
  next
    case False
    then show ?thesis
      using as pg sen m2(1) bag pg_ok_nonzero [OF cl(2)] by (simp add: kfree_def Let_def s'_def)
  qed
  have same: "same_page ?m m2 q" if "pg_ok q" "q \<notin> {p}" for q
    using that by (intro same_page_trans [OF same1 m2(3)]) auto
  have pool': "pool_rel m2 (page_freelist_head s) ps"
    using cl(3) D(2) same by (intro pool_rel_cong [OF _ D(2)]) (auto simp: pool_rel_def)
  have cls: "class_rel m2 ps i ?b (Some (p, k # ks))"
    using cl m2(2) by (simp add: class_rel_def)
  have "heap_rel s' (ps, C(i := Some (p, k # ks)))"
    by (rule heap_rel_update [where P = "{p}", OF rel il same _ pool' _ cls]) (use c D(4) in \<open>auto simp: s'_def\<close>)
  then show ?thesis using run by simp
qed

section \<open>Initialising the pool\<close>

definition pool_pages :: "u32 \<Rightarrow> nat \<Rightarrow> u32 list" where
  "pool_pages start n = map (\<lambda>j. start + of_nat (j * 4096)) [0..<n]"

lemma pool_page_ok:
  assumes "start \<noteq> 0" "unat start mod 4096 = 0" "unat start + n * 4096 < 2 ^ 32" "j < n"
  shows "unat (start + of_nat (j * 4096)) = unat start + j * 4096" "pg_ok (start + of_nat (j * 4096))"
proof -
  have j: "j * 4096 + 4096 \<le> n * 4096" using assms(4) by simp
  then show u: "unat (start + of_nat (j * 4096)) = unat start + j * 4096"
    using assms(3) by (intro unat_plus_of_nat) simp
  have "0 < unat start" using assms(1) by (simp add: unat_gt_0)
  then show "pg_ok (start + of_nat (j * 4096))"
    using u assms(2,3) j by (auto simp: pg_ok_def)
qed

lemma pool_loop_ok:
  fixes start :: u32 and n :: nat
  defines "a \<equiv> \<lambda>j. start + of_nat (j * 4096)"
  assumes "start \<noteq> 0" "unat start mod 4096 = 0" "unat start + n * 4096 < 2 ^ 32"
    and "j \<le> n" "n - j < f"
  shows "\<exists>m'. pool_loop f (a j) (a n) m = Inr m'
    \<and> (\<forall>l < n. load32 m' (a l) = (if j \<le> l then a (Suc l) else load32 m (a l)))"
  using assms(5,6)
proof (induction f arbitrary: j m)
  case 0
  then show ?case by simp
next
  case (Suc f)
  have lim: "unat (a n) = unat start + n * 4096"
    using assms(4) unfolding a_def by (intro unat_plus_of_nat) simp
  have page: "unat (a l) = unat start + l * 4096" "pg_ok (a l)" if "l < n" for l
    using pool_page_ok [OF assms(2-4) that] by (simp_all add: a_def)
  show ?case
  proof (cases "j < n")
    case True
    have lt: "a j < a n" using page(1) [OF True] lim True by (simp add: word_less_nat_alt)
    have step: "a j + PAGE_SIZE = a (Suc j)" by (simp add: PAGE_SIZE_def a_def)
    let ?m = "store32 m (a j) (a (Suc j))"
    have "\<exists>m'. pool_loop f (a (Suc j)) (a n) ?m = Inr m' \<and> (\<forall>l < n. load32 m' (a l) =
        (if Suc j \<le> l then a (Suc l) else load32 ?m (a l)))"
      using Suc.prems True by (intro Suc.IH) auto
    then obtain m' where m': "pool_loop f (a (Suc j)) (a n) ?m = Inr m'"
      "\<And>l. l < n \<Longrightarrow> load32 m' (a l) = (if Suc j \<le> l then a (Suc l) else load32 ?m (a l))"
      by blast
    have "load32 ?m (a l) = (if l = j then a (Suc j) else load32 m (a l))" if "l < n" for l
    proof -
      have "a l = a j \<longleftrightarrow> l = j"
        using page(1) [OF that] page(1) [OF True]
        by (metis add_left_cancel mult_cancel_right zero_neq_numeral)
      then show ?thesis
        using load_store_cell [OF page(2) [OF True] page(2) [OF that], of 0 0 m] by (auto simp: cell_0)
    qed
    then show ?thesis using m' lt step by (intro exI [of _ m']) (auto simp: Suc_le_eq le_less)
  next
    case False
    then show ?thesis using Suc.prems by auto
  qed
qed

text \<open>The bags as the loader leaves them: nine pairs of null pointers.\<close>

definition empty_bags :: "bag_t list" where
  "empty_bags = replicate NO_CLASSES \<lparr>bag_free = 0, bag_full = 0\<rparr>"

lemma chain_upt:
  assumes "\<And>l. l < n \<Longrightarrow> f (a l) = (if Suc l = n then nil else a (Suc l))" "\<And>l. l < n \<Longrightarrow> a l \<noteq> nil" "j < n"
  shows "chain f nil (a j) (map a [j..<n])"
  using assms(3)
proof (induction "n - j" arbitrary: j)
  case (Suc d)
  then show ?case using assms(1,2) by (cases "Suc j = n") (auto simp: upt_conv_Cons)
qed simp

lemma kmalloc_init_ok:
  assumes a: "start \<noteq> 0" "unat start mod 4096 = 0" "unat start + n * 4096 < 2 ^ 32" and n: "0 < n"
    and b: "bags s = empty_bags"
  shows "\<exists>s'. kmalloc_init debug start (of_nat (n * 4096)) s = Inr s' \<and> heap_rel s' (pool_pages start n, \<lambda>_. None)
    \<and> pool_start s' = start \<and> pool_end s' = start + of_nat (n * 4096)"
proof -
  let ?a = "\<lambda>j. start + of_nat (j * 4096) :: u32"
  have page: "unat (?a l) = unat start + l * 4096" "pg_ok (?a l)" if "l < n" for l
    using pool_page_ok [OF a that] by simp_all
  have inj: "?a l = ?a k \<longleftrightarrow> l = k" if "l < n" "k < n" for l k
    using page(1) [OF that(1)] page(1) [OF that(2)] by (metis add_left_cancel mult_cancel_right zero_neq_numeral)
  obtain m where m: "pool_loop (2 ^ 20) start (?a n) (km_mem s) = Inr m"
    "\<And>l. l < n \<Longrightarrow> load32 m (?a l) = ?a (Suc l)"
    using pool_loop_ok [OF a, of 0 "2 ^ 20" "km_mem s"] a(3) by auto
  obtain k where k: "n = Suc k" using n by (cases n) auto
  have lastp: "?a n - PAGE_SIZE = ?a k" by (simp add: k PAGE_SIZE_def)
  let ?m = "store32 m (?a k) PAGE_FREELIST_SENTINEL"
  define s' where "s' = s\<lparr>pool_start := start, pool_end := ?a n, km_mem := ?m, page_freelist_head := start\<rparr>"
  have run: "kmalloc_init debug start (of_nat (n * 4096)) s = Inr s'"
    using page_aligned_mask [OF a(2)] by (simp only: kmalloc_init_def m(1) lastp s'_def ASSERT_simps bindE_simps)
  have "load32 ?m (?a l) = (if Suc l = n then PAGE_FREELIST_SENTINEL else ?a (Suc l))" if "l < n" for l
    using m(2) [OF that] load_store_cell [OF page(2) [of k] page(2) [OF that], of 0 0 m] inj [OF that, of k] k
    by (auto simp: cell_0)
  then have "chain (load32 ?m) PAGE_FREELIST_SENTINEL (?a 0) (map ?a [0..<n])"
    using n page(2) by (intro chain_upt) (auto simp: pg_ok_def PAGE_FREELIST_SENTINEL_def)
  then have pool: "pool_rel ?m start (pool_pages start n)"
    using page(2) inj by (auto simp: pool_rel_def pool_pages_def distinct_map inj_on_def)
  have "heap_rel s' (pool_pages start n, \<lambda>_. None)"
    using pool b by (simp add: heap_rel_def s'_def pages_apart_def class_rel_def empty_bags_def)
  then show ?thesis using run by (simp add: s'_def)
qed

section \<open>Runs of allocations\<close>

fun kmallocs :: "nat \<Rightarrow> size_t \<Rightarrow> kheap \<Rightarrow> (u32 list \<times> kheap) outcome" where
  "kmallocs 0 sz s = Inr ([], s)"
| "kmallocs (Suc n) sz s = bindE (kmalloc sz s) (\<lambda>(r, s). bindE (kmallocs n sz s) (\<lambda>(rs, s). Inr (r # rs, s)))"

lemma kmallocs_drain:
  assumes "heap_rel s (q # ps, C)" "class_ok i" "C i = Some (p, ks)" "ks \<noteq> []"
  shows "\<exists>s'. kmallocs (length ks) (2 ^ i) s = Inr (map (obj_at p i) ks, s') \<and> heap_rel s' (ps, C(i \<mapsto> (p, [])))"
  using assms
proof (induction ks arbitrary: s C)
  case (Cons k ks)
  show ?case
  proof (cases ks)
    case Nil
    then obtain s' where s': "kmalloc (2 ^ i) s = Inr (obj_at p i k, s')" "heap_rel s' (ps, C(i \<mapsto> (p, [])))"
      using kmalloc_refines_aux [OF Cons.prems(1,2)] Cons.prems(3) by auto
    then have "kmallocs (length (k # ks)) (2 ^ i) s = Inr (map (obj_at p i) (k # ks), s')" using Nil by simp
    then show ?thesis using s'(2) by blast
  next
    case (Cons l ls)
    then obtain s1 where s1: "kmalloc (2 ^ i) s = Inr (obj_at p i k, s1)" "heap_rel s1 (q # ps, C(i \<mapsto> (p, ks)))"
      using kmalloc_refines_aux [OF Cons.prems(1,2)] Cons.prems(3) by auto
    have "\<exists>s2. kmallocs (length ks) (2 ^ i) s1 = Inr (map (obj_at p i) ks, s2)
      \<and> heap_rel s2 (ps, (C(i \<mapsto> (p, ks)))(i \<mapsto> (p, [])))"
      by (rule Cons.IH [OF s1(2) Cons.prems(2)]) (use Cons in simp_all)
    then obtain s2 where s2: "kmallocs (length ks) (2 ^ i) s1 = Inr (map (obj_at p i) ks, s2)"
      "heap_rel s2 (ps, C(i \<mapsto> (p, [])))"
      unfolding fun_upd_upd by blast
    then have "kmallocs (length (k # ks)) (2 ^ i) s = Inr (map (obj_at p i) (k # ks), s2)" using s1(1) by simp
    then show ?thesis using s2(2) by blast
  qed
qed simp

lemma kmallocs_some:
  assumes "heap_rel s (ps, C)" "class_ok i" "C i = Some (p, ks @ ls)" "ls \<noteq> []"
  shows "\<exists>s'. kmallocs (length ks) (2 ^ i) s = Inr (map (obj_at p i) ks, s') \<and> heap_rel s' (ps, C(i \<mapsto> (p, ls)))"
  using assms
proof (induction ks arbitrary: s C)
  case Nil
  then have "C(i \<mapsto> (p, ls)) = C" by auto
  then show ?case using Nil by simp
next
  case (Cons k ks)
  then obtain s1 where s1: "kmalloc (2 ^ i) s = Inr (obj_at p i k, s1)" "heap_rel s1 (ps, C(i \<mapsto> (p, ks @ ls)))"
    using kmalloc_refines_aux [OF Cons.prems(1,2)] Cons.prems(3,4) by (auto split: list.splits)
  have "\<exists>s2. kmallocs (length ks) (2 ^ i) s1 = Inr (map (obj_at p i) ks, s2)
    \<and> heap_rel s2 (ps, (C(i \<mapsto> (p, ks @ ls)))(i \<mapsto> (p, ls)))"
    by (rule Cons.IH [OF s1(2) Cons.prems(2)]) (use Cons.prems(4) in simp_all)
  then obtain s2 where s2: "kmallocs (length ks) (2 ^ i) s1 = Inr (map (obj_at p i) ks, s2)"
    "heap_rel s2 (ps, C(i \<mapsto> (p, ls)))"
    unfolding fun_upd_upd by blast
  then have "kmallocs (length (k # ks)) (2 ^ i) s = Inr (map (obj_at p i) (k # ks), s2)" using s1(1) by simp
  then show ?case using s2(2) by blast
qed

lemma clz_small:
  assumes "sz < (1024 :: u32)" shows "22 \<le> clz sz"
proof -
  have "take_bit 10 sz = sz" using assms
    by (simp add: take_bit_eq_mod word_unat_eq_iff unat_mod word_less_nat_alt)
  then have hi: "\<not> bit sz n" if "10 \<le> n" for n using that by (metis bit_take_bit_iff not_less)
  have "rev [0..<32] = rev [10..<32] @ rev [0..<10 :: nat]"
    unfolding rev_append [symmetric] using upt_add_eq_append [of 0 10 22] by simp
  then have "clz sz = length (takeWhile (\<lambda>n. \<not> bit sz n) (rev [10..<32] @ rev [0..<10]))"
    unfolding clz_def by (rule arg_cong)
  also have "\<dots> = 22 + length (takeWhile (\<lambda>n. \<not> bit sz n) (rev [0..<10]))"
    by (subst takeWhile_append2) (auto simp: hi)
  finally show ?thesis by simp
qed

text \<open>A heap for examples: a pool of four pages at \<open>0x10000\<close> in memory that is zero elsewhere.\<close>

definition boot_heap :: kheap where
  "boot_heap = \<lparr>km_mem = (\<lambda>_. 0), pool_start = 0, pool_end = 0, page_freelist_head = 0, bags = empty_bags\<rparr>"

lemma boot_heap_init:
  obtains s where "kmalloc_init False 0x10000 0x4000 boot_heap = Inr s"
    "heap_rel s ([0x10000, 0x11000, 0x12000, 0x13000], \<lambda>_. None)" "pool_start s = 0x10000" "pool_end s = 0x14000"
  using kmalloc_init_ok [of "0x10000" 4 boot_heap False]
  by (auto simp: boot_heap_def pool_pages_def upt_rec)

lemma boot_heap_used:
  obtains s where "heap_rel s ([0x11000, 0x12000, 0x13000], (\<lambda>_. None)(4 \<mapsto> (0x10000, [1..<nobj 4])))"
    "pool_start s = 0x10000" "pool_end s = 0x14000"
proof -
  obtain s where s: "heap_rel s ([0x10000, 0x11000, 0x12000, 0x13000], \<lambda>_. None)"
    by (rule boot_heap_init)
  then obtain s' where "heap_rel s' ([0x11000, 0x12000, 0x13000], (\<lambda>_. None)(4 \<mapsto> (0x10000, [1..<nobj 4])))"
    using kmalloc_refines_aux [OF s, of 4] by auto
  then have "heap_rel (s'\<lparr>pool_start := 0x10000, pool_end := 0x14000\<rparr>)
    ([0x11000, 0x12000, 0x13000], (\<lambda>_. None)(4 \<mapsto> (0x10000, [1..<nobj 4])))"
    by (simp add: heap_rel_def)
  then show ?thesis using that by simp
qed

section \<open>Properties\<close>

text \<open>C21: for the object sizes 4, 8, ..., 256 the allocator, a composition of loads and stores to
  page headers and to the objects themselves, implements the abstract allocator: the first request
  of a class takes a page from the pool and returns its object 0; later requests return the first
  free index; the request that takes the last free object also consumes a page of the pool; a
  request of a class with no free object is a null dereference; an empty pool panics.\<close>

theorem kmalloc_refines:
  assumes "heap_rel s a" "2 \<le> i" "i \<le> 8"
  shows "case a_malloc i a of Inl e \<Rightarrow> kmalloc (2 ^ i) s = Inl e
    | Inr (r, a') \<Rightarrow> \<exists>s'. kmalloc (2 ^ i) s = Inr (r, s') \<and> heap_rel s' a'"
  using kmalloc_refines_aux [OF assms(1), of i] assms(2,3) by simp

theorem kmalloc_refines_witness:
  "\<exists>s s'. kmalloc_init False 0x10000 0x4000 boot_heap = Inr s \<and> kmalloc 16 s = Inr (0x10008, s')"
proof -
  obtain s where s: "kmalloc_init False 0x10000 0x4000 boot_heap = Inr s"
    "heap_rel s ([0x10000, 0x11000, 0x12000, 0x13000], \<lambda>_. None)"
    by (rule boot_heap_init)
  then show ?thesis using kmalloc_refines [OF s(2), of 4] by (auto simp: obj_at_def cell_def obj_off_def)
qed

text \<open>C22: freeing an allocated object makes it the next free object of its class, whatever the state
  of its page: a full page moves back to the list of pages with free objects. The page, index and
  class are recovered from the address and the page header alone, and nothing else changes.\<close>

theorem kfree_refines:
  assumes "heap_rel s (ps, C)" "C i = Some (p, ks)" "k < nobj i" "k \<notin> set ks"
    and "pool_start s \<le> p" "p + PAGE_SIZE \<le> pool_end s"
  shows "\<exists>s'. kfree debug (obj_at p i k) s = Inr s' \<and> heap_rel s' (ps, C(i \<mapsto> (p, k # ks)))"
  by (rule kfree_eq [OF assms])

theorem kfree_refines_witness:
  "\<exists>s s' ps C. heap_rel s (ps, C) \<and> kfree True 0x10008 s = Inr s'
     \<and> heap_rel s' (ps, C(4 \<mapsto> (0x10000, 0 # [1..<nobj 4])))"
proof -
  obtain s where s: "heap_rel s ([0x11000, 0x12000, 0x13000], (\<lambda>_. None)(4 \<mapsto> (0x10000, [1..<nobj 4])))"
    "pool_start s = 0x10000" "pool_end s = 0x14000"
    by (rule boot_heap_used)
  have "\<exists>s'. kfree True (obj_at 0x10000 4 0) s = Inr s' \<and> heap_rel s' ([0x11000, 0x12000, 0x13000],
      ((\<lambda>_. None)(4 \<mapsto> (0x10000, [1..<nobj 4])))(4 \<mapsto> (0x10000, 0 # [1..<nobj 4])))"
    by (rule kfree_refines [OF s(1)]) (use s(2,3) nobj_bounds [of 4] in \<open>auto simp: PAGE_SIZE_def\<close>)
  moreover have "obj_at 0x10000 4 0 = 0x10008" by (simp add: obj_at_def cell_def obj_off_def)
  ultimately show ?thesis using s(1) by metis
qed

text \<open>The object freed last is the one allocated next, as long as a page is left for the case
  that it is the only free object of its class.\<close>

lemma kfree_then_kmalloc:
  assumes "heap_rel s (ps, C)" "C i = Some (p, ks)" "k < nobj i" "k \<notin> set ks"
    and "pool_start s \<le> p" "p + PAGE_SIZE \<le> pool_end s" and "ks \<noteq> [] \<or> ps \<noteq> []"
  shows "\<exists>s1 s2. kfree debug (obj_at p i k) s = Inr s1 \<and> kmalloc (2 ^ i) s1 = Inr (obj_at p i k, s2)"
proof -
  have "i < NO_CLASSES" using assms(1,2) by (auto simp: heap_rel_def) (metis not_le option.distinct(1))
  then have i: "class_ok i" using heap_relD(3) [OF assms(1), of i] assms(2) by (auto simp: class_rel_def)
  obtain s1 where s1: "kfree debug (obj_at p i k) s = Inr s1" "heap_rel s1 (ps, C(i \<mapsto> (p, k # ks)))"
    using kfree_eq [OF assms(1-6)] by blast
  show ?thesis
    using kmalloc_refines_aux [OF s1(2) i] s1(1) assms(7) by (cases ks; cases ps) auto
qed

text \<open>C23: a size class can never hand out more than one page of objects. Starting from an unused class
  and a pool with at least two pages, the first \<open>nobj i\<close> requests return the objects of the first
  page in order; the next request is a null dereference although the pool may hold free pages:
  the page fetched when the last object went is not linked into the bag.\<close>

theorem kmalloc_class_exhausts:
  assumes "heap_rel s (p # q # ps, C)" "2 \<le> i" "i \<le> 8" "C i = None"
  shows "\<exists>s'. kmallocs (nobj i) (2 ^ i) s = Inr (map (\<lambda>k. p + 8 + of_nat k * 2 ^ i) [0..<nobj i], s')
    \<and> page_freelist_head s' = (case ps of [] \<Rightarrow> 0 | r # _ \<Rightarrow> r)
    \<and> kmalloc (2 ^ i) s' = Inl Null_Deref"
proof -
  have i: "class_ok i" using assms(2,3) by simp
  obtain s1 where s1: "kmalloc (2 ^ i) s = Inr (obj_at p i 0, s1)" "heap_rel s1 (q # ps, C(i \<mapsto> (p, [1..<nobj i])))"
    using kmalloc_refines_aux [OF assms(1) i] assms(4) by auto
  have "\<exists>s2. kmallocs (length [1..<nobj i]) (2 ^ i) s1 = Inr (map (obj_at p i) [1..<nobj i], s2)
    \<and> heap_rel s2 (ps, (C(i \<mapsto> (p, [1..<nobj i])))(i \<mapsto> (p, [])))"
    by (rule kmallocs_drain [OF s1(2) i]) (use nobj_bounds [OF i] in auto)
  then obtain s2 where s2: "kmallocs (nobj i - 1) (2 ^ i) s1 = Inr (map (obj_at p i) [1..<nobj i], s2)"
    "heap_rel s2 (ps, C(i \<mapsto> (p, [])))"
    unfolding fun_upd_upd by auto
  have n: "nobj i = Suc (nobj i - 1)" using nobj_bounds [OF i] by simp
  then have "[0..<nobj i] = 0 # [1..<nobj i]" by (metis One_nat_def upt_conv_Cons zero_less_Suc)
  moreover have "kmallocs (nobj i) (2 ^ i) s = Inr (obj_at p i 0 # map (obj_at p i) [1..<nobj i], s2)"
    by (subst n) (use s1(1) s2(1) in simp)
  ultimately have "kmallocs (nobj i) (2 ^ i) s = Inr (map (obj_at p i) [0..<nobj i], s2)" by simp
  moreover have "obj_at p i k = p + 8 + of_nat k * 2 ^ i" for k by (simp add: obj_at_def cell_def obj_off_def)
  moreover have "page_freelist_head s2 = (case ps of [] \<Rightarrow> 0 | r # _ \<Rightarrow> r)"
    using s2(2) by (cases ps) (auto simp: heap_rel_def pool_rel_def PAGE_FREELIST_SENTINEL_def)
  moreover have "kmalloc (2 ^ i) s2 = Inl Null_Deref"
    using kmalloc_refines_aux [OF s2(2) i] by simp
  ultimately show ?thesis by auto
qed

theorem kmalloc_class_exhausts_witness:
  "\<exists>s s' rs. kmallocs 16 256 s = Inr (rs, s') \<and> page_freelist_head s' = 0x12000 \<and> kmalloc 256 s' = Inl Null_Deref"
proof -
  obtain s where s: "heap_rel s ([0x10000, 0x11000, 0x12000, 0x13000], \<lambda>_. None)"
    by (rule boot_heap_init)
  have "nobj 8 = 16" by (simp add: nobj_def)
  then show ?thesis using kmalloc_class_exhausts [OF s, of 8] by auto
qed

text \<open>C24: the objects of a page do not overlap each other or its header, but for sizes from 16 on the
  last object of a page reaches eight bytes past the end of the page, into the header of the next
  one; a write to its last words damages the neighbouring page.\<close>

theorem kmalloc_last_object_overruns:
  assumes "heap_rel s (q # ps, C)" "4 \<le> i" "i \<le> 8" "C i = Some (p, [nobj i - 1])"
  shows "\<exists>r s'. kmalloc (2 ^ i) s = Inr (r, s') \<and> unat r + 2 ^ i = unat p + 4096 + 8
    \<and> (\<forall>k < nobj i - 1. unat (obj_at p i k) + 2 ^ i = unat (obj_at p i (k + 1)))
    \<and> unat (obj_at p i 0) = unat p + 8"
proof -
  have i: "class_ok i" using assms(2,3) by simp
  have pg: "pg_ok p" using heap_relD(3) [OF assms(1) class_lt [OF i]] assms(4) by (auto simp: class_rel_def)
  have u: "unat (obj_at p i k) = unat p + obj_off i k" if "k < nobj i" for k
    using unat_cell [OF pg, of "obj_off i k"] obj_off_ok [OF i that] by (simp add: obj_at_def)
  obtain s' where s': "kmalloc (2 ^ i) s = Inr (obj_at p i (nobj i - 1), s')"
    using kmalloc_refines_aux [OF assms(1) i] assms(4) by auto
  have n: "0 < nobj i" using nobj_bounds [OF i] by simp
  have "i \<in> {4, 5, 6, 7, 8}" using assms(2,3) by auto
  then have "obj_off i (nobj i - 1) + 2 ^ i = 4096 + 8" by (auto simp: obj_off_def nobj_def)
  then have "unat (obj_at p i (nobj i - 1)) + 2 ^ i = unat p + 4096 + 8"
    using u [of "nobj i - 1"] n by simp
  moreover have "unat (obj_at p i k) + 2 ^ i = unat (obj_at p i (k + 1))" if "k < nobj i - 1" for k
    using u [of k] u [of "k + 1"] that by (simp add: obj_off_def)
  moreover have "unat (obj_at p i 0) = unat p + 8" using u [OF n] by (simp add: obj_off_def)
  ultimately show ?thesis using s' by blast
qed

theorem kmalloc_last_object_overruns_witness:
  "\<exists>s s' r. kmalloc 256 s = Inr (r, s') \<and> unat r + 256 = 0x11008"
proof -
  obtain s where s: "heap_rel s ([0x10000, 0x11000, 0x12000, 0x13000], \<lambda>_. None)"
    by (rule boot_heap_init)
  then obtain s1 where s1: "heap_rel s1 ([0x11000, 0x12000, 0x13000], (\<lambda>_. None)(8 \<mapsto> (0x10000, [1..<nobj 8])))"
    using kmalloc_refines_aux [OF s, of 8] by auto
  obtain s2 where s2: "heap_rel s2 ([0x11000, 0x12000, 0x13000], (\<lambda>_. None)(8 \<mapsto> (0x10000, [nobj 8 - 1])))"
    using kmallocs_some [OF s1, of 8 "0x10000" "[1..<nobj 8 - 1]" "[nobj 8 - 1]"] by (auto simp: nobj_def upt_rec)
  show ?thesis using kmalloc_last_object_overruns [OF s2, of 8 "0x10000"] by auto
qed

text \<open>Which sizes can be allocated at all. Requests below four or above 512 bytes return null and
  change nothing; every other request whose size is not a power of two, and the request of 512
  bytes, indexes the array of nine bags out of bounds, whatever the state of the allocator.\<close>

lemma kmalloc_bad_sizes:
  assumes "length (bags s) = NO_CLASSES"
  shows "(sz < 4 \<or> 512 < sz \<longrightarrow> kmalloc sz s = Inr (0, s))
    \<and> (4 \<le> sz \<and> sz \<le> 512 \<and> sz AND (sz - 1) \<noteq> 0 \<longrightarrow> kmalloc sz s = Inl Out_Of_Bounds)
    \<and> kmalloc 512 s = Inl Out_Of_Bounds"
proof (intro conjI impI)
  show "kmalloc sz s = Inr (0, s)" if "sz < 4 \<or> 512 < sz"
    using that by (auto simp: kmalloc_def MIN_BLOCK_SIZE_def NO_CLASSES_def)
  show "kmalloc sz s = Inl Out_Of_Bounds" if a: "4 \<le> sz \<and> sz \<le> 512 \<and> sz AND (sz - 1) \<noteq> 0"
  proof -
    have "sz < 1024" using a by (simp add: word_le_nat_alt word_less_nat_alt)
    then have "NO_CLASSES \<le> bag_index sz" using a clz_small [of sz] by (simp add: bag_index_def NO_CLASSES_def)
    then show ?thesis
      using a assms by (simp add: kmalloc_def fetch_object_def MIN_BLOCK_SIZE_def NO_CLASSES_def not_less)
  qed
  have "bag_index 512 = 9" by (simp add: bag_index_def ffs_def upt_rec bit_numeral_simps)
  then show "kmalloc 512 s = Inl Out_Of_Bounds"
    using assms by (simp add: kmalloc_def fetch_object_def MIN_BLOCK_SIZE_def NO_CLASSES_def)
qed

end
