(* ===== verification/Stdlib.thy ===== *)
theory Stdlib
  imports Mugo_Prelude
begin

text \<open>
  The kernel's C library, \<^verbatim>\<open>lib/stdlib/stdlib.c\<close>: number formatting (\<open>itoa\<close>, \<open>xtoa\<close>), the
  bounded formatter \<open>vsprintf_s\<close> behind \<^verbatim>\<open>kprintf\<close>, and the memory routines.

  A C string is the HOL string of the bytes before its terminator. The output of
  \<open>vsprintf_s\<close> is the sequence of bytes it stores from \<^verbatim>\<open>dstbuf\<close> on, in the order in which it
  stores them (every store advances the pointer by one), so its length is the number of
  bytes of the buffer that are overwritten, whether or not the buffer is that long.
\<close>

section \<open>Definitions\<close>

subsection \<open>Number formatting\<close>

text \<open>
  The do-while loops of \<open>itoa\<close> and \<open>xtoa\<close>: store the digit of the remainder, divide, count,
  and go on while something is left and the count is below the buffer size.
\<close>

definition dec_digit :: "u32 \<Rightarrow> char" where
  "dec_digit d = char_of (unat d + 48)"

function itoa_loop :: "u32 \<Rightarrow> u32 \<Rightarrow> size_t \<Rightarrow> string \<Rightarrow> string \<times> u32" where
  "itoa_loop num i bufsize buf =
     (let buf' = buf @ [dec_digit (num mod 10)]; num' = num div 10; i' = i + 1
      in if 0 < num' \<and> i' < bufsize then itoa_loop num' i' bufsize buf' else (buf', i'))"
  by pat_completeness auto
termination
  by (relation "measure (\<lambda>(num, i, bufsize, buf). unat num)")
    (auto simp: word_less_nat_alt unat_div)

declare itoa_loop.simps [simp del]

definition hexchars :: string where
  "hexchars = ''0123456789abcdef''"

function xtoa_loop :: "u32 \<Rightarrow> u32 \<Rightarrow> size_t \<Rightarrow> string \<Rightarrow> string \<times> u32" where
  "xtoa_loop num i bufsize buf =
     (let buf' = buf @ [hexchars ! unat (num mod 16)]; num' = num div 16; i' = i + 1
      in if 0 < num' \<and> i' < bufsize then xtoa_loop num' i' bufsize buf' else (buf', i'))"
  by pat_completeness auto
termination
  by (relation "measure (\<lambda>(num, i, bufsize, buf). unat num)")
    (auto simp: word_less_nat_alt unat_div)

declare xtoa_loop.simps [simp del]

text \<open>The in-place reversal: two pointers walk towards each other and swap what they see.\<close>

function swap_loop :: "'a list \<Rightarrow> nat \<Rightarrow> nat \<Rightarrow> 'a list" where
  "swap_loop xs p1 p2 =
     (if p2 < p1 then swap_loop (xs[p2 := xs ! p1, p1 := xs ! p2]) (p1 - 1) (p2 + 1) else xs)"
  by pat_completeness auto
termination
  by (relation "measure (\<lambda>(xs, p1, p2). p1 - p2)") auto

declare swap_loop.simps [simp del]

definition itoa :: "u32 \<Rightarrow> size_t \<Rightarrow> string" where
  "itoa num bufsize = (let (buf, i) = itoa_loop num 0 bufsize []
                       in swap_loop buf (length buf - 1) 0)"

definition xtoa :: "u32 \<Rightarrow> size_t \<Rightarrow> string \<times> u32" where
  "xtoa num bufsize = (let (buf, i) = xtoa_loop num 0 bufsize []
                       in (swap_loop buf (length buf - 1) 0, i))"

subsection \<open>The formatter\<close>

definition NUM_BUF_MAX :: u32 where
  "NUM_BUF_MAX = 50"

text \<open>
  A variadic argument is an integer or a string pointer, \<^verbatim>\<open>NULL\<close> being \<open>VStr None\<close>.
\<close>

datatype va = VInt u32 | VStr "string option"

definition is_digit :: "char \<Rightarrow> bool" where
  "is_digit c \<longleftrightarrow> 48 \<le> (of_char c :: nat) \<and> (of_char c :: nat) \<le> 57"

text \<open>The padding width: digits from the last to the first, each times a growing power of ten.\<close>

fun width_loop :: "string \<Rightarrow> u32 \<Rightarrow> u32 \<Rightarrow> u32" where
  "width_loop [] i acc = acc"
| "width_loop (d # ds) i acc = width_loop ds (i * 10) (acc + i * (of_nat (of_char d) - 48))"

text \<open>
  \<open>padding\<close> and \<open>padding_count\<close> live outside the loop over the format, so they keep their
  values from one conversion to the next.
\<close>

definition parse_padding :: "string \<Rightarrow> char \<Rightarrow> u32 \<Rightarrow> (string \<times> char \<times> u32) outcome" where
  "parse_padding fmt padding padding_count =
     (case fmt of
        [] \<Rightarrow> Inr (fmt, padding, padding_count)
      | c # fs \<Rightarrow>
          if is_digit c
          then let ds = takeWhile is_digit fs
               in if unat NUM_BUF_MAX < length ds then Inl Out_Of_Bounds
                  else Inr (dropWhile is_digit fs, c, width_loop (rev ds) 1 0)
          else Inr (fmt, padding, padding_count))"

text \<open>One conversion: what it appends, how much it adds to \<open>written\<close>, the arguments left.\<close>

definition convert :: "char \<Rightarrow> va list \<Rightarrow> char \<Rightarrow> u32 \<Rightarrow> size_t \<Rightarrow> u32 \<Rightarrow> (string \<times> u32 \<times> va list) outcome" where
  "convert c args padding padding_count bufsize written =
     (if c = CHR ''s'' then
        (case args of
           VStr so # rest \<Rightarrow>
             let s = (case so of None \<Rightarrow> ''null'' | Some s \<Rightarrow> s);
                 len = of_nat (length s) :: u32;
                 len' = (if bufsize < len + written then bufsize - written else len)
             in if len \<noteq> 0 then Inr (if 0 < sint len' then take (unat len') s else [], len', rest)
                else Inr ([], 0, rest)
         | _ \<Rightarrow> Inl Bad_Arg)
      else if c = CHR ''c'' then
        (case args of
           VInt n # rest \<Rightarrow> Inr ([char_of (unat n mod 256)], 1, rest)
         | _ \<Rightarrow> Inl Bad_Arg)
      else if c = CHR ''d'' \<or> c = CHR ''u'' then
        (case args of
           VInt n # rest \<Rightarrow> Inr (itoa n NUM_BUF_MAX, 0, rest)
         | _ \<Rightarrow> Inl Bad_Arg)
      else if c = CHR ''x'' then
        (case args of
           VInt n # rest \<Rightarrow>
             let (digits, num_len) = xtoa n NUM_BUF_MAX
             in Inr (replicate (if num_len < padding_count then unat (padding_count - num_len) else 0)
                       padding @ digits, 0, rest)
         | _ \<Rightarrow> Inl Bad_Arg)
      else if c \<noteq> CHR ''%'' then Inr (''%'', 1, args)
      else Inr ([], 0, args))"

lemma parse_padding_shorter:
  "parse_padding fs p n = Inr (fs', p', n') \<Longrightarrow> length fs' \<le> length fs"
  by (auto simp: parse_padding_def Let_def split: list.splits if_splits)
    (meson le_SucI length_dropWhile_le)

text \<open>
  The loop over the format. A format that ends inside a conversion makes the default case
  emit a percent sign, after which the loop steps over the terminator and reads what follows.
\<close>

function vsprintf_loop ::
  "string \<Rightarrow> va list \<Rightarrow> char \<Rightarrow> u32 \<Rightarrow> size_t \<Rightarrow> u32 \<Rightarrow> string \<Rightarrow> (string \<times> u32) outcome" where
  "vsprintf_loop [] args padding padding_count bufsize written out = Inr (out, written)"
| "vsprintf_loop (c # fs) args padding padding_count bufsize written out =
     (if \<not> written < bufsize - 1 then Inr (out, written)
      else if c \<noteq> CHR ''%'' then
        vsprintf_loop fs args padding padding_count bufsize (written + 1) (out @ [c])
      else
        case parse_padding fs padding padding_count of
          Inl e \<Rightarrow> Inl e
        | Inr (fs', padding', padding_count') \<Rightarrow>
            (case fs' of
               [] \<Rightarrow> Inl Out_Of_Bounds
             | d # rest \<Rightarrow>
                 (case convert d args padding' padding_count' bufsize written of
                    Inl e \<Rightarrow> Inl e
                  | Inr (s, n, args') \<Rightarrow>
                      vsprintf_loop rest args' padding' padding_count' bufsize (written + n) (out @ s))))"
  by pat_completeness auto
termination
  by (relation "measure (\<lambda>(fs, _). length fs)") (auto dest!: parse_padding_shorter)

declare vsprintf_loop.simps(2) [simp del]

definition vsprintf_s :: "size_t \<Rightarrow> string \<Rightarrow> va list \<Rightarrow> (string \<times> u32) outcome" where
  "vsprintf_s bufsize fmt args =
     bindE (vsprintf_loop fmt args (CHR '' '') 0 bufsize 0 [])
       (\<lambda>(out, written). Inr (out @ [char_of (0 :: nat)], written))"

subsection \<open>Memory routines\<close>

text \<open>
  \<open>strlen\<close> scans memory for the terminator; in a memory without a zero byte the C loop never
  ends, which is the value \<open>None\<close>.
\<close>

partial_function (option) strlen_loop :: "mem \<Rightarrow> u32 \<Rightarrow> u32 \<Rightarrow> u32 option" where
  "strlen_loop m str len = (if m (str + len) \<noteq> 0 then strlen_loop m str (len + 1) else Some len)"

definition strlen :: "mem \<Rightarrow> u32 \<Rightarrow> u32 option" where
  "strlen m str = strlen_loop m str 0"

function memset_loop :: "mem \<Rightarrow> u32 \<Rightarrow> u8 \<Rightarrow> size_t \<Rightarrow> size_t \<Rightarrow> mem" where
  "memset_loop m ptr c p n =
     (if p < n then memset_loop (m(ptr := c)) (ptr + 1) c (p + 1) n else m)"
  by pat_completeness auto
termination
  by (relation "measure (\<lambda>(m, ptr, c, p, n). unat n - unat p)") (auto simp: word_less_nat_alt)

declare memset_loop.simps [simp del]

definition memset :: "mem \<Rightarrow> u32 \<Rightarrow> u32 \<Rightarrow> size_t \<Rightarrow> mem" where
  "memset m s c n = memset_loop m s (ucast c) 0 n"

function memcpy_loop :: "mem \<Rightarrow> u32 \<Rightarrow> u32 \<Rightarrow> size_t \<Rightarrow> mem" where
  "memcpy_loop m dst src n =
     (if 0 < n then memcpy_loop (m(dst := m src)) (dst + 1) (src + 1) (n - 1) else m)"
  by pat_completeness auto
termination
  by (relation "measure (\<lambda>(m, dst, src, n). unat n)") (auto simp: word_less_nat_alt)

declare memcpy_loop.simps [simp del]

definition memcpy :: "mem \<Rightarrow> u32 \<Rightarrow> u32 \<Rightarrow> size_t \<Rightarrow> mem" where
  "memcpy m dest src n = memcpy_loop m dest src n"

section \<open>Numerals\<close>

text \<open>
  The reference reading of a numeral: the digits of a number in a base, least significant
  first, and the value of a printed numeral.
\<close>

lemma swap_loop_nth:
  "p2 + p1 = n \<Longrightarrow> n < length xs \<Longrightarrow> i < length xs \<Longrightarrow>
   length (swap_loop xs p1 p2) = length xs \<and>
   swap_loop xs p1 p2 ! i = (if p2 \<le> i \<and> i \<le> p1 then xs ! (n - i) else xs ! i)"
proof (induction xs p1 p2 rule: swap_loop.induct)
  case (1 xs p1 p2)
  show ?case
  proof (cases "p2 < p1")
    case True
    then have IH: "length (swap_loop (xs[p2 := xs ! p1, p1 := xs ! p2]) (p1 - 1) (p2 + 1)) = length xs \<and>
      swap_loop (xs[p2 := xs ! p1, p1 := xs ! p2]) (p1 - 1) (p2 + 1) ! i =
        (if p2 + 1 \<le> i \<and> i \<le> p1 - 1 then xs[p2 := xs ! p1, p1 := xs ! p2] ! (n - i)
         else xs[p2 := xs ! p1, p1 := xs ! p2] ! i)"
      using 1 by auto
    show ?thesis
      using True 1 IH
      by (auto simp: swap_loop.simps [of xs p1 p2] nth_list_update)
  next
    case False
    then have "i = n - i" if "p2 \<le> i \<and> i \<le> p1" using 1(2) that by linarith
    then show ?thesis using False by (auto simp: swap_loop.simps [of xs p1 p2])
  qed
qed

lemma swap_loop_rev: "swap_loop xs (length xs - 1) 0 = rev xs"
proof (cases "xs = []")
  case True
  then show ?thesis by (simp add: swap_loop.simps)
next
  case False
  then have n: "0 + (length xs - 1) = length xs - 1" "length xs - 1 < length xs" "0 < length xs"
    by simp_all
  show ?thesis
  proof (rule nth_equalityI)
    show "length (swap_loop xs (length xs - 1) 0) = length (rev xs)"
      using swap_loop_nth [OF n] by simp
    then show "swap_loop xs (length xs - 1) 0 ! i = rev xs ! i"
      if "i < length (swap_loop xs (length xs - 1) 0)" for i
      using swap_loop_nth [OF n(1,2), of i] that by (auto simp: rev_nth)
  qed
qed

function digits :: "nat \<Rightarrow> nat \<Rightarrow> nat list" where
  "digits b n = (if n < b \<or> b < 2 then [n] else n mod b # digits b (n div b))"
  by pat_completeness auto
termination by (relation "measure snd") auto

declare digits.simps [simp del]

lemma digits_value: "foldr (\<lambda>d acc. d + b * acc) (digits b n) 0 = n"
  by (induction b n rule: digits.induct) (subst digits.simps, auto)

lemma digits_bound: "2 \<le> b \<Longrightarrow> d \<in> set (digits b n) \<Longrightarrow> d < b"
  by (induction b n rule: digits.induct) (subst (asm) (2) digits.simps, auto split: if_splits)

lemma digits_nonempty [simp]: "digits b n \<noteq> []"
  by (subst digits.simps) simp

lemma digits_last: "2 \<le> b \<Longrightarrow> 0 < n \<Longrightarrow> 0 < last (digits b n)"
proof (induction b n rule: digits.induct)
  case (1 b n)
  then show ?case by (cases "n < b") (auto simp: digits.simps [of b n] div_greater_zero_iff)
qed

lemma digits_length: "2 \<le> b \<Longrightarrow> n < b ^ k \<Longrightarrow> 0 < k \<Longrightarrow> length (digits b n) \<le> k"
proof (induction b n arbitrary: k rule: digits.induct)
  case (1 b n)
  show ?case
  proof (cases "n < b")
    case True
    then show ?thesis using 1 by (simp add: digits.simps [of b n])
  next
    case False
    with 1 obtain j where k: "k = Suc j" "0 < j"
      by (cases k; cases "k - 1") auto
    then have "n div b < b ^ j"
      using 1 by (simp add: div_less_iff_less_mult mult.commute)
    then have "length (digits b (n div b)) \<le> j"
      using 1 k False by simp
    then show ?thesis using False k 1 by (simp add: digits.simps [of b n])
  qed
qed


definition numeral_value :: "nat \<Rightarrow> (char \<Rightarrow> nat) \<Rightarrow> string \<Rightarrow> nat" where
  "numeral_value base val s = foldl (\<lambda>acc c. base * acc + val c) 0 s"

locale digit_printer =
  fixes loop :: "u32 \<Rightarrow> u32 \<Rightarrow> size_t \<Rightarrow> string \<Rightarrow> string \<times> u32"
    and base :: nat and digit :: "nat \<Rightarrow> char" and val :: "char \<Rightarrow> nat"
  assumes base: "2 \<le> base"
    and loop_unfold: "loop num i sz buf =
      (if 0 < unat num div base \<and> i + 1 < sz
       then loop (of_nat (unat num div base)) (i + 1) sz (buf @ [digit (unat num mod base)])
       else (buf @ [digit (unat num mod base)], i + 1))"
    and val_digit: "d < base \<Longrightarrow> val (digit d) = d"
begin

lemma loop_digits:
  "unat i + length (digits base (unat num)) \<le> unat sz \<Longrightarrow>
   loop num i sz buf = (buf @ map digit (digits base (unat num)),
     i + of_nat (length (digits base (unat num))))"
proof (induction "unat num" arbitrary: num i buf rule: less_induct)
  case less
  let ?q = "of_nat (unat num div base) :: u32"
  have q: "unat ?q = unat num div base"
    using unat_u32_lt [of num] by (intro unat_of_nat_u32) (meson div_le_dividend le_less_trans)
  show ?case
  proof (cases "unat num < base")
    case True
    then show ?thesis
      by (subst loop_unfold) (simp add: digits.simps [of base "unat num"])
  next
    case False
    then have d: "digits base (unat num) = (unat num mod base) # digits base (unat ?q)"
      using base by (simp add: digits.simps [of base "unat num"] q)
    have pos: "0 < unat num div base" using False base by (simp add: div_greater_zero_iff)
    have "0 < length (digits base (unat ?q))" by simp
    then have "unat i + 1 < unat sz" using less(2) d by (simp del: length_greater_0_conv)
    then have i': "unat (i + 1) = unat i + 1" "i + 1 < sz"
      using unat_u32_lt [of sz] by (auto simp: word_less_nat_alt unat_word_ariths)
    have "unat ?q < unat num" using base pos unfolding q by (intro div_less_dividend) (auto intro: gr0I)
    then have "loop ?q (i + 1) sz (buf @ [digit (unat num mod base)]) =
      ((buf @ [digit (unat num mod base)]) @ map digit (digits base (unat ?q)),
       i + 1 + of_nat (length (digits base (unat ?q))))"
      using less(1) less(2) i' d by simp
    then show ?thesis
      using pos i' by (subst loop_unfold) (simp add: d)
  qed
qed

lemma value_digits: "numeral_value base val (map digit (rev (digits base n))) = n"
proof -
  have "foldr (\<lambda>c acc. base * acc + val c) (map digit ds) 0 = foldr (\<lambda>d acc. d + base * acc) ds 0"
    if "\<forall>d \<in> set ds. d < base" for ds
    using that by (induction ds) (auto simp: val_digit)
  then show ?thesis
    using digits_bound [OF base] digits_value [of base n]
    by (simp add: numeral_value_def rev_map [symmetric] foldl_conv_foldr)
qed

lemma printed:
  assumes "length (digits base (unat num)) \<le> unat sz"
  shows "swap_loop (fst (loop num 0 sz [])) (length (fst (loop num 0 sz [])) - 1) 0 =
    map digit (rev (digits base (unat num)))"
  using loop_digits [of 0 num sz "[]"] assms
    swap_loop_rev [of "map digit (digits base (unat num))"]
  by (simp add: rev_map)

end

definition dec_val :: "char \<Rightarrow> nat" where
  "dec_val c = of_char c - 48"

definition hex_val :: "char \<Rightarrow> nat" where
  "hex_val c = (if is_digit c then of_char c - 48 else of_char c - 87)"

lemma hexchars_code:
  "d < 16 \<Longrightarrow> hexchars ! d = char_of (if d < 10 then d + 48 else d + 87)"
proof -
  have "\<forall>d \<in> {..<16}. hexchars ! d = char_of (if d < 10 then d + 48 else d + 87 :: nat)"
    by code_simp
  then show "d < 16 \<Longrightarrow> ?thesis" by simp
qed


lemma itoa_loop_printer: "digit_printer itoa_loop 10 (\<lambda>d. char_of (d + 48)) dec_val"
proof
  fix num i sz buf
  show "itoa_loop num i sz buf =
      (if 0 < unat num div 10 \<and> i + 1 < sz
       then itoa_loop (of_nat (unat num div 10)) (i + 1) sz (buf @ [char_of (unat num mod 10 + 48)])
       else (buf @ [char_of (unat num mod 10 + 48)], i + 1))"
    using u32_div_mod [where k = 10]
    by (subst itoa_loop.simps) (simp add: dec_digit_def word_less_nat_alt [of 0] )
qed (simp_all add: dec_val_def)

lemma xtoa_loop_printer: "digit_printer xtoa_loop 16 (\<lambda>d. hexchars ! d) hex_val"
proof
  fix num i sz buf
  show "xtoa_loop num i sz buf =
      (if 0 < unat num div 16 \<and> i + 1 < sz
       then xtoa_loop (of_nat (unat num div 16)) (i + 1) sz (buf @ [hexchars ! (unat num mod 16)])
       else (buf @ [hexchars ! (unat num mod 16)], i + 1))"
    using u32_div_mod [where k = 16]
    by (subst xtoa_loop.simps) (simp add: word_less_nat_alt [of 0] )
qed (auto simp: hex_val_def hexchars_code is_digit_def)

interpretation itoa: digit_printer itoa_loop 10 "\<lambda>d. char_of (d + 48)" dec_val
  by (rule itoa_loop_printer)

interpretation xtoa: digit_printer xtoa_loop 16 "\<lambda>d. hexchars ! d" hex_val
  by (rule xtoa_loop_printer)

lemma u32_digits_length:
  "length (digits 10 (unat (n :: u32))) \<le> 10" "length (digits 16 (unat n)) \<le> 8"
  using unat_u32_lt [of n]
  by (auto intro!: digits_length)

lemma itoa_digits: "itoa n NUM_BUF_MAX = map (\<lambda>d. char_of (d + 48)) (rev (digits 10 (unat n)))"
  using itoa.printed [of n NUM_BUF_MAX] u32_digits_length(1) [of n]
  by (simp add: itoa_def NUM_BUF_MAX_def split_beta)

lemma xtoa_digits: "xtoa n NUM_BUF_MAX =
    (map (\<lambda>d. hexchars ! d) (rev (digits 16 (unat n))), of_nat (length (digits 16 (unat n))))"
  using xtoa.printed [of n NUM_BUF_MAX] xtoa.loop_digits [of 0 n NUM_BUF_MAX "[]"]
    u32_digits_length(2) [of n]
  by (simp add: xtoa_def NUM_BUF_MAX_def split_beta)

section \<open>Formatting\<close>

text \<open>
  A format is a sequence of tokens; \<open>tok_text\<close> is what a token should print under the padding
  in force, \<open>tok_count\<close> what it adds to the count of written bytes (numbers add nothing).
\<close>

datatype tok =
    Lit char
  | Str "string option"
  | Chr u32
  | Dec u32
  | Hex u32
  | HexPad char string u32

fun tok_fmt :: "tok \<Rightarrow> string" where
  "tok_fmt (Lit c) = [c]"
| "tok_fmt (Str s) = ''%s''"
| "tok_fmt (Chr n) = ''%c''"
| "tok_fmt (Dec n) = ''%d''"
| "tok_fmt (Hex n) = ''%x''"
| "tok_fmt (HexPad p w n) = ''%'' @ p # w @ ''x''"

fun tok_arg :: "tok \<Rightarrow> va list" where
  "tok_arg (Lit c) = []"
| "tok_arg (Str s) = [VStr s]"
| "tok_arg (Chr n) = [VInt n]"
| "tok_arg (Dec n) = [VInt n]"
| "tok_arg (Hex n) = [VInt n]"
| "tok_arg (HexPad p w n) = [VInt n]"

fun tok_wf :: "tok \<Rightarrow> bool" where
  "tok_wf (Lit c) \<longleftrightarrow> c \<noteq> CHR ''%''"
| "tok_wf (HexPad p w n) \<longleftrightarrow> is_digit p \<and> list_all is_digit w \<and> length w \<le> 50"
| "tok_wf t \<longleftrightarrow> True"

fun tok_pad :: "char \<times> u32 \<Rightarrow> tok \<Rightarrow> char \<times> u32" where
  "tok_pad pad (HexPad p w n) = (p, width_loop (rev w) 1 0)"
| "tok_pad pad t = pad"

definition dec_text :: "u32 \<Rightarrow> string" where
  "dec_text n = map (\<lambda>d. char_of (d + 48)) (rev (digits 10 (unat n)))"

definition hex_text :: "u32 \<Rightarrow> string" where
  "hex_text n = map (\<lambda>d. hexchars ! d) (rev (digits 16 (unat n)))"

definition pad_left :: "char \<times> u32 \<Rightarrow> string \<Rightarrow> string" where
  "pad_left pad s = replicate (unat (snd pad) - length s) (fst pad) @ s"

fun tok_text :: "char \<times> u32 \<Rightarrow> tok \<Rightarrow> string" where
  "tok_text pad (Lit c) = [c]"
| "tok_text pad (Str s) = (case s of None \<Rightarrow> ''null'' | Some s \<Rightarrow> s)"
| "tok_text pad (Chr n) = [char_of (unat n mod 256)]"
| "tok_text pad (Dec n) = dec_text n"
| "tok_text pad (Hex n) = pad_left pad (hex_text n)"
| "tok_text pad (HexPad p w n) = pad_left (tok_pad pad (HexPad p w n)) (hex_text n)"

fun tok_count :: "tok \<Rightarrow> nat" where
  "tok_count (Dec n) = 0"
| "tok_count (Hex n) = 0"
| "tok_count (HexPad p w n) = 0"
| "tok_count t = length (tok_text (CHR '' '', 0) t)"

fun toks_text :: "char \<times> u32 \<Rightarrow> tok list \<Rightarrow> string" where
  "toks_text pad [] = []"
| "toks_text pad (t # ts) = tok_text pad t @ toks_text (tok_pad pad t) ts"

lemma hex_text_length: "length (hex_text n) \<le> 8"
  using u32_digits_length(2) [of n] by (simp add: hex_text_def)

lemma convert_hex:
  "convert (CHR ''x'') (VInt n # args) p c sz w = Inr (pad_left (p, c) (hex_text n), 0, args)"
proof -
  have l: "unat (of_nat (length (hex_text n)) :: u32) = length (hex_text n)"
    using hex_text_length [of n] by (intro unat_of_nat_u32) simp
  show ?thesis
    using l hex_text_length [of n]
    by (auto simp: convert_def xtoa_digits pad_left_def word_less_nat_alt unat_sub_if_size
        hex_text_def [symmetric] Let_def simp del: of_nat_less_iff)
      (simp_all add: hex_text_def )
qed

lemma is_digit_x: "\<not> is_digit (CHR ''x'')" "\<not> is_digit (CHR ''s'')" "\<not> is_digit (CHR ''c'')" "\<not> is_digit (CHR ''d'')" "\<not> is_digit (CHR ''%'')"
  by (simp_all add: is_digit_def)

lemma parse_padding_none: "\<not> is_digit c \<Longrightarrow> parse_padding (c # fs) p n = Inr (c # fs, p, n)"
  by (simp add: parse_padding_def)

lemma parse_padding_width:
  assumes "is_digit c" "list_all is_digit w" "length w \<le> 50" "\<not> is_digit d"
  shows "parse_padding (c # w @ d # fs) p n = Inr (d # fs, c, width_loop (rev w) 1 0)"
proof -
  have "takeWhile is_digit (w @ d # fs) = w" "dropWhile is_digit (w @ d # fs) = d # fs"
    using assms by (simp_all add: list_all_iff takeWhile_append dropWhile_append)
  then show ?thesis using assms by (simp add: parse_padding_def NUM_BUF_MAX_def Let_def)
qed

lemma convert_str:
  assumes "length (tok_text pad (Str s)) + unat w \<le> unat sz" "unat sz < 2 ^ 31"
  shows "convert (CHR ''s'') (VStr s # args) p c sz w =
    Inr (tok_text pad (Str s), of_nat (length (tok_text pad (Str s))), args)"
proof -
  let ?s = "tok_text pad (Str s)" and ?l = "of_nat (length (tok_text pad (Str s))) :: u32"
  have u: "unat ?l = length ?s"
    using assms by (intro unat_of_nat_u32) simp
  then have "\<not> sz < ?l + w"
    using assms by (simp add: word_less_nat_alt unat_add_no_wrap)
  moreover have "sint ?l = int (length ?s)"
    using assms by (simp add: signed_of_nat signed_take_bit_int_eq_self) 
  ultimately show ?thesis
    using u by (auto simp: convert_def Let_def)
qed

lemma vsprintf_tok:
  assumes "tok_wf t" "unat w + tok_count t \<le> unat sz" "unat w + 1 < unat sz" "unat sz < 2 ^ 31"
  shows "vsprintf_loop (tok_fmt t @ fs) (tok_arg t @ args) p c sz w out =
    vsprintf_loop fs args (fst (tok_pad (p, c) t)) (snd (tok_pad (p, c) t)) sz
      (w + of_nat (tok_count t)) (out @ tok_text (p, c) t)"
proof -
  have "w < sz - 1"
    using assms by (simp add: word_less_nat_alt)
  with assms show ?thesis
    by (cases t)
      (simp_all add: vsprintf_loop.simps(2) parse_padding_none parse_padding_width is_digit_x
        convert_hex convert_str add.commute,
       simp_all add: convert_def itoa_digits dec_text_def add.commute)
qed

lemma vsprintf_toks:
  "list_all tok_wf ts \<Longrightarrow> unat w + sum_list (map tok_count ts) + 1 < unat sz \<Longrightarrow> unat sz < 2 ^ 31 \<Longrightarrow>
   vsprintf_loop (concat (map tok_fmt ts)) (concat (map tok_arg ts) @ extra) p c sz w out =
    Inr (out @ toks_text (p, c) ts, w + of_nat (sum_list (map tok_count ts)))"
proof (induction ts arbitrary: w p c out)
  case Nil
  then show ?case by simp
next
  case (Cons t ts)
  have "unat (of_nat (tok_count t) :: u32) = tok_count t"
    using Cons.prems by (intro unat_of_nat_u32) simp
  then have w: "unat (w + of_nat (tok_count t)) = unat w + tok_count t"
    using Cons.prems by (simp add: unat_add_no_wrap)
  have "vsprintf_loop (concat (map tok_fmt ts)) (concat (map tok_arg ts) @ extra)
     (fst (tok_pad (p, c) t)) (snd (tok_pad (p, c) t)) sz (w + of_nat (tok_count t)) (out @ tok_text (p, c) t) =
     Inr ((out @ tok_text (p, c) t) @ toks_text (tok_pad (p, c) t) ts,
       w + of_nat (tok_count t) + of_nat (sum_list (map tok_count ts)))"
    using Cons.IH [of "w + of_nat (tok_count t)"] Cons.prems by (simp add: w)
  with Cons.prems show ?case
    using vsprintf_tok [of t w sz "concat (map tok_fmt ts)"] by (simp add: add.assoc)
qed

section \<open>Memory routines\<close>

lemma memset_loop_apply:
  "p \<le> n \<Longrightarrow> memset_loop m a c p n x = (if unat (x - a) < unat n - unat p then c else m x)"
proof (induction m a c p n rule: memset_loop.induct)
  case (1 m a c p n)
  show ?case
  proof (cases "p < n")
    case True
    then have "p + 1 \<le> n" by (simp add: word_le_nat_alt word_less_nat_alt)
    then have IH: "memset_loop (m(a := c)) (a + 1) c (p + 1) n x =
      (if unat (x - (a + 1)) < unat n - unat (p + 1) then c else (m(a := c)) x)"
      by (rule 1(1) [OF True])
    have eq: "unat (x - (a + 1)) < unat n - (unat p + 1) \<longleftrightarrow>
      unat (x - a) < unat n - unat p \<and> x \<noteq> a"
    proof (cases "x = a")
      case True
      then show ?thesis using unat_u32_lt [of n] region_start [of a] by simp
    next
      case False
      then show ?thesis using region_step [OF False] by linarith
    qed
    have "memset_loop m a c p n x =
      (if unat (x - a) < unat n - unat p \<and> x \<noteq> a then c else (m(a := c)) x)"
      unfolding memset_loop.simps [of m a c p n] if_P [OF True] IH unat_inc [OF True] eq ..
    then show ?thesis
      using True by (simp add: word_less_nat_alt)
  next
    case False
    then show ?thesis using 1(2) by (simp add: memset_loop.simps [of m a c p n] word_le_nat_alt word_less_nat_alt)
  qed
qed

lemma memset_apply: "memset m s c n x = (if unat (x - s) < unat n then ucast c else m x)"
  by (simp add: memset_def memset_loop_apply)

lemma memcpy_loop_apply:
  "dst = src \<or> unat n \<le> unat (dst - src) \<Longrightarrow>
   memcpy_loop m dst src n x = (if unat (x - dst) < unat n then m (src + (x - dst)) else m x)"
proof (induction m dst src n rule: memcpy_loop.induct)
  case (1 m dst src n)
  show ?case
  proof (cases "0 < n")
    case True
    have pre: "dst + 1 = src + 1 \<or> unat (n - 1) \<le> unat (dst + 1 - (src + 1))"
      using 1(2) True by (auto)
    have IH: "memcpy_loop (m(dst := m src)) (dst + 1) (src + 1) (n - 1) x =
      (if unat (x - (dst + 1)) < unat (n - 1) then (m(dst := m src)) (src + 1 + (x - (dst + 1)))
       else (m(dst := m src)) x)"
      by (rule 1(1) [OF True pre])
    have arg: "src + 1 + (x - (dst + 1)) = src + (x - dst)" by simp
    show ?thesis
    proof (cases "x = dst")
      case [simp]: True
      have "\<not> unat (dst - (dst + 1)) < unat (n - 1)"
        using unat_u32_lt [of "n - 1"] region_start [of dst] by simp
      then show ?thesis
        using \<open>0 < n\<close> IH by (simp add: memcpy_loop.simps [of m dst src n] word_less_nat_alt)
    next
      case False
      then have u: "unat (x - (dst + 1)) = unat (x - dst) - 1" "0 < unat (x - dst)"
        by (rule region_step)+
      have "src + (x - dst) \<noteq> dst" if "unat (x - dst) < unat n"
      proof
        assume "src + (x - dst) = dst"
        then have "dst - src = x - dst" by (simp add: algebra_simps)
        then show False using that 1(2) False by auto
      qed
      then show ?thesis
        using \<open>0 < n\<close> IH False u
        by (auto simp: memcpy_loop.simps [of m dst src n] arg word_less_nat_alt)
    qed
  next
    case False
    then show ?thesis by (simp add: memcpy_loop.simps [of m dst src n] word_less_nat_alt)
  qed
qed

lemma strlen_loop_finds:
  "m (str + of_nat n) = 0 \<Longrightarrow> \<forall>i < n. m (str + of_nat i) \<noteq> 0 \<Longrightarrow> k \<le> n \<Longrightarrow>
   strlen_loop m str (of_nat k) = Some (of_nat n)"
proof (induction "n - k" arbitrary: k)
  case 0
  then show ?case by (subst strlen_loop.simps) simp
next
  case (Suc d)
  then have "k < n" by simp
  then have "strlen_loop m str (of_nat (Suc k)) = Some (of_nat n)"
    using Suc by (intro Suc.hyps(1)) auto
  then show ?case
    using Suc.prems \<open>k < n\<close> by (subst strlen_loop.simps) (simp add: add.commute)
qed

lemma memcpy_apply:
  "dest = src \<or> unat n \<le> unat (dest - src) \<Longrightarrow>
   memcpy m dest src n x = (if unat (x - dest) < unat n then m (src + (x - dest)) else m x)"
  by (simp add: memcpy_def memcpy_loop_apply)

lemma memset_word:
  assumes "\<And>i. i < 4 \<Longrightarrow> unat (a + of_nat i - s) < unat n"
  shows "load32 (memset m s 0 n) a = 0"
  using assms [of 0] assms [of 1] assms [of 2] assms [of 3]
  by (simp add: load32_def memset_apply)

lemma dec_zero_char: "d < 10 \<Longrightarrow> (char_of (d + 48) = CHR ''0'') = (d = (0 :: nat))"
proof
  assume "d < 10" "char_of (d + 48) = CHR ''0''"
  then have "of_char (char_of (d + 48)) = (of_char (CHR ''0'') :: nat)" by simp
  then show "d = 0" using \<open>d < 10\<close> by simp
qed (simp add: char_of_def bit_Suc_0_iff)

section \<open>Properties\<close>

text \<open>C19: \<open>itoa\<close> prints the decimal numeral of every 32-bit number: the printed digits read back to
  the number, they are one to ten decimal digits, and only zero has a leading zero. The in-place
  reversal and the bounded digit loop are part of what is evaluated.\<close>

theorem itoa_decimal:
  "numeral_value 10 dec_val (itoa n NUM_BUF_MAX) = unat n \<and>
   list_all is_digit (itoa n NUM_BUF_MAX) \<and>
   length (itoa n NUM_BUF_MAX) \<in> {1..10} \<and>
   (hd (itoa n NUM_BUF_MAX) = CHR ''0'') = (n = 0)"
proof (intro conjI)
  let ?ds = "digits 10 (unat n)"
  show "numeral_value 10 dec_val (itoa n NUM_BUF_MAX) = unat n"
    by (simp only: itoa_digits itoa.value_digits)
  show "list_all is_digit (itoa n NUM_BUF_MAX)"
    by (auto simp: itoa_digits list_all_iff is_digit_def dest!: digits_bound [rotated])
  have "0 < length ?ds" by simp
  then show "length (itoa n NUM_BUF_MAX) \<in> {1..10}"
    using u32_digits_length(1) [of n] by (simp add: itoa_digits Suc_le_eq del: length_greater_0_conv)
  have "last ?ds < 10" by (rule digits_bound [of 10 _ "unat n"]) simp_all
  then have "hd (itoa n NUM_BUF_MAX) = CHR ''0'' \<longleftrightarrow> last ?ds = 0"
    using dec_zero_char by (simp add: itoa_digits hd_map hd_rev)
  also have "\<dots> \<longleftrightarrow> n = 0"
    using digits_last [of 10 "unat n"] by (cases "n = 0") (simp_all add: digits.simps [of 10 0] unat_gt_0)
  finally show "(hd (itoa n NUM_BUF_MAX) = CHR ''0'') = (n = 0)" .
qed

text \<open>\<open>xtoa\<close> prints the hexadecimal numeral of every 32-bit number in lower case, reads back to
  the number, and returns the number of digits it printed.\<close>

lemma xtoa_hexadecimal:
  "numeral_value 16 hex_val (fst (xtoa n NUM_BUF_MAX)) = unat n \<and>
   set (fst (xtoa n NUM_BUF_MAX)) \<subseteq> set hexchars \<and>
   unat (snd (xtoa n NUM_BUF_MAX)) = length (fst (xtoa n NUM_BUF_MAX)) \<and>
   length (fst (xtoa n NUM_BUF_MAX)) \<in> {1..8}"
proof (intro conjI)
  let ?ds = "digits 16 (unat n)"
  show "numeral_value 16 hex_val (fst (xtoa n NUM_BUF_MAX)) = unat n"
    by (simp only: xtoa_digits xtoa.value_digits fst_conv)
  show "set (fst (xtoa n NUM_BUF_MAX)) \<subseteq> set hexchars"
    by (auto simp: xtoa_digits hexchars_def intro!: nth_mem dest!: digits_bound [rotated]
        simp del: list.set)
  have "0 < length ?ds" by simp
  then show "length (fst (xtoa n NUM_BUF_MAX)) \<in> {1..8}"
    using u32_digits_length(2) [of n] by (simp add: xtoa_digits Suc_le_eq del: length_greater_0_conv)
  have "unat (of_nat (length ?ds) :: u32) = length ?ds"
    using u32_digits_length(2) [of n] by (intro unat_of_nat_u32) simp
  then show "unat (snd (xtoa n NUM_BUF_MAX)) = length (fst (xtoa n NUM_BUF_MAX))"
    by (simp add: xtoa_digits)
qed

text \<open>C16: \<open>vsprintf_s\<close> formats: for every format made of literal characters and of the conversions
  \<^verbatim>\<open>%s\<close>, \<^verbatim>\<open>%c\<close>, \<^verbatim>\<open>%d\<close>, \<^verbatim>\<open>%x\<close> and padded \<^verbatim>\<open>%x\<close>, with the matching arguments, and a buffer larger than the
  bytes it counts, the buffer receives exactly the concatenated texts of the tokens and a
  terminator, and the result is the count of the bytes printed by literals, strings and
  characters.\<close>

theorem vsprintf_s_formats:
  assumes "list_all tok_wf ts"
    and "sum_list (map tok_count ts) + 1 < unat bufsize" and "unat bufsize < 2 ^ 31"
  shows "vsprintf_s bufsize (concat (map tok_fmt ts)) (concat (map tok_arg ts)) =
    Inr (toks_text (CHR '' '', 0) ts @ [char_of (0 :: nat)], of_nat (sum_list (map tok_count ts)))"
  using assms vsprintf_toks [where ts = ts and w = 0 and sz = bufsize and extra = "[]" and out = "[]"] by (simp add: vsprintf_s_def)

theorem vsprintf_s_formats_witness:
  "vsprintf_s 1024 ''cr0: 0x%08x%c'' [VInt 0x80010011, VInt 10] =
    Inr (''cr0: 0x80010011'' @ [char_of (10 :: nat), char_of (0 :: nat)], 8)"
  using vsprintf_s_formats [of "map Lit ''cr0: 0x'' @ [HexPad (CHR ''0'') ''8'' 0x80010011, Chr 10]" 1024]
  by (simp add: is_digit_def hex_text_def hexchars_def digits.simps pad_left_def)

text \<open>The size argument of \<open>vsprintf_s\<close> does not bound numeric conversions: they never advance
  \<^verbatim>\<open>written\<close>, so \<open>k\<close> conversions \<^verbatim>\<open>%d\<close> of the largest number store \<open>10 * k + 1\<close> bytes through
  the buffer pointer whatever the buffer size is, and the reported length is zero.\<close>

lemma vsprintf_s_numbers_ignore_bufsize:
  assumes "2 \<le> unat bufsize" and "unat bufsize < 2 ^ 31"
  shows "\<exists>out. vsprintf_s bufsize (concat (replicate k ''%d'')) (replicate k (VInt (- 1))) = Inr (out, 0)
    \<and> length out = 10 * k + 1"
proof -
  have "digits 10 (unat (- 1 :: u32)) = [5, 9, 2, 7, 6, 9, 4, 9, 2, 4]"
    by (simp add: unsigned_minus_1_eq_mask mask_eq_exp_minus_1 digits.simps)
  then have len: "length (toks_text pad (replicate k (Dec (- 1)))) = 10 * k" for pad
    by (induction k) (simp_all add: dec_text_def)
  have "concat (map tok_fmt (replicate k (Dec (- 1)))) = concat (replicate k ''%d'')"
    "concat (map tok_arg (replicate k (Dec (- 1)))) = replicate k (VInt (- 1))"
    "sum_list (map tok_count (replicate k (Dec (- 1)))) = 0"
    by (induction k) simp_all
  then show ?thesis
    using assms vsprintf_toks [where ts = "replicate k (Dec (- 1))" and w = 0 and sz = bufsize and extra = "[]" and out = "[]"] len
    by (simp add: vsprintf_s_def list_all_iff sum_list_replicate)
qed

text \<open>\<open>memcpy\<close> copies: unless the destination starts strictly inside the source range (where a
  forward byte copy repeats itself), every destination byte is the old source byte and every
  other byte of memory is unchanged, also across the wrap of the address space and also when
  the two ranges overlap with the destination below the source.\<close>

lemma memcpy_copies:
  assumes "dest = src \<or> unat n \<le> unat (dest - src)"
  shows "memcpy m dest src n = (\<lambda>x. if unat (x - dest) < unat n then m (src + (x - dest)) else m x)"
  using memcpy_apply [OF assms] by blast

text \<open>\<open>strlen\<close> terminates with the distance to the first zero byte, whenever there is one.\<close>

lemma strlen_first_zero:
  assumes "m (str + of_nat n) = 0" and "\<forall>i < n. m (str + of_nat i) \<noteq> 0"
  shows "strlen m str = Some (of_nat n)"
  using strlen_loop_finds [OF assms, of 0] by (simp add: strlen_def)

end
