(* ===== verification/Console.thy ===== *)
theory Console
  imports Stdlib
begin

text \<open>
  The text console of \<^verbatim>\<open>arch/i686/drivers/vga.c\<close> and what prints to it: \<^verbatim>\<open>kprintf\<close>
  (\<^verbatim>\<open>kern/kprint.c\<close>) and the \<^verbatim>\<open>log\<close> macro (\<^verbatim>\<open>kern/log.h\<close>). The screen is byte memory at
  \<^verbatim>\<open>term_buff\<close>, two bytes per character; the index of a character is not checked by the code, so
  the model stores wherever it points. The memory of the console is a component of its own: a store
  beyond the 25 rows (after several line breaks, \<open>console_newlines_overrun\<close> below) is a store into
  the bytes behind the screen and does not reach the other state of the kernel, nor does it fault.
\<close>

section \<open>State\<close>

record vga_char_t =
  character :: u8
  vc_attrib :: u8

definition VGA_WIDTH :: nat where "VGA_WIDTH = 80"
definition VGA_HEIGHT :: nat where "VGA_HEIGHT = 25"
definition VGA_TOTAL :: nat where "VGA_TOTAL = VGA_HEIGHT * VGA_WIDTH"

record console =
  con_mem :: mem
  term_buff :: vaddr_t
  vga_cmd_port :: vaddr_t
  con_x :: u16
  con_y :: u16
  cursor_x :: u16
  cursor_y :: u16
  color_attrib :: u8

text \<open>\<^verbatim>\<open>term_buff[i]\<close>, as the address of the element and as a load and a store.\<close>

definition vga_addr :: "console \<Rightarrow> nat \<Rightarrow> u32" where
  "vga_addr s i = term_buff s + 2 * of_nat i"

definition vga_get :: "nat \<Rightarrow> console \<Rightarrow> vga_char_t" where
  "vga_get i s = \<lparr>character = con_mem s (vga_addr s i), vc_attrib = con_mem s (vga_addr s i + 1)\<rparr>"

definition vga_put :: "nat \<Rightarrow> vga_char_t \<Rightarrow> console \<Rightarrow> console" where
  "vga_put i c s = s\<lparr>con_mem := (con_mem s)(vga_addr s i := character c, vga_addr s i + 1 := vc_attrib c)\<rparr>"

definition clr :: vga_char_t where
  "clr = \<lparr>character = 0x20, vc_attrib = 0\<rparr>"

section \<open>Operations\<close>

definition console_clear_screen :: "console \<Rightarrow> console" where
  "console_clear_screen s = fold (\<lambda>i. vga_put i clr) [0..<VGA_TOTAL] s"

definition console_init :: "vaddr_t \<Rightarrow> console \<Rightarrow> console" where
  "console_init console_debug s =
     console_clear_screen (s\<lparr>term_buff := console_debug, vga_cmd_port := console_debug + 0x3D4\<rparr>)"

definition console_set_ports :: "vaddr_t \<Rightarrow> vaddr_t \<Rightarrow> console \<Rightarrow> console" where
  "console_set_ports trm cmd s = s\<lparr>term_buff := trm, vga_cmd_port := cmd\<rparr>"

definition console_move_cursor :: "u16 \<Rightarrow> u16 \<Rightarrow> console \<Rightarrow> console" where
  "console_move_cursor x y s =
     (let new_location = x * 80 + y; p = vga_cmd_port s
      in s\<lparr>cursor_x := x, cursor_y := y,
           con_mem := (con_mem s)(p := 14, p + 1 := ucast (drop_bit 8 new_location),
             p := 15, p + 1 := ucast (new_location AND 0xFF))\<rparr>)"

definition console_set_color :: "u8 \<Rightarrow> u8 \<Rightarrow> console \<Rightarrow> console" where
  "console_set_color forecolor backcolor s = s\<lparr>color_attrib := push_bit 4 backcolor OR forecolor\<rparr>"

definition console_scroll :: "console \<Rightarrow> console" where
  "console_scroll s =
     fold (\<lambda>j. vga_put j clr) [VGA_WIDTH * (VGA_HEIGHT - 1)..<VGA_TOTAL]
       (fold (\<lambda>i s. vga_put i (vga_get (i + VGA_WIDTH) s) s) [0..<VGA_WIDTH * (VGA_HEIGHT - 1)] s)"

text \<open>One turn of the loop of \<^verbatim>\<open>console_write_string\<close>.\<close>

definition console_put :: "u8 \<Rightarrow> char \<Rightarrow> console \<Rightarrow> console" where
  "console_put attr c s =
     (if c = CHR 0x0A then s\<lparr>con_y := con_y s + 1, con_x := 0\<rparr>
      else if c = CHR 0x0D then s\<lparr>con_x := 0\<rparr>
      else
        let s = (if of_nat VGA_WIDTH \<le> con_x s then s\<lparr>con_x := 0, con_y := con_y s + 1\<rparr> else s);
            s = (if of_nat VGA_HEIGHT \<le> con_y s
                 then let s = console_scroll s in s\<lparr>con_y := con_y s - 1\<rparr> else s);
            s = s\<lparr>con_x := con_x s + 1\<rparr>
        in vga_put (unat (con_y s) * VGA_WIDTH + unat (con_x s))
             \<lparr>character = of_nat (of_char c), vc_attrib = attr\<rparr> s)"

text \<open>A C string ends at the first zero byte.\<close>

definition c_string :: "string \<Rightarrow> string" where
  "c_string s = takeWhile (\<lambda>c. c \<noteq> CHR 0x00) s"

definition console_write_string :: "string \<Rightarrow> console \<Rightarrow> console" where
  "console_write_string str s = fold (console_put (color_attrib s)) (c_string str) s"

section \<open>Printing\<close>

definition KPRINT_BUFF_LEN :: u32 where "KPRINT_BUFF_LEN = 1024"

text \<open>The buffer is on the stack of \<^verbatim>\<open>kprintf\<close>; a text that does not fit overwrites what lies above it.\<close>

definition kprintf :: "string \<Rightarrow> va list \<Rightarrow> console \<Rightarrow> (u32 \<times> console) outcome" where
  "kprintf fmt args s =
     bindE (vsprintf_s KPRINT_BUFF_LEN fmt args) (\<lambda>(buff, print_size).
       if unat KPRINT_BUFF_LEN < length buff then Inl Out_Of_Bounds
       else Inr (print_size, console_write_string buff s))"

text \<open>\<^verbatim>\<open>log(LEVEL, format, ...)\<close> in the given source file and line.\<close>

definition klog :: "string \<Rightarrow> string \<Rightarrow> u32 \<Rightarrow> string \<Rightarrow> va list \<Rightarrow> console \<Rightarrow> (u32 \<times> console) outcome" where
  "klog level file line fmt args s =
     kprintf (''['' @ level @ '':%s:%d] %s'' @ [CHR 0x0A]) ([VStr (Some file), VInt line, VStr (Some fmt)] @ args) s"

section \<open>Cells\<close>

text \<open>Two cells below \<open>2\<^sup>30\<close> do not share a byte.\<close>

lemma vga_addr_eq:
  assumes "i < 2 ^ 30" "j < 2 ^ 30" "d < 2" "e < 2"
  shows "vga_addr s i + of_nat d = vga_addr s j + of_nat e \<longleftrightarrow> i = j \<and> d = e"
proof -
  have u: "unat (2 * of_nat k + of_nat x :: u32) = 2 * k + x" if "k < 2 ^ 30" "x < 2" for k x :: nat
    using that unat_of_nat_u32 [of "2 * k + x"] by simp
  have "vga_addr s i + of_nat d = vga_addr s j + of_nat e \<longleftrightarrow> (2 * of_nat i + of_nat d :: u32) = 2 * of_nat j + of_nat e"
    by (simp add: vga_addr_def add.assoc)
  also have "\<dots> \<longleftrightarrow> 2 * i + d = 2 * j + e" using u [OF assms(1,3)] u [OF assms(2,4)] by (simp only: word_unat_eq_iff)
  also have "\<dots> \<longleftrightarrow> i = j \<and> d = e" using assms(3,4) by (cases "d = e") presburger+
  finally show ?thesis .
qed

lemma vga_get_put:
  assumes "i < 2 ^ 30" "j < 2 ^ 30"
  shows "vga_get i (vga_put j c s) = (if i = j then c else vga_get i s)"
  using vga_addr_eq [OF assms, of 0 0 s] vga_addr_eq [OF assms, of 0 1 s] vga_addr_eq [OF assms, of 1 0 s]
    vga_addr_eq [OF assms, of 1 1 s]
  by (auto simp: vga_get_def vga_put_def vga_addr_def)

lemma vga_put_simps [simp]:
  "term_buff (vga_put i c s) = term_buff s" "con_x (vga_put i c s) = con_x s" "con_y (vga_put i c s) = con_y s"
  "color_attrib (vga_put i c s) = color_attrib s" "vga_cmd_port (vga_put i c s) = vga_cmd_port s"
  "cursor_x (vga_put i c s) = cursor_x s" "cursor_y (vga_put i c s) = cursor_y s"
  by (simp_all add: vga_put_def)

lemma vga_get_upd [simp]:
  "vga_get i (s\<lparr>con_x := x\<rparr>) = vga_get i s" "vga_get i (s\<lparr>con_y := y\<rparr>) = vga_get i s"
  by (simp_all add: vga_get_def vga_addr_def)

text \<open>What a sequence of stores below cell \<open>n\<close> leaves alone: everything but the position and the bytes of
  those cells.\<close>

definition con_frame :: "nat \<Rightarrow> console \<Rightarrow> console \<Rightarrow> bool" where
  "con_frame n s s' \<longleftrightarrow> s' = s\<lparr>con_mem := con_mem s', con_x := con_x s', con_y := con_y s'\<rparr>
     \<and> (\<forall>a. 2 * n \<le> unat (a - term_buff s) \<longrightarrow> con_mem s' a = con_mem s a)"

lemma con_frame_refl [simp]: "con_frame n s s"
  by (simp add: con_frame_def)

lemma con_frame_fields:
  assumes "con_frame n s s'"
  shows "term_buff s' = term_buff s" "color_attrib s' = color_attrib s" "vga_cmd_port s' = vga_cmd_port s"
    "cursor_x s' = cursor_x s" "cursor_y s' = cursor_y s"
proof -
  have "s' = s\<lparr>con_mem := con_mem s', con_x := con_x s', con_y := con_y s'\<rparr>" using assms by (simp add: con_frame_def)
  then obtain f x y where "s' = s\<lparr>con_mem := f, con_x := x, con_y := y\<rparr>" by blast
  then show "term_buff s' = term_buff s" "color_attrib s' = color_attrib s" "vga_cmd_port s' = vga_cmd_port s"
    "cursor_x s' = cursor_x s" "cursor_y s' = cursor_y s" by simp_all
qed

lemma con_frame_mono: "con_frame n s s' \<Longrightarrow> n \<le> k \<Longrightarrow> con_frame k s s'"
  by (simp add: con_frame_def)

lemma con_frame_trans: "con_frame n s s1 \<Longrightarrow> con_frame n s1 s2 \<Longrightarrow> con_frame n s s2"
  using con_frame_fields(1) [of n s s1]
  by (cases s; cases s1; cases s2) (simp add: con_frame_def)

lemma con_frame_put: "i < n \<Longrightarrow> n \<le> 2 ^ 30 \<Longrightarrow> con_frame n s (vga_put i c s)"
proof -
  assume i: "i < n" "n \<le> 2 ^ 30"
  have "a \<noteq> vga_addr s i" "a \<noteq> vga_addr s i + 1" if "2 * n \<le> unat (a - term_buff s)" for a
    using that i unat_of_nat_u32 [of "2 * i"] unat_of_nat_u32 [of "2 * i + 1"] by (auto simp: vga_addr_def ac_simps)
  then show ?thesis by (simp add: con_frame_def vga_put_def)
qed

lemma con_frame_upd [simp]:
  "con_frame n s (s'\<lparr>con_x := x\<rparr>) = con_frame n s s'" "con_frame n s (s'\<lparr>con_y := y\<rparr>) = con_frame n s s'"
  by (cases s; cases s'; simp add: con_frame_def)+

section \<open>Scrolling\<close>

lemma scroll_copy:
  assumes "i < 2 ^ 30" "n \<le> 1920"
  shows "vga_get i (fold (\<lambda>i s. vga_put i (vga_get (i + VGA_WIDTH) s) s) [0..<n] s) =
      (if i < n then vga_get (i + 80) s else vga_get i s)"
    "con_x (fold (\<lambda>i s. vga_put i (vga_get (i + VGA_WIDTH) s) s) [0..<n] s) = con_x s"
    "con_y (fold (\<lambda>i s. vga_put i (vga_get (i + VGA_WIDTH) s) s) [0..<n] s) = con_y s"
    "con_frame 2000 s (fold (\<lambda>i s. vga_put i (vga_get (i + VGA_WIDTH) s) s) [0..<n] s)"
  using assms
proof (induction n arbitrary: i)
  case (Suc n)
  let ?f = "fold (\<lambda>i s. vga_put i (vga_get (i + VGA_WIDTH) s) s) [0..<n] s"
  have e: "fold (\<lambda>i s. vga_put i (vga_get (i + VGA_WIDTH) s) s) [0..<Suc n] s = vga_put n (vga_get (n + VGA_WIDTH) ?f) ?f"
    by simp
  { case 1
    then have "vga_get (n + 80) ?f = vga_get (n + 80) s" using Suc.IH(1) [of "n + 80"] by simp
    then show ?case unfolding e using Suc.IH(1) [of i] 1 by (auto simp: vga_get_put VGA_WIDTH_def) }
  case 2 then show ?case unfolding e using Suc.IH(2) [OF 2(1)] by simp
  case 3 then show ?case unfolding e using Suc.IH(3) [OF 3(1)] by simp
  case 4 then show ?case unfolding e
    using con_frame_trans [OF Suc.IH(4) [OF 4(1)] con_frame_put [of n 2000]] by simp
qed simp_all

lemma fill_clr:
  assumes "i < 2 ^ 30" "n \<le> 2000"
  shows "vga_get i (fold (\<lambda>j. vga_put j clr) [m..<n] s) = (if m \<le> i \<and> i < n then clr else vga_get i s)"
    "con_x (fold (\<lambda>j. vga_put j clr) [m..<n] s) = con_x s" "con_y (fold (\<lambda>j. vga_put j clr) [m..<n] s) = con_y s"
    "con_frame 2000 s (fold (\<lambda>j. vga_put j clr) [m..<n] s)"
  using assms
proof (induction n arbitrary: i)
  case (Suc n)
  { case 1 then show ?case using Suc.IH(1) [of i] by (auto simp: vga_get_put) }
  case 2 then show ?case using Suc.IH(2) [OF 2(1)] by simp
  case 3 then show ?case using Suc.IH(3) [OF 3(1)] by simp
  case 4 then show ?case using con_frame_trans [OF Suc.IH(4) [OF 4(1)] con_frame_put [of n 2000]] by simp
qed simp_all

lemmas vga_consts = VGA_WIDTH_def VGA_HEIGHT_def VGA_TOTAL_def

lemma console_scroll_view:
  assumes "i < 2 ^ 30"
  shows "vga_get i (console_scroll s) = (if i < 1920 then vga_get (i + 80) s else if i < 2000 then clr else vga_get i s)"
    "con_x (console_scroll s) = con_x s" "con_y (console_scroll s) = con_y s" "con_frame 2000 s (console_scroll s)"
proof -
  have e: "console_scroll s = fold (\<lambda>j. vga_put j clr) [1920..<2000]
      (fold (\<lambda>i s. vga_put i (vga_get (i + VGA_WIDTH) s) s) [0..<1920] s)"
    by (simp add: console_scroll_def vga_consts)
  note S = scroll_copy [OF assms, of 1920 s]
  show "vga_get i (console_scroll s) = (if i < 1920 then vga_get (i + 80) s else if i < 2000 then clr else vga_get i s)"
    unfolding e fill_clr(1) [OF assms le_refl] using S(1) by simp
  show "con_x (console_scroll s) = con_x s" "con_y (console_scroll s) = con_y s"
    unfolding e using fill_clr(2,3) [OF assms le_refl] S by simp_all
  show "con_frame 2000 s (console_scroll s)"
    unfolding e by (rule con_frame_trans [OF S(4) fill_clr(4) [OF assms le_refl]]) simp
qed

section \<open>The screen as a tape\<close>

text \<open>
  The abstract terminal: the cells as a function of their index, and the number of the last cell
  written. Text goes into the next cell; at the end of the tape it scrolls by one row.
\<close>

definition a_put :: "u8 \<Rightarrow> char \<Rightarrow> (nat \<Rightarrow> vga_char_t) \<times> nat \<Rightarrow> (nat \<Rightarrow> vga_char_t) \<times> nat" where
  "a_put attr c = (\<lambda>(T, p).
     let (T, p) = (if p = 2000 then (\<lambda>i. if i < 1920 then T (i + 80) else if i < 2000 then clr else T i, 1920) else (T, p))
     in (T(p + 1 := \<lparr>character = of_nat (of_char c), vc_attrib = attr\<rparr>), p + 1))"

definition con_pos :: "console \<Rightarrow> nat" where
  "con_pos s = 80 * unat (con_y s) + unat (con_x s)"

definition con_ok :: "console \<Rightarrow> bool" where
  "con_ok s \<longleftrightarrow> unat (con_y s) \<le> 24 \<and> unat (con_x s) \<le> 80"

definition con_rel :: "console \<Rightarrow> (nat \<Rightarrow> vga_char_t) \<times> nat \<Rightarrow> bool" where
  "con_rel s = (\<lambda>(T, p). con_ok s \<and> p = con_pos s \<and> (\<forall>i \<le> 2000. vga_get i s = T i))"

abbreviation printable :: "char \<Rightarrow> bool" where
  "printable c \<equiv> c \<notin> {CHR 0x00, CHR 0x0A, CHR 0x0D}"

lemma unat_u16_inc: "unat (a :: u16) < 65535 \<Longrightarrow> unat (a + 1) = unat a + 1"
  by (simp add: unat_word_ariths)


text \<open>The wrap to the next line and the scroll before a character is stored.\<close>

definition console_room :: "console \<Rightarrow> console" where
  "console_room s =
     (let s = (if of_nat VGA_WIDTH \<le> con_x s then s\<lparr>con_x := 0, con_y := con_y s + 1\<rparr> else s)
      in if of_nat VGA_HEIGHT \<le> con_y s then (console_scroll s)\<lparr>con_y := con_y s - 1\<rparr> else s)"

lemma console_put_room:
  assumes "c \<noteq> CHR 0x0A" "c \<noteq> CHR 0x0D"
  shows "console_put attr c s = (let s = console_room s
     in vga_put (unat (con_y s) * 80 + unat (con_x s + 1)) \<lparr>character = of_nat (of_char c), vc_attrib = attr\<rparr> (s\<lparr>con_x := con_x s + 1\<rparr>))"
  using assms console_scroll_view(3) [of 0] by (simp add: console_put_def console_room_def Let_def VGA_WIDTH_def)

lemma console_room_view:
  assumes ok: "con_ok s"
  shows "con_ok (console_room s) \<and> unat (con_x (console_room s)) < 80 \<and> con_frame 2000 s (console_room s)
    \<and> (if con_pos s = 2000
       then con_pos (console_room s) = 1920 \<and> (\<forall>i < 2 ^ 30. vga_get i (console_room s) =
              (if i < 1920 then vga_get (i + 80) s else if i < 2000 then clr else vga_get i s))
       else con_pos (console_room s) = con_pos s \<and> (\<forall>i < 2 ^ 30. vga_get i (console_room s) = vga_get i s))"
proof -
  have xy: "unat (con_x s) \<le> 80" "unat (con_y s) \<le> 24" using ok by (auto simp: con_ok_def)
  have full: "of_nat VGA_WIDTH \<le> con_x s \<longleftrightarrow> unat (con_x s) = 80" using xy by (auto simp: word_le_nat_alt VGA_WIDTH_def)
  have y1: "unat (con_y s + 1) = unat (con_y s) + 1" using xy by (intro unat_u16_inc) simp
  consider "unat (con_x s) < 80" | "unat (con_x s) = 80" "unat (con_y s) < 24" | "unat (con_x s) = 80" "unat (con_y s) = 24"
    using xy by linarith
  then show ?thesis
  proof cases
    case 1
    then have "console_room s = s" using full xy by (simp add: console_room_def Let_def word_le_nat_alt VGA_HEIGHT_def)
    then show ?thesis using ok 1 xy by (auto simp: con_pos_def)
  next
    case 2
    then have "console_room s = s\<lparr>con_x := 0, con_y := con_y s + 1\<rparr>"
      using full y1 by (simp add: console_room_def Let_def word_le_nat_alt VGA_HEIGHT_def)
    then show ?thesis using 2 y1 by (auto simp: con_pos_def con_ok_def)
  next
    case 3
    then have r: "console_room s = (console_scroll (s\<lparr>con_x := 0, con_y := con_y s + 1\<rparr>))\<lparr>con_y := con_y s\<rparr>"
      using full y1 by (simp add: console_room_def Let_def word_le_nat_alt VGA_HEIGHT_def)
    note S = console_scroll_view [where s = "s\<lparr>con_x := 0, con_y := con_y s + 1\<rparr>"]
    have "con_frame 2000 s (console_room s)"
      unfolding r using con_frame_trans [OF _ S(4) [of 0], of s] by simp
    then show ?thesis using 3 unfolding r by (auto simp: con_pos_def con_ok_def S(1) S(2) [of 0])
  qed
qed

lemma console_put_tape:
  assumes "con_rel s a" "printable c"
  shows "con_rel (console_put attr c s) (a_put attr c a) \<and> con_frame 2001 s (console_put attr c s)"
proof -
  obtain T p where a: "a = (T, p)" by (cases a)
  let ?r = "console_room s" and ?c = "\<lparr>character = of_nat (of_char c), vc_attrib = attr\<rparr>"
  have ok: "con_ok s" and p: "p = con_pos s" and T: "\<And>i. i \<le> 2000 \<Longrightarrow> vga_get i s = T i"
    using assms(1) by (auto simp: con_rel_def a)
  note R = console_room_view [OF ok]
  have x: "unat (con_x ?r) < 80" and y: "unat (con_y ?r) \<le> 24" using R by (auto simp: con_ok_def)
  have x1: "unat (con_x ?r + 1) = unat (con_x ?r) + 1" using x by (intro unat_u16_inc) simp
  have q: "con_pos ?r + 1 \<le> 2000" using x y by (simp add: con_pos_def)
  have put: "console_put attr c s = vga_put (con_pos ?r + 1) ?c (?r\<lparr>con_x := con_x ?r + 1\<rparr>)"
    using assms(2) x1 by (simp add: console_put_room Let_def con_pos_def mult.commute)
  let ?s' = "console_put attr c s"
  have get: "vga_get i ?s' = (if i = con_pos ?r + 1 then ?c else vga_get i ?r)" if "i \<le> 2000" for i
    unfolding put using that q by (simp add: vga_get_put)
  have "con_frame 2001 s ?r" using R con_frame_mono [of 2000 s ?r 2001] by simp
  moreover have "con_frame 2001 ?r ?s'" unfolding put using con_frame_put [of "con_pos ?r + 1" 2001 "?r\<lparr>con_x := con_x ?r + 1\<rparr>"] q
    con_frame_trans [of 2001 ?r "?r\<lparr>con_x := con_x ?r + 1\<rparr>"] by simp
  ultimately have fr: "con_frame 2001 s ?s'" by (rule con_frame_trans)
  have pos: "con_pos ?s' = con_pos ?r + 1" "con_ok ?s'" unfolding put using x1 x y by (simp_all add: con_pos_def con_ok_def)
  have cell: "vga_get i ?s' = fst (a_put attr c a) i" if "i \<le> 2000" for i
    using get [OF that] R T [of i] T [of "i + 80"] that p by (auto simp: a_put_def a split: if_splits)
  have "snd (a_put attr c a) = con_pos ?s'" using R pos p by (auto simp: a_put_def a split: if_splits)
  then show ?thesis using fr pos cell by (auto simp: con_rel_def split: prod.splits)
qed

lemma console_put_x:
  assumes "con_ok s" "printable c"
  shows "con_x (console_put attr c s) \<noteq> 0"
proof -
  have "unat (con_x (console_room s)) < 80" using console_room_view [OF assms(1)] by simp
  then have "unat (con_x (console_room s) + 1) \<noteq> 0" by (subst unat_u16_inc) simp_all
  then have "con_x (console_room s) + 1 \<noteq> 0" by auto
  then show ?thesis using assms(2) by (simp add: console_put_room Let_def)
qed

lemma console_put_color [simp]: "color_attrib (console_put attr c s) = color_attrib s"
  using con_frame_fields(2) [OF console_scroll_view(4) [of 0]] by (auto simp: console_put_def Let_def)

text \<open>
  The interface of a character device to the code that prints strings: one step of the device
  simulates one step of a specification for every character it takes as text.
\<close>

locale char_device =
  fixes put :: "char \<Rightarrow> 's \<Rightarrow> 's" and spec :: "char \<Rightarrow> 'a \<Rightarrow> 'a" and rel :: "'s \<Rightarrow> 'a \<Rightarrow> bool" and takes :: "char \<Rightarrow> bool"
  assumes put_spec: "rel s a \<Longrightarrow> takes c \<Longrightarrow> rel (put c s) (spec c a)"
begin

lemma write_spec: "rel s a \<Longrightarrow> list_all takes str \<Longrightarrow> rel (fold put str s) (fold spec str a)"
  by (induction str arbitrary: s a) (simp_all add: put_spec)

end

interpretation vga: char_device "console_put attr" "a_put attr" "\<lambda>s a. con_rel s a \<and> con_frame 2001 s0 s" printable
proof
  fix s a c assume "con_rel s a \<and> con_frame 2001 s0 s" "printable c"
  then show "con_rel (console_put attr c s) (a_put attr c a) \<and> con_frame 2001 s0 (console_put attr c s)"
    using console_put_tape [of s a c attr] con_frame_trans [of 2001 s0 s] by blast
qed

lemma written_con_x:
  assumes "con_ok s" "\<forall>c \<in> set str. printable c" "str \<noteq> []"
  shows "con_x (fold (console_put attr) str s) \<noteq> 0"
proof -
  obtain str' c where str: "str = str' @ [c]" using assms(3) by (meson rev_exhaust)
  have "con_rel s (\<lambda>j. vga_get j s, con_pos s)" using assms(1) by (simp add: con_rel_def)
  then have "con_rel (fold (console_put attr) str' s) (fold (a_put attr) str' (\<lambda>j. vga_get j s, con_pos s)) \<and> con_frame 2001 s (fold (console_put attr) str' s)"
    using assms(2) str by (intro vga.write_spec) (auto simp: list_all_iff)
  then have "con_ok (fold (console_put attr) str' s)" by (auto simp: con_rel_def)
  then show ?thesis using console_put_x assms(2) str by simp
qed

lemma c_string_plain: "CHR 0x00 \<notin> set s \<Longrightarrow> c_string (s @ CHR 0x00 # rest) = s"
  by (auto simp: c_string_def takeWhile_append)

lemma c_string_end: "c_string (s @ [CHR 0x00]) = c_string s"
  by (induction s) (simp_all add: c_string_def)

section \<open>What is on the screen\<close>

text \<open>
  The cells counted from the top of the screen before the text was written, without an end: the
  text follows the position \<open>p\<close>. A cell from 2000 on comes into view by scrolling and is blank where
  no text reaches, and so is the first one of each such row: the code puts the 80th character of the
  last row into cell 2000, from where no scroll brings it back.
\<close>

definition text_cell :: "u8 \<Rightarrow> char \<Rightarrow> vga_char_t" where
  "text_cell attr c = \<lparr>character = of_nat (of_char c), vc_attrib = attr\<rparr>"

definition written_cell :: "u8 \<Rightarrow> string \<Rightarrow> nat \<Rightarrow> (nat \<Rightarrow> vga_char_t) \<Rightarrow> nat \<Rightarrow> vga_char_t" where
  "written_cell attr str p T t =
     (if 2000 \<le> t \<and> (t mod 80 = 0 \<or> p + length str < t) then clr
      else if p < t \<and> t \<le> p + length str then text_cell attr (str ! (t - p - 1)) else T t)"

text \<open>The rows scrolled away, and what cell 2000, behind the screen, holds.\<close>

definition rows_scrolled :: "nat \<Rightarrow> nat" where
  "rows_scrolled q = (q - 1921) div 80"

definition behind_cell :: "u8 \<Rightarrow> string \<Rightarrow> nat \<Rightarrow> (nat \<Rightarrow> vga_char_t) \<Rightarrow> vga_char_t" where
  "behind_cell attr str p T =
     (let t = 2000 + 80 * ((p + length str - 2000) div 80)
      in if p < t \<and> t \<le> p + length str then text_cell attr (str ! (t - p - 1)) else T 2000)"

lemma rows_scrolled_range:
  "q \<le> 2000 \<and> rows_scrolled q = 0 \<or> 1920 + 80 * rows_scrolled q < q \<and> q \<le> 2000 + 80 * rows_scrolled q \<and> 2000 < q"
proof (cases "q \<le> 2000")
  case False
  have "80 * ((q - 1921) div 80) \<le> q - 1921" "q - 1921 < 80 * ((q - 1921) div 80) + 80"
    using div_mult_mod_eq [of "q - 1921" 80] mod_less_divisor [of 80 "q - 1921"] by linarith+
  then show ?thesis using False by (simp add: rows_scrolled_def) linarith
qed (simp add: rows_scrolled_def)

lemma rows_scrolled_eq: "1920 + 80 * r < q \<Longrightarrow> q \<le> 2000 + 80 * r \<Longrightarrow> rows_scrolled q = r"
  unfolding rows_scrolled_def by (rule div_nat_eqI) simp_all

lemma behind_cell_snoc:
  assumes "p \<le> 2000"
  shows "behind_cell attr (str @ [c]) p T =
    (if 2000 \<le> p + length str + 1 \<and> (p + length str + 1) mod 80 = 0 then text_cell attr c else behind_cell attr str p T)"
proof -
  let ?q = "p + length str"
  let ?k = "(?q + 1 - 2000) div 80"
  show ?thesis
  proof (cases "2000 \<le> ?q + 1 \<and> (?q + 1) mod 80 = 0")
    case True
    then have "(?q + 1 - 2000) mod 80 = 0" using mod_mult_self3 [of 25 80 "?q + 1 - 2000"] by simp
    then have "2000 + 80 * ?k = ?q + 1" using conjunct1 [OF True] div_mult_mod_eq [of "?q + 1 - 2000" 80] by linarith
    then show ?thesis using True by (simp add: behind_cell_def Let_def nth_append)
  next
    case False
    have k: "(?q - 2000) div 80 = ?k \<and> (2000 + 80 * ?k \<le> ?q \<longleftrightarrow> 2000 + 80 * ?k \<le> ?q + 1)"
    proof (cases "2000 \<le> ?q")
      case True
      then have n0: "(?q - 2000 + 1) mod 80 \<noteq> 0" using False mod_mult_self3 [of 25 80 "?q - 2000 + 1"] by simp
      have "?q + 1 - 2000 = Suc (?q - 2000)" using True by simp
      then have d: "(?q - 2000) div 80 = ?k" using n0 div_Suc [of "?q - 2000" 80] by simp
      have "2000 + 80 * ?k \<noteq> ?q + 1"
      proof
        assume "2000 + 80 * ?k = ?q + 1"
        then have "?q - 2000 + 1 = 80 * ?k" using True by simp
        then show False using n0 by simp
      qed
      then show ?thesis using d by auto
    next
      case q: False
      then have "?q \<noteq> 1999" using False by auto
      then show ?thesis using q by simp
    qed
    then have "2000 + 80 * ?k - p - 1 < length str" if "2000 + 80 * ?k \<le> ?q + 1" "p < 2000 + 80 * ?k" using that by linarith
    then show ?thesis using False k by (auto simp: behind_cell_def Let_def nth_append)
  qed
qed

lemma a_put_written:
  assumes "p \<le> 2000"
  shows "snd (fold (a_put attr) str (T, p)) = p + length str - 80 * rows_scrolled (p + length str)
    \<and> fst (fold (a_put attr) str (T, p)) 2000 = behind_cell attr str p T
    \<and> (\<forall>i < 2000. fst (fold (a_put attr) str (T, p)) i = written_cell attr str p T (i + 80 * rows_scrolled (p + length str)))"
proof (induction str rule: rev_induct)
  case Nil
  have "p \<le> 2000" by (rule assms)
  then show ?case by (auto simp: behind_cell_def written_cell_def rows_scrolled_def Let_def)
next
  case (snoc c str)
  let ?q = "p + length str"
  define r where "r = rows_scrolled ?q"
  obtain F q where f: "fold (a_put attr) str (T, p) = (F, q)" by fastforce
  have IH: "q = ?q - 80 * r" "F 2000 = behind_cell attr str p T" "\<And>i. i < 2000 \<Longrightarrow> F i = written_cell attr str p T (i + 80 * r)"
    using snoc by (simp_all add: f r_def)
  have rg: "?q \<le> 2000 \<and> r = 0 \<or> 1920 + 80 * r < ?q \<and> ?q \<le> 2000 + 80 * r \<and> 2000 < ?q"
    using rows_scrolled_range [of ?q] by (simp add: r_def)
  have old: "written_cell attr (str @ [c]) p T t = written_cell attr str p T t" if "t \<le> ?q" for t
    using that by (auto simp: written_cell_def nth_append)
  have new: "written_cell attr (str @ [c]) p T (?q + 1) = (if 2000 \<le> ?q + 1 \<and> (?q + 1) mod 80 = 0 then clr else text_cell attr c)"
    by (simp add: written_cell_def)
  have later: "written_cell attr (str @ [c]) p T t = written_cell attr str p T t" if "?q + 1 < t" for t
    using that by (simp add: written_cell_def)
  have beh: "behind_cell attr (str @ [c]) p T = (if 2000 \<le> ?q + 1 \<and> (?q + 1) mod 80 = 0 then text_cell attr c else F 2000)"
    using behind_cell_snoc [OF assms] IH(2) by simp
  show ?case
  proof (cases "?q = 2000 + 80 * r")
    case True
    have r': "rows_scrolled (?q + 1) = r + 1" using True by (intro rows_scrolled_eq) simp_all
    have q: "q = 2000" using IH(1) True by simp
    have m: "(?q + 1) mod 80 = 1" using mod_mult_self3 [of "25 + r" 80 1] True by (simp add: algebra_simps)
    define G where "G = (\<lambda>i. if i < 1920 then F (i + 80) else if i < 2000 then clr else F i)(1921 := text_cell attr c)"
    have "fold (a_put attr) (str @ [c]) (T, p) = (G, 1921)" using f q by (simp add: a_put_def text_cell_def G_def)
    moreover have "G i = written_cell attr (str @ [c]) p T (i + 80 * (r + 1))" if "i < 2000" for i
    proof -
      consider "i < 1920" | "i = 1920" | "i = 1921" | "1921 < i" by linarith
      then show ?thesis
      proof cases
        case 1
        then show ?thesis using IH(3) [of "i + 80"] old [of "i + 80 * (r + 1)"] True by (simp add: G_def algebra_simps)
      next
        case 2
        then have "i + 80 * (r + 1) = 80 * (25 + r)" by simp
        then show ?thesis using 2 by (simp add: G_def written_cell_def del: mult_Suc_right)
      next
        case 3
        then have e: "i + 80 * (r + 1) = ?q + 1" using True by simp
        show ?thesis unfolding e new using 3 m by (simp add: G_def)
      next
        case 4
        then have "?q + 1 < i + 80 * (r + 1)" using True by simp
        then show ?thesis using 4 True that by (simp add: G_def written_cell_def)
      qed
    qed
    moreover have "G 2000 = F 2000" by (simp add: G_def)
    ultimately show ?thesis using r' True m beh by (simp del: fold_append)
  next
    case False
    then have q2: "q < 2000" "?q < 2000 + 80 * r" using rg IH(1) by auto
    have r': "rows_scrolled (?q + 1) = r" using rg q2 rows_scrolled_eq [of r "?q + 1"] by (auto simp: rows_scrolled_def)
    have q1: "q + 1 + 80 * r = ?q + 1" using IH(1) rg by auto
    have e: "fold (a_put attr) (str @ [c]) (T, p) = (F(q + 1 := text_cell attr c), q + 1)"
      using f q2 by (simp add: a_put_def text_cell_def)
    have last: "2000 \<le> ?q + 1 \<and> (?q + 1) mod 80 = 0 \<longleftrightarrow> q + 1 = 2000"
    proof
      assume "q + 1 = 2000"
      then have "?q + 1 = 80 * (25 + r)" using q1 by simp
      then show "2000 \<le> ?q + 1 \<and> (?q + 1) mod 80 = 0" by simp
    next
      assume a: "2000 \<le> ?q + 1 \<and> (?q + 1) mod 80 = 0"
      then obtain k where k: "?q + 1 = 80 * k" by (metis mod_0_imp_dvd dvd_def)
      then have "80 * k \<le> 80 * (25 + r)" "80 * (24 + r) < 80 * k" using q2 rg a by auto
      then have "k = 25 + r" by simp
      then show "q + 1 = 2000" using k q1 by simp
    qed
    have "(F(q + 1 := text_cell attr c)) i = written_cell attr (str @ [c]) p T (i + 80 * r)" if i: "i < 2000" for i
    proof (cases "i = q + 1")
      case True
      then have e: "i + 80 * r = ?q + 1" and "\<not> (2000 \<le> ?q + 1 \<and> (?q + 1) mod 80 = 0)" using q1 last i by auto
      then have "written_cell attr (str @ [c]) p T (i + 80 * r) = text_cell attr c" unfolding e new by auto
      then show ?thesis using True by simp
    next
      case False
      then have "i + 80 * r \<le> ?q \<or> ?q + 1 < i + 80 * r" using q1 by linarith
      then show ?thesis using False IH(3) [OF i] old later by auto
    qed
    then show ?thesis unfolding e using r' q1 beh last by (auto simp: fun_upd_def)
  qed
qed

section \<open>Printing\<close>

lemma map_Lit:
  "concat (map tok_fmt (map Lit s)) = s" "concat (map tok_arg (map Lit s)) = []"
  "sum_list (map tok_count (map Lit s)) = length s" "toks_text pad (map Lit s @ ts) = s @ toks_text pad ts"
  by (induction s) simp_all

lemma dec_text_chars: "c \<in> set (dec_text n) \<Longrightarrow> printable c"
proof -
  assume "c \<in> set (dec_text n)"
  then obtain d :: nat where d: "c = char_of (d + 48)" "d < 10" using digits_bound [of 10 _ "unat n"] by (auto simp: dec_text_def)
  then have "(of_char c :: nat) = d + 48" by simp
  then show "printable c" using d(2) by auto
qed

lemma dec_text_length: "length (dec_text n) \<le> 10"
  using u32_digits_length(1) [of n] by (simp add: dec_text_def)

text \<open>A format given by tokens prints their text, up to a zero byte.\<close>

lemma kprintf_toks:
  assumes "list_all tok_wf ts" "fmt = concat (map tok_fmt ts)" "args = concat (map tok_arg ts) @ rest"
    and "sum_list (map tok_count ts) < 1023" "length (toks_text (CHR '' '', 0) ts) < 1024"
  shows "kprintf fmt args s = Inr (of_nat (sum_list (map tok_count ts)), console_write_string (toks_text (CHR '' '', 0) ts) s)"
proof -
  have "vsprintf_loop fmt args (CHR '' '') 0 KPRINT_BUFF_LEN 0 [] =
      Inr ([] @ toks_text (CHR '' '', 0) ts, 0 + of_nat (sum_list (map tok_count ts)))"
    unfolding assms(2,3) by (rule vsprintf_toks [OF assms(1)]) (use assms(4) in \<open>simp_all add: KPRINT_BUFF_LEN_def\<close>)
  then have "vsprintf_s KPRINT_BUFF_LEN fmt args =
      Inr (toks_text (CHR '' '', 0) ts @ [CHR 0x00], of_nat (sum_list (map tok_count ts)))"
    by (simp add: vsprintf_s_def char_of_def)
  then show ?thesis
    using assms(5) by (simp add: kprintf_def console_write_string_def c_string_end KPRINT_BUFF_LEN_def)
qed

lemma kprintf_plain:
  assumes "CHR ''%'' \<notin> set str" "length str < 1023"
  shows "kprintf str args s = Inr (of_nat (length str), console_write_string str s)"
  using kprintf_toks [of "map Lit str" str args args s] assms map_Lit(1-3) [of str] map_Lit(4) [of "(CHR '' '', 0)" str "[]"]
  by (auto simp: list_all_iff comp_def)

text \<open>A log line is the level, the file, the line and the format itself, percent signs included: the format is
  an argument of the macro's own format, so no argument of the log call is ever formatted.\<close>

definition log_line :: "string \<Rightarrow> string \<Rightarrow> u32 \<Rightarrow> string \<Rightarrow> string" where
  "log_line level file line fmt = ''['' @ level @ '':'' @ file @ '':'' @ dec_text line @ ''] '' @ fmt @ [CHR 0x0A]"

lemma klog_line:
  assumes "CHR ''%'' \<notin> set level" "CHR 0x00 \<notin> set level \<union> set file \<union> set fmt"
    and "length level + length file + length fmt < 1000"
  shows "klog level file line fmt args s = Inr (of_nat (length level + length file + length fmt + 6),
    fold (console_put (color_attrib s)) (log_line level file line fmt) s)"
proof -
  let ?ts = "map Lit (''['' @ level @ '':'') @ Str (Some file) # map Lit '':'' @ Dec line # map Lit ''] '' @ Str (Some fmt) # map Lit [CHR 0x0A]"
  have wf: "list_all tok_wf ?ts" using assms(1) by (simp add: list_all_iff) blast
  have fm: "''['' @ level @ '':%s:%d] %s'' @ [CHR 0x0A] = concat (map tok_fmt ?ts)" using map_Lit(1) [of level] by simp
  have ar: "[VStr (Some file), VInt line, VStr (Some fmt)] @ args = concat (map tok_arg ?ts) @ args" using map_Lit(2) [of level] by simp
  have cnt: "sum_list (map tok_count ?ts) = length level + length file + length fmt + 6" using map_Lit(3) [of level] by simp
  have tx: "toks_text (CHR '' '', 0) ?ts = log_line level file line fmt" using map_Lit(4) [of "(CHR '' '', 0)" level] by (simp add: log_line_def)
  have len: "length (log_line level file line fmt) < 1024"
    using assms(3) dec_text_length [of line] by (simp add: log_line_def)
  have "c_string (log_line level file line fmt @ [CHR 0x00]) = log_line level file line fmt"
    using assms(2) dec_text_chars [of "CHR 0x00" line] by (intro c_string_plain) (auto simp: log_line_def)
  then have "c_string (log_line level file line fmt) = log_line level file line fmt" unfolding c_string_end .
  then show ?thesis
    using kprintf_toks [OF wf fm ar, unfolded cnt tx, OF _ len] assms(3) by (simp add: klog_def console_write_string_def)
qed

lemma newlines:
  "fold (console_put attr) (replicate k (CHR 0x0A)) s = (if k = 0 then s else s\<lparr>con_y := con_y s + of_nat k, con_x := 0\<rparr>)"
proof (induction k arbitrary: s)
  case (Suc k)
  have "fold (console_put attr) (replicate (Suc k) (CHR 0x0A)) s = fold (console_put attr) (replicate k (CHR 0x0A)) (s\<lparr>con_y := con_y s + 1, con_x := 0\<rparr>)"
    by (simp add: console_put_def)
  then show ?case unfolding Suc.IH by (simp add: ac_simps)
qed simp

section \<open>Properties\<close>

definition blank_console :: console where
  "blank_console = \<lparr>con_mem = (\<lambda>_. 0), term_buff = 0xC03FF000, vga_cmd_port = 0, con_x = 0, con_y = 24, cursor_x = 0, cursor_y = 0, color_attrib = 0xF\<rparr>"

text \<open>C35: what is on the screen after printing \<open>n\<close> characters without line breaks from position \<open>p\<close>.
  With \<open>q = p + n\<close>, the screen has scrolled by \<open>r = (q - 1921) div 80\<close> rows, the position is
  \<open>q - 80 * r\<close>, still within 25 rows of 80 columns, and cell \<open>i\<close> of the 2000 shows what stands
  at \<open>i + 80 * r\<close>: up to \<open>p\<close> the old cells with their colours, then the text in the current colour, then
  the old cells or, where the screen has scrolled, blanks. Cell 0 of a row that scrolled in is always
  blank: its character, the 80th of the row before, was put into cell 2000 behind the screen and is
  lost. No byte outside these 2001 cells and no other variable of the driver changes.\<close>

theorem console_write_string_tape:
  assumes "con_ok s" "\<forall>c \<in> set str. printable c"
  shows "let s' = console_write_string (str @ [CHR 0x00]) s; p = con_pos s; q = p + length str; r = (q - 1921) div 80 in
    con_ok s' \<and> con_pos s' = q - 80 * r \<and> (str \<noteq> [] \<longrightarrow> con_x s' \<noteq> 0)
    \<and> (\<forall>i < 2000. vga_get i s' = written_cell (color_attrib s) str p (\<lambda>j. vga_get j s) (i + 80 * r))
    \<and> vga_get 2000 s' = behind_cell (color_attrib s) str p (\<lambda>j. vga_get j s)
    \<and> (\<forall>a. 2 * 2001 \<le> unat (a - term_buff s) \<longrightarrow> con_mem s' a = con_mem s a)
    \<and> s' = s\<lparr>con_mem := con_mem s', con_x := con_x s', con_y := con_y s'\<rparr>"
proof -
  let ?s' = "fold (console_put (color_attrib s)) str s" and ?T = "\<lambda>j. vga_get j s"
  have "con_rel s (?T, con_pos s)" using assms(1) by (simp add: con_rel_def)
  then have R: "con_rel ?s' (fold (a_put (color_attrib s)) str (?T, con_pos s)) \<and> con_frame 2001 s ?s'"
    using assms(2) by (intro vga.write_spec) (auto simp: list_all_iff)
  have "c_string (str @ [CHR 0x00]) = str" using assms(2) by (intro c_string_plain) auto
  then have w: "console_write_string (str @ [CHR 0x00]) s = ?s'" by (simp add: console_write_string_def)
  have p: "con_pos s \<le> 2000" using assms(1) by (simp add: con_ok_def con_pos_def)
  show ?thesis
    unfolding w Let_def using R a_put_written [OF p, of "color_attrib s" str ?T] written_con_x [OF assms]
    by (auto simp: con_rel_def con_frame_def rows_scrolled_def split: prod.splits)
qed

text \<open>Ninety letters on the last row: one scroll, and the 80th of them is not on the screen.\<close>

theorem console_write_string_tape_witness:
  "let s' = console_write_string (replicate 90 CHR ''a'' @ [CHR 0x00]) blank_console in
     vga_get 1841 s' = \<lparr>character = 0x61, vc_attrib = 0xF\<rparr> \<and> vga_get 1920 s' = clr
     \<and> vga_get 1930 s' = \<lparr>character = 0x61, vc_attrib = 0xF\<rparr> \<and> vga_get 1931 s' = clr \<and> con_pos s' = 1930"
proof -
  have b: "con_ok blank_console" "con_pos blank_console = 1920" "color_attrib blank_console = 0xF"
    by (simp_all add: con_ok_def con_pos_def blank_console_def)
  have "\<forall>c \<in> set (replicate 90 CHR ''a''). printable c" by simp
  from console_write_string_tape [OF b(1) this] b(2,3) show ?thesis
    by (simp add: Let_def written_cell_def text_cell_def)
qed

text \<open>Line breaks are not scrolled one by one: after \<open>k\<close> of them, reaching row 25 or beyond, the next
  character scrolls the screen once and lands in row \<open>y + k - 1\<close>; so two line breaks on the last row
  are enough to store outside the 2000 cells of the screen.\<close>

lemma console_newlines_overrun:
  assumes "unat (con_y s) + k \<le> 65535" "25 \<le> unat (con_y s) + k" "0 < k" "printable c"
  shows "vga_get ((unat (con_y s) + k - 1) * 80 + 1) (console_write_string (replicate k (CHR 0x0A) @ [c, CHR 0x00]) s) =
      \<lparr>character = of_nat (of_char c), vc_attrib = color_attrib s\<rparr>
    \<and> (26 \<le> unat (con_y s) + k \<longrightarrow> VGA_TOTAL < (unat (con_y s) + k - 1) * 80 + 1)"
proof -
  let ?s1 = "s\<lparr>con_y := con_y s + of_nat k, con_x := 0\<rparr>"
  have y: "unat (con_y s + of_nat k) = unat (con_y s) + k" using assms(1) by (simp add: unat_word_ariths unat_of_nat)
  have "25 \<le> con_y s + of_nat k" using y assms(2) by (simp add: word_le_nat_alt)
  then have room: "console_room ?s1 = (console_scroll ?s1)\<lparr>con_y := con_y s + of_nat k - 1\<rparr>"
    by (simp add: console_room_def Let_def vga_consts)
  have y1: "unat (con_y s + of_nat k - 1) = unat (con_y s) + k - 1"
    using y assms(2) by (subst unat_sub) (auto simp: word_le_nat_alt)
  have "c_string (replicate k (CHR 0x0A) @ [c, CHR 0x00]) = replicate k (CHR 0x0A) @ [c]"
    using assms(4) c_string_plain [of "replicate k (CHR 0x0A) @ [c]" "[]"] by auto
  then have "console_write_string (replicate k (CHR 0x0A) @ [c, CHR 0x00]) s = console_put (color_attrib s) c ?s1"
    using assms(3) newlines [of "color_attrib s" k s] by (simp add: console_write_string_def del: fold_replicate)
  moreover have "(unat (con_y s) + k - 1) * 80 + 1 < 2 ^ 30" using assms(1) by simp
  moreover have "VGA_TOTAL < (unat (con_y s) + k - 1) * 80 + 1" if "26 \<le> unat (con_y s) + k"
    using that by (simp add: vga_consts)
  ultimately show ?thesis
    using assms(4) y1 console_scroll_view(2) [of 0 ?s1]
    by (simp add: console_put_room room Let_def vga_get_put vga_consts)
qed

end
