(* ===== verification/Paging.thy ===== *)
theory Paging
  imports Pages Stdlib
begin

text \<open>
  The bootstrap paging code of \<^verbatim>\<open>arch/i686/paging_utils.c\<close> with the constants and helpers of
  \<^verbatim>\<open>arch_paging.h\<close>: the frame allocator that cuts frames off the first memory map, the routine
  that installs a range of mappings in a page directory, and its callers.

  Memory is physical memory. While this code runs, the frames that hold page tables are mapped at
  their physical addresses and the kernel image at \<^verbatim>\<open>K_HIGH_VMA\<close> above them, so a pointer to a
  static table is translated by \<open>kphys\<close> and a page-table pointer taken from an entry is used as it
  is. The hardware's page walk is the specification against which the mappings are stated.
\<close>

section \<open>Constants\<close>

definition ARCH_PAGE_MASK :: u32 where "ARCH_PAGE_MASK = 0xFFFFF000"
definition ARCH_VADDR_PD_OFFSET_MASK :: u32 where "ARCH_VADDR_PD_OFFSET_MASK = 0xFFC00000"
definition ARCH_VADDR_PT_OFFSET_MASK :: u32 where "ARCH_VADDR_PT_OFFSET_MASK = 0x003FF000"
definition ARCH_VADDR_PD_OFFSET :: nat where "ARCH_VADDR_PD_OFFSET = 22"
definition ARCH_VADDR_PT_OFFSET :: nat where "ARCH_VADDR_PT_OFFSET = 12"
definition ARCH_PD_ENTRY_PRESENT :: u32 where "ARCH_PD_ENTRY_PRESENT = 1"
definition ARCH_PD_ENTRY_RW :: u32 where "ARCH_PD_ENTRY_RW = 2"
definition ARCH_PD_ENTRY_USER :: u32 where "ARCH_PD_ENTRY_USER = 4"
definition ARCH_PT_ADDRESSABLE_BYTES :: u32 where "ARCH_PT_ADDRESSABLE_BYTES = 1024 * 4096"
definition PAGE_ALLOCATE :: paddr_t where "PAGE_ALLOCATE = 0"

definition KMAP_PROT_NONE :: u32 where "KMAP_PROT_NONE = 0"
definition KMAP_PROT_READ :: u32 where "KMAP_PROT_READ = 1"
definition KMAP_PROT_WRITE :: u32 where "KMAP_PROT_WRITE = 2"
definition KMAP_PROT_USER :: u32 where "KMAP_PROT_USER = 4"
definition KMAP_PROT_EXEC :: u32 where "KMAP_PROT_EXEC = 8"

definition PF_X :: u32 where "PF_X = 1"
definition PF_W :: u32 where "PF_W = 2"
definition PF_R :: u32 where "PF_R = 4"

datatype pt_level = ARCH_PD_0 | ARCH_PD_1

fun arch_get_pt_offset :: "vaddr_t \<Rightarrow> pt_level \<Rightarrow> u32" where
  "arch_get_pt_offset vaddr ARCH_PD_0 = drop_bit ARCH_VADDR_PT_OFFSET (vaddr AND ARCH_VADDR_PT_OFFSET_MASK)"
| "arch_get_pt_offset vaddr ARCH_PD_1 = drop_bit ARCH_VADDR_PD_OFFSET (vaddr AND ARCH_VADDR_PD_OFFSET_MASK)"

section \<open>State\<close>

text \<open>
  \<open>mm_addr\<close> and \<open>mm_len\<close> are the fields of \<^verbatim>\<open>kinfo->memmaps[0]\<close>; \<open>high_vma\<close> is the linker symbol
  \<^verbatim>\<open>K_HIGH_VMA\<close>, to which \<^verbatim>\<open>kinfo->kernel_high_vma\<close> is set; \<open>pd_reg\<close> is the register \<^verbatim>\<open>cr3\<close>; the last
  two are \<^verbatim>\<open>kinfo->bootstrap_memory_phys_range\<close>.
\<close>

record pgstate =
  pmem :: mem
  mm_addr :: u64
  mm_len :: u64
  high_vma :: vaddr_t
  pd_reg :: paddr_t
  boot_mem_start :: paddr_t
  boot_mem_end :: paddr_t

definition kphys :: "pgstate \<Rightarrow> vaddr_t \<Rightarrow> paddr_t" where
  "kphys s a = (if a < high_vma s then a else a - high_vma s)"

text \<open>The entry \<open>i\<close> of a page table or page directory at \<open>t\<close>.\<close>

definition entry_addr :: "paddr_t \<Rightarrow> u32 \<Rightarrow> paddr_t" where
  "entry_addr t i = t + 4 * i"

section \<open>Operations\<close>

definition bootstrap_fetch_page :: "bool \<Rightarrow> pgstate \<Rightarrow> (paddr_t \<times> pgstate) outcome" where
  "bootstrap_fetch_page debug s =
     bindE (ASSERT debug (mm_len s > 4096)) (\<lambda>_.
       Inr (ucast (mm_addr s), s\<lparr>mm_addr := mm_addr s + 4096, mm_len := mm_len s - 4096\<rparr>))"

definition bootstrap_create_page_dir :: "bool \<Rightarrow> pgstate \<Rightarrow> (paddr_t \<times> pgstate) outcome" where
  "bootstrap_create_page_dir = bootstrap_fetch_page"

text \<open>The flags of a page-table entry for a protection request.\<close>

definition page_flags :: "u32 \<Rightarrow> u32" where
  "page_flags flags =
     (let wr = flags AND KMAP_PROT_WRITE; rd = flags AND KMAP_PROT_READ; usr = flags AND KMAP_PROT_USER
      in if rd = 0 \<and> wr = 0 then 0
         else if flags \<noteq> KMAP_PROT_NONE
         then ARCH_PD_ENTRY_PRESENT OR ARCH_PD_ENTRY_RW * (if wr \<noteq> 0 then 1 else 0)
                OR ARCH_PD_ENTRY_USER * (if usr \<noteq> 0 then 1 else 0)
         else 0)"

text \<open>
  The loop that makes sure that \<open>k\<close> consecutive directory entries from \<open>idx\<close> on have a page table.
  The flag \<open>kern\<close> says that the directory is that of \<^verbatim>\<open>k_exec_info\<close>.
\<close>

fun prealloc :: "bool \<Rightarrow> bool \<Rightarrow> paddr_t \<Rightarrow> u32 \<Rightarrow> nat \<Rightarrow> pgstate \<Rightarrow> pgstate outcome" where
  "prealloc debug kern pd idx 0 s = Inr s"
| "prealloc debug kern pd idx (Suc k) s =
     (if 1024 \<le> idx then Inl Out_Of_Bounds
      else if load32 (pmem s) (entry_addr pd idx) = 0
      then bindE (bootstrap_fetch_page debug s) (\<lambda>(pt, s).
             if pt = 0 then Inl (Panic ''Out of free frames'')
             else let m = memset (pmem s) pt 0 4096;
                      e = (pt AND ARCH_PAGE_MASK) OR
                          (ARCH_PD_ENTRY_PRESENT OR ARCH_PD_ENTRY_RW OR (if kern then 0 else ARCH_PD_ENTRY_USER))
                  in prealloc debug kern pd (idx + 1) k (s\<lparr>pmem := store32 m (entry_addr pd idx) e\<rparr>))
      else prealloc debug kern pd (idx + 1) k s)"

text \<open>The loop over the pages, with fuel; a size beyond the last page boundary never ends.\<close>

fun map_pages :: "bool \<Rightarrow> nat \<Rightarrow> paddr_t \<Rightarrow> paddr_t \<Rightarrow> vaddr_t \<Rightarrow> size_t \<Rightarrow> u32 \<Rightarrow> u32 \<Rightarrow> u32 \<Rightarrow> paddr_t \<Rightarrow> pgstate \<Rightarrow> pgstate outcome" where
  "map_pages debug 0 pd paddr vaddr sz pg_flags offset pd_offset current_pt s = Inl No_Return"
| "map_pages debug (Suc n) pd paddr vaddr sz pg_flags offset pd_offset current_pt s =
     (if offset < sz
      then let vaddr_pd_offset = arch_get_pt_offset (vaddr + offset) ARCH_PD_1;
               current_pt = (if pd_offset \<noteq> vaddr_pd_offset
                 then load32 (pmem s) (entry_addr pd vaddr_pd_offset) AND ARCH_PAGE_MASK else current_pt);
               pt_offset = arch_get_pt_offset (vaddr + offset) ARCH_PD_0;
               e = load32 (pmem s) (entry_addr current_pt pt_offset)
           in if current_pt = 0 then Inl Null_Deref
              else bindE
                (if e \<noteq> 0 then Inr (e AND ARCH_PAGE_MASK, s)
                 else if paddr = PAGE_ALLOCATE then bootstrap_fetch_page debug s
                 else Inr (paddr + offset, s))
                (\<lambda>(frame_addr, s).
                  map_pages debug n pd paddr vaddr sz pg_flags (offset + 4096) vaddr_pd_offset current_pt
                    (s\<lparr>pmem := store32 (pmem s) (entry_addr current_pt pt_offset)
                        ((frame_addr AND PAGE_MASK) OR pg_flags)\<rparr>))
      else Inr s)"

definition no_page_tables :: "paddr_t \<Rightarrow> vaddr_t \<Rightarrow> size_t \<Rightarrow> u32" where
  "no_page_tables current_pt vaddr sz =
     (let current_pt_overflow = (if arch_get_pt_offset vaddr ARCH_PD_0 + sz div 4096 > 1024 then 1 else 0)
      in sz div ARCH_PT_ADDRESSABLE_BYTES + current_pt_overflow + (if current_pt = 0 then 1 else 0))"

definition bootstrap_mmap :: "bool \<Rightarrow> bool \<Rightarrow> vaddr_t \<Rightarrow> paddr_t \<Rightarrow> vaddr_t \<Rightarrow> size_t \<Rightarrow> u32 \<Rightarrow> pgstate \<Rightarrow> pgstate outcome" where
  "bootstrap_mmap debug kern page_directory paddr vaddr sz flags s =
     bindE (ASSERT debug (vaddr mod 4096 = 0)) (\<lambda>_.
     bindE (ASSERT debug (paddr mod 4096 = 0)) (\<lambda>_.
     bindE (ASSERT debug (sz mod 4096 = 0)) (\<lambda>_.
       let pg_flags = page_flags flags;
           pd = kphys s page_directory;
           pd_offset = arch_get_pt_offset vaddr ARCH_PD_1;
           current_pt = load32 (pmem s) (entry_addr pd pd_offset) AND ARCH_PAGE_MASK
       in bindE (prealloc debug kern pd pd_offset (unat (no_page_tables current_pt vaddr sz)) s) (\<lambda>s.
            let current_pt = load32 (pmem s) (entry_addr pd pd_offset) AND ARCH_PAGE_MASK
            in map_pages debug (2 ^ 20) pd paddr vaddr sz pg_flags 0 pd_offset current_pt s))))"

definition elf_prot :: "u32 \<Rightarrow> u32" where
  "elf_prot flags =
     (let exec = flags AND PF_X; rd = flags AND PF_R; wr = flags AND PF_W
      in KMAP_PROT_EXEC * (if exec \<noteq> 0 then 1 else 0) OR KMAP_PROT_READ * (if rd \<noteq> 0 then 1 else 0)
           OR KMAP_PROT_WRITE * (if wr \<noteq> 0 then 1 else 0) OR KMAP_PROT_USER)"

definition bootstrap_elf_mmap :: "bool \<Rightarrow> vaddr_t \<Rightarrow> paddr_t \<Rightarrow> vaddr_t \<Rightarrow> size_t \<Rightarrow> u32 \<Rightarrow> pgstate \<Rightarrow> pgstate outcome" where
  "bootstrap_elf_mmap debug page_directory paddr vaddr sz flags s =
     bootstrap_mmap debug False page_directory paddr vaddr sz (elf_prot flags) s"

definition kmap :: "bool \<Rightarrow> vaddr_t \<Rightarrow> vaddr_t \<Rightarrow> paddr_t \<Rightarrow> size_t \<Rightarrow> u32 \<Rightarrow> pgstate \<Rightarrow> pgstate outcome" where
  "kmap debug page_directory vaddr paddr sz flags s =
     bootstrap_mmap debug True page_directory paddr vaddr sz flags s"

section \<open>Static tables and the boot mappings\<close>

text \<open>Where the linker puts the tables of the section \<^verbatim>\<open>.ktable\<close>.\<close>

record ktables =
  kt_boot_page_directory :: vaddr_t
  kt_page_directory :: vaddr_t
  kt_kernel_pt :: vaddr_t
  kt_bootstrap_pt :: vaddr_t
  kt_module_bootstrap_pt :: vaddr_t

definition bootstrap_load_boot_mappings :: "ktables \<Rightarrow> pgstate \<Rightarrow> pgstate" where
  "bootstrap_load_boot_mappings kt s = s\<lparr>pd_reg := kt_boot_page_directory kt - high_vma s\<rparr>"

definition bootstrap_load_kernel_mappings :: "ktables \<Rightarrow> pgstate \<Rightarrow> pgstate" where
  "bootstrap_load_kernel_mappings kt s = s\<lparr>pd_reg := kt_page_directory kt - high_vma s\<rparr>"

text \<open>
  The loop that maps the pages from \<open>addr\<close> up to \<open>lim\<close> to themselves, in consecutive entries of
  one table; it occurs three times in the source.
\<close>

fun identity_loop :: "nat \<Rightarrow> paddr_t \<Rightarrow> u32 \<Rightarrow> u32 \<Rightarrow> u32 \<Rightarrow> mem \<Rightarrow> mem outcome" where
  "identity_loop 0 pt addr lim current_pt_offset m = Inl No_Return"
| "identity_loop (Suc n) pt addr lim current_pt_offset m =
     (if addr < lim
      then if 1024 \<le> current_pt_offset then Inl Out_Of_Bounds
           else identity_loop n pt (addr + PAGE_SIZE) lim (current_pt_offset + 1)
             (store32 m (entry_addr pt current_pt_offset)
               ((addr AND ARCH_PAGE_MASK) OR (ARCH_PD_ENTRY_PRESENT OR ARCH_PD_ENTRY_RW)))
      else Inr m)"

text \<open>The memory set aside for the boot modules, given as pairs of start and end.\<close>

definition boot_mem_limit :: "paddr_t \<Rightarrow> (paddr_t \<times> paddr_t) list \<Rightarrow> paddr_t" where
  "boot_mem_limit phys_start modules =
     fold (\<lambda>(st, en) phys_end. phys_end + 4096 * 8 + (((en - st) AND ARCH_PAGE_MASK) + 4096)) modules phys_start"

definition bootstrap_identity_map_init_mem ::
  "bool \<Rightarrow> ktables \<Rightarrow> (paddr_t \<times> paddr_t) list \<Rightarrow> pgstate \<Rightarrow> pgstate outcome" where
  "bootstrap_identity_map_init_mem debug kt modules s =
     (let phys_start = ucast (mm_addr s) :: u32;
          boot_pd = kphys s (kt_boot_page_directory kt);
          module_pt = kphys s (kt_module_bootstrap_pt kt)
      in bindE (ASSERT debug (phys_start mod 4096 = 0)) (\<lambda>_.
         let m = memcpy (pmem s) boot_pd (kphys s (kt_page_directory kt)) 4096;
             phys_end = boot_mem_limit phys_start modules;
             m = memset m module_pt 0 4096;
             current_pt_offset = drop_bit ARCH_VADDR_PT_OFFSET (phys_start AND ARCH_VADDR_PT_OFFSET_MASK)
         in bindE (identity_loop (2 ^ 20) module_pt phys_start phys_end current_pt_offset m) (\<lambda>m.
              let pd_phys = kt_boot_page_directory kt - high_vma s;
                  pd_offset = arch_get_pt_offset phys_start ARCH_PD_1;
                  module_pt_phys = kt_module_bootstrap_pt kt - high_vma s
              in Inr (s\<lparr>boot_mem_start := phys_start, boot_mem_end := phys_end,
                      pmem := store32 m (entry_addr boot_pd pd_offset)
                        ((module_pt_phys AND ARCH_PAGE_MASK) OR (ARCH_PD_ENTRY_PRESENT OR ARCH_PD_ENTRY_RW)),
                      pd_reg := pd_phys\<rparr>))))"

fun identity_modules :: "paddr_t \<Rightarrow> (paddr_t \<times> paddr_t) list \<Rightarrow> mem \<Rightarrow> mem outcome" where
  "identity_modules pt [] m = Inr m"
| "identity_modules pt ((st, en) # modules) m =
     bindE (identity_loop (2 ^ 20) pt st en (drop_bit ARCH_VADDR_PT_OFFSET (st AND ARCH_VADDR_PT_OFFSET_MASK)) m)
       (identity_modules pt modules)"

definition bootstrap_map_boot_modules :: "ktables \<Rightarrow> (paddr_t \<times> paddr_t) list \<Rightarrow> pgstate \<Rightarrow> pgstate outcome" where
  "bootstrap_map_boot_modules kt modules s =
     (let bootstrap_pt_phys = kt_bootstrap_pt kt - high_vma s;
          pd = kphys s (kt_page_directory kt);
          kernel_pd_offset = drop_bit ARCH_VADDR_PD_OFFSET (high_vma s AND ARCH_VADDR_PD_OFFSET_MASK);
          m = store32 (pmem s) (entry_addr pd kernel_pd_offset)
                (((kt_kernel_pt kt - high_vma s) AND PAGE_MASK) OR (ARCH_PD_ENTRY_PRESENT OR ARCH_PD_ENTRY_RW));
          m = store32 m (entry_addr pd 0)
                ((bootstrap_pt_phys AND ARCH_PAGE_MASK) OR (ARCH_PD_ENTRY_PRESENT OR ARCH_PD_ENTRY_RW));
          pt = kphys s (kt_bootstrap_pt kt);
          m = memset m pt 0 4096
      in bindE (identity_loop (2 ^ 20) pt 0 0x100000 0 m) (\<lambda>m.
         bindE (identity_modules pt modules m) (\<lambda>m. Inr (s\<lparr>pmem := m\<rparr>))))"

section \<open>The page walk of the processor\<close>

definition page_walk :: "mem \<Rightarrow> paddr_t \<Rightarrow> vaddr_t \<Rightarrow> (paddr_t \<times> u32) option" where
  "page_walk m pd va =
     (let pde = load32 m (pd + 4 * drop_bit 22 va)
      in if \<not> bit pde 0 then None
         else let pte = load32 m ((pde AND 0xFFFFF000) + 4 * (drop_bit 12 va AND 0x3FF))
              in if \<not> bit pte 0 then None
                 else Some ((pte AND 0xFFFFF000) OR (va AND 0xFFF), pde AND pte AND 6))"

section \<open>Index arithmetic\<close>

lemma pt_offsets:
  "unat (arch_get_pt_offset a ARCH_PD_1) = unat a div 4096 div 1024"
  "unat (arch_get_pt_offset a ARCH_PD_0) = unat a div 4096 mod 1024"
  "arch_get_pt_offset a ARCH_PD_1 = drop_bit 22 a"
  "arch_get_pt_offset a ARCH_PD_0 = drop_bit 12 a AND 0x3FF"
proof -
  have m: "ARCH_VADDR_PD_OFFSET_MASK = push_bit 22 (mask 10)" "ARCH_VADDR_PT_OFFSET_MASK = push_bit 12 (mask 10)"
    "(0x3FF :: u32) = mask 10"
    by (simp_all add: ARCH_VADDR_PD_OFFSET_MASK_def ARCH_VADDR_PT_OFFSET_MASK_def mask_eq_exp_minus_1 push_bit_eq_mult)
  show 1: "arch_get_pt_offset a ARCH_PD_1 = drop_bit 22 a"
    unfolding arch_get_pt_offset.simps m ARCH_VADDR_PD_OFFSET_def by (rule bit_word_eqI) (auto simp: bit_simps dest: bit_imp_le_length)
  show 0: "arch_get_pt_offset a ARCH_PD_0 = drop_bit 12 a AND 0x3FF"
    unfolding arch_get_pt_offset.simps m ARCH_VADDR_PT_OFFSET_def by (rule bit_word_eqI) (auto simp: bit_simps)
  show "unat (arch_get_pt_offset a ARCH_PD_1) = unat a div 4096 div 1024"
    unfolding 1 by (simp add: drop_bit_eq_div unat_div div_mult2_eq [symmetric])
  show "unat (arch_get_pt_offset a ARCH_PD_0) = unat a div 4096 mod 1024"
    unfolding 0 m(3) take_bit_eq_mask [symmetric] by (simp add: drop_bit_eq_div unat_div take_bit_eq_mod unat_mod)
qed


lemma entry_cell: "entry_addr t i = cell t (4 * unat i)"
  by (simp add: entry_addr_def cell_def)

lemma entry_offset_ok: "i < 1024 \<Longrightarrow> offset_ok (4 * i)"
  by simp

lemma page_masks: "ARCH_PAGE_MASK = PAGE_MASK" "(0xFFFFF000 :: u32) = PAGE_MASK"
  by (simp_all add: ARCH_PAGE_MASK_def PAGE_MASK_def)

text \<open>Flags below bit 12 and a page address do not disturb each other.\<close>

lemma mask_or_flags:
  assumes "fl < (4096 :: u32)"
  shows "((x AND PAGE_MASK) OR fl) AND PAGE_MASK = x AND PAGE_MASK"
    "((x AND PAGE_MASK) OR fl) AND 0xFFF = fl"
proof -
  have pm: "PAGE_MASK = NOT (mask 12)" "(0xFFF :: u32) = mask 12"
    by (simp_all add: PAGE_MASK_def mask_eq_exp_minus_1 not_eq_complement)
  have "take_bit 12 fl = fl"
    using assms by (simp add: take_bit_eq_mod word_unat_eq_iff unat_mod word_less_nat_alt)
  then have hi: "\<not> bit fl n" if "12 \<le> n" for n using that by (metis bit_take_bit_iff not_less)
  show "((x AND PAGE_MASK) OR fl) AND PAGE_MASK = x AND PAGE_MASK" "((x AND PAGE_MASK) OR fl) AND 0xFFF = fl"
    unfolding pm by (rule bit_word_eqI; use hi in \<open>auto simp: bit_simps not_less intro: ccontr\<close>)+
qed

lemma page_flags_small: "page_flags flags < 4096" "page_flags flags \<in> {0, 1, 3, 5, 7}"
  by (simp_all add: page_flags_def Let_def ARCH_PD_ENTRY_PRESENT_def ARCH_PD_ENTRY_RW_def ARCH_PD_ENTRY_USER_def)

lemma pg_ok_mask: "pg_ok p \<Longrightarrow> p AND PAGE_MASK = p"
  using cell_page [of p 0] by (simp add: cell_0)

section \<open>Zeroed pages\<close>

lemma memset_page:
  assumes p: "pg_ok p"
  shows "offset_ok d \<Longrightarrow> load32 (memset m p 0 4096) (cell p d) = 0"
    "pg_ok q \<Longrightarrow> q \<noteq> p \<Longrightarrow> same_page m (memset m p 0 4096) q"
proof -
  have byte: "memset m p 0 4096 x = (if unat (x - p) < 4096 then 0 else m x)" for x
    by (simp add: memset_apply)
  show "load32 (memset m p 0 4096) (cell p d) = 0" if d: "offset_ok d"
  proof -
    have "memset m p 0 4096 (cell p d + of_nat i) = 0" if "i < 4" for i
    proof -
      have "d + i < 4096" using d that by presburger
      then have "unat (cell p d + of_nat i - p) < 4096" 
        using unat_of_nat_u32 [of "d + i"] by (simp add: cell_def)
      then show ?thesis by (simp add: byte)
    qed
    then have "load32 (memset m p 0 4096) (cell p d) = load32 (\<lambda>_. 0) (cell p d)"
      by (intro load32_cong) simp
    then show ?thesis by (simp add: load32_def)
  qed
  show "same_page m (memset m p 0 4096) q" if q: "pg_ok q" "q \<noteq> p"
    unfolding same_page_def
  proof (intro allI impI load32_cong)
    fix d i :: nat
    assume d: "offset_ok d" "i < 4"
    have di: "d + i < 4096" using d by presburger
    have e: "cell q d + of_nat i = cell q (d + i)" by (simp add: cell_def)
    have "4096 \<le> unat (cell q (d + i) - p)"
    proof (rule ccontr)
      assume "\<not> ?thesis"
      then have lt: "unat (cell q (d + i) - p) < 4096" by simp
      then have "cell q (d + i) = cell p (unat (cell q (d + i) - p))" by (simp add: cell_def)
      then show False using cell_eq_iff [OF q(1) p di lt] q(2) by simp
    qed
    then show "memset m p 0 4096 (cell q d + of_nat i) = m (cell q d + of_nat i)"
      by (simp add: byte e)
  qed
qed

section \<open>Directories and their entries\<close>

definition pde :: "mem \<Rightarrow> paddr_t \<Rightarrow> nat \<Rightarrow> u32" where
  "pde m pd i = load32 m (cell pd (4 * i))"

abbreviation table :: "mem \<Rightarrow> paddr_t \<Rightarrow> nat \<Rightarrow> paddr_t" where
  "table m pd i \<equiv> pde m pd i AND PAGE_MASK"

text \<open>The page-table entry of virtual page \<open>v\<close>; zero when there is no such page or no table for it.\<close>

definition pte_at :: "mem \<Rightarrow> paddr_t \<Rightarrow> nat \<Rightarrow> u32" where
  "pte_at m pd v = (if 1024 \<le> v div 1024 \<or> pde m pd (v div 1024) = 0 then 0
     else load32 m (cell (table m pd (v div 1024)) (4 * (v mod 1024))))"

text \<open>
  A well-formed directory: every entry in use is present and points to a page of its own, the
  directory and its tables all lying below \<open>lim\<close>.
\<close>

definition pd_ok :: "mem \<Rightarrow> paddr_t \<Rightarrow> nat \<Rightarrow> bool" where
  "pd_ok m pd lim \<longleftrightarrow> pg_ok pd \<and> unat pd + 4096 \<le> lim
     \<and> (\<forall>i < 1024. pde m pd i \<noteq> 0 \<longrightarrow> bit (pde m pd i) 0 \<and> pg_ok (table m pd i)
          \<and> table m pd i \<noteq> pd \<and> unat (table m pd i) + 4096 \<le> lim)
     \<and> (\<forall>i < 1024. \<forall>j < 1024. i \<noteq> j \<longrightarrow> pde m pd i \<noteq> 0 \<longrightarrow> pde m pd j \<noteq> 0 \<longrightarrow> table m pd i \<noteq> table m pd j)"

lemma pd_okD:
  assumes "pd_ok m pd lim"
  shows "pg_ok pd" "unat pd + 4096 \<le> lim"
    "\<And>i. i < 1024 \<Longrightarrow> pde m pd i \<noteq> 0 \<Longrightarrow> bit (pde m pd i) 0 \<and> pg_ok (table m pd i)
          \<and> table m pd i \<noteq> pd \<and> unat (table m pd i) + 4096 \<le> lim"
    "\<And>i j. i < 1024 \<Longrightarrow> j < 1024 \<Longrightarrow> i \<noteq> j \<Longrightarrow> pde m pd i \<noteq> 0 \<Longrightarrow> pde m pd j \<noteq> 0 \<Longrightarrow> table m pd i \<noteq> table m pd j"
  using assms by (auto simp: pd_ok_def)

text \<open>Pages that hold neither the directory nor one of its tables.\<close>

definition other_page :: "mem \<Rightarrow> paddr_t \<Rightarrow> u32 \<Rightarrow> bool" where
  "other_page m pd q \<longleftrightarrow> pg_ok q \<and> q \<noteq> pd \<and> (\<forall>i < 1024. pde m pd i \<noteq> 0 \<longrightarrow> table m pd i \<noteq> q)"

text \<open>Writing one page-table entry.\<close>

lemma store_pte:
  fixes w :: u32
  assumes ok: "pd_ok m pd lim" and v: "v div 1024 < 1024" and e: "pde m pd (v div 1024) \<noteq> 0"
  defines "m' \<equiv> store32 m (cell (table m pd (v div 1024)) (4 * (v mod 1024))) w"
  shows "\<And>i. i < 1024 \<Longrightarrow> pde m' pd i = pde m pd i" "pd_ok m' pd lim"
    "pte_at m' pd = (pte_at m pd)(v := w)"
    "\<And>q. other_page m pd q \<Longrightarrow> same_page m m' q"
proof -
  let ?t = "table m pd (v div 1024)"
  note D = pd_okD [OF ok]
  have t: "pg_ok ?t" "?t \<noteq> pd" using D(3) [OF v e] by auto
  have off: "offset_ok (4 * (v mod 1024))" by (intro entry_offset_ok) simp
  show pde: "pde m' pd i = pde m pd i" if "i < 1024" for i
    unfolding pde_def m'_def using load_store_cell [OF t(1) D(1) off entry_offset_ok [OF that]] t(2) by (simp add: pde_def)
  show "pd_ok m' pd lim" using ok pde by (simp add: pd_ok_def)
  have eq: "pte_at m' pd u = (if u = v then w else pte_at m pd u)" if u: "u div 1024 < 1024" for u
  proof (cases "pde m pd (u div 1024) = 0")
    case True
    then show ?thesis using pde [OF u] e by (auto simp: pte_at_def)
  next
    case False
    let ?t' = "table m pd (u div 1024)"
    have t': "pg_ok ?t'" using D(3) [OF u False] by auto
    have "?t' = ?t \<longleftrightarrow> u div 1024 = v div 1024" using D(4) [OF u v] False e by auto
    moreover have "u = v \<longleftrightarrow> u div 1024 = v div 1024 \<and> u mod 1024 = v mod 1024"
      by (metis div_mult_mod_eq)
    ultimately show ?thesis
      using u pde [OF u] False load_store_cell [OF t(1) t' off, of "4 * (u mod 1024)" m w]
      by (auto simp: pte_at_def m'_def)
  qed
  show "pte_at m' pd = (pte_at m pd)(v := w)"
  proof
    fix u show "pte_at m' pd u = ((pte_at m pd)(v := w)) u"
      using eq [of u] v by (cases "u div 1024 < 1024") (auto simp: pte_at_def)
  qed
  show "same_page m m' q" if "other_page m pd q" for q
    unfolding m'_def using that t off v e by (intro same_page_store) (auto simp: other_page_def)
qed


section \<open>The frame allocator\<close>

text \<open>The memory map lies below 4 GB and has more than \<open>n\<close> free frames.\<close>

definition frames :: "pgstate \<Rightarrow> nat \<Rightarrow> bool" where
  "frames s n \<longleftrightarrow> unat (mm_addr s) mod 4096 = 0 \<and> 0 < unat (mm_addr s)
     \<and> unat (mm_addr s) + unat (mm_len s) \<le> 2 ^ 32 \<and> n * 4096 < unat (mm_len s)"

lemma frames_less: "frames s n \<Longrightarrow> k \<le> n \<Longrightarrow> frames s k"
  by (auto simp: frames_def)

lemma fetch_page_ok:
  assumes "frames s (Suc n)"
  shows "\<exists>s'. bootstrap_fetch_page debug s = Inr (ucast (mm_addr s), s') \<and> frames s' n
    \<and> unat (mm_addr s') = unat (mm_addr s) + 4096 \<and> pmem s' = pmem s \<and> high_vma s' = high_vma s \<and> pd_reg s' = pd_reg s"
    and "unat (ucast (mm_addr s) :: u32) = unat (mm_addr s)" "pg_ok (ucast (mm_addr s))"
proof -
  from assms have a: "unat (mm_addr s) mod 4096 = 0" "0 < unat (mm_addr s)"
    "unat (mm_addr s) + n * 4096 + 4096 < 4294967296" "n * 4096 + 4096 < unat (mm_len s)" "unat (mm_addr s) + unat (mm_len s) \<le> 4294967296"
    by (auto simp: frames_def)
  have u: "unat (mm_addr s + 4096) = unat (mm_addr s) + 4096" using a(3) by (simp add: unat_word_ariths)
  have l: "unat (mm_len s - 4096) = unat (mm_len s) - 4096"
    using a(4) by (simp add: unat_sub word_le_nat_alt)
  have "mm_len s > 4096" using a(4) by (simp add: word_less_nat_alt)
  then show "\<exists>s'. bootstrap_fetch_page debug s = Inr (ucast (mm_addr s), s') \<and> frames s' n
    \<and> unat (mm_addr s') = unat (mm_addr s) + 4096 \<and> pmem s' = pmem s \<and> high_vma s' = high_vma s \<and> pd_reg s' = pd_reg s"
    using a u l by (simp add: bootstrap_fetch_page_def frames_def)
  show c: "unat (ucast (mm_addr s) :: u32) = unat (mm_addr s)"
    using a(3) by (simp add: unsigned_ucast_eq take_bit_nat_eq_self)
  then show "pg_ok (ucast (mm_addr s))" using a by (auto simp: pg_ok_def word_unat_eq_iff)
qed

text \<open>The boot frames as a page source: consecutive frames from the start of the memory map.\<close>

definition boot_frames :: "pgstate \<Rightarrow> paddr_t list \<Rightarrow> bool" where
  "boot_frames s ps \<longleftrightarrow> frames s (length ps)
     \<and> ps = map (\<lambda>i. of_nat (unat (mm_addr s) + 4096 * i)) [0..<length ps]"

interpretation boot_source: frame_source "bootstrap_fetch_page debug" boot_frames for debug
proof
  fix s p ps
  assume b: "boot_frames s (p # ps)"
  then have fr: "frames s (Suc (length ps))" and ps: "p # ps = map (\<lambda>i. of_nat (unat (mm_addr s) + 4096 * i)) [0..<Suc (length ps)]"
    by (simp_all add: boot_frames_def)
  have up: "[0..<Suc (length ps)] = 0 # map Suc [0..<length ps]" by (metis map_Suc_upt upt_conv_Cons zero_less_Suc)
  have p: "p = ucast (mm_addr s)" and tl: "ps = map (\<lambda>i. of_nat (unat (mm_addr s) + 4096 * Suc i)) [0..<length ps]"
    using ps unfolding up by (auto simp: comp_def)
  obtain s' where s': "bootstrap_fetch_page debug s = Inr (p, s')" "frames s' (length ps)"
    "unat (mm_addr s') = unat (mm_addr s) + 4096"
    using fetch_page_ok(1) [OF fr, of debug] p by auto
  then have "boot_frames s' ps" by (subst boot_frames_def, subst tl) simp
  then show "\<exists>s'. bootstrap_fetch_page debug s = Inr (p, s') \<and> boot_frames s' ps" using s'(1) by blast
next
  fix s ps
  assume b: "boot_frames s ps"
  have "inj_on (\<lambda>i. of_nat (unat (mm_addr s) + 4096 * i) :: u32) {0..<length ps}"
  proof (rule inj_onI)
    fix i j assume ij: "i \<in> {0..<length ps}" "j \<in> {0..<length ps}"
      "(of_nat (unat (mm_addr s) + 4096 * i) :: u32) = of_nat (unat (mm_addr s) + 4096 * j)"
    then have lt: "unat (mm_addr s) + 4096 * k < 4294967296" if "k < length ps" for k
      using b that by (auto simp: boot_frames_def frames_def)
    have "unat (mm_addr s) + 4096 * i = unat (mm_addr s) + 4096 * j"
      using ij unat_of_nat_u32 [OF lt, of i] unat_of_nat_u32 [OF lt, of j] by simp
    then show "i = j" by simp
  qed
  then show "distinct ps" using b by (subst (asm) boot_frames_def) (metis atLeastLessThan_upt distinct_map distinct_upt)
qed

section \<open>Preallocation\<close>

definition table_flags :: "bool \<Rightarrow> u32" where
  "table_flags kern = (if kern then 3 else 7)"

text \<open>
  Adding a zeroed page table for an empty entry: the directory stays well formed and no page-table
  entry changes its value.
\<close>

lemma new_table:
  assumes ok: "pd_ok m pd lim" and p: "pg_ok p" "lim \<le> unat p" and i: "i < 1024" "pde m pd i = 0"
    and fl: "fl < 4096" "bit fl 0"
  defines "m' \<equiv> store32 (memset m p 0 4096) (cell pd (4 * i)) ((p AND PAGE_MASK) OR fl)"
  shows "\<And>j. j < 1024 \<Longrightarrow> pde m' pd j = (if j = i then p OR fl else pde m pd j)"
    "pd_ok m' pd (unat p + 4096)"
    "pte_at m' pd = pte_at m pd"
    "\<And>q. other_page m pd q \<Longrightarrow> q \<noteq> p \<Longrightarrow> same_page m m' q"
proof -
  note D = pd_okD [OF ok]
  let ?m1 = "memset m p 0 4096"
  have pd: "p \<noteq> pd" using D(2) p(2) by auto
  have pm: "p AND PAGE_MASK = p" by (rule pg_ok_mask [OF p(1)])
  have tab: "(p OR fl) AND PAGE_MASK = p" using mask_or_flags(1) [OF fl(1), of p] pm by simp
  have bit0: "bit (p OR fl) 0" using fl(2) by (simp add: bit_simps)
  have nz: "p OR fl \<noteq> 0" using bit0 by auto
  have s1: "same_page m ?m1 q" if "pg_ok q" "q \<noteq> p" for q by (rule memset_page(2) [OF p(1) that])
  have s2: "same_page ?m1 m' q" if "pg_ok q" "q \<noteq> pd" for q
    unfolding m'_def using that D(1) entry_offset_ok [OF i(1)] by (intro same_page_store) auto
  have same: "same_page m m' q" if "pg_ok q" "q \<noteq> p" "q \<noteq> pd" for q
    using s1 s2 that same_page_trans by blast
  show pde: "pde m' pd j = (if j = i then p OR fl else pde m pd j)" if j: "j < 1024" for j
  proof -
    have "load32 ?m1 (cell pd (4 * j)) = load32 m (cell pd (4 * j))"
      using s1 [OF D(1)] pd entry_offset_ok [OF j] by (auto simp: same_page_def)
    then show ?thesis
      unfolding pde_def m'_def
      using load_store_cell [OF D(1) D(1) entry_offset_ok [OF i(1)] entry_offset_ok [OF j]] pm by simp
  qed
  have old: "table m pd j \<noteq> p" if "j < 1024" "pde m pd j \<noteq> 0" for j
    using D(3) [OF that] p(2) by auto
  show "pd_ok m' pd (unat p + 4096)"
    unfolding pd_ok_def
  proof (intro conjI allI impI)
    show "pg_ok pd" by (rule D(1))
    show "unat pd + 4096 \<le> unat p + 4096" using D(2) p(2) by simp
  next
    fix j :: nat assume j: "j < 1024" "pde m' pd j \<noteq> 0"
    show "bit (pde m' pd j) 0" using j pde [OF j(1)] bit0 D(3) [OF j(1)] by auto
    show "pg_ok (table m' pd j)" using j pde [OF j(1)] tab p(1) D(3) [OF j(1)] by auto
    show "table m' pd j \<noteq> pd" using j pde [OF j(1)] tab pd D(3) [OF j(1)] by auto
    show "unat (table m' pd j) + 4096 \<le> unat p + 4096" using j pde [OF j(1)] tab p(2) D(3) [OF j(1)] by auto
  next
    fix j k :: nat assume jk: "j < 1024" "k < 1024" "j \<noteq> k" "pde m' pd j \<noteq> 0" "pde m' pd k \<noteq> 0"
    show "table m' pd j \<noteq> table m' pd k"
      using jk(3-5) pde [OF jk(1)] pde [OF jk(2)] tab old [OF jk(1)] old [OF jk(2)] D(4) [OF jk(1,2)] by (auto split: if_splits)
  qed
  have eq: "pte_at m' pd u = pte_at m pd u" if u: "u div 1024 < 1024" for u
  proof (cases "u div 1024 = i")
    case True
    have "load32 m' (cell p (4 * (u mod 1024))) = load32 ?m1 (cell p (4 * (u mod 1024)))"
      using s2 [OF p(1) pd] entry_offset_ok [of "u mod 1024"] by (simp add: same_page_def)
    also have "\<dots> = 0" using entry_offset_ok [of "u mod 1024"] by (intro memset_page(1) [OF p(1)]) simp
    finally show ?thesis using True pde [OF u] tab i(2) by (simp add: pte_at_def)
  next
    case False
    then show ?thesis
      using pde [OF u] same D(3) [OF u] old [OF u] entry_offset_ok [of "u mod 1024"]
      by (auto simp: pte_at_def same_page_def)
  qed
  show "pte_at m' pd = pte_at m pd"
  proof
    fix u show "pte_at m' pd u = pte_at m pd u"
      using eq [of u] by (cases "u div 1024 < 1024") (simp_all add: pte_at_def)
  qed
  show "same_page m m' q" if "other_page m pd q" "q \<noteq> p" for q
    using that by (intro same) (auto simp: other_page_def)
qed


text \<open>
  What preallocation may do: page tables are added, all existing ones stay in place, no page-table
  entry changes its value, and no page in use elsewhere is touched or becomes a table.
\<close>

definition pd_ext :: "paddr_t \<Rightarrow> pgstate \<Rightarrow> pgstate \<Rightarrow> bool" where
  "pd_ext pd s s' \<longleftrightarrow>
     (\<forall>i < 1024. pde (pmem s) pd i \<noteq> 0 \<longrightarrow> pde (pmem s') pd i = pde (pmem s) pd i)
     \<and> pte_at (pmem s') pd = pte_at (pmem s) pd
     \<and> (\<forall>q. other_page (pmem s) pd q \<longrightarrow> unat q < unat (mm_addr s) \<longrightarrow>
          same_page (pmem s) (pmem s') q \<and> other_page (pmem s') pd q)
     \<and> unat (mm_addr s) \<le> unat (mm_addr s') \<and> high_vma s' = high_vma s \<and> pd_reg s' = pd_reg s"

lemma pd_ext_refl [simp]: "pd_ext pd s s"
  by (simp add: pd_ext_def)

lemma pd_ext_trans:
  assumes 1: "pd_ext pd s s1" and 2: "pd_ext pd s1 s2"
  shows "pd_ext pd s s2"
proof -
  have "same_page (pmem s) (pmem s2) q \<and> other_page (pmem s2) pd q"
    if "other_page (pmem s) pd q" "unat q < unat (mm_addr s)" for q
  proof -
    have q1: "same_page (pmem s) (pmem s1) q" "other_page (pmem s1) pd q" "unat q < unat (mm_addr s1)"
      using 1 that by (auto simp: pd_ext_def)
    then have "same_page (pmem s1) (pmem s2) q" "other_page (pmem s2) pd q" using 2 by (auto simp: pd_ext_def)
    then show ?thesis using q1 same_page_trans by blast
  qed
  then show ?thesis using 1 2 by (auto simp: pd_ext_def)
qed

text \<open>Every table that is added is present, writable, and accessible to user mode outside the kernel's directory.\<close>

definition tables_added :: "bool \<Rightarrow> paddr_t \<Rightarrow> mem \<Rightarrow> mem \<Rightarrow> bool" where
  "tables_added kern pd m m' \<longleftrightarrow> (\<forall>i < 1024. pde m pd i = 0 \<and> pde m' pd i \<noteq> 0 \<longrightarrow> pde m' pd i AND 7 = table_flags kern)"

lemma tables_added_same: "\<forall>i < 1024. pde m' pd i = pde m pd i \<Longrightarrow> tables_added kern pd m m'"
  by (simp add: tables_added_def)

lemma tables_added_trans:
  assumes "tables_added kern pd m m1" "tables_added kern pd m1 m2" "\<forall>i < 1024. pde m1 pd i \<noteq> 0 \<longrightarrow> pde m2 pd i = pde m1 pd i"
  shows "tables_added kern pd m m2"
  using assms by (metis tables_added_def)

lemma prealloc_step:
  assumes ok: "pd_ok (pmem s) pd (unat (mm_addr s))" and fr: "frames s (Suc n)"
    and idx: "unat idx < 1024" "pde (pmem s) pd (unat idx) = 0"
  shows "\<exists>s1. prealloc debug kern pd idx (Suc k) s = prealloc debug kern pd (idx + 1) k s1
    \<and> pd_ok (pmem s1) pd (unat (mm_addr s1)) \<and> frames s1 n \<and> pd_ext pd s s1 \<and> pde (pmem s1) pd (unat idx) \<noteq> 0
    \<and> (\<forall>i < 1024. i \<noteq> unat idx \<longrightarrow> pde (pmem s1) pd i = pde (pmem s) pd i) \<and> tables_added kern pd (pmem s) (pmem s1)"
proof -
  let ?p = "ucast (mm_addr s) :: u32" and ?fl = "table_flags kern"
  obtain s0 where s0: "bootstrap_fetch_page debug s = Inr (?p, s0)" "frames s0 n"
    "unat (mm_addr s0) = unat (mm_addr s) + 4096" "pmem s0 = pmem s" "high_vma s0 = high_vma s" "pd_reg s0 = pd_reg s"
    and p: "unat ?p = unat (mm_addr s)" "pg_ok ?p"
    using fetch_page_ok(1) [OF fr, of debug] fetch_page_ok(2,3) [OF fr] by blast
  let ?m = "store32 (memset (pmem s) ?p 0 4096) (cell pd (4 * unat idx)) ((?p AND PAGE_MASK) OR ?fl)"
  define s1 where "s1 = s0\<lparr>pmem := ?m\<rparr>"
  have fl: "?fl < 4096" "bit ?fl 0" by (simp_all add: table_flags_def)
  have fl': "ARCH_PD_ENTRY_PRESENT OR ARCH_PD_ENTRY_RW OR (if kern then 0 else ARCH_PD_ENTRY_USER) = ?fl"
    by (simp add: ARCH_PD_ENTRY_PRESENT_def ARCH_PD_ENTRY_RW_def ARCH_PD_ENTRY_USER_def table_flags_def)
  note N = new_table [OF ok p(2) _ idx fl]
  have le: "unat (mm_addr s) \<le> unat ?p" using p(1) by simp
  have "\<not> 1024 \<le> idx" using idx(1) by (simp add: word_le_nat_alt)
  then have run: "prealloc debug kern pd idx (Suc k) s = prealloc debug kern pd (idx + 1) k s1"
    using idx(2) s0(1,4) pg_ok_nonzero [OF p(2)]
    by (simp add: entry_cell pde_def page_masks fl' s1_def Let_def)
  have "other_page ?m pd q" if "other_page (pmem s) pd q" "unat q < unat (mm_addr s)" for q
  proof -
    have "table ?m pd j \<noteq> q" if "j < 1024" "pde ?m pd j \<noteq> 0" for j
      using N(1) [OF le that(1)] that(2) \<open>other_page (pmem s) pd q\<close> \<open>unat q < _\<close> p
        mask_or_flags(1) [OF fl(1), of ?p] pg_ok_mask [OF p(2)]
      by (auto simp: other_page_def that(1) split: if_splits)
    then show ?thesis using that by (auto simp: other_page_def)
  qed
  moreover have "same_page (pmem s) ?m q" if "other_page (pmem s) pd q" "unat q < unat (mm_addr s)" for q
    using that p(1) by (intro N(4) [OF le]) auto
  moreover have "pde ?m pd (unat idx) \<noteq> 0"
  proof -
    have "bit (?p OR ?fl) 0" using fl(2) by (simp add: bit_simps)
    then show ?thesis using N(1) [OF le idx(1)] by auto
  qed
  moreover have "pd_ext pd s s1"
    unfolding pd_ext_def
    using N(1,3) [OF le] idx(2) calculation(1,2) s0 by (auto simp: s1_def)
  moreover have "pde ?m pd i = pde (pmem s) pd i" if "i < 1024" "i \<noteq> unat idx" for i
    using N(1) [OF le that(1)] that(2) by simp
  moreover have "tables_added kern pd (pmem s) ?m"
  proof -
    have "((?p AND PAGE_MASK) OR ?fl) AND 7 = ?fl"
      by (simp add: bit.conj_disj_distrib2 PAGE_MASK_def and.assoc table_flags_def)
    then show ?thesis using N(1) [OF le] idx(2) pg_ok_mask [OF p(2)] by (auto simp: tables_added_def)
  qed
  ultimately show ?thesis
    using run N(2) [OF le] s0 p(1) by (auto simp: s1_def frames_def)
qed

lemma prealloc_ok:
  assumes "pd_ok (pmem s) pd (unat (mm_addr s))" "frames s (k + n)" "unat idx + k \<le> 1024"
  shows "\<exists>s'. prealloc debug kern pd idx k s = Inr s' \<and> pd_ok (pmem s') pd (unat (mm_addr s'))
    \<and> frames s' n \<and> pd_ext pd s s' \<and> (\<forall>i. unat idx \<le> i \<longrightarrow> i < unat idx + k \<longrightarrow> pde (pmem s') pd i \<noteq> 0)
    \<and> (\<forall>i < 1024. i < unat idx \<or> unat idx + k \<le> i \<longrightarrow> pde (pmem s') pd i = pde (pmem s) pd i) \<and> tables_added kern pd (pmem s) (pmem s')"
  using assms
proof (induction k arbitrary: idx s)
  case 0
  then show ?case by (simp add: tables_added_same)
next
  case (Suc k)
  have idx: "unat idx < 1024" "unat (idx + 1) = unat idx + 1"
    using Suc.prems(3) unat_plus_of_nat [of idx 1] by simp_all
  have "\<exists>s1. prealloc debug kern pd idx (Suc k) s = prealloc debug kern pd (idx + 1) k s1
    \<and> pd_ok (pmem s1) pd (unat (mm_addr s1)) \<and> frames s1 (k + n) \<and> pd_ext pd s s1 \<and> pde (pmem s1) pd (unat idx) \<noteq> 0
    \<and> (\<forall>i < 1024. i \<noteq> unat idx \<longrightarrow> pde (pmem s1) pd i = pde (pmem s) pd i) \<and> tables_added kern pd (pmem s) (pmem s1)"
  proof (cases "pde (pmem s) pd (unat idx) = 0")
    case True
    then show ?thesis using prealloc_step [OF Suc.prems(1) _ idx(1)] Suc.prems(2) by simp
  next
    case False
    moreover have "\<not> 1024 \<le> idx" using idx(1) by (simp add: word_le_nat_alt)
    ultimately have "prealloc debug kern pd idx (Suc k) s = prealloc debug kern pd (idx + 1) k s"
      by (simp add: entry_cell pde_def)
    moreover have "frames s (k + n)" by (rule frames_less [OF Suc.prems(2)]) simp
    ultimately show ?thesis using Suc.prems(1) False by (intro exI [of _ s]) (auto simp: tables_added_same)
  qed
  then obtain s1 where s1: "prealloc debug kern pd idx (Suc k) s = prealloc debug kern pd (idx + 1) k s1"
    "pd_ok (pmem s1) pd (unat (mm_addr s1))" "frames s1 (k + n)" "pd_ext pd s s1" "pde (pmem s1) pd (unat idx) \<noteq> 0"
    "\<And>i. i < 1024 \<Longrightarrow> i \<noteq> unat idx \<Longrightarrow> pde (pmem s1) pd i = pde (pmem s) pd i" "tables_added kern pd (pmem s) (pmem s1)"
    by blast
  have le: "unat (idx + 1) + k \<le> 1024" using Suc.prems(3) idx(2) by simp
  obtain s' where s': "prealloc debug kern pd (idx + 1) k s1 = Inr s'" "pd_ok (pmem s') pd (unat (mm_addr s'))"
    "frames s' n" "pd_ext pd s1 s'" "\<And>i. unat idx + 1 \<le> i \<Longrightarrow> i < unat idx + 1 + k \<Longrightarrow> pde (pmem s') pd i \<noteq> 0"
    "\<And>i. i < 1024 \<Longrightarrow> i < unat idx + 1 \<or> unat idx + 1 + k \<le> i \<Longrightarrow> pde (pmem s') pd i = pde (pmem s1) pd i" "tables_added kern pd (pmem s1) (pmem s')"
    using Suc.IH [OF s1(2,3) le] unfolding idx(2) by blast
  have "pde (pmem s') pd i \<noteq> 0" if "unat idx \<le> i" "i < unat idx + Suc k" for i
  proof (cases "i = unat idx")
    case True
    then show ?thesis using s1(5) s'(4) idx(1) by (simp add: pd_ext_def)
  qed (use that s'(5) [of i] in simp)
  moreover have "pde (pmem s') pd i = pde (pmem s) pd i" if "i < 1024" "i < unat idx \<or> unat idx + Suc k \<le> i" for i
    using s'(6) [of i] s1(6) [of i] that by auto
  moreover have "tables_added kern pd (pmem s) (pmem s')" using s1(7) s'(4,7) by (auto intro: tables_added_trans simp: pd_ext_def)
  ultimately show ?case using s1(1) s'(1-3) pd_ext_trans [OF s1(4) s'(4)] by auto
qed


lemma pd_ok_mono: "pd_ok m pd lim \<Longrightarrow> lim \<le> lim' \<Longrightarrow> pd_ok m pd lim'"
  by (fastforce simp: pd_ok_def)

section \<open>The end of the memory map\<close>

text \<open>Frames are only cut off at the start of the memory map: its end stays where it is.\<close>

definition mm_end :: "pgstate \<Rightarrow> u64" where
  "mm_end s = mm_addr s + mm_len s"

lemma fetch_page_end: "bootstrap_fetch_page debug s = Inr (p, s') \<Longrightarrow> mm_end s' = mm_end s"
  by (cases "ASSERT debug (mm_len s > 4096)") (auto simp: bootstrap_fetch_page_def mm_end_def)

lemma mm_end_mem [simp]: "mm_end (s\<lparr>pmem := m\<rparr>) = mm_end s" "mm_end (s\<lparr>pmem := m, pd_reg := p\<rparr>) = mm_end s"
  by (simp_all add: mm_end_def)

lemma prealloc_end: "prealloc debug kern pd idx k s = Inr s' \<Longrightarrow> mm_end s' = mm_end s"
proof (induction k arbitrary: idx s)
  case (Suc k)
  show ?case
  proof (cases "bootstrap_fetch_page debug s")
    case (Inr r)
    then show ?thesis using Suc fetch_page_end [of debug s "fst r" "snd r"] by (cases r) (auto simp: Let_def split: if_splits)
  qed (use Suc in \<open>auto simp: Let_def split: if_splits\<close>)
qed simp

lemma map_pages_end: "map_pages debug n pd paddr vaddr sz fl off pdo pt s = Inr s' \<Longrightarrow> mm_end s' = mm_end s"
proof (induction n arbitrary: off pdo pt s)
  case (Suc n)
  show ?case
  proof (cases "bootstrap_fetch_page debug s")
    case (Inr r)
    then show ?thesis using Suc fetch_page_end [of debug s "fst r" "snd r"] by (cases r) (auto simp: Let_def split: if_splits dest!: Suc.IH)
  qed (use Suc in \<open>auto simp: Let_def split: if_splits dest!: Suc.IH\<close>)
qed simp

lemma bootstrap_mmap_end: "bootstrap_mmap debug kern pdv paddr vaddr sz flags s = Inr s' \<Longrightarrow> mm_end s' = mm_end s"
  by (auto simp: bootstrap_mmap_def Let_def bindE_def ASSERT_def split: sum.splits if_splits dest!: prealloc_end map_pages_end)

text \<open>With enough frames left the addresses handed out stay below the end.\<close>

lemma frames_end:
  assumes "frames s n"
  shows "unat (mm_addr s) + n * 4096 < unat (mm_end s)" "unat (mm_end s) \<le> 2 ^ 32"
proof -
  have "unat (mm_end s) = unat (mm_addr s) + unat (mm_len s)"
    using assms unfolding mm_end_def frames_def by (intro unat_add_lem [THEN iffD1]) simp
  then show "unat (mm_addr s) + n * 4096 < unat (mm_end s)" "unat (mm_end s) \<le> 2 ^ 32" using assms by (simp_all add: frames_def)
qed

section \<open>Mapping\<close>

text \<open>
  The abstract mapping of \<open>n\<close> pages from page \<open>v\<close> on: entries in use keep their frame and get the
  new flags; the others get the next frame, where allocation only counts the entries that were
  empty and a given physical address advances with every page.
\<close>

fun a_map :: "bool \<Rightarrow> u32 \<Rightarrow> (nat \<Rightarrow> u32) \<Rightarrow> nat \<Rightarrow> nat \<Rightarrow> nat \<Rightarrow> (nat \<Rightarrow> u32) \<times> nat" where
  "a_map alloc fl P fr v 0 = (P, fr)"
| "a_map alloc fl P fr v (Suc n) =
     a_map alloc fl (P(v := ((if P v \<noteq> 0 then P v else of_nat fr) AND PAGE_MASK) OR fl))
       (if alloc \<and> P v \<noteq> 0 then fr else fr + 4096) (v + 1) n"

lemma vpn_offsets:
  assumes "v < 1048576"
  shows "unat (of_nat (4096 * v) :: u32) = 4096 * v"
    "unat (arch_get_pt_offset (of_nat (4096 * v)) ARCH_PD_1) = v div 1024"
    "unat (arch_get_pt_offset (of_nat (4096 * v)) ARCH_PD_0) = v mod 1024"
    "v div 1024 < 1024"
proof -
  show u: "unat (of_nat (4096 * v) :: u32) = 4096 * v" using assms by (intro unat_of_nat_u32) simp
  show "unat (arch_get_pt_offset (of_nat (4096 * v)) ARCH_PD_1) = v div 1024"
    "unat (arch_get_pt_offset (of_nat (4096 * v)) ARCH_PD_0) = v mod 1024"
    unfolding pt_offsets(1,2) u by simp_all
  show "v div 1024 < 1024" using assms by (simp add: less_mult_imp_div_less)
qed

lemma mask_mask: "x AND PAGE_MASK AND PAGE_MASK = x AND PAGE_MASK"
  by (simp add: and.assoc)

text \<open>A size that takes \<open>n\<close> pages, the last one perhaps in part.\<close>

definition spans :: "size_t \<Rightarrow> nat \<Rightarrow> bool" where
  "spans sz n \<longleftrightarrow> n < 1048576 \<and> unat sz \<le> 4096 * n \<and> 4096 * n < unat sz + 4096"

lemma spans_lt:
  assumes "spans sz n" "j \<le> n"
  shows "(of_nat (4096 * j) :: u32) < sz \<longleftrightarrow> j < n"
proof -
  have "unat (of_nat (4096 * j) :: u32) = 4096 * j" using assms by (intro vpn_offsets(1)) (simp add: spans_def)
  then show ?thesis using assms by (auto simp: spans_def word_less_nat_alt)
qed

lemma spans_pages: "n < 1048576 \<Longrightarrow> spans (of_nat (4096 * n)) n"
  using vpn_offsets(1) [of n] by (simp add: spans_def)

text \<open>What one turn of the loop does, given the table of the page and a frame for it.\<close>

lemma map_pages_turn:
  assumes ok: "pd_ok (pmem s) pd lim" and v: "v = v0 + j" "v < 1048576" "j < n" "spans sz n"
    and e: "pde (pmem s) pd (v div 1024) \<noteq> 0"
    and cur: "current_pt = table (pmem s) pd (unat pdo)"
    and frame: "(if pte_at (pmem s) pd v \<noteq> 0 then Inr (pte_at (pmem s) pd v AND PAGE_MASK, s)
       else if paddr = PAGE_ALLOCATE then bootstrap_fetch_page debug s
       else Inr (paddr + of_nat (4096 * j), s)) = Inr (f, s1)" "pmem s1 = pmem s"
  shows "\<exists>pdo' cpt'. map_pages debug (Suc k) pd paddr (of_nat (4096 * v0)) sz fl (of_nat (4096 * j)) pdo current_pt s =
    map_pages debug k pd paddr (of_nat (4096 * v0)) sz fl (of_nat (4096 * Suc j)) pdo' cpt'
      (s1\<lparr>pmem := store32 (pmem s) (cell (table (pmem s) pd (v div 1024)) (4 * (v mod 1024))) ((f AND PAGE_MASK) OR fl)\<rparr>)
    \<and> cpt' = table (pmem s) pd (unat pdo') \<and> unat pdo' < 1024"
proof -
  note O = vpn_offsets [OF v(2)]
  let ?pdo = "arch_get_pt_offset (of_nat (4096 * v)) ARCH_PD_1"
  let ?pto = "arch_get_pt_offset (of_nat (4096 * v)) ARCH_PD_0"
  let ?t = "table (pmem s) pd (v div 1024)"
  have sum: "of_nat (4096 * v0) + of_nat (4096 * j) = (of_nat (4096 * v) :: u32)" by (simp add: v(1) algebra_simps)
  have lt: "(of_nat (4096 * j) :: u32) < sz"
    using spans_lt [OF v(4), of j] v(3) by simp
  have nxt: "of_nat (4096 * j) + 4096 = (of_nat (4096 * Suc j) :: u32)" by simp
  have cp: "(if pdo \<noteq> ?pdo then load32 (pmem s) (entry_addr pd ?pdo) AND PAGE_MASK else current_pt) = ?t"
    using cur O(2) by (auto simp: entry_cell pde_def)
  have t: "?t \<noteq> 0" using pd_okD(3) [OF ok O(4) e] by (auto simp: pg_ok_def)
  have en: "load32 (pmem s) (entry_addr ?t ?pto) = pte_at (pmem s) pd v"
    using O(3,4) e by (simp add: entry_cell pte_at_def)
  have "map_pages debug (Suc k) pd paddr (of_nat (4096 * v0)) sz fl (of_nat (4096 * j)) pdo current_pt s =
    map_pages debug k pd paddr (of_nat (4096 * v0)) sz fl (of_nat (4096 * Suc j)) ?pdo ?t
      (s1\<lparr>pmem := store32 (pmem s) (entry_addr ?t ?pto) ((f AND PAGE_MASK) OR fl)\<rparr>)"
    unfolding map_pages.simps if_P [OF lt] Let_def sum page_masks(1) cp en nxt frame(1) using t frame(2) by simp
  moreover have "entry_addr ?t ?pto = cell ?t (4 * (v mod 1024))" using O(3) by (simp add: entry_cell)
  ultimately show ?thesis using O(2,4) by (intro exI [of _ ?pdo] exI [of _ ?t]) simp
qed


text \<open>How many empty entries there are from page \<open>v\<close> up to page \<open>u\<close>.\<close>

definition empties :: "(nat \<Rightarrow> u32) \<Rightarrow> nat \<Rightarrow> nat \<Rightarrow> nat" where
  "empties P v u = length (filter (\<lambda>w. P w = 0) [v..<u])"

lemma empties_all: "(\<And>u. v \<le> u \<Longrightarrow> u < w \<Longrightarrow> P u = 0) \<Longrightarrow> empties P v w = w - v"
  unfolding empties_def by (subst filter_True) auto

lemma empties_same: "empties P v v = 0"
  by (simp add: empties_def)

lemma empties_step: "v < u \<Longrightarrow> empties P v u = (if P v = 0 then Suc (empties P (Suc v) u) else empties P (Suc v) u)"
  by (simp add: empties_def upt_conv_Cons)

lemma empties_cong: "v < w \<Longrightarrow> empties (P(v := x)) w u = empties P w u"
  unfolding empties_def by (intro arg_cong [of _ _ length] filter_cong) auto

lemma empties_less: "P u = 0 \<Longrightarrow> u < w \<Longrightarrow> v \<le> u \<Longrightarrow> empties P v u < empties P v w"
proof -
  assume a: "P u = 0" "u < w" "v \<le> u"
  have "[v..<w] = [v..<u] @ [u..<w]" using a upt_add_eq_append [of v u "w - u"] by simp
  then show ?thesis using a by (simp add: empties_def upt_conv_Cons [of u w])
qed

lemma empties_le: "empties P v (v + n) \<le> n"
  using length_filter_le [of "\<lambda>w. P w = 0" "[v..<v + n]"] by (simp add: empties_def)

text \<open>The frame taken for a page, and the counter after it.\<close>

lemma map_frame:
  assumes fr: "paddr = PAGE_ALLOCATE \<Longrightarrow> frames s (if e = 0 then Suc k else k) \<and> fr = unat (mm_addr s)"
    "paddr \<noteq> PAGE_ALLOCATE \<Longrightarrow> of_nat fr = paddr + of_nat (4096 * j)"
  shows "\<exists>f s1. (if e \<noteq> 0 then Inr (e AND PAGE_MASK, s)
       else if paddr = PAGE_ALLOCATE then bootstrap_fetch_page debug s
       else Inr (paddr + of_nat (4096 * j), s)) = Inr (f, s1)
     \<and> f AND PAGE_MASK = (if e \<noteq> 0 then e else of_nat fr) AND PAGE_MASK
     \<and> pmem s1 = pmem s \<and> high_vma s1 = high_vma s \<and> pd_reg s1 = pd_reg s \<and> unat (mm_addr s) \<le> unat (mm_addr s1)
     \<and> (paddr = PAGE_ALLOCATE \<longrightarrow> frames s1 k \<and> unat (mm_addr s1) = (if e \<noteq> 0 then fr else fr + 4096))
     \<and> (paddr \<noteq> PAGE_ALLOCATE \<longrightarrow> s1 = s)"
proof (cases "e = 0 \<and> paddr = PAGE_ALLOCATE")
  case True
  then have a: "frames s (Suc k)" "fr = unat (mm_addr s)" using fr(1) by auto
  obtain s1 where "bootstrap_fetch_page debug s = Inr (ucast (mm_addr s), s1)" "frames s1 k"
    "unat (mm_addr s1) = unat (mm_addr s) + 4096" "pmem s1 = pmem s" "high_vma s1 = high_vma s" "pd_reg s1 = pd_reg s"
    using fetch_page_ok(1) [OF a(1)] by blast
  then show ?thesis using True a(2) by (intro exI [of _ "ucast (mm_addr s)"] exI [of _ s1]) simp
next
  case False
  let ?f = "if e \<noteq> 0 then e AND PAGE_MASK else paddr + of_nat (4096 * j)"
  have "(if e \<noteq> 0 then Inr (e AND PAGE_MASK, s) else if paddr = PAGE_ALLOCATE then bootstrap_fetch_page debug s
       else Inr (paddr + of_nat (4096 * j), s)) = Inr (?f, s)"
    using False by simp
  moreover have "?f AND PAGE_MASK = (if e \<noteq> 0 then e else of_nat fr) AND PAGE_MASK"
    using False fr(2) by (simp add: mask_mask)
  moreover have "frames s k \<and> unat (mm_addr s) = (if e \<noteq> 0 then fr else fr + 4096)" if "paddr = PAGE_ALLOCATE"
    using fr(1) [OF that] False that by simp
  ultimately show ?thesis by blast
qed

text \<open>The loop over the pages has done its work from page \<open>v\<close> on: the entries are those of \<open>a_map\<close>, all else is kept.\<close>

definition pages_mapped :: "bool \<Rightarrow> u32 \<Rightarrow> paddr_t \<Rightarrow> nat \<Rightarrow> nat \<Rightarrow> nat \<Rightarrow> nat \<Rightarrow> pgstate \<Rightarrow> pgstate \<Rightarrow> bool" where
  "pages_mapped alloc fl pd N fr v n s s' \<longleftrightarrow> pd_ok (pmem s') pd (unat (mm_addr s')) \<and> (\<forall>i < 1024. pde (pmem s') pd i = pde (pmem s) pd i)
     \<and> pte_at (pmem s') pd = fst (a_map alloc fl (pte_at (pmem s) pd) fr v n)
     \<and> (alloc \<longrightarrow> unat (mm_addr s') = snd (a_map True fl (pte_at (pmem s) pd) fr v n))
     \<and> (\<forall>q. other_page (pmem s) pd q \<longrightarrow> same_page (pmem s) (pmem s') q) \<and> unat (mm_addr s) \<le> unat (mm_addr s')
     \<and> high_vma s' = high_vma s \<and> pd_reg s' = pd_reg s \<and> frames s' N"

lemma pages_mapped_step:
  fixes s s1 s' :: pgstate and pd :: paddr_t and v :: nat
  defines "P \<equiv> pte_at (pmem s) pd"
  assumes ok: "pd_ok (pmem s) pd (unat (mm_addr s))" and v: "v div 1024 < 1024" "pde (pmem s) pd (v div 1024) \<noteq> 0"
    and f: "f AND PAGE_MASK = (if P v \<noteq> 0 then P v else of_nat fr) AND PAGE_MASK"
    and s1: "pmem s1 = pmem s" "high_vma s1 = high_vma s" "pd_reg s1 = pd_reg s" "unat (mm_addr s) \<le> unat (mm_addr s1)"
    and rest: "pages_mapped alloc fl pd N (if alloc \<and> P v \<noteq> 0 then fr else fr + 4096) (v + 1) n
      (s1\<lparr>pmem := store32 (pmem s) (cell (table (pmem s) pd (v div 1024)) (4 * (v mod 1024))) ((f AND PAGE_MASK) OR fl)\<rparr>) s'"
  shows "pages_mapped alloc fl pd N fr v (Suc n) s s'"
proof -
  let ?m = "pmem s" and ?m' = "store32 (pmem s) (cell (table (pmem s) pd (v div 1024)) (4 * (v mod 1024))) ((f AND PAGE_MASK) OR fl)"
  note S = store_pte [OF ok v, where w = "(f AND PAGE_MASK) OR fl"] and R = rest [unfolded pages_mapped_def]
  have P': "pte_at ?m' pd = P(v := ((if P v \<noteq> 0 then P v else of_nat fr) AND PAGE_MASK) OR fl)" using S(3) f by (simp add: P_def)
  have "pte_at (pmem s') pd = fst (a_map alloc fl P fr v (Suc n))" "alloc \<longrightarrow> unat (mm_addr s') = snd (a_map True fl P fr v (Suc n))"
    using R unfolding a_map.simps by (simp_all add: P')
  moreover have "same_page ?m (pmem s') q" if "other_page ?m pd q" for q
  proof -
    have "other_page ?m' pd q" using that S(1) by (auto simp: other_page_def)
    then have "same_page ?m' (pmem s') q" using R by simp
    then show ?thesis using S(4) [OF that] same_page_trans by blast
  qed
  moreover have "\<forall>i < 1024. pde (pmem s') pd i = pde ?m pd i" using R S(1) by simp
  ultimately show ?thesis using R s1(2-4) unfolding pages_mapped_def P_def by simp
qed

lemma map_pages_ok:
  assumes "pd_ok (pmem s) pd (unat (mm_addr s))" "v0 + n \<le> 1048576" "spans sz n" "j \<le> n" "n - j < k"
    and "\<And>u. v0 \<le> u \<Longrightarrow> u < v0 + n \<Longrightarrow> pde (pmem s) pd (u div 1024) \<noteq> 0"
    and "current_pt = table (pmem s) pd (unat pdo)" "unat pdo < 1024"
    and "paddr = PAGE_ALLOCATE \<Longrightarrow> frames s (empties (pte_at (pmem s) pd) (v0 + j) (v0 + n) + N) \<and> fr = unat (mm_addr s)"
    and "paddr \<noteq> PAGE_ALLOCATE \<Longrightarrow> of_nat fr = paddr + of_nat (4096 * j)" "frames s N"
  shows "\<exists>s'. map_pages debug k pd paddr (of_nat (4096 * v0)) sz fl (of_nat (4096 * j)) pdo current_pt s = Inr s'
    \<and> pages_mapped (paddr = PAGE_ALLOCATE) fl pd N fr (v0 + j) (n - j) s s'"
  using assms
proof (induction k arbitrary: j s pdo current_pt fr)
  case 0
  then show ?case by simp
next
  case (Suc k)
  show ?case
  proof (cases "j = n")
    case True
    then have "\<not> (of_nat (4096 * j) :: u32) < sz" using spans_lt [OF Suc.prems(3), of j] by simp
    then show ?thesis using True Suc.prems by (auto simp: pages_mapped_def)
  next
    case False
    let ?v = "v0 + j" and ?m = "pmem s" and ?P = "pte_at (pmem s) pd" and ?E = "empties (pte_at (pmem s) pd) (v0 + Suc j) (v0 + n)"
    have j: "j < n" "?v < 1048576" "n - j = Suc (n - Suc j)" using False Suc.prems by auto
    note v = vpn_offsets(4) [OF j(2)]
    have e: "pde ?m pd (?v div 1024) \<noteq> 0" using Suc.prems(6) [of ?v] j by simp
    have fr': "paddr = PAGE_ALLOCATE \<Longrightarrow> frames s (if ?P ?v = 0 then Suc (?E + N) else ?E + N) \<and> fr = unat (mm_addr s)"
      using Suc.prems(9) empties_step [of ?v "v0 + n" ?P] j(1) by auto
    obtain f s1 where f: "(if ?P ?v \<noteq> 0 then Inr (?P ?v AND PAGE_MASK, s)
        else if paddr = PAGE_ALLOCATE then bootstrap_fetch_page debug s
        else Inr (paddr + of_nat (4096 * j), s)) = Inr (f, s1)"
      "f AND PAGE_MASK = (if ?P ?v \<noteq> 0 then ?P ?v else of_nat fr) AND PAGE_MASK"
      and s1: "pmem s1 = ?m" "high_vma s1 = high_vma s" "pd_reg s1 = pd_reg s" "unat (mm_addr s) \<le> unat (mm_addr s1)"
      and al: "paddr = PAGE_ALLOCATE \<Longrightarrow> frames s1 (?E + N) \<and> unat (mm_addr s1) = (if ?P ?v \<noteq> 0 then fr else fr + 4096)"
      and na: "paddr \<noteq> PAGE_ALLOCATE \<Longrightarrow> s1 = s"
      using map_frame [OF fr' Suc.prems(10), where debug = debug] by blast
    let ?w = "(f AND PAGE_MASK) OR fl"
    let ?s' = "s1\<lparr>pmem := store32 ?m (cell (table ?m pd (?v div 1024)) (4 * (?v mod 1024))) ?w\<rparr>"
    let ?fr = "if paddr = PAGE_ALLOCATE \<and> ?P ?v \<noteq> 0 then fr else fr + 4096"
    note S = store_pte [OF Suc.prems(1) v e, where w = ?w]
    obtain pdo' cpt' where turn: "map_pages debug (Suc k) pd paddr (of_nat (4096 * v0)) sz fl (of_nat (4096 * j)) pdo current_pt s =
        map_pages debug k pd paddr (of_nat (4096 * v0)) sz fl (of_nat (4096 * Suc j)) pdo' cpt' ?s'"
      "cpt' = table ?m pd (unat pdo')" "unat pdo' < 1024"
      using map_pages_turn [OF Suc.prems(1) refl j(2,1) Suc.prems(3) e Suc.prems(7) f(1) s1(1)] by blast
    have ok': "pd_ok (pmem ?s') pd (unat (mm_addr ?s'))"
      using pd_ok_mono [OF S(2) s1(4)] by simp
    have "\<exists>s'. map_pages debug k pd paddr (of_nat (4096 * v0)) sz fl (of_nat (4096 * Suc j)) pdo' cpt' ?s' = Inr s'
      \<and> pages_mapped (paddr = PAGE_ALLOCATE) fl pd N ?fr (v0 + Suc j) (n - Suc j) ?s' s'"
    proof (rule Suc.IH [OF ok' Suc.prems(2,3)])
      show "Suc j \<le> n" "n - Suc j < k" "unat pdo' < 1024" using j Suc.prems(5) turn(3) by auto
      show "pde (pmem ?s') pd (u div 1024) \<noteq> 0" if "v0 \<le> u" "u < v0 + n" for u
        using Suc.prems(6) [OF that] S(1) [of "u div 1024"] vpn_offsets(4) [of u] that Suc.prems(2) by simp
      show "cpt' = table (pmem ?s') pd (unat pdo')" using turn(2,3) S(1) by simp
      have "frames s1 N"
        using al na Suc.prems(11) frames_less [of s1 "?E + N" N] by (cases "paddr = PAGE_ALLOCATE") auto
      then show "frames ?s' N" by (simp add: frames_def)
      have "empties (pte_at (pmem ?s') pd) (v0 + Suc j) (v0 + n) = ?E" "frames ?s' (?E + N) = frames s1 (?E + N)"
        using S(3) empties_cong [of ?v "v0 + Suc j" ?P ?w "v0 + n"] by (simp_all add: frames_def)
      then show "frames ?s' (empties (pte_at (pmem ?s') pd) (v0 + Suc j) (v0 + n) + N) \<and> ?fr = unat (mm_addr ?s')"
        if "paddr = PAGE_ALLOCATE" using al [OF that] that by simp
      show "of_nat ?fr = paddr + of_nat (4096 * Suc j)" if "paddr \<noteq> PAGE_ALLOCATE"
        using Suc.prems(10) [OF that] that by simp
    qed
    then show ?thesis
      using pages_mapped_step [OF Suc.prems(1) v e f(2) s1, of "paddr = PAGE_ALLOCATE" fl N "n - Suc j"] unfolding turn(1) j(3) by (auto simp: add.assoc)
  qed
qed


section \<open>What the abstract mapping maps\<close>

lemma a_map_at:
  "fst (a_map True fl P fr v n) u =
      (if v \<le> u \<and> u < v + n then ((if P u \<noteq> 0 then P u else of_nat (fr + 4096 * empties P v u)) AND PAGE_MASK) OR fl
       else P u)"
  "snd (a_map True fl P fr v n) = fr + 4096 * empties P v (v + n)"
proof -
  have 1: "fst (a_map True fl P fr v n) u =
      (if v \<le> u \<and> u < v + n then ((if P u \<noteq> 0 then P u else of_nat (fr + 4096 * empties P v u)) AND PAGE_MASK) OR fl
       else P u)" for P :: "nat \<Rightarrow> u32" and fr
  proof (induction n arbitrary: P fr v)
    case (Suc n)
    let ?x = "((if P v \<noteq> 0 then P v else of_nat fr) AND PAGE_MASK) OR fl"
    let ?fr = "if P v \<noteq> 0 then fr else fr + 4096"
    have "fst (a_map True fl P fr v (Suc n)) u = fst (a_map True fl (P(v := ?x)) ?fr (Suc v) n) u" by simp
    also have "\<dots> = (if Suc v \<le> u \<and> u < Suc v + n
        then ((if (P(v := ?x)) u \<noteq> 0 then (P(v := ?x)) u else of_nat (?fr + 4096 * empties (P(v := ?x)) (Suc v) u)) AND PAGE_MASK) OR fl
        else (P(v := ?x)) u)"
      by (rule Suc.IH)
    finally show ?case
      using empties_step [of v u P] empties_cong [of v "Suc v" P ?x u]
      by (cases "u = v") (auto simp: add.assoc empties_same)
  qed auto
  show "fst (a_map True fl P fr v n) u =
      (if v \<le> u \<and> u < v + n then ((if P u \<noteq> 0 then P u else of_nat (fr + 4096 * empties P v u)) AND PAGE_MASK) OR fl
       else P u)" by (rule 1)
  show "snd (a_map True fl P fr v n) = fr + 4096 * empties P v (v + n)"
  proof (induction n arbitrary: P fr v)
    case 0
    then show ?case by (simp add: empties_def)
  next
    case (Suc n)
    show ?case
      unfolding a_map.simps Suc.IH using empties_step [of v "v + Suc n" P] empties_cong [of v "Suc v" P]
      by (simp del: fun_upd_apply)
  qed
qed

lemma a_map_fixed_at:
  "fst (a_map False fl P fr v n) u =
      (if v \<le> u \<and> u < v + n then ((if P u \<noteq> 0 then P u else of_nat (fr + 4096 * (u - v))) AND PAGE_MASK) OR fl
       else P u)"
proof (induction n arbitrary: P fr v)
  case (Suc n)
  let ?x = "((if P v \<noteq> 0 then P v else of_nat fr) AND PAGE_MASK) OR fl"
  have "fst (a_map False fl P fr v (Suc n)) u = fst (a_map False fl (P(v := ?x)) (fr + 4096) (Suc v) n) u" by simp
  also have "\<dots> = (if Suc v \<le> u \<and> u < Suc v + n
      then ((if (P(v := ?x)) u \<noteq> 0 then (P(v := ?x)) u else of_nat (fr + 4096 + 4096 * (u - Suc v))) AND PAGE_MASK) OR fl
      else (P(v := ?x)) u)"
    by (rule Suc.IH)
  finally show ?case
    by (cases "u = v"; cases "v < u") (auto simp: Suc_diff_le algebra_simps)
qed auto

section \<open>The whole routine\<close>

definition table_count :: "paddr_t \<Rightarrow> nat \<Rightarrow> nat \<Rightarrow> nat" where
  "table_count pt v n = n div 1024 + (if v mod 1024 + n > 1024 then 1 else 0) + (if pt = 0 then 1 else 0)"

lemma no_page_tables_nat:
  assumes "v < 1048576" "n < 1048576"
  shows "unat (no_page_tables pt (of_nat (4096 * v)) (of_nat (4096 * n))) = table_count pt v n"
proof -
  let ?a = "arch_get_pt_offset (of_nat (4096 * v)) ARCH_PD_0" and ?sz = "of_nat (4096 * n) :: u32"
  have a: "unat ?a = v mod 1024" by (rule vpn_offsets(3) [OF assms(1)])
  have sz: "unat ?sz = 4096 * n" by (rule vpn_offsets(1) [OF assms(2)])
  have q: "unat (?sz div 4096) = n" "unat (?sz div ARCH_PT_ADDRESSABLE_BYTES) = n div 1024"
    using sz by (simp_all add: unat_div ARCH_PT_ADDRESSABLE_BYTES_def div_mult2_eq)
  have "v mod 1024 + n < 4294967296" using assms(2) mod_less_divisor [of 1024 v] by linarith
  then have "unat (?a + ?sz div 4096) = v mod 1024 + n" using a q(1) by (subst unat_add_no_wrap) auto
  then have c: "?a + ?sz div 4096 > 1024 \<longleftrightarrow> v mod 1024 + n > 1024" by (simp add: word_less_nat_alt)
  have add: "unat (x + (if b then 1 else 0) + (if d then 1 else 0)) =
      unat x + (if b then 1 else 0) + (if d then 1 else 0)" if "unat x < 1024" for x :: u32 and b d
    using that by (simp add: unat_word_ariths)
  have "n div 1024 < 1024" using assms(2) by (simp add: less_mult_imp_div_less)
  then show ?thesis
    unfolding no_page_tables_def Let_def c table_count_def using q(2) by (subst add) simp_all
qed


text \<open>Preallocation covers the range if its first table is missing, or if the rest of the range does
  not spill over into one table more than the code counts.\<close>

lemma tables_covered:
  assumes "pt = 0 \<or> v mod 1024 + n mod 1024 \<le> 1024" "v \<le> u" "u < v + n"
  shows "u div 1024 < v div 1024 + table_count pt v n \<or> (pt \<noteq> 0 \<and> u div 1024 = v div 1024)"
proof -
  let ?a = "v mod 1024" and ?q = "n div 1024" and ?r = "n mod 1024"
  obtain d where u: "u = v + d" "d < n" using assms(2,3) by (metis add_less_cancel_left le_Suc_ex)
  have v: "v = 1024 * (v div 1024) + ?a" and n: "n = 1024 * ?q + ?r" by simp_all
  have ud: "u div 1024 = v div 1024 + (?a + d) div 1024"
  proof -
    have "u = (?a + d) + 1024 * (v div 1024)" using u(1) v by linarith
    then show ?thesis by (metis add.commute div_mult_self2 zero_neq_numeral)
  qed
  have a: "?a < 1024" "?r < 1024" by simp_all
  show ?thesis
  proof (cases "?a + n > 1024")
    case True
    have lin: "a + d < 1024 * (q + 2)" "a + r \<le> 1024 \<Longrightarrow> a + d < 1024 * (q + 1)"
      if "a < 1024" "r < 1024" "d < n" "n = 1024 * q + r" for a q r :: nat
      using that by simp_all
    note lin = lin [OF a u(2) n]
    have "?a + d < 1024 * (?q + 2)" by (rule lin(1))
    then have 1: "(?a + d) div 1024 < ?q + 2" by (simp add: less_mult_imp_div_less mult.commute)
    have 2: "(?a + d) div 1024 < ?q + 1" if "?a + ?r \<le> 1024"
    proof -
      have "?a + d < 1024 * (?q + 1)" using that by (rule lin(2))
      then show ?thesis by (simp add: less_mult_imp_div_less mult.commute)
    qed
    show ?thesis using 1 2 assms(1) True ud by (auto simp: table_count_def)
  next
    case False
    then have "(?a + d) div 1024 = 0" using u(2) by simp
    then show ?thesis using ud by (auto simp: table_count_def)
  qed
qed

lemma bootstrap_mmap_span:
  fixes s :: pgstate and pdv :: vaddr_t and v :: nat and sz :: size_t
  defines "pd \<equiv> kphys s pdv" and "m \<equiv> pmem s"
  defines "k \<equiv> unat (no_page_tables (table m pd (v div 1024)) (of_nat (4096 * v)) sz)"
  assumes ok: "pd_ok m pd (unat (mm_addr s))" and v: "v + n \<le> 1048576" "v < 1048576" "spans sz n"
    and pa: "paddr mod 4096 = 0" and dbg: "debug \<Longrightarrow> sz mod 4096 = 0"
    and top: "v div 1024 + k \<le> 1024"
    and cover: "\<And>u. v \<le> u \<Longrightarrow> u < v + n \<Longrightarrow> pde m pd (u div 1024) \<noteq> 0 \<or> u div 1024 < v div 1024 + k"
    and fr: "frames s (k + ((if paddr = PAGE_ALLOCATE then empties (pte_at m pd) v (v + n) else 0) + N))"
  shows "\<exists>s' f. bootstrap_mmap debug kern pdv paddr (of_nat (4096 * v)) sz flags s = Inr s'
    \<and> pd_ok (pmem s') pd (unat (mm_addr s'))
    \<and> pte_at (pmem s') pd = fst (a_map (paddr = PAGE_ALLOCATE) (page_flags flags) (pte_at m pd) f v n)
    \<and> (if paddr = PAGE_ALLOCATE
       then unat (mm_addr s) \<le> f \<and> f mod 4096 = 0 \<and> unat (mm_addr s') = f + 4096 * empties (pte_at m pd) v (v + n)
            \<and> unat (mm_addr s') < 2 ^ 32 \<and> pd_ok (pmem s') pd f
       else f = unat paddr)
    \<and> (\<forall>q. other_page m pd q \<longrightarrow> unat q < unat (mm_addr s) \<longrightarrow> same_page m (pmem s') q \<and> other_page (pmem s') pd q)
    \<and> (\<forall>i < 1024. pde m pd i \<noteq> 0 \<or> i < v div 1024 \<or> v div 1024 + k \<le> i \<longrightarrow> pde (pmem s') pd i = pde m pd i)
    \<and> tables_added kern pd m (pmem s') \<and> unat (mm_addr s) \<le> unat (mm_addr s')
    \<and> high_vma s' = high_vma s \<and> pd_reg s' = pd_reg s \<and> frames s' N"
proof -
  let ?va = "of_nat (4096 * v) :: u32" 
  let ?idx = "arch_get_pt_offset ?va ARCH_PD_1"
  let ?t = "table m pd (v div 1024)"
  let ?k = k and ?N = "(if paddr = PAGE_ALLOCATE then empties (pte_at m pd) v (v + n) else 0) + N"
  note O = vpn_offsets [OF v(2)]
  have "frames s (?k + ?N)" by (rule fr)
  then obtain s1 where s1: "prealloc debug kern pd ?idx ?k s = Inr s1" "pd_ok (pmem s1) pd (unat (mm_addr s1))"
    "frames s1 ?N" "pd_ext pd s s1" "\<And>i. v div 1024 \<le> i \<Longrightarrow> i < v div 1024 + ?k \<Longrightarrow> pde (pmem s1) pd i \<noteq> 0"
    "\<forall>i < 1024. i < v div 1024 \<or> v div 1024 + ?k \<le> i \<longrightarrow> pde (pmem s1) pd i = pde (pmem s) pd i" "tables_added kern pd (pmem s) (pmem s1)"
    using prealloc_ok [OF ok [unfolded m_def], of ?k ?N ?idx debug kern] O(2) top by auto
  have pdes: "\<forall>i < 1024. pde m pd i \<noteq> 0 \<longrightarrow> pde (pmem s1) pd i = pde m pd i"
    and ptes: "pte_at (pmem s1) pd = pte_at m pd" and ext: "unat (mm_addr s) \<le> unat (mm_addr s1)"
    "high_vma s1 = high_vma s" "pd_reg s1 = pd_reg s"
    and others: "\<And>q. other_page m pd q \<Longrightarrow> unat q < unat (mm_addr s) \<Longrightarrow> same_page m (pmem s1) q \<and> other_page (pmem s1) pd q"
    using s1(4) by (auto simp: pd_ext_def m_def)
  have filled: "pde (pmem s1) pd (u div 1024) \<noteq> 0" if u: "v \<le> u" "u < v + n" for u
  proof -
    have "v div 1024 \<le> u div 1024" using u(1) by (rule div_le_mono)
    then show ?thesis
      using cover [OF u] s1(5) [of "u div 1024"] pdes vpn_offsets(4) [of u] u(2) v(1) by auto
  qed
  define f where "f = (if paddr = PAGE_ALLOCATE then unat (mm_addr s1) else unat paddr)"
  have "\<exists>s'. map_pages debug (2 ^ 20) pd paddr (of_nat (4096 * v)) sz (page_flags flags) (of_nat (4096 * 0)) ?idx
        (table (pmem s1) pd (unat ?idx)) s1 = Inr s' \<and> pages_mapped (paddr = PAGE_ALLOCATE) (page_flags flags) pd N f (v + 0) (n - 0) s1 s'"
  proof (rule map_pages_ok [OF s1(2) v(1,3)])
    show "paddr = PAGE_ALLOCATE \<Longrightarrow> frames s1 (empties (pte_at (pmem s1) pd) (v + 0) (v + n) + N) \<and> f = unat (mm_addr s1)" using s1(3) ptes by (simp add: f_def)
    show "paddr \<noteq> PAGE_ALLOCATE \<Longrightarrow> of_nat f = paddr + of_nat (4096 * 0)" by (simp add: f_def)
    show "frames s1 N" by (rule frames_less [OF s1(3)]) simp
  qed (use v filled O in \<open>auto simp: spans_def\<close>)
  then obtain s' where s': "map_pages debug (2 ^ 20) pd paddr ?va sz (page_flags flags) 0 ?idx
        (table (pmem s1) pd (unat ?idx)) s1 = Inr s'"
    "pd_ok (pmem s') pd (unat (mm_addr s'))" "\<forall>i < 1024. pde (pmem s') pd i = pde (pmem s1) pd i"
    "pte_at (pmem s') pd = fst (a_map (paddr = PAGE_ALLOCATE) (page_flags flags) (pte_at m pd) f v n)"
    "paddr = PAGE_ALLOCATE \<Longrightarrow> unat (mm_addr s') = snd (a_map True (page_flags flags) (pte_at m pd) f v n)"
    "\<And>q. other_page (pmem s1) pd q \<Longrightarrow> same_page (pmem s1) (pmem s') q" "high_vma s' = high_vma s" "pd_reg s' = pd_reg s" "frames s' N"
    "unat (mm_addr s1) \<le> unat (mm_addr s')"
    using ptes ext by (auto simp: pages_mapped_def)
  have al: "?va mod 4096 = 0"
    using vpn_offsets(1) [OF v(2)] by (simp add: word_unat_eq_iff unat_mod)
  have run: "bootstrap_mmap debug kern pdv paddr ?va sz flags s = Inr s'"
    using al pa dbg s1(1) s'(1) O(2)
    by (cases debug) (simp_all add: bootstrap_mmap_def Let_def entry_cell pde_def m_def pd_def page_masks(1) k_def)
  have same: "same_page m (pmem s') q \<and> other_page (pmem s') pd q" if "other_page m pd q" "unat q < unat (mm_addr s)" for q
  proof -
    have "same_page m (pmem s1) q" "other_page (pmem s1) pd q" using others [OF that] by auto
    then show ?thesis using s'(3,6) same_page_trans by (auto simp: other_page_def)
  qed
  have al': "unat (mm_addr s) \<le> f \<and> f mod 4096 = 0 \<and> unat (mm_addr s') = f + 4096 * empties (pte_at m pd) v (v + n)
      \<and> unat (mm_addr s') < 2 ^ 32 \<and> pd_ok (pmem s') pd f" if "paddr = PAGE_ALLOCATE"
  proof -
    have "4096 * empties (pte_at m pd) v (v + n) \<le> 4096 * n" using empties_le by simp
    moreover have "pd_ok (pmem s') pd f" using s1(2) s'(3) that by (simp add: pd_ok_def f_def)
    ultimately show ?thesis
      using s1(3) ext(1) s'(5) [OF that] that by (auto simp: a_map_at(2) f_def frames_def)
  qed
  have "tables_added kern pd m (pmem s')"
    using tables_added_trans [OF s1(7) tables_added_same [OF s'(3)]] s'(3) unfolding m_def by blast
  moreover have "pde (pmem s') pd i = pde m pd i" if "i < 1024" "pde m pd i \<noteq> 0 \<or> i < v div 1024 \<or> v div 1024 + ?k \<le> i" for i
    using that pdes s1(6) s'(3) unfolding m_def by metis
  moreover have "paddr \<noteq> PAGE_ALLOCATE \<Longrightarrow> f = unat paddr" by (simp add: f_def)
  ultimately show ?thesis
    using run s'(2,4,7,8,9) order_trans [OF ext(1) s'(10)] same al' by (intro exI [of _ s'] exI [of _ f]) auto
qed


lemma bootstrap_mmap_ok:
  fixes s :: pgstate and pdv :: vaddr_t
  defines "pd \<equiv> kphys s pdv" and "m \<equiv> pmem s"
  assumes ok: "pd_ok m pd (unat (mm_addr s))" and v: "v + n \<le> 1048576" "v < 1048576" "n < 1048576"
    and pa: "paddr mod 4096 = 0"
    and top: "v div 1024 + n div 1024 + 2 \<le> 1024"
    and cover: "pde m pd (v div 1024) = 0 \<or> v mod 1024 + n mod 1024 \<le> 1024"
    and fr: "frames s (n div 1024 + 2 + ((if paddr = PAGE_ALLOCATE then n else 0) + N))"
  shows "\<exists>s' f. bootstrap_mmap debug kern pdv paddr (of_nat (4096 * v)) (of_nat (4096 * n)) flags s = Inr s'
    \<and> pd_ok (pmem s') pd (unat (mm_addr s'))
    \<and> pte_at (pmem s') pd = fst (a_map (paddr = PAGE_ALLOCATE) (page_flags flags) (pte_at m pd) f v n)
    \<and> (if paddr = PAGE_ALLOCATE
       then unat (mm_addr s) \<le> f \<and> f mod 4096 = 0 \<and> unat (mm_addr s') = f + 4096 * empties (pte_at m pd) v (v + n)
            \<and> unat (mm_addr s') < 2 ^ 32 \<and> pd_ok (pmem s') pd f
       else f = unat paddr)
    \<and> (\<forall>q. other_page m pd q \<longrightarrow> unat q < unat (mm_addr s) \<longrightarrow> same_page m (pmem s') q \<and> other_page (pmem s') pd q)
    \<and> (\<forall>i < 1024. pde m pd i \<noteq> 0 \<or> i < v div 1024
          \<or> v div 1024 + unat (no_page_tables (table m pd (v div 1024)) (of_nat (4096 * v)) (of_nat (4096 * n))) \<le> i
          \<longrightarrow> pde (pmem s') pd i = pde m pd i)
    \<and> tables_added kern pd m (pmem s') \<and> unat (mm_addr s) \<le> unat (mm_addr s')
    \<and> high_vma s' = high_vma s \<and> pd_reg s' = pd_reg s \<and> frames s' N"
  unfolding pd_def m_def
proof (rule bootstrap_mmap_span)
  let ?t = "table m pd (v div 1024)"
  note O = vpn_offsets [OF v(2)]
  have t0: "pde m pd (v div 1024) = 0 \<longleftrightarrow> ?t = 0"
    using pd_okD(3) [OF ok O(4)] by (auto simp: pg_ok_def)
  have k: "unat (no_page_tables (table (pmem s) (kphys s pdv) (v div 1024)) (of_nat (4096 * v)) (of_nat (4096 * n))) =
      table_count ?t v n"
    using no_page_tables_nat [OF v(2,3), of ?t] by (simp add: pd_def m_def)
  have le: "table_count ?t v n \<le> n div 1024 + 2" by (simp add: table_count_def)
  show "v div 1024 + unat (no_page_tables (table (pmem s) (kphys s pdv) (v div 1024)) (of_nat (4096 * v)) (of_nat (4096 * n))) \<le> 1024"
    unfolding k using le top by simp
  show "frames s (unat (no_page_tables (table (pmem s) (kphys s pdv) (v div 1024)) (of_nat (4096 * v)) (of_nat (4096 * n)))
      + ((if paddr = PAGE_ALLOCATE then empties (pte_at (pmem s) (kphys s pdv)) v (v + n) else 0) + N))"
    unfolding k by (rule frames_less [OF fr]) (use le empties_le [of "pte_at (pmem s) (kphys s pdv)" v n] in simp)
  show "pde (pmem s) (kphys s pdv) (u div 1024) \<noteq> 0 \<or> u div 1024 < v div 1024 +
      unat (no_page_tables (table (pmem s) (kphys s pdv) (v div 1024)) (of_nat (4096 * v)) (of_nat (4096 * n)))"
    if "v \<le> u" "u < v + n" for u
    unfolding k using tables_covered [of ?t v n u] cover that t0 by (auto simp: pd_def m_def)
  show "debug \<Longrightarrow> (of_nat (4096 * n) :: u32) mod 4096 = 0"
    using vpn_offsets(1) [OF v(3)] by (simp add: word_unat_eq_iff unat_mod)
qed (use ok v pa spans_pages in \<open>simp_all add: pd_def m_def\<close>)

section \<open>Reading the mappings through the page walk\<close>

lemma page_walk_pte:
  assumes "pd_ok m pd lim"
  shows "page_walk m pd va = (let p = pte_at m pd (unat va div 4096)
    in if bit p 0 then Some ((p AND PAGE_MASK) OR (va AND 0xFFF), pde m pd (unat va div 4096 div 1024) AND p AND 6) else None)"
proof -
  let ?v = "unat va div 4096"
  have v: "?v div 1024 < 1024"
    using unat_u32_lt [of va] by (simp add: less_mult_imp_div_less div_mult2_eq [symmetric])
  have d: "pd + 4 * drop_bit 22 va = cell pd (4 * (?v div 1024))"
    using pt_offsets(1,3) [of va] by (simp add: entry_cell [unfolded entry_addr_def])
  have t: "t + 4 * (drop_bit 12 va AND 0x3FF) = cell t (4 * (?v mod 1024))" for t
    using pt_offsets(2,4) [of va] by (simp add: entry_cell [unfolded entry_addr_def])
  show ?thesis
    using pd_okD(3) [OF assms v] v
    by (cases "pde m pd (?v div 1024) = 0")
      (simp_all add: page_walk_def Let_def d t pte_at_def pde_def page_masks(2))
qed

lemma page_low:
  assumes "u < 1048576" "d < 4096"
  shows "unat (of_nat (4096 * u + d) :: u32) div 4096 = u" "(of_nat (4096 * u + d) :: u32) AND 0xFFF = of_nat d"
proof -
  have b: "unat (of_nat (4096 * u + d) :: u32) = 4096 * u + d" using assms by (intro unat_of_nat_u32) simp
  then show "unat (of_nat (4096 * u + d) :: u32) div 4096 = u" using assms(2) by simp
  have m: "(0xFFF :: u32) = mask 12" by (simp add: mask_eq_exp_minus_1)
  have "(of_nat (4096 * u + d) :: u32) AND 0xFFF = of_nat (4096 * u + d) mod 4096"
    unfolding m take_bit_eq_mask [symmetric] take_bit_eq_mod by simp
  moreover have "unat (of_nat (4096 * u + d) mod 4096 :: u32) = unat (of_nat d :: u32)"
    using b assms(2) by (simp add: unat_mod unat_of_nat)
  ultimately show "(of_nat (4096 * u + d) :: u32) AND 0xFFF = of_nat d" by (simp add: word_unat_eq_iff)
qed

lemma low_bits: "(a :: u32) AND 0xFFF = of_nat (unat a mod 4096)"
proof -
  have "a AND 0xFFF = take_bit 12 a" by (simp add: take_bit_eq_mask mask_eq_exp_minus_1)
  then show ?thesis by (simp add: take_bit_eq_mod word_unat_eq_iff unat_mod unat_of_nat_u32)
qed

lemma frame_low: "(x AND PAGE_MASK) OR (va AND 0xFFF) = cell (x AND PAGE_MASK) (unat va mod 4096)"
proof -
  have pm: "PAGE_MASK = NOT (mask 12)" "(0xFFF :: u32) = mask 12"
    by (simp_all add: PAGE_MASK_def mask_eq_exp_minus_1 not_eq_complement)
  have "(x AND PAGE_MASK) AND (va AND 0xFFF) = 0"
    unfolding pm by (rule bit_word_eqI) (auto simp: bit_simps)
  then have "(x AND PAGE_MASK) OR (va AND 0xFFF) = (x AND PAGE_MASK) + (va AND 0xFFF)"
    by (simp add: disjunctive_add_eq_or)
  then show ?thesis by (simp add: cell_def low_bits)
qed

lemma page_flags_present: "flags AND 3 \<noteq> 0 \<Longrightarrow> bit (page_flags flags) 0"
proof -
  assume "flags AND 3 \<noteq> 0"
  moreover have "flags AND 3 = (flags AND KMAP_PROT_WRITE) OR (flags AND KMAP_PROT_READ)"
    by (simp add: KMAP_PROT_WRITE_def KMAP_PROT_READ_def flip: bit.conj_disj_distrib)
  ultimately have "\<not> (flags AND KMAP_PROT_READ = 0 \<and> flags AND KMAP_PROT_WRITE = 0)" by auto
  moreover from this have "flags \<noteq> KMAP_PROT_NONE" by (auto simp: KMAP_PROT_NONE_def)
  ultimately show ?thesis
    by (simp add: page_flags_def Let_def ARCH_PD_ENTRY_PRESENT_def ARCH_PD_ENTRY_RW_def ARCH_PD_ENTRY_USER_def bit_simps)
qed

lemma page_flags_eq:
  "page_flags flags = (if flags AND 3 = 0 then 0 else 1 OR (if bit flags 1 then 2 else 0) OR (if bit flags 2 then 4 else 0))"
proof -
  have e: "flags AND 2 = 0 \<longleftrightarrow> \<not> bit flags 1" "flags AND 4 = 0 \<longleftrightarrow> \<not> bit flags 2"
    using and_exp_eq_0_iff_not_bit [of flags 1] and_exp_eq_0_iff_not_bit [of flags 2] by simp_all
  have "flags AND 3 = (flags AND 2) OR (flags AND 1)" by (simp flip: bit.conj_disj_distrib)
  moreover have "x OR y = 0 \<longleftrightarrow> x = 0 \<and> y = 0" for x y :: u32 by (auto simp: or_eq_0_iff)
  ultimately have "flags AND 3 = 0 \<longleftrightarrow> flags AND 1 = 0 \<and> flags AND 2 = 0" by auto
  moreover from this have "flags AND 3 \<noteq> 0 \<Longrightarrow> flags \<noteq> 0" by auto
  ultimately show ?thesis
    by (auto simp: page_flags_def Let_def ARCH_PD_ENTRY_PRESENT_def ARCH_PD_ENTRY_RW_def ARCH_PD_ENTRY_USER_def
        KMAP_PROT_WRITE_def KMAP_PROT_READ_def KMAP_PROT_USER_def KMAP_PROT_NONE_def e)
qed

text \<open>Outside the mapped range the walk is unchanged.\<close>

lemma page_walk_outside:
  assumes ok: "pd_ok m pd lim" "pd_ok m' pd lim'"
    and p: "pte_at m' pd (unat va div 4096) = pte_at m pd (unat va div 4096)"
    and d: "\<forall>i < 1024. pde m pd i \<noteq> 0 \<longrightarrow> pde m' pd i = pde m pd i"
  shows "page_walk m' pd va = page_walk m pd va"
proof (cases "pte_at m pd (unat va div 4096) = 0")
  case True
  then show ?thesis using p by (simp add: page_walk_pte [OF ok(1)] page_walk_pte [OF ok(2)])
next
  case False
  then have "unat va div 4096 div 1024 < 1024" "pde m pd (unat va div 4096 div 1024) \<noteq> 0"
    by (auto simp: pte_at_def split: if_splits)
  then have e: "pde m' pd (unat va div 4096 div 1024) = pde m pd (unat va div 4096 div 1024)" using d by blast
  show ?thesis unfolding page_walk_pte [OF ok(1)] page_walk_pte [OF ok(2)] p e ..
qed

section \<open>The table that is not there\<close>

lemma map_pages_null:
  assumes "pd_ok (pmem s) pd (unat (mm_addr s))" "v0 + n \<le> 1048576" "spans sz n" "n - j < k"
    and "j \<le> d" "d < n" "pde (pmem s) pd ((v0 + d) div 1024) = 0"
    and "\<And>u. v0 + j \<le> u \<Longrightarrow> u < v0 + d \<Longrightarrow> pde (pmem s) pd (u div 1024) \<noteq> 0"
    and "current_pt = table (pmem s) pd (unat pdo)"
    and "frames s (n - j)"
  shows "map_pages debug k pd PAGE_ALLOCATE (of_nat (4096 * v0)) sz fl (of_nat (4096 * j)) pdo current_pt s = Inl Null_Deref"
  using assms
proof (induction k arbitrary: j s pdo current_pt)
  case 0
  then show ?case by simp
next
  case (Suc k)
  let ?v = "v0 + j" and ?m = "pmem s"
  have j: "j < n" "?v < 1048576" "n - j = Suc (n - Suc j)" using Suc.prems by auto
  note O = vpn_offsets [OF j(2)]
  show ?case
  proof (cases "j = d")
    case True
    let ?pdo = "arch_get_pt_offset (of_nat (4096 * ?v)) ARCH_PD_1"
    have sum: "of_nat (4096 * v0) + of_nat (4096 * j) = (of_nat (4096 * ?v) :: u32)" by (simp add: algebra_simps)
    have lt: "(of_nat (4096 * j) :: u32) < sz"
      using spans_lt [OF Suc.prems(3), of j] j(1) by simp
    have "(if pdo \<noteq> ?pdo then load32 ?m (entry_addr pd ?pdo) AND PAGE_MASK else current_pt) = 0"
      using Suc.prems(7,9) O(2) True by (auto simp: entry_cell pde_def)
    then show ?thesis
      unfolding map_pages.simps if_P [OF lt] Let_def sum page_masks(1) by simp
  next
    case False
    then have jd: "j < d" using Suc.prems(5) by simp
    have e: "pde ?m pd (?v div 1024) \<noteq> 0" using Suc.prems(8) [of ?v] jd by simp
    let ?P = "pte_at ?m pd"
    obtain f s1 where f: "(if ?P ?v \<noteq> 0 then Inr (?P ?v AND PAGE_MASK, s)
        else if PAGE_ALLOCATE = PAGE_ALLOCATE then bootstrap_fetch_page debug s
        else Inr (PAGE_ALLOCATE + of_nat (4096 * j), s)) = Inr (f, s1)"
      and s1: "pmem s1 = ?m" "unat (mm_addr s) \<le> unat (mm_addr s1)" "frames s1 (n - Suc j)"
    proof -
      have "frames s (if ?P ?v = 0 then Suc (n - Suc j) else n - Suc j)"
        using Suc.prems(10) j(3) frames_less [of s "n - j" "n - Suc j"] by simp
      then show ?thesis
        using map_frame [of PAGE_ALLOCATE s "?P ?v" "n - Suc j" "unat (mm_addr s)" j debug] that by metis
    qed
    let ?m' = "store32 ?m (cell (table ?m pd (?v div 1024)) (4 * (?v mod 1024))) ((f AND PAGE_MASK) OR fl)"
    let ?s' = "s1\<lparr>pmem := ?m'\<rparr>"
    note S = store_pte [OF Suc.prems(1) O(4) e, where w = "(f AND PAGE_MASK) OR fl"]
    obtain pdo' cpt' where turn: "map_pages debug (Suc k) pd PAGE_ALLOCATE (of_nat (4096 * v0)) sz fl (of_nat (4096 * j)) pdo current_pt s =
        map_pages debug k pd PAGE_ALLOCATE (of_nat (4096 * v0)) sz fl (of_nat (4096 * Suc j)) pdo' cpt' ?s'"
      "cpt' = table ?m pd (unat pdo')" "unat pdo' < 1024"
      using map_pages_turn [OF Suc.prems(1) refl j(2,1) Suc.prems(3) e Suc.prems(9) f s1(1)] by blast
    have lt: "u div 1024 < 1024" if "u < v0 + n" for u using that Suc.prems(2) vpn_offsets(4) [of u] by simp
    have "map_pages debug k pd PAGE_ALLOCATE (of_nat (4096 * v0)) sz fl (of_nat (4096 * Suc j)) pdo' cpt' ?s' = Inl Null_Deref"
    proof (rule Suc.IH [OF _ Suc.prems(2,3) _ _ Suc.prems(6)])
      show "pd_ok (pmem ?s') pd (unat (mm_addr ?s'))" using pd_ok_mono [OF S(2) s1(2)] by simp
      show "n - Suc j < k" "Suc j \<le> d" using j Suc.prems(4) jd by auto
      show "pde (pmem ?s') pd ((v0 + d) div 1024) = 0" using Suc.prems(6,7) S(1) lt [of "v0 + d"] by simp
      show "pde (pmem ?s') pd (u div 1024) \<noteq> 0" if "v0 + Suc j \<le> u" "u < v0 + d" for u
        using Suc.prems(8) [of u] S(1) [OF lt [of u]] that Suc.prems(6) by simp
      show "cpt' = table (pmem ?s') pd (unat pdo')" using turn(2,3) S(1) by simp
      show "frames ?s' (n - Suc j)" using s1(3) by (simp add: frames_def)
    qed
    then show ?thesis using turn(1) by simp
  qed
qed


section \<open>Example states\<close>

text \<open>An empty directory at \<open>0x1000\<close>; and one whose first entry points to an empty table at \<open>0x2000\<close>.\<close>

definition sample_pg :: pgstate where
  "sample_pg = \<lparr>pmem = (\<lambda>_. 0), mm_addr = 0x100000, mm_len = 0x1000000, high_vma = 0xC0000000, pd_reg = 0,
     boot_mem_start = 0, boot_mem_end = 0\<rparr>"

definition sample_pg1 :: pgstate where
  "sample_pg1 = sample_pg\<lparr>pmem := store32 (\<lambda>_. 0) 0x1000 0x2003\<rparr>"

lemma load32_zero: "load32 (\<lambda>_. 0) a = 0"
  by (simp add: load32_def)

lemma sample_pg_ok: "pd_ok (pmem sample_pg) (kphys sample_pg 0x1000) (unat (mm_addr sample_pg))"
  "kphys sample_pg 0x1000 = 0x1000" "pde (pmem sample_pg) 0x1000 i = 0" "n < 1000 \<Longrightarrow> frames sample_pg n"
  by (auto simp: sample_pg_def kphys_def pd_ok_def pde_def load32_zero pg_ok_def frames_def)

lemma sample_pg1_ok:
  "kphys sample_pg1 0x1000 = 0x1000" "n < 1000 \<Longrightarrow> frames sample_pg1 n"
  "i < 1024 \<Longrightarrow> pde (pmem sample_pg1) 0x1000 i = (if i = 0 then 0x2003 else 0)"
  "pd_ok (pmem sample_pg1) (kphys sample_pg1 0x1000) (unat (mm_addr sample_pg1))"
proof -
  have p: "pg_ok 0x1000" "pg_ok 0x2000" by (simp_all add: pg_ok_def)
  show k: "kphys sample_pg1 0x1000 = 0x1000" "n < 1000 \<Longrightarrow> frames sample_pg1 n"
    by (simp_all add: sample_pg1_def sample_pg_def kphys_def frames_def)
  show e: "pde (pmem sample_pg1) 0x1000 i = (if i = 0 then 0x2003 else 0)" if "i < 1024" for i
    using load_store_cell [OF p(1) p(1) _ entry_offset_ok [OF that], of 0 "\<lambda>_. 0" "0x2003"]
    by (simp add: sample_pg1_def pde_def load32_zero cell_0)
  show "pd_ok (pmem sample_pg1) (kphys sample_pg1 0x1000) (unat (mm_addr sample_pg1))"
  proof -
    have a: "unat (mm_addr sample_pg1) = 0x100000" by (simp add: sample_pg1_def sample_pg_def)
    show ?thesis
      unfolding pd_ok_def k(1) a using p e by (auto simp: PAGE_MASK_def split: if_splits)
  qed
qed

text \<open>The frames behind the pages of a range after a mapping with allocation: the old one, or the next of the free ones.\<close>

definition frame_after :: "(nat \<Rightarrow> u32) \<Rightarrow> nat \<Rightarrow> nat \<Rightarrow> nat \<Rightarrow> u32" where
  "frame_after P f v u = (if P u \<noteq> 0 then P u AND PAGE_MASK else of_nat (f + 4096 * empties P v u))"

lemma frame_after_new:
  assumes "lim = f + 4096 * empties P v (v + n)" "lim < 2 ^ 32" "v \<le> u" "u < v + n" "P u = 0"
  shows "unat (frame_after P f v u) = f + 4096 * empties P v u" "f + 4096 * empties P v u + 4096 \<le> lim"
proof -
  have "empties P v u < empties P v (v + n)" using assms(3-5) by (intro empties_less) auto
  then show le: "f + 4096 * empties P v u + 4096 \<le> lim" using assms(1) by simp
  show "unat (frame_after P f v u) = f + 4096 * empties P v u"
    unfolding frame_after_def using assms(2,5) le by (simp only: if_False simp_thms) (intro unat_of_nat_u32; simp)
qed

lemma frame_after_mask:
  assumes "lim = f + 4096 * empties P v (v + n)" "lim < 2 ^ 32" "f mod 4096 = 0" "v \<le> u" "u < v + n"
  shows "frame_after P f v u AND PAGE_MASK = frame_after P f v u"
proof (cases "P u = 0")
  case True
  have "unat (frame_after P f v u AND PAGE_MASK) = unat (frame_after P f v u)"
    using frame_after_new(1) [of lim f P v n u] assms True
    by (simp add: page_mask_unat) (metis add.commute dvd_add dvd_div_mult_self dvd_triv_left mod_0_imp_dvd mult.commute)
  then show ?thesis by (simp add: word_unat_eq_iff)
qed (simp add: frame_after_def mask_mask)

lemma frame_after_inj:
  assumes "lim = f + 4096 * empties P v (v + n)" "lim < 2 ^ 32"
  shows "inj_on (frame_after P f v) {u. v \<le> u \<and> u < v + n \<and> P u = 0}"
proof (rule inj_onI)
  fix x y assume xy: "x \<in> {u. v \<le> u \<and> u < v + n \<and> P u = 0}" "y \<in> {u. v \<le> u \<and> u < v + n \<and> P u = 0}" "frame_after P f v x = frame_after P f v y"
  then have "empties P v x = empties P v y" using frame_after_new(1) [OF assms, of x] frame_after_new(1) [OF assms, of y] by auto
  then show "x = y" using xy empties_less [of P x y v] empties_less [of P y x v] by (cases x y rule: linorder_cases) auto
qed

section \<open>Properties\<close>

text \<open>C28: mapping with allocation installs exactly the requested pages. For a well-formed page directory,
  enough free frames and a readable or writable protection, \<open>bootstrap_mmap\<close> returns, and afterwards
  the processor's page walk takes every address of the range to the same offset of a frame
  \<open>F u\<close>: the old frame for a page that was already mapped, otherwise a page-aligned frame that was
  free before the call, a different one for every such page. Every address outside the range is
  translated as before, and no page in use other than the directory and its tables is written.\<close>

theorem bootstrap_mmap_maps:
  assumes "pd_ok (pmem s) (kphys s pdv) (unat (mm_addr s))"
    and "v + n \<le> 1048576" "v < 1048576" "n < 1048576" "v div 1024 + n div 1024 + 2 \<le> 1024"
    and "pde (pmem s) (kphys s pdv) (v div 1024) = 0 \<or> v mod 1024 + n mod 1024 \<le> 1024"
    and "frames s (n div 1024 + 2 + n)" "flags AND 3 \<noteq> 0"
  shows "\<exists>s' F. bootstrap_mmap debug kern pdv PAGE_ALLOCATE (of_nat (4096 * v)) (of_nat (4096 * n)) flags s = Inr s'
    \<and> pd_ok (pmem s') (kphys s pdv) (unat (mm_addr s'))
    \<and> (\<forall>u d. v \<le> u \<and> u < v + n \<and> d < 4096 \<longrightarrow>
         map_option fst (page_walk (pmem s') (kphys s pdv) (of_nat (4096 * u + d))) = Some (F u OR of_nat d))
    \<and> (\<forall>u. v \<le> u \<and> u < v + n \<longrightarrow>
         (if pte_at (pmem s) (kphys s pdv) u \<noteq> 0 then F u = pte_at (pmem s) (kphys s pdv) u AND PAGE_MASK
          else unat (mm_addr s) \<le> unat (F u) \<and> unat (F u) + 4096 \<le> unat (mm_addr s') \<and> unat (F u) mod 4096 = 0))
    \<and> inj_on F {u. v \<le> u \<and> u < v + n \<and> pte_at (pmem s) (kphys s pdv) u = 0}
    \<and> (\<forall>va. unat va div 4096 < v \<or> v + n \<le> unat va div 4096 \<longrightarrow>
         page_walk (pmem s') (kphys s pdv) va = page_walk (pmem s) (kphys s pdv) va)
    \<and> (\<forall>q. other_page (pmem s) (kphys s pdv) q \<and> unat q < unat (mm_addr s) \<longrightarrow> same_page (pmem s) (pmem s') q)"
proof -
  let ?pd = "kphys s pdv" and ?m = "pmem s" and ?fl = "page_flags flags"
  let ?P = "pte_at ?m ?pd"
  obtain s' f where s': "bootstrap_mmap debug kern pdv PAGE_ALLOCATE (of_nat (4096 * v)) (of_nat (4096 * n)) flags s = Inr s'"
    "pd_ok (pmem s') ?pd (unat (mm_addr s'))" "pte_at (pmem s') ?pd = fst (a_map True ?fl ?P f v n)"
    and f: "unat (mm_addr s) \<le> f" "f mod 4096 = 0" "unat (mm_addr s') = f + 4096 * empties ?P v (v + n)" "unat (mm_addr s') < 2 ^ 32"
    and o: "\<And>q. other_page ?m ?pd q \<Longrightarrow> unat q < unat (mm_addr s) \<Longrightarrow> same_page ?m (pmem s') q"
    and d: "\<forall>i < 1024. pde ?m ?pd i \<noteq> 0 \<longrightarrow> pde (pmem s') ?pd i = pde ?m ?pd i"
    using bootstrap_mmap_ok [OF assms(1-4) _ assms(5,6), of PAGE_ALLOCATE 0 debug kern flags] assms(7)
    by (auto simp: PAGE_ALLOCATE_def)
  let ?F = "frame_after ?P f v"
  note new = frame_after_new [OF f(3,4)] and mask = frame_after_mask [OF f(3,4,2)]
  have pte: "pte_at (pmem s') ?pd u = (?F u AND PAGE_MASK) OR ?fl" if "v \<le> u" "u < v + n" for u
    using that by (simp add: s'(3) a_map_at frame_after_def mask_mask)
  have "map_option fst (page_walk (pmem s') ?pd (of_nat (4096 * u + d))) = Some (?F u OR of_nat d)"
    if "v \<le> u" "u < v + n" "d < 4096" for u d
  proof -
    have "bit (pte_at (pmem s') ?pd u) 0"
      unfolding pte [OF that(1,2)] using page_flags_present [OF assms(8)] by (simp add: bit_simps)
    moreover have "pte_at (pmem s') ?pd u AND PAGE_MASK = ?F u"
      unfolding pte [OF that(1,2)] mask_or_flags(1) [OF page_flags_small(1)] by (rule mask [OF that(1,2)])
    moreover have "u < 1048576" using that assms(2) by simp
    ultimately show ?thesis
      using page_low [OF _ that(3), of u] by (simp add: page_walk_pte [OF s'(2)] Let_def del: of_nat_add of_nat_mult)
  qed
  moreover have "if ?P u \<noteq> 0 then ?F u = ?P u AND PAGE_MASK
      else unat (mm_addr s) \<le> unat (?F u) \<and> unat (?F u) + 4096 \<le> unat (mm_addr s') \<and> unat (?F u) mod 4096 = 0"
    if "v \<le> u" "u < v + n" for u
    using new [OF that] f(1,2) by (cases "?P u = 0") (simp_all add: frame_after_def)
  moreover have "page_walk (pmem s') ?pd va = page_walk ?m ?pd va"
    if "unat va div 4096 < v \<or> v + n \<le> unat va div 4096" for va
    using that by (intro page_walk_outside [OF assms(1) s'(2) _ d]) (auto simp: s'(3) a_map_at)
  ultimately show ?thesis using s'(1,2) o frame_after_inj [OF f(3,4)] by (intro exI [of _ s'] exI [of _ ?F]) blast
qed


theorem bootstrap_mmap_maps_witness:
  "\<exists>s' F. bootstrap_mmap True False 0x1000 PAGE_ALLOCATE 0x7FFFC000 0x5000 6 sample_pg = Inr s'
     \<and> map_option fst (page_walk (pmem s') 0x1000 0x80000123) = Some (F 0x80000 OR 0x123)
     \<and> 0x100000 \<le> unat (F 0x80000)"
proof -
  have z: "pte_at (pmem sample_pg) 0x1000 0x80000 = 0" by (simp add: pte_at_def sample_pg_ok(3))
  note M = bootstrap_mmap_maps [of sample_pg "0x1000" "0x7FFFC" 5 6 True False]
  obtain s' F where s': "bootstrap_mmap True False 0x1000 PAGE_ALLOCATE (of_nat (4096 * 0x7FFFC)) (of_nat (4096 * 5)) 6 sample_pg = Inr s'"
    and w: "\<forall>u d. 0x7FFFC \<le> u \<and> u < 0x7FFFC + 5 \<and> d < 4096 \<longrightarrow>
         map_option fst (page_walk (pmem s') (kphys sample_pg 0x1000) (of_nat (4096 * u + d))) = Some (F u OR of_nat d)"
    and f: "\<forall>u. 0x7FFFC \<le> u \<and> u < 0x7FFFC + 5 \<longrightarrow>
         (if pte_at (pmem sample_pg) (kphys sample_pg 0x1000) u \<noteq> 0 then F u = pte_at (pmem sample_pg) (kphys sample_pg 0x1000) u AND PAGE_MASK
          else unat (mm_addr sample_pg) \<le> unat (F u) \<and> unat (F u) + 4096 \<le> unat (mm_addr s') \<and> unat (F u) mod 4096 = 0)"
    using M sample_pg_ok by auto
  have "map_option fst (page_walk (pmem s') 0x1000 0x80000123) = Some (F 0x80000 OR 0x123)"
    using w [rule_format, of "0x80000" "0x123"] by (simp add: sample_pg_ok(2))
  moreover have "0x100000 \<le> unat (F 0x80000)"
    using f [rule_format, of "0x80000"] z by (simp add: sample_pg_ok(2)) (simp add: sample_pg_def)
  ultimately show ?thesis using s' by auto
qed

text \<open>Mapping at a given physical address, as the kernel does for its own sections: page \<open>u\<close> of the
  range, if it was not mapped before, gets the entry for the physical page at the same distance
  from the start, with exactly the requested permission bits (present, writable when write access
  is requested, user when user access is requested); a page already mapped keeps its frame and
  gets the new bits; all other entries keep their value.\<close>

lemma kmap_entries:
  assumes "pd_ok (pmem s) (kphys s pdv) (unat (mm_addr s))"
    and "v + n \<le> 1048576" "v < 1048576" "n < 1048576" "v div 1024 + n div 1024 + 2 \<le> 1024"
    and "pde (pmem s) (kphys s pdv) (v div 1024) = 0 \<or> v mod 1024 + n mod 1024 \<le> 1024"
    and "frames s (n div 1024 + 2)" "paddr \<noteq> 0" "paddr mod 4096 = 0"
  shows "\<exists>s'. kmap debug pdv (of_nat (4096 * v)) paddr (of_nat (4096 * n)) flags s = Inr s'
    \<and> (\<forall>u. pte_at (pmem s') (kphys s pdv) u =
         (if v \<le> u \<and> u < v + n
          then ((if pte_at (pmem s) (kphys s pdv) u \<noteq> 0 then pte_at (pmem s) (kphys s pdv) u
                 else paddr + of_nat (4096 * (u - v))) AND PAGE_MASK) OR page_flags flags
          else pte_at (pmem s) (kphys s pdv) u))
    \<and> page_flags flags = (if flags AND 3 = 0 then 0
         else 1 OR (if bit flags 1 then 2 else 0) OR (if bit flags 2 then 4 else 0))"
proof -
  let ?pd = "kphys s pdv" and ?P = "pte_at (pmem s) (kphys s pdv)"
  have pa: "paddr \<noteq> PAGE_ALLOCATE" using assms(8) by (simp add: PAGE_ALLOCATE_def)
  obtain s' where s': "bootstrap_mmap debug True pdv paddr (of_nat (4096 * v)) (of_nat (4096 * n)) flags s = Inr s'"
    "pte_at (pmem s') ?pd = fst (a_map False (page_flags flags) ?P (unat paddr) v n)"
    using bootstrap_mmap_ok [OF assms(1-4,9,5,6), of 0 debug True flags] assms(7) pa by auto
  have "page_flags flags = (if flags AND 3 = 0 then 0 else 1 OR (if bit flags 1 then 2 else 0) OR (if bit flags 2 then 4 else 0))"
    by (rule page_flags_eq)
  then show ?thesis using s' by (auto simp: kmap_def a_map_fixed_at)
qed

text \<open>C29: when the first page table of a range exists already and the range continues into a second one
  that does not, the code does not allocate the second table (it counts one table and checks
  the first directory entry) and writes through a null table pointer.\<close>

theorem bootstrap_mmap_crossing_faults:
  assumes "pd_ok (pmem s) (kphys s pdv) (unat (mm_addr s))"
    and "v + n \<le> 1048576" "n < 1024" "1024 < v mod 1024 + n"
    and "pde (pmem s) (kphys s pdv) (v div 1024) \<noteq> 0" "pde (pmem s) (kphys s pdv) (v div 1024 + 1) = 0"
    and "frames s n"
  shows "bootstrap_mmap debug kern pdv PAGE_ALLOCATE (of_nat (4096 * v)) (of_nat (4096 * n)) flags s = Inl Null_Deref"
proof -
  let ?pd = "kphys s pdv" and ?m = "pmem s"
  let ?va = "of_nat (4096 * v) :: u32" and ?sz = "of_nat (4096 * n) :: u32"
  let ?idx = "arch_get_pt_offset ?va ARCH_PD_1"
  have v: "v < 1048576" "n < 1048576" using assms(2-4) by (cases n; simp)+
  note O = vpn_offsets [OF v(1)]
  let ?t = "table ?m ?pd (v div 1024)" and ?d = "1024 - v mod 1024"
  have t: "?t \<noteq> 0" using pd_okD(3) [OF assms(1) O(4) assms(5)] by (auto simp: pg_ok_def)
  have k: "table_count ?t v n = 1" using assms(3,4) t by (simp add: table_count_def)
  have pre: "prealloc debug kern ?pd ?idx (Suc 0) s = Inr s"
    using O(2,4) assms(5) by (simp add: entry_cell pde_def word_le_nat_alt)
  have d: "v + ?d = 1024 * (v div 1024 + 1)"
  proof -
    have lin: "x + (1024 - r) = 1024 * (q + 1)" if "x = 1024 * q + r" "r < 1024" for x q r :: nat
      using that by simp
    show ?thesis by (rule lin) simp_all
  qed
  have "map_pages debug (2 ^ 20) ?pd PAGE_ALLOCATE ?va ?sz (page_flags flags) (of_nat (4096 * 0)) ?idx (table ?m ?pd (unat ?idx)) s = Inl Null_Deref"
  proof (rule map_pages_null [OF assms(1,2) spans_pages [OF v(2)], where d = ?d])
    show "pde ?m ?pd ((v + ?d) div 1024) = 0" unfolding d using assms(6) by simp
    show "pde ?m ?pd (u div 1024) \<noteq> 0" if "v + 0 \<le> u" "u < v + ?d" for u
    proof -
      have "v div 1024 \<le> u div 1024" using that(1) by (intro div_le_mono) simp
      moreover have "u div 1024 < v div 1024 + 1" using that(2) unfolding d by (simp add: less_mult_imp_div_less mult.commute)
      ultimately have "u div 1024 = v div 1024" by linarith
      then show ?thesis using assms(5) by simp
    qed
    show "?d < n" using assms(4) by simp
  qed (use v assms(7) in simp_all)
  then have run: "map_pages debug (2 ^ 20) ?pd PAGE_ALLOCATE ?va ?sz (page_flags flags) 0 ?idx ?t s = Inl Null_Deref"
    using O(2) by simp
  have al: "?va mod 4096 = 0" "?sz mod 4096 = 0"
    using vpn_offsets(1) [OF v(1)] vpn_offsets(1) [OF v(2)] by (simp_all add: word_unat_eq_iff unat_mod)
  have np: "unat (no_page_tables ?t ?va ?sz) = Suc 0" using no_page_tables_nat [OF v, of ?t] k by simp
  have t': "load32 ?m (entry_addr ?pd ?idx) AND ARCH_PAGE_MASK = ?t"
    using O(2) by (simp add: entry_cell pde_def page_masks(1))
  show ?thesis
    unfolding bootstrap_mmap_def Let_def t' np pre bindE_simps run using al by (simp add: PAGE_ALLOCATE_def)
qed

theorem bootstrap_mmap_crossing_faults_witness:
  "bootstrap_mmap False False 0x1000 PAGE_ALLOCATE 0x3FF000 0x2000 6 sample_pg1 = Inl Null_Deref"
  using bootstrap_mmap_crossing_faults [of sample_pg1 "0x1000" "0x3FF" 2 False False 6] sample_pg1_ok by simp

end
