(* ===== verification/Kinfo.thy ===== *)
theory Kinfo
  imports Mugo_Prelude
begin

text \<open>
  What the boot loader and the early boot code tell the kernel: \<^verbatim>\<open>kernel_info_t\<close> of
  \<^verbatim>\<open>include/arch/info.h\<close> with the memory map entries of \<^verbatim>\<open>include/arch/multiboot.h\<close>.
\<close>

definition NO_MEMMAPS :: nat where "NO_MEMMAPS = 20"
definition NO_MODULES :: nat where "NO_MODULES = 5"
definition MAX_MODULE_NAME_LEN :: nat where "MAX_MODULE_NAME_LEN = 32"

record multiboot_memory_map_t =
  map_addr :: u64
  map_len :: u64
  map_type :: u32
  map_zero :: u32

record boot_module =
  start_paddr :: paddr_t
  end_paddr :: paddr_t
  start_vaddr :: vaddr_t
  mod_name :: "u8 list"

record mem_range_t =
  range_start :: u32
  range_end :: u32

record kernel_info_t =
  memmaps :: "multiboot_memory_map_t list"
  no_mmaps :: size_t
  mem_upper :: size_t
  modules :: "boot_module list"
  no_modules :: size_t
  kernel_phys_range :: mem_range_t
  boot_module_phys_range :: mem_range_t
  kheap_phys_range :: mem_range_t
  bootstrap_memory_phys_range :: mem_range_t
  kheap_range :: mem_range_t
  kernel_high_vma :: vaddr_t
  kernel_size_bytes :: size_t
  kernel_allocated_bytes_dynamic :: size_t

text \<open>The all-zero structure a static variable starts as.\<close>

definition zero_range :: mem_range_t where "zero_range = \<lparr>range_start = 0, range_end = 0\<rparr>"

definition zero_memmap :: multiboot_memory_map_t where
  "zero_memmap = \<lparr>map_addr = 0, map_len = 0, map_type = 0, map_zero = 0\<rparr>"

definition zero_module :: boot_module where
  "zero_module = \<lparr>start_paddr = 0, end_paddr = 0, start_vaddr = 0, mod_name = replicate MAX_MODULE_NAME_LEN 0\<rparr>"

definition zero_kinfo :: kernel_info_t where
  "zero_kinfo = \<lparr>memmaps = replicate NO_MEMMAPS zero_memmap, no_mmaps = 0, mem_upper = 0,
     modules = replicate NO_MODULES zero_module, no_modules = 0, kernel_phys_range = zero_range,
     boot_module_phys_range = zero_range, kheap_phys_range = zero_range, bootstrap_memory_phys_range = zero_range,
     kheap_range = zero_range, kernel_high_vma = 0, kernel_size_bytes = 0, kernel_allocated_bytes_dynamic = 0\<rparr>"

end
