(* ===== verification/Early.thy ===== *)
theory Early
  imports Console Paging Kinfo
begin

text \<open>
  The first C code that runs, \<^verbatim>\<open>arch/i686/early.c\<close>, with paging off: it reads the list of tags the
  boot loader leaves in memory (\<^verbatim>\<open>include/arch/multiboot.h\<close>), saves the memory map and the boot modules in
  \<^verbatim>\<open>kinfo\<close>, copies the modules to the end of the kernel and fills the page tables with which paging
  is switched on. Memory is physical; \<^verbatim>\<open>kinfo\<close> and the two static counters of the early console are
  kept apart from it. The loop over the tags and the loop over the entries of the memory map follow
  sizes found in memory and have fuel.
\<close>

section \<open>Definitions\<close>

definition MULTIBOOT2_BOOTLOADER_MAGIC :: u32 where "MULTIBOOT2_BOOTLOADER_MAGIC = 0x36d76289"
definition MULTIBOOT_TAG_TYPE_END :: u32 where "MULTIBOOT_TAG_TYPE_END = 0"
definition MULTIBOOT_TAG_TYPE_MODULE :: u32 where "MULTIBOOT_TAG_TYPE_MODULE = 3"
definition MULTIBOOT_TAG_TYPE_BASIC_MEMINFO :: u32 where "MULTIBOOT_TAG_TYPE_BASIC_MEMINFO = 4"
definition MULTIBOOT_TAG_TYPE_MMAP :: u32 where "MULTIBOOT_TAG_TYPE_MMAP = 6"
definition MULTIBOOT_MEMORY_AVAILABLE :: u32 where "MULTIBOOT_MEMORY_AVAILABLE = 1"
definition CONF_KHEAP_SIZE :: u32 where "CONF_KHEAP_SIZE = 0x1000000"

text \<open>The addresses the linker script defines.\<close>

record early_links =
  el_high_vma :: vaddr_t
  el_kernel_start :: vaddr_t
  el_kernel_end :: vaddr_t
  el_ktable_start :: vaddr_t
  el_ktable_end :: vaddr_t
  el_early_start :: paddr_t
  el_early_end :: paddr_t
  el_boot_pt :: paddr_t
  el_boot_kernel_pt :: vaddr_t
  el_boot_page_directory :: vaddr_t
  el_console_debug :: vaddr_t

record early =
  e_mem :: mem
  e_x :: u16
  e_y :: u16
  e_kinfo :: kernel_info_t

datatype early_result = Returned early | Halted early | Stuck fault

subsection \<open>The console\<close>

text \<open>One turn of the loop; \<^verbatim>\<open>char\<close> is signed, and the character is shifted by four, not by eight.\<close>

definition early_put :: "char \<Rightarrow> early \<Rightarrow> early" where
  "early_put c s =
     (if c = CHR 0x0A then s\<lparr>e_y := e_y s + 1, e_x := 0\<rparr>
      else if c = CHR 0x0D then s\<lparr>e_x := 0\<rparr>
      else
        let s = (if 80 \<le> e_x s then s\<lparr>e_x := 0, e_y := e_y s + 1\<rparr> else s);
            s = s\<lparr>e_x := e_x s + 1\<rparr>;
            chr = push_bit 4 (scast (of_nat (of_char c) :: u8)) OR 0xF :: u16
        in s\<lparr>e_mem := store16 (e_mem s) (0xB8000 + 2 * (ucast (e_y s) * 80 + ucast (e_x s))) chr\<rparr>)"

definition early_console_write_string :: "string \<Rightarrow> early \<Rightarrow> early" where
  "early_console_write_string str s = fold early_put (c_string str) s"

definition early_panic :: "string \<Rightarrow> early \<Rightarrow> early_result" where
  "early_panic str s = Halted (early_console_write_string str s)"

subsection \<open>Page tables\<close>

definition clear_boot_pt :: "paddr_t \<Rightarrow> mem \<Rightarrow> mem" where
  "clear_boot_pt boot_pt m = fold (\<lambda>i m. store32 m (boot_pt + of_nat i) 0) [0..<1024] m"

text \<open>
  The loop that fills consecutive entries of a table, from index \<open>off\<close> on, with the pages at
  \<open>base + i\<close>, for \<open>i\<close> up to \<open>lim\<close> in steps of a page. After \<open>2 ^ 20\<close> turns \<open>i\<close> is back where it started.
\<close>

fun fill_entries :: "nat \<Rightarrow> paddr_t \<Rightarrow> u32 \<Rightarrow> u32 \<Rightarrow> u32 \<Rightarrow> u32 \<Rightarrow> mem \<Rightarrow> mem outcome" where
  "fill_entries 0 pt base i lim current_pt_offset m = Inl No_Return"
| "fill_entries (Suc n) pt base i lim current_pt_offset m =
     (if i < lim
      then if 1024 \<le> current_pt_offset then Inl Out_Of_Bounds
           else fill_entries n pt base (i + PAGE_SIZE) lim (current_pt_offset + 1)
             (store32 m (entry_addr pt current_pt_offset)
               (((base + i) AND ARCH_PAGE_MASK) OR (ARCH_PD_ENTRY_PRESENT OR ARCH_PD_ENTRY_RW)))
      else Inr m)"

definition early_page_map :: "early_links \<Rightarrow> early \<Rightarrow> early outcome" where
  "early_page_map lk s =
     (let k_vma = el_high_vma lk;
          kernel_pt_phys = el_boot_kernel_pt lk - k_vma;
          page_directory_phys = el_boot_page_directory lk - k_vma;
          k_phys_start = el_ktable_start lk - k_vma;
          k_phys_end = el_kernel_end lk - k_vma;
          k_start_vaddr = el_ktable_start lk;
          early_phys_start = el_early_start lk;
          early_phys_end = el_early_end lk;
          ktable_start_phys = el_ktable_start lk - k_vma;
          ktable_end_phys = el_ktable_end lk - k_vma;
          boot_pt = el_boot_pt lk;
          mods_end = range_end (boot_module_phys_range (e_kinfo s));
          paging_structs_mapping_end = mods_end + (CONF_KHEAP_SIZE div ARCH_PT_ADDRESSABLE_BYTES + 2) * PAGE_SIZE;
          flags = ARCH_PD_ENTRY_PRESENT OR ARCH_PD_ENTRY_RW;
          m = clear_boot_pt boot_pt (e_mem s)
      in bindE (fill_entries (2 ^ 20) boot_pt 0 0 0x100000 0 m) (\<lambda>m.
         bindE (fill_entries (2 ^ 20) boot_pt early_phys_start 0 (early_phys_end - early_phys_start + PAGE_SIZE)
                  (arch_get_pt_offset early_phys_start ARCH_PD_0) m) (\<lambda>m.
         bindE (fill_entries (2 ^ 20) kernel_pt_phys k_phys_start 0 (k_phys_end - k_phys_start)
                  (arch_get_pt_offset k_start_vaddr ARCH_PD_0) m) (\<lambda>m.
         bindE (fill_entries (2 ^ 20) boot_pt 0 mods_end paging_structs_mapping_end
                  (arch_get_pt_offset mods_end ARCH_PD_0) m) (\<lambda>m.
         bindE (fill_entries (2 ^ 20) boot_pt 0 ktable_start_phys ktable_end_phys
                  (arch_get_pt_offset ktable_start_phys ARCH_PD_0) m) (\<lambda>m.
           let m = store32 m (entry_addr kernel_pt_phys (arch_get_pt_offset (el_console_debug lk) ARCH_PD_0))
                     ((0xB8000 AND ARCH_PAGE_MASK) OR flags);
               m = store32 m (entry_addr page_directory_phys 0) ((boot_pt AND ARCH_PAGE_MASK) OR flags);
               m = store32 m (entry_addr page_directory_phys (arch_get_pt_offset k_start_vaddr ARCH_PD_1))
                     ((kernel_pt_phys AND ARCH_PAGE_MASK) OR flags)
           in Inr (s\<lparr>e_mem := m\<rparr>)))))))"

subsection \<open>Tags\<close>

text \<open>The fields of \<^verbatim>\<open>struct multiboot_tag\<close> and of the tags that are used.\<close>

definition tag_type :: "mem \<Rightarrow> paddr_t \<Rightarrow> u32" where "tag_type m tag = load32 m tag"
definition tag_size :: "mem \<Rightarrow> paddr_t \<Rightarrow> u32" where "tag_size m tag = load32 m (tag + 4)"
definition tag_entry_size :: "mem \<Rightarrow> paddr_t \<Rightarrow> u32" where "tag_entry_size m tag = load32 m (tag + 8)"
definition tag_entries :: "paddr_t \<Rightarrow> paddr_t" where "tag_entries tag = tag + 16"
definition tag_mem_upper :: "mem \<Rightarrow> paddr_t \<Rightarrow> u32" where "tag_mem_upper m tag = load32 m (tag + 12)"
definition tag_mod_start :: "mem \<Rightarrow> paddr_t \<Rightarrow> u32" where "tag_mod_start m tag = load32 m (tag + 8)"
definition tag_mod_end :: "mem \<Rightarrow> paddr_t \<Rightarrow> u32" where "tag_mod_end m tag = load32 m (tag + 12)"
definition tag_cmdline :: "paddr_t \<Rightarrow> paddr_t" where "tag_cmdline tag = tag + 16"

definition read_memmap :: "mem \<Rightarrow> paddr_t \<Rightarrow> multiboot_memory_map_t" where
  "read_memmap m a = \<lparr>map_addr = load64 m a, map_len = load64 m (a + 8), map_type = load32 m (a + 16), map_zero = load32 m (a + 20)\<rparr>"

record tag_locals =
  saved_mmap_index :: nat
  module_index :: nat
  last_module_end_addr :: paddr_t
  total_module_size :: size_t

fun mmap_entries :: "nat \<Rightarrow> paddr_t \<Rightarrow> paddr_t \<Rightarrow> size_t \<Rightarrow> mem \<Rightarrow> nat \<Rightarrow> kernel_info_t \<Rightarrow> (nat \<times> kernel_info_t) outcome" where
  "mmap_entries 0 curr_addr mmap_end_addr entry_size m idx k = Inl No_Return"
| "mmap_entries (Suc n) curr_addr mmap_end_addr entry_size m idx k =
     (if curr_addr < mmap_end_addr \<and> idx + 1 < NO_MEMMAPS
      then let entry = read_memmap m curr_addr
           in if map_type entry \<noteq> MULTIBOOT_MEMORY_AVAILABLE \<or> map_addr entry < 0x100000
              then mmap_entries n (curr_addr + entry_size) mmap_end_addr entry_size m idx k
              else mmap_entries n (curr_addr + entry_size) mmap_end_addr entry_size m (idx + 1)
                     (k\<lparr>memmaps := (memmaps k)[idx := entry], no_mmaps := no_mmaps k + 1\<rparr>)
      else Inr (idx, k))"

fun copy_module :: "nat \<Rightarrow> paddr_t \<Rightarrow> paddr_t \<Rightarrow> mem \<Rightarrow> mem" where
  "copy_module 0 src dst m = m"
| "copy_module (Suc n) src dst m = copy_module n (src + 1) (dst + 1) (m(dst := m src))"

fun copy_name :: "nat \<Rightarrow> paddr_t \<Rightarrow> nat \<Rightarrow> mem \<Rightarrow> u8 list \<Rightarrow> paddr_t \<times> u8 list" where
  "copy_name 0 p i m nm = (p, nm)"
| "copy_name (Suc n) p i m nm = (if m p = 0 then (p, nm) else copy_name n (p + 1) (i + 1) m (nm[i := m p]))"

definition page_align :: "paddr_t \<Rightarrow> paddr_t" where
  "page_align a = (if a AND NOT ARCH_PAGE_MASK \<noteq> 0 then (a AND ARCH_PAGE_MASK) + 4096 else a)"

definition module_tag :: "paddr_t \<Rightarrow> early \<times> tag_locals \<Rightarrow> early \<times> tag_locals" where
  "module_tag tag = (\<lambda>(s, l).
     let m = e_mem s; k = e_kinfo s;
         mod_start = tag_mod_start m tag; mod_end = tag_mod_end m tag;
         start_p = last_module_end_addr l;
         end_p = page_align (last_module_end_addr l + (mod_end - mod_start));
         m = copy_module (unat mod_end - unat mod_start) mod_start start_p m;
         (p, nm) = copy_name (MAX_MODULE_NAME_LEN - 1) (tag_cmdline tag) 0 m (mod_name (modules k ! module_index l));
         m = m(p := 0);
         module = (modules k ! module_index l)\<lparr>start_paddr := start_p, end_paddr := end_p, mod_name := nm\<rparr>
     in (s\<lparr>e_mem := m, e_kinfo := k\<lparr>modules := (modules k)[module_index l := module], no_modules := no_modules k + 1\<rparr>\<rparr>,
         l\<lparr>total_module_size := total_module_size l + (end_p - start_p), last_module_end_addr := end_p,
           module_index := module_index l + 1\<rparr>))"

definition handle_tag :: "nat \<Rightarrow> paddr_t \<Rightarrow> early \<times> tag_locals \<Rightarrow> (early \<times> tag_locals) outcome" where
  "handle_tag fuel tag = (\<lambda>(s, l).
     let m = e_mem s; ty = tag_type m tag
     in if ty = MULTIBOOT_TAG_TYPE_MMAP
        then bindE (mmap_entries fuel (tag_entries tag) (tag + tag_size m tag) (tag_entry_size m tag) m (saved_mmap_index l) (e_kinfo s))
               (\<lambda>(idx, k). Inr (s\<lparr>e_kinfo := k\<rparr>, l\<lparr>saved_mmap_index := idx\<rparr>))
        else if ty = MULTIBOOT_TAG_TYPE_BASIC_MEMINFO
        then Inr (s\<lparr>e_kinfo := (e_kinfo s)\<lparr>mem_upper := tag_mem_upper m tag\<rparr>\<rparr>, l)
        else if ty = MULTIBOOT_TAG_TYPE_MODULE
        then if NO_MODULES < module_index l + 1 then Inr (s, l) else Inr (module_tag tag (s, l))
        else Inr (s, l))"

text \<open>The step to the next tag reads the size after the tag has been handled.\<close>

fun tag_loop :: "nat \<Rightarrow> nat \<Rightarrow> paddr_t \<Rightarrow> early \<times> tag_locals \<Rightarrow> (early \<times> tag_locals) outcome" where
  "tag_loop 0 fuel tag sl = Inl No_Return"
| "tag_loop (Suc n) fuel tag sl =
     (if tag_type (e_mem (fst sl)) tag = MULTIBOOT_TAG_TYPE_END then Inr sl
      else bindE (handle_tag fuel tag sl) (\<lambda>sl.
             tag_loop n fuel (tag + ((tag_size (e_mem (fst sl)) tag + 7) AND NOT 7)) sl))"

subsection \<open>The entry point\<close>

definition early_start_info :: "early_links \<Rightarrow> kernel_info_t \<Rightarrow> kernel_info_t" where
  "early_start_info lk k =
     (let k_vma = el_high_vma lk;
          start_p = el_kernel_start lk - k_vma; end_p = el_kernel_end lk - k_vma;
          mmap = memmaps k ! 0
      in k\<lparr>kernel_phys_range := \<lparr>range_start = start_p, range_end = end_p\<rparr>,
           bootstrap_memory_phys_range := \<lparr>range_start = end_p, range_end = end_p\<rparr>,
           kernel_high_vma := k_vma, kernel_size_bytes := end_p - start_p,
           memmaps := (memmaps k)[0 := mmap\<lparr>map_len := map_len mmap - ucast (end_p - start_p), map_addr := ucast end_p\<rparr>],
           no_mmaps := 0, mem_upper := 0\<rparr>)"

definition early_main :: "nat \<Rightarrow> early_links \<Rightarrow> u32 \<Rightarrow> paddr_t \<Rightarrow> early \<Rightarrow> early_result" where
  "early_main fuel lk multiboot_magic multiboot_img_ptr s =
     (if multiboot_magic \<noteq> MULTIBOOT2_BOOTLOADER_MAGIC
      then early_panic ''The kernel was not booted by a multiboot compliant bootloader!'' s
      else
        let s = s\<lparr>e_kinfo := early_start_info lk (e_kinfo s)\<rparr>;
            k_phys_end = el_kernel_end lk - el_high_vma lk;
            l = \<lparr>saved_mmap_index = 0, module_index = 0, last_module_end_addr = k_phys_end, total_module_size = 0\<rparr>
        in case tag_loop fuel fuel (multiboot_img_ptr + 8) (s, l) of
             Inl e \<Rightarrow> Stuck e
           | Inr (s, l) \<Rightarrow>
               if no_mmaps (e_kinfo s) = 0 then early_panic ''No Multiboot memory map was found!'' s
               else if mem_upper (e_kinfo s) = 0 then early_panic ''Unable to probe for free memory!'' s
               else if no_modules (e_kinfo s) = 0 then early_panic ''No modules loaded!'' s
               else
                 let s = s\<lparr>e_kinfo := (e_kinfo s)\<lparr>boot_module_phys_range := \<lparr>range_start = k_phys_end, range_end = last_module_end_addr l\<rparr>\<rparr>\<rparr>
                 in case early_page_map lk s of
                      Inl e \<Rightarrow> Stuck e
                    | Inr s \<Rightarrow>
                        let k = e_kinfo s; mmap = memmaps k ! 0;
                            len = map_len mmap - ucast (ucast (ucast k_phys_end - map_addr mmap) :: u32) - ucast (total_module_size l);
                            mmap = mmap\<lparr>map_len := len, map_addr := ucast (last_module_end_addr l)\<rparr>
                        in Returned (s\<lparr>e_kinfo := k\<lparr>memmaps := (memmaps k)[0 := mmap]\<rparr>\<rparr>))"

section \<open>Filling page tables\<close>

definition pages_up :: "nat \<Rightarrow> nat" where "pages_up n = (n + 4095) div 4096"

lemma pages_up_0 [simp]: "pages_up 0 = 0"
  by (simp add: pages_up_def)

lemma pages_up_step: "0 < n \<Longrightarrow> pages_up n = Suc (pages_up (n - 4096))"
  by (cases "4096 \<le> n") (auto simp: pages_up_def le_div_geq)

lemma fill_entries_ok:
  assumes pt: "pg_ok pt" and lim: "unat lim \<le> 2 ^ 32 - 4096"
  shows "unat off + pages_up (unat lim - unat i) \<le> 1024 \<Longrightarrow> pages_up (unat lim - unat i) < n \<Longrightarrow>
    \<exists>m'. fill_entries n pt base i lim off m = Inr m' \<and> only_in {pt} m m'
      \<and> (\<forall>j < 1024. load32 m' (cell pt (4 * j)) = (if unat off \<le> j \<and> j < unat off + pages_up (unat lim - unat i)
           then ((base + i + of_nat (4096 * (j - unat off))) AND PAGE_MASK) OR 3 else load32 m (cell pt (4 * j))))"
proof (induction n arbitrary: i off m)
  case (Suc n)
  show ?case
  proof (cases "i < lim")
    case True
    let ?c = "pages_up (unat lim - unat i)"
    have lt: "unat i < unat lim" using True by (simp add: word_less_nat_alt)
    have i': "unat (i + PAGE_SIZE) = unat i + 4096" using lt lim by (simp add: PAGE_SIZE_def unat_word_ariths)
    have c: "?c = Suc (pages_up (unat lim - unat (i + PAGE_SIZE)))" using pages_up_step [of "unat lim - unat i"] lt i' by simp
    have o: "unat off < 1024" "\<not> 1024 \<le> off" "unat (off + 1) = unat off + 1"
      using Suc.prems(1) c by (simp_all add: word_le_nat_alt unat_word_ariths)
    let ?v = "((base + i) AND PAGE_MASK) OR 3" and ?m = "store32 m (cell pt (4 * unat off)) (((base + i) AND PAGE_MASK) OR 3)"
    have st: "load32 ?m (cell pt (4 * j)) = (if j = unat off then ?v else load32 m (cell pt (4 * j)))" if "j < 1024" for j
      using load_store_cell [OF pt pt entry_offset_ok [OF o(1)] entry_offset_ok [OF that]] by auto
    have w: "only_in {pt} m ?m" using o(1) by (intro only_in_store pt) auto
    obtain m' where m': "fill_entries n pt base (i + PAGE_SIZE) lim (off + 1) ?m = Inr m'" "only_in {pt} ?m m'"
      "\<forall>j < 1024. load32 m' (cell pt (4 * j)) = (if unat (off + 1) \<le> j \<and> j < unat (off + 1) + pages_up (unat lim - unat (i + PAGE_SIZE))
           then ((base + (i + PAGE_SIZE) + of_nat (4096 * (j - unat (off + 1)))) AND PAGE_MASK) OR 3 else load32 ?m (cell pt (4 * j)))"
      using Suc.IH [of "off + 1" "i + PAGE_SIZE" ?m] Suc.prems c o(3) by auto
    have "load32 m' (cell pt (4 * j)) = (if unat off \<le> j \<and> j < unat off + ?c
           then ((base + i + of_nat (4096 * (j - unat off))) AND PAGE_MASK) OR 3 else load32 m (cell pt (4 * j)))" if j: "j < 1024" for j
    proof (cases "unat off < j")
      case True
      then have "j - unat off = Suc (j - unat (off + 1))" using o(3) by simp
      then have e: "base + (i + PAGE_SIZE) + of_nat (4096 * (j - unat (off + 1))) = base + i + of_nat (4096 * (j - unat off))"
        by (simp add: PAGE_SIZE_def algebra_simps)
      show ?thesis using m'(3) [rule_format, OF j] st [OF j] True c o(3) unfolding e by simp
    qed (use m'(3) j st [OF j] c o(3) in auto)
    then show ?thesis
      using m'(1) only_in_trans [OF w m'(2)] True o(2)
      by (intro exI [of _ m']) (simp add: entry_cell page_masks ARCH_PD_ENTRY_PRESENT_def ARCH_PD_ENTRY_RW_def)
  next
    case False
    then have "unat lim - unat i = 0" by (simp add: word_less_nat_alt)
    then show ?thesis using False by (intro exI [of _ m]) auto
  qed
qed simp

lemma clear_boot_pt_only: "pg_ok pt \<Longrightarrow> only_in {pt} m (clear_boot_pt pt m)"
proof -
  assume pt: "pg_ok pt"
  have "only_in {pt} m (fold (\<lambda>i m. store32 m (pt + of_nat i) 0) xs m)" if "\<forall>x \<in> set xs. x < 1024" for xs
    using that
  proof (induction xs arbitrary: m)
    case (Cons x xs)
    then show ?case
      using only_in_store [OF pt, of "{pt}" x m 0] Cons.IH [of "store32 m (pt + of_nat x) 0"]
      by (auto simp: cell_def intro: only_in_trans)
  qed simp
  then show ?thesis by (simp add: clear_boot_pt_def)
qed

text \<open>
  The loop advances by one byte, so it clears the first 1027 bytes: the entries of the first megabyte and three bytes of the next entry,
  with its present bit.
\<close>

lemma clear_bytes:
  "fold (\<lambda>i m. store32 m (pt + of_nat i) 0) [0..<Suc n] m x = (if \<exists>k < n + 4. x = pt + of_nat k then 0 else m x)"
proof (induction n)
  case 0
  have "{..<4 :: nat} = {0, 1, 2, 3}" by auto
  then have "(\<exists>k < 4. x = pt + of_nat k) \<longleftrightarrow> (\<exists>k \<in> {0, 1, 2, 3}. x = pt + of_nat k)" by (metis lessThan_iff)
  then show ?case by (simp add: store32_def)
next
  case (Suc n)
  let ?g = "fold (\<lambda>i m. store32 m (pt + of_nat i) 0) [0..<Suc n] m"
  have e: "pt + of_nat (Suc n) = pt + of_nat (n + 1)" "pt + of_nat (Suc n) + 1 = pt + of_nat (n + 2)" "pt + of_nat (Suc n) + 2 = pt + of_nat (n + 3)"
    "pt + of_nat (Suc n) + 3 = pt + of_nat (n + 4)" by (simp_all add: algebra_simps)
  have "fold (\<lambda>i m. store32 m (pt + of_nat i) 0) [0..<Suc (Suc n)] m x = store32 ?g (pt + of_nat (Suc n)) 0 x" by simp
  also have "\<dots> = (if \<exists>k \<in> {n + 1, n + 2, n + 3, n + 4}. x = pt + of_nat k then 0 else ?g x)" unfolding store32_def e by simp
  also have "\<dots> = (if \<exists>k < Suc n + 4. x = pt + of_nat k then 0 else m x)"
  proof -
    have "{..<Suc n + 4} = {..<n + 4} \<union> {n + 1, n + 2, n + 3, n + 4}" by auto
    then have ex: "(\<exists>k < Suc n + 4. x = pt + of_nat k) \<longleftrightarrow> (\<exists>k < n + 4. x = pt + of_nat k) \<or> (\<exists>k \<in> {n + 1, n + 2, n + 3, n + 4}. x = pt + of_nat k)"
      by (metis Un_iff lessThan_iff)
    show ?thesis unfolding Suc ex by (cases "\<exists>k \<in> {n + 1, n + 2, n + 3, n + 4}. x = pt + of_nat k"; simp only: simp_thms if_True if_False)
  qed
  finally show ?case .
qed

lemma clear_boot_pt_entries:
  assumes "pg_ok pt"
  shows "256 < j \<Longrightarrow> j < 1024 \<Longrightarrow> load32 (clear_boot_pt pt m) (cell pt (4 * j)) = load32 m (cell pt (4 * j))"
    and "\<not> bit (load32 (clear_boot_pt pt m) (cell pt 1024)) 0"
proof -
  have c: "clear_boot_pt pt m x = (if \<exists>k < 1027. x = cell pt k then 0 else m x)" for x
    using clear_bytes [of pt 1023 m x] by (simp add: clear_boot_pt_def cell_def)
  show "load32 (clear_boot_pt pt m) (cell pt (4 * j)) = load32 m (cell pt (4 * j))" if "256 < j" "j < 1024"
  proof (rule load32_cong)
    fix i :: nat assume i: "i < 4"
    have "cell pt (4 * j) + of_nat i = cell pt (4 * j + i)" by (simp add: cell_def add.assoc)
    moreover have "cell pt (4 * j + i) \<noteq> cell pt k" if "k < 1027" for k
      using unat_cell [OF assms, of "4 * j + i"] unat_cell [OF assms, of k] \<open>256 < j\<close> \<open>j < 1024\<close> i that by auto
    ultimately show "clear_boot_pt pt m (cell pt (4 * j) + of_nat i) = m (cell pt (4 * j) + of_nat i)" by (auto simp: c)
  qed
  have "\<exists>k < 1027. cell pt 1024 = cell pt k" by (intro exI [of _ 1024]) simp
  then have "clear_boot_pt pt m (cell pt 1024) = 0" by (simp only: c if_True)
  then show "\<not> bit (load32 (clear_boot_pt pt m) (cell pt 1024)) 0" by (simp add: load32_def bit_simps)
qed

lemma less_pages_up: "j < pages_up r \<longleftrightarrow> 4096 * j < r"
  using less_eq_div_iff_mult_less_eq [of 4096 "Suc j" "r + 4095"] by (simp add: pages_up_def Suc_le_eq) arith

lemma page_of_nat: "j < 1024 \<Longrightarrow> (of_nat (4096 * j) :: u32) AND PAGE_MASK = of_nat (4096 * j)"
  using page_mask_unat [of "of_nat (4096 * j)"] unat_of_nat_u32 [of "4096 * j"] by (simp add: word_unat_eq_iff)

text \<open>All loops write the entry \<open>j\<close> of a table for the physical page \<open>j\<close>.\<close>

lemma fill_identity:
  assumes "pg_ok pt" "a mod 4096 = 0" "a \<le> b" "b \<le> 4194304"
    and "base + i = of_nat a" "unat off = a div 4096" "unat lim = unat i + (b - a)" "unat i \<le> a"
  shows "\<exists>m'. fill_entries (2 ^ 20) pt base i lim off m = Inr m' \<and> only_in {pt} m m'
      \<and> (\<forall>j < 1024. load32 m' (cell pt (4 * j)) = (if a \<le> 4096 * j \<and> 4096 * j < b then of_nat (4096 * j) OR 3 else load32 m (cell pt (4 * j))))"
proof -
  obtain q where q: "a = 4096 * q" using assms(2) by (auto elim!: dvdE [OF mod_0_imp_dvd])
  have off: "unat off = q" using assms(6) q by simp
  have d: "unat lim - unat i = b - a" using assms(7) by simp
  have lt: "j < q + pages_up (b - a) \<longleftrightarrow> 4096 * j < b" for j
    using less_pages_up [of "j - q" "b - a"] assms(3) q by (cases "q \<le> j") (auto simp: diff_mult_distrib2)
  have le: "q + pages_up (b - a) \<le> 1024"
    using lt [of 1024] assms(4) by simp
  have lim: "unat lim \<le> 2 ^ 32 - 4096" using assms(3,4,7,8) by simp
  from le have fuel: "pages_up (b - a) < 2 ^ 20" by simp
  obtain m' where m': "fill_entries (2 ^ 20) pt base i lim off m = Inr m'" "only_in {pt} m m'"
    "\<forall>j < 1024. load32 m' (cell pt (4 * j)) = (if unat off \<le> j \<and> j < unat off + pages_up (b - a)
           then ((base + i + of_nat (4096 * (j - unat off))) AND PAGE_MASK) OR 3 else load32 m (cell pt (4 * j)))"
    using fill_entries_ok [OF assms(1) lim, of off i "2 ^ 20" base m] le fuel unfolding d off by blast
  have v: "base + i + of_nat (4096 * (j - q)) = of_nat (4096 * j)" if "q \<le> j" for j
    unfolding assms(5) q using that by (simp add: diff_mult_distrib2 flip: of_nat_add)
  have "load32 m' (cell pt (4 * j)) = (if a \<le> 4096 * j \<and> 4096 * j < b then of_nat (4096 * j) OR 3 else load32 m (cell pt (4 * j)))"
    if "j < 1024" for j
  proof (cases "q \<le> j")
    case True
    show ?thesis using m'(3) [rule_format, OF that] unfolding off v [OF True] page_of_nat [OF that] lt by (simp add: q)
  qed (use m'(3) [rule_format, OF that] off q in simp)
  then show ?thesis using m'(1,2) by blast
qed

section \<open>The boot page tables\<close>

text \<open>
  What the linker script guarantees: the kernel is linked at its load address plus a multiple of the
  range of a page table, kernel and boot code lie in the first of these ranges, and so do the boot
  modules with the frames behind them; the three tables are different pages.
\<close>

definition early_layout :: "early_links \<Rightarrow> nat \<Rightarrow> bool" where
  "early_layout lk mods_end \<longleftrightarrow>
     (let K = unat (el_high_vma lk); ts = unat (el_ktable_start lk); te = unat (el_ktable_end lk); ke = unat (el_kernel_end lk);
          cd = unat (el_console_debug lk); es = unat (el_early_start lk); ee = unat (el_early_end lk)
      in K mod 4194304 = 0 \<and> 0 < K \<and> K + 4194304 < 2 ^ 32 \<and> K \<le> ts \<and> ts \<le> te \<and> te \<le> ke \<and> ke \<le> K + 4194304
       \<and> ts mod 4096 = 0 \<and> cd mod 4096 = 0 \<and> ts \<le> cd \<and> cd < ke
       \<and> es mod 4096 = 0 \<and> es \<le> ee \<and> ee + 4096 \<le> 4194304
       \<and> mods_end mod 4096 = 0 \<and> mods_end + 24576 \<le> 4194304
       \<and> pg_ok (el_boot_pt lk) \<and> pg_ok (el_boot_kernel_pt lk - el_high_vma lk) \<and> pg_ok (el_boot_page_directory lk - el_high_vma lk)
       \<and> distinct [el_boot_pt lk, el_boot_kernel_pt lk - el_high_vma lk, el_boot_page_directory lk - el_high_vma lk])"

text \<open>The physical pages that are mapped to themselves.\<close>

definition early_identity :: "early_links \<Rightarrow> nat \<Rightarrow> nat \<Rightarrow> bool" where
  "early_identity lk mods_end a \<longleftrightarrow> a < 0x100000 \<or> (unat (el_early_start lk) \<le> a \<and> a < unat (el_early_end lk) + 4096)
     \<or> (mods_end \<le> a \<and> a < mods_end + 24576)
     \<or> (unat (el_ktable_start lk - el_high_vma lk) \<le> a \<and> a < unat (el_ktable_end lk - el_high_vma lk))"


lemma early_layoutD:
  assumes "early_layout lk e"
  shows "unat (el_ktable_start lk - el_high_vma lk) = unat (el_ktable_start lk) - unat (el_high_vma lk)"
    "unat (el_ktable_end lk - el_high_vma lk) = unat (el_ktable_end lk) - unat (el_high_vma lk)"
    "unat (el_kernel_end lk - el_high_vma lk) = unat (el_kernel_end lk) - unat (el_high_vma lk)"
    "unat (el_console_debug lk - el_high_vma lk) = unat (el_console_debug lk) - unat (el_high_vma lk)"
  using assms by (auto simp: early_layout_def Let_def unat_sub word_le_nat_alt)

text \<open>A kernel address and its distance from \<^verbatim>\<open>K_HIGH_VMA\<close> have the same place in their page tables.\<close>

lemma high_offsets:
  fixes K a :: nat
  assumes "K mod 4194304 = 0" "K \<le> a" "a < K + 4194304"
  shows "a div 4096 mod 1024 = (a - K) div 4096" "a div 4096 div 1024 = K div 4194304" "a mod 4096 = (a - K) mod 4096"
proof -
  obtain q where q: "K = 4194304 * q" using assms(1) by (auto elim!: dvdE [OF mod_0_imp_dvd])
  obtain r where r: "a = 4096 * (1024 * q) + r" "r < 4194304" using assms(2,3) q le_iff_add by auto
  have "r div 4096 < 1024" using r(2) by (simp add: less_mult_imp_div_less)
  moreover have "a div 4096 = 1024 * q + r div 4096" unfolding r(1) by simp
  ultimately show "a div 4096 mod 1024 = (a - K) div 4096" "a div 4096 div 1024 = K div 4194304" using r(1) q by simp_all
  show "a mod 4096 = (a - K) mod 4096" unfolding r(1) q using mod_mult_self4 [of 4096 "1024 * q" r] by simp
qed

lemma early_offsets:
  assumes "early_layout lk e" "unat (el_high_vma lk) \<le> unat va" "unat va < unat (el_high_vma lk) + 4194304"
  shows "unat va div 4096 mod 1024 = (unat va - unat (el_high_vma lk)) div 4096"
    "unat va div 4096 div 1024 = unat (el_high_vma lk) div 4194304"
    "unat va mod 4096 = (unat va - unat (el_high_vma lk)) mod 4096"
  using high_offsets [OF _ assms(2,3)] assms(1) by (auto simp: early_layout_def Let_def)


abbreviation entry :: "mem \<Rightarrow> paddr_t \<Rightarrow> nat \<Rightarrow> u32" where
  "entry m t j \<equiv> load32 m (cell t (4 * j))"

lemma only_in_entry: "only_in W m m' \<Longrightarrow> pg_ok q \<Longrightarrow> q \<notin> W \<Longrightarrow> j < 1024 \<Longrightarrow> entry m' q j = entry m q j"
  by (simp add: only_in_def same_page_def)

lemma store_entry:
  assumes "pg_ok p" "i < 1024"
  shows "only_in {p} m (store32 m (cell p (4 * i)) v)"
    "pg_ok q \<Longrightarrow> j < 1024 \<Longrightarrow> entry (store32 m (cell p (4 * i)) v) q j = (if p = q \<and> i = j then v else entry m q j)"
  using only_in_store [OF assms(1), of "{p}" "4 * i" m v] load_store_cell [OF assms(1), of q "4 * i" "4 * j" m v] assms(2) by auto

text \<open>The five ranges that are entered into the two boot page tables.\<close>

lemma early_fills:
  fixes s :: early and lk :: early_links
  defines "B \<equiv> el_boot_pt lk" and "P \<equiv> el_boot_kernel_pt lk - el_high_vma lk"
    and "e \<equiv> unat (range_end (boot_module_phys_range (e_kinfo s)))" and "K \<equiv> unat (el_high_vma lk)"
  assumes lay: "early_layout lk e"
  shows "\<exists>m1 m2 m3 m4 m5. fill_entries (2 ^ 20) B 0 0 0x100000 0 (clear_boot_pt B (e_mem s)) = Inr m1
    \<and> fill_entries (2 ^ 20) B (el_early_start lk) 0 (el_early_end lk - el_early_start lk + PAGE_SIZE) (arch_get_pt_offset (el_early_start lk) ARCH_PD_0) m1 = Inr m2
    \<and> fill_entries (2 ^ 20) P (el_ktable_start lk - el_high_vma lk) 0 (el_kernel_end lk - el_high_vma lk - (el_ktable_start lk - el_high_vma lk))
        (arch_get_pt_offset (el_ktable_start lk) ARCH_PD_0) m2 = Inr m3
    \<and> fill_entries (2 ^ 20) B 0 (range_end (boot_module_phys_range (e_kinfo s)))
        (range_end (boot_module_phys_range (e_kinfo s)) + (CONF_KHEAP_SIZE div ARCH_PT_ADDRESSABLE_BYTES + 2) * PAGE_SIZE)
        (arch_get_pt_offset (range_end (boot_module_phys_range (e_kinfo s))) ARCH_PD_0) m3 = Inr m4
    \<and> fill_entries (2 ^ 20) B 0 (el_ktable_start lk - el_high_vma lk) (el_ktable_end lk - el_high_vma lk)
        (arch_get_pt_offset (el_ktable_start lk - el_high_vma lk) ARCH_PD_0) m4 = Inr m5
    \<and> only_in {B, P} (e_mem s) m5
    \<and> (\<forall>j < 1024. early_identity lk e (4096 * j) \<longrightarrow> entry m5 B j = of_nat (4096 * j) OR 3)
    \<and> (\<forall>j < 1024. unat (el_ktable_start lk) - K \<le> 4096 * j \<and> 4096 * j < unat (el_kernel_end lk) - K \<longrightarrow> entry m5 P j = of_nat (4096 * j) OR 3)
    \<and> (\<forall>j < 1024. \<not> early_identity lk e (4096 * j) \<longrightarrow> entry m5 B j = entry (clear_boot_pt B (e_mem s)) B j)
    \<and> (\<forall>j < 1024. \<not> (unat (el_ktable_start lk) - K \<le> 4096 * j \<and> 4096 * j < unat (el_kernel_end lk) - K) \<longrightarrow> entry m5 P j = entry (e_mem s) P j)"
proof -
  note L = lay [unfolded early_layout_def Let_def, folded K_def B_def P_def] and U = early_layoutD [OF lay]
  have pg: "pg_ok B" "pg_ok P" and ne: "B \<noteq> P" using L by auto
  let ?ts = "unat (el_ktable_start lk) - K" and ?te = "unat (el_ktable_end lk) - K" and ?ke = "unat (el_kernel_end lk) - K"
    and ?cd = "unat (el_console_debug lk) - K" and ?es = "unat (el_early_start lk)" and ?ee = "unat (el_early_end lk)"
    and ?me = "range_end (boot_module_phys_range (e_kinfo s))"
  have small: "x div 4096 mod 1024 = x div 4096" if "x < 4194304" for x :: nat
    using that by (simp add: less_mult_imp_div_less)
  have kts: "el_ktable_start lk - el_high_vma lk = of_nat ?ts" unfolding K_def U(1) [symmetric] by simp
  obtain m1 where m1: "fill_entries (2 ^ 20) B 0 0 0x100000 0 (clear_boot_pt B (e_mem s)) = Inr m1" "only_in {B} (clear_boot_pt B (e_mem s)) m1"
    "\<forall>j < 1024. entry m1 B j = (if 0 \<le> 4096 * j \<and> 4096 * j < 0x100000 then of_nat (4096 * j) OR 3 else entry (clear_boot_pt B (e_mem s)) B j)"
    using fill_identity [OF pg(1), of 0 "0x100000" 0 0 0 "0x100000" "clear_boot_pt B (e_mem s)"] by auto
  have ts: "?ts mod 4096 = 0" "?ts \<le> ?ke" "?ts \<le> ?te" "?ke \<le> 4194304" "?te \<le> 4194304" "?ts < 4194304" "?cd mod 4096 = 0" "?cd < 4194304"
    "unat (el_ktable_start lk) < K + 4194304" "unat (el_console_debug lk) < K + 4194304"
    using L early_offsets(3) [OF lay, of "el_ktable_start lk", folded K_def] early_offsets(3) [OF lay, of "el_console_debug lk", folded K_def] by auto
  have es: "?es mod 4096 = 0" "?es \<le> ?ee + 4096" "?ee + 4096 \<le> 4194304" "?es < 4194304" "?es \<le> ?ee" using L by auto
  have me: "e mod 4096 = 0" "e \<le> e + 24576" "e + 24576 \<le> 4194304" "e < 4194304" using L by auto
  note off = pt_offsets(2) small
  have l2: "unat (el_early_end lk - el_early_start lk + PAGE_SIZE) = ?ee - ?es + 4096"
    using es unat_sub [of "el_early_start lk" "el_early_end lk"] by (simp add: word_le_nat_alt PAGE_SIZE_def unat_word_ariths)
  obtain m2 where m2: "fill_entries (2 ^ 20) B (el_early_start lk) 0 (el_early_end lk - el_early_start lk + PAGE_SIZE) (arch_get_pt_offset (el_early_start lk) ARCH_PD_0) m1 = Inr m2"
    "only_in {B} m1 m2" "\<forall>j < 1024. entry m2 B j = (if ?es \<le> 4096 * j \<and> 4096 * j < ?ee + 4096 then of_nat (4096 * j) OR 3 else entry m1 B j)"
    using fill_identity [OF pg(1) es(1-3), of "el_early_start lk" 0 "arch_get_pt_offset (el_early_start lk) ARCH_PD_0"
      "el_early_end lk - el_early_start lk + PAGE_SIZE" m1] l2 off(1) [of "el_early_start lk"] off(2) [OF es(4)] es by auto
  have l3: "unat (el_kernel_end lk - el_high_vma lk - (el_ktable_start lk - el_high_vma lk)) = ?ke - ?ts"
    using unat_sub [of "el_ktable_start lk - el_high_vma lk" "el_kernel_end lk - el_high_vma lk"] U(1,3) [folded K_def] ts(2) by (simp add: word_le_nat_alt)
  have o3: "unat (arch_get_pt_offset (el_ktable_start lk) ARCH_PD_0) = ?ts div 4096"
    using off(1) [of "el_ktable_start lk"] early_offsets(1) [OF lay, of "el_ktable_start lk", folded K_def] L ts by simp
  obtain m3 where m3: "fill_entries (2 ^ 20) P (el_ktable_start lk - el_high_vma lk) 0 (el_kernel_end lk - el_high_vma lk - (el_ktable_start lk - el_high_vma lk))
      (arch_get_pt_offset (el_ktable_start lk) ARCH_PD_0) m2 = Inr m3"
    "only_in {P} m2 m3" "\<forall>j < 1024. entry m3 P j = (if ?ts \<le> 4096 * j \<and> 4096 * j < ?ke then of_nat (4096 * j) OR 3 else entry m2 P j)"
    using fill_identity [OF pg(2) ts(1,2,4), of "el_ktable_start lk - el_high_vma lk" 0 "arch_get_pt_offset (el_ktable_start lk) ARCH_PD_0"
      "el_kernel_end lk - el_high_vma lk - (el_ktable_start lk - el_high_vma lk)" m2] l3 o3 kts ts by auto
  have l4: "unat (?me + (CONF_KHEAP_SIZE div ARCH_PT_ADDRESSABLE_BYTES + 2) * PAGE_SIZE) = e + 24576"
    using me by (simp add: CONF_KHEAP_SIZE_def ARCH_PT_ADDRESSABLE_BYTES_def PAGE_SIZE_def e_def unat_word_ariths)
  have o4: "unat (arch_get_pt_offset ?me ARCH_PD_0) = e div 4096" using off(1) [of ?me] off(2) [OF me(4)] by (simp add: e_def)
  obtain m4 where m4: "fill_entries (2 ^ 20) B 0 ?me (?me + (CONF_KHEAP_SIZE div ARCH_PT_ADDRESSABLE_BYTES + 2) * PAGE_SIZE)
      (arch_get_pt_offset ?me ARCH_PD_0) m3 = Inr m4"
    "only_in {B} m3 m4" "\<forall>j < 1024. entry m4 B j = (if e \<le> 4096 * j \<and> 4096 * j < e + 24576 then of_nat (4096 * j) OR 3 else entry m3 B j)"
    using fill_identity [OF pg(1) me(1-3), of 0 ?me "arch_get_pt_offset ?me ARCH_PD_0"
      "?me + (CONF_KHEAP_SIZE div ARCH_PT_ADDRESSABLE_BYTES + 2) * PAGE_SIZE" m3] l4 o4 me e_def by auto
  have o5: "unat (arch_get_pt_offset (el_ktable_start lk - el_high_vma lk) ARCH_PD_0) = ?ts div 4096"
    using off(1) [of "el_ktable_start lk - el_high_vma lk"] off(2) [OF ts(6)] U(1) [folded K_def] by simp
  have k5: "0 + (el_ktable_start lk - el_high_vma lk) = of_nat ?ts" using kts by simp
  have l5: "unat (el_ktable_end lk - el_high_vma lk) = unat (el_ktable_start lk - el_high_vma lk) + (?te - ?ts)" "unat (el_ktable_start lk - el_high_vma lk) \<le> ?ts"
    using U(1,2) [folded K_def] ts(3) by simp_all
  obtain m5 where m5: "fill_entries (2 ^ 20) B 0 (el_ktable_start lk - el_high_vma lk) (el_ktable_end lk - el_high_vma lk)
      (arch_get_pt_offset (el_ktable_start lk - el_high_vma lk) ARCH_PD_0) m4 = Inr m5"
    "only_in {B} m4 m5" "\<forall>j < 1024. entry m5 B j = (if ?ts \<le> 4096 * j \<and> 4096 * j < ?te then of_nat (4096 * j) OR 3 else entry m4 B j)"
    using fill_identity [OF pg(1) ts(1,3,5) k5 o5 l5, of m4] by blast
  have mono: "only_in {x} m m' \<Longrightarrow> x \<in> {B, P} \<Longrightarrow> only_in {B, P} m m'" for x m m' by (erule only_in_mono) auto
  note tr = only_in_trans [where W = "{B, P}"]
  have only: "only_in {B, P} (e_mem s) m5"
    by (rule tr [OF tr [OF tr [OF tr [OF tr [OF mono [OF clear_boot_pt_only [OF pg(1)]] mono [OF m1(2)]] mono [OF m2(2)]] mono [OF m3(2)]] mono [OF m4(2)]] mono [OF m5(2)]]) simp_all
  have B3: "entry m3 B j = entry m2 B j" if "j < 1024" for j using only_in_entry [OF m3(2) pg(1)] ne that by simp
  have idn: "entry m5 B j = of_nat (4096 * j) OR 3" if "j < 1024" "early_identity lk e (4096 * j)" for j
    using that(2) m1(3) m2(3) m4(3) m5(3) that(1) B3 [OF that(1)] unfolding early_identity_def U(1,2) [folded K_def] by auto
  have ker: "entry m5 P j = of_nat (4096 * j) OR 3" if "j < 1024" "?ts \<le> 4096 * j" "4096 * j < ?ke" for j
    using m3(3) that only_in_entry [OF m4(2) pg(2) _ that(1)] only_in_entry [OF m5(2) pg(2) _ that(1)] ne by simp
  have idn': "entry m5 B j = entry (clear_boot_pt B (e_mem s)) B j" if "j < 1024" "\<not> early_identity lk e (4096 * j)" for j
    using that(2) m1(3) m2(3) m4(3) m5(3) that(1) B3 [OF that(1)] unfolding early_identity_def U(1,2) [folded K_def] by auto
  have P2: "entry m2 P j = entry (e_mem s) P j" if j: "j < 1024" for j
    using only_in_entry [OF clear_boot_pt_only [OF pg(1)] pg(2) _ j] only_in_entry [OF m1(2) pg(2) _ j] only_in_entry [OF m2(2) pg(2) _ j] ne by simp
  have ker': "entry m5 P j = entry (e_mem s) P j" if "j < 1024" "\<not> (?ts \<le> 4096 * j \<and> 4096 * j < ?ke)" for j
    using m3(3) that P2 [OF that(1)] only_in_entry [OF m4(2) pg(2) _ that(1)] only_in_entry [OF m5(2) pg(2) _ that(1)] ne by auto
  show ?thesis using m1(1) m2(1) m3(1) m4(1) m5(1) only idn ker idn' ker' by blast
qed

lemma early_page_map_tables:
  fixes s :: early and lk :: early_links
  defines "B \<equiv> el_boot_pt lk" and "P \<equiv> el_boot_kernel_pt lk - el_high_vma lk" and "D \<equiv> el_boot_page_directory lk - el_high_vma lk"
    and "e \<equiv> unat (range_end (boot_module_phys_range (e_kinfo s)))" and "K \<equiv> unat (el_high_vma lk)"
  assumes lay: "early_layout lk e"
  shows "\<exists>m'. early_page_map lk s = Inr (s\<lparr>e_mem := m'\<rparr>) \<and> only_in {B, P, D} (e_mem s) m'
    \<and> (\<forall>j < 1024. early_identity lk e (4096 * j) \<longrightarrow> entry m' B j = of_nat (4096 * j) OR 3)
    \<and> (\<forall>j < 1024. unat (el_ktable_start lk) - K \<le> 4096 * j \<and> 4096 * j < unat (el_kernel_end lk) - K \<longrightarrow>
         entry m' P j = (if 4096 * j = unat (el_console_debug lk) - K then 0xB8003 else of_nat (4096 * j) OR 3))
    \<and> (\<forall>j < 1024. entry m' D j = (if j = K div 4194304 then P OR 3 else if j = 0 then B OR 3 else entry (e_mem s) D j))
    \<and> (\<forall>j < 1024. \<not> early_identity lk e (4096 * j) \<longrightarrow> entry m' B j = entry (clear_boot_pt B (e_mem s)) B j)
    \<and> (\<forall>j < 1024. \<not> (unat (el_ktable_start lk) - K \<le> 4096 * j \<and> 4096 * j < unat (el_kernel_end lk) - K) \<longrightarrow> entry m' P j = entry (e_mem s) P j)"
proof -
  note L = lay [unfolded early_layout_def Let_def, folded K_def B_def P_def D_def]
  have pg: "pg_ok B" "pg_ok P" "pg_ok D" and ne: "B \<noteq> P" "B \<noteq> D" "P \<noteq> D" using L by auto
  let ?ts = "unat (el_ktable_start lk) - K" and ?ke = "unat (el_kernel_end lk) - K" and ?cd = "unat (el_console_debug lk) - K"
  obtain m1 m2 m3 m4 m5 where fills: "fill_entries (2 ^ 20) B 0 0 0x100000 0 (clear_boot_pt B (e_mem s)) = Inr m1"
    "fill_entries (2 ^ 20) B (el_early_start lk) 0 (el_early_end lk - el_early_start lk + PAGE_SIZE) (arch_get_pt_offset (el_early_start lk) ARCH_PD_0) m1 = Inr m2"
    "fill_entries (2 ^ 20) P (el_ktable_start lk - el_high_vma lk) 0 (el_kernel_end lk - el_high_vma lk - (el_ktable_start lk - el_high_vma lk))
        (arch_get_pt_offset (el_ktable_start lk) ARCH_PD_0) m2 = Inr m3"
    "fill_entries (2 ^ 20) B 0 (range_end (boot_module_phys_range (e_kinfo s)))
        (range_end (boot_module_phys_range (e_kinfo s)) + (CONF_KHEAP_SIZE div ARCH_PT_ADDRESSABLE_BYTES + 2) * PAGE_SIZE)
        (arch_get_pt_offset (range_end (boot_module_phys_range (e_kinfo s))) ARCH_PD_0) m3 = Inr m4"
    "fill_entries (2 ^ 20) B 0 (el_ktable_start lk - el_high_vma lk) (el_ktable_end lk - el_high_vma lk)
        (arch_get_pt_offset (el_ktable_start lk - el_high_vma lk) ARCH_PD_0) m4 = Inr m5"
    and only5: "only_in {B, P} (e_mem s) m5"
    and B5: "\<forall>j < 1024. early_identity lk e (4096 * j) \<longrightarrow> entry m5 B j = of_nat (4096 * j) OR 3"
    and P5: "\<forall>j < 1024. ?ts \<le> 4096 * j \<and> 4096 * j < ?ke \<longrightarrow> entry m5 P j = of_nat (4096 * j) OR 3"
    and B5': "\<forall>j < 1024. \<not> early_identity lk e (4096 * j) \<longrightarrow> entry m5 B j = entry (clear_boot_pt B (e_mem s)) B j"
    and P5': "\<forall>j < 1024. \<not> (?ts \<le> 4096 * j \<and> 4096 * j < ?ke) \<longrightarrow> entry m5 P j = entry (e_mem s) P j"
    using early_fills [OF lay [unfolded e_def]] unfolding B_def P_def e_def K_def by blast
  let ?c = "?cd div 4096" and ?k = "K div 4194304"
  have kb: "K \<le> unat (el_ktable_start lk)" "K \<le> unat (el_console_debug lk)" "0 < K" "K < 4290772992" "K mod 4194304 = 0"
    "unat (el_ktable_start lk) < K + 4194304" "unat (el_console_debug lk) < K + 4194304" using L by auto
  note eo = early_offsets [OF lay, folded K_def]
  have cd: "?cd mod 4096 = 0" "?cd < 4194304" "?ts \<le> ?cd" "?cd < ?ke" using L eo(3) [of "el_console_debug lk"] by auto
  have c: "unat (arch_get_pt_offset (el_console_debug lk) ARCH_PD_0) = ?c" "?c < 1024"
    unfolding pt_offsets(2) eo(1) [OF kb(2,7)] using cd(2) by (simp_all add: less_mult_imp_div_less)
  have k: "unat (arch_get_pt_offset (el_ktable_start lk) ARCH_PD_1) = ?k" "?k < 1024" "?k \<noteq> 0"
    unfolding pt_offsets(1) eo(2) [OF kb(1,6)] using kb(3-5) by (auto simp: less_mult_imp_div_less div_eq_0_iff elim!: dvdE)
  let ?m6 = "store32 m5 (cell P (4 * ?c)) 0xB8003" and ?m7 = "store32 (store32 m5 (cell P (4 * ?c)) 0xB8003) (cell D 0) (B OR 3)"
  let ?m8 = "store32 ?m7 (cell D (4 * ?k)) (P OR 3)"
  have run: "early_page_map lk s = Inr (s\<lparr>e_mem := ?m8\<rparr>)"
    unfolding early_page_map_def Let_def B_def [symmetric] P_def [symmetric] D_def [symmetric]
      fills bindE_simps entry_cell c(1) k(1) page_masks pg_ok_mask [OF pg(1)] pg_ok_mask [OF pg(2)]
    by (simp add: ARCH_PD_ENTRY_PRESENT_def ARCH_PD_ENTRY_RW_def PAGE_MASK_def)
  note S6 = store_entry [OF pg(2) c(2), where m = m5 and v = "0xB8003"] and S7 = store_entry [OF pg(3), where i = 0 and m = ?m6 and v = "B OR 3", simplified]
    and S8 = store_entry [OF pg(3) k(2), where m = ?m7 and v = "P OR 3"]
  have mono: "only_in X m m' \<Longrightarrow> X \<subseteq> {B, P, D} \<Longrightarrow> only_in {B, P, D} m m'" for X m m' by (rule only_in_mono)
  note tr = only_in_trans [where W = "{B, P, D}"]
  have only: "only_in {B, P, D} (e_mem s) ?m8"
    by (rule tr [OF tr [OF tr [OF mono [OF only5] mono [OF S6(1)]] mono [OF S7(1)]] mono [OF S8(1)]]) auto
  have idn: "entry ?m8 B j = of_nat (4096 * j) OR 3" if "j < 1024" "early_identity lk e (4096 * j)" for j
    using S6(2) S7(2) S8(2) pg(1) ne B5 that by simp
  have ker: "entry ?m8 P j = (if 4096 * j = ?cd then 0xB8003 else of_nat (4096 * j) OR 3)" if "j < 1024" "?ts \<le> 4096 * j" "4096 * j < ?ke" for j
    using S6(2) [OF pg(2) that(1)] S7(2) [OF pg(2) that(1)] S8(2) [OF pg(2) that(1)] ne P5 that cd(1) by auto
  have entD: "entry ?m8 D j = (if j = ?k then P OR 3 else if j = 0 then B OR 3 else entry (e_mem s) D j)" if j: "j < 1024" for j
    using S6(2) [OF pg(3) j] S7(2) [OF pg(3) j] S8(2) [OF pg(3) j] only_in_entry [OF only5 pg(3) _ j] ne by (simp add: cell_0)
  have idn': "entry ?m8 B j = entry (clear_boot_pt B (e_mem s)) B j" if "j < 1024" "\<not> early_identity lk e (4096 * j)" for j
    using S6(2) S7(2) S8(2) pg(1) ne B5' that by simp
  have ker': "entry ?m8 P j = entry (e_mem s) P j" if j: "j < 1024" "\<not> (?ts \<le> 4096 * j \<and> 4096 * j < ?ke)" for j
    using S6(2) [OF pg(2) j(1)] S7(2) [OF pg(2) j(1)] S8(2) [OF pg(2) j(1)] ne P5' j cd by auto
  show ?thesis using run only idn ker entD idn' ker' by (intro exI [of _ ?m8]) blast
qed

section \<open>The boot address space\<close>

lemma rw_flags: "((p AND PAGE_MASK) OR 3) AND ((x AND PAGE_MASK) OR 3) AND 6 = (2 :: u32)"
proof -
  have e: "((p AND PAGE_MASK) OR 3) AND 6 = (2 :: u32)" for p :: u32
  proof -
    have "(p AND PAGE_MASK) AND 6 = 0" by (simp add: PAGE_MASK_def and.assoc)
    then show ?thesis by (simp add: bit.conj_disj_distrib2)
  qed
  show ?thesis unfolding e by (simp add: bit.conj_disj_distrib2 PAGE_MASK_def and.assoc)
qed

lemma walk_rw:
  assumes ok: "pd_ok m pd lim" and d: "pde m pd (unat va div 4096 div 1024) = t OR 3" "pg_ok t"
    and e: "entry m t (unat va div 4096 mod 1024) = (x AND PAGE_MASK) OR 3"
  shows "page_walk m pd va = Some ((x AND PAGE_MASK) OR (va AND 0xFFF), 2)"
proof -
  have t: "(t AND PAGE_MASK) = t" "t OR 3 \<noteq> 0" "(t OR 3) AND PAGE_MASK = t"
    using pg_ok_mask [OF d(2)] mask_or_flags(1) [of 3 t] d(2) by (auto simp: pg_ok_def or_eq_0_iff)
  have v: "unat va div 4096 div 1024 < 1024"
    using unat_u32_lt [of va] by (simp add: less_mult_imp_div_less div_mult2_eq [symmetric])
  have p: "pte_at m pd (unat va div 4096) = (x AND PAGE_MASK) OR 3"
    using v t d e by (simp add: pte_at_def)
  show ?thesis
    unfolding page_walk_pte [OF ok] p d(1) Let_def using rw_flags [of t x] t(1) mask_or_flags(1) [of 3 x] by (simp add: bit_simps)
qed


lemma less_mult_div_page: "(n :: nat) < 4096 * (n div 4096 + 1)"
  using dividend_less_times_div [of 4096 n] by simp

text \<open>Page-aligned bounds hold for the page of an address as for the address.\<close>

lemma page_between:
  fixes a :: nat
  assumes "lo mod 4096 = 0" "lo \<le> a" "a < hi"
  shows "lo \<le> 4096 * (a div 4096)" "4096 * (a div 4096) < hi"
proof -
  obtain q where "lo = 4096 * q" using assms(1) by (auto elim!: dvdE [OF mod_0_imp_dvd])
  moreover have "q \<le> a div 4096" using assms(2) calculation by (simp add: less_eq_div_iff_mult_less_eq mult.commute)
  ultimately show "lo \<le> 4096 * (a div 4096)" by simp
  have "4096 * (a div 4096) \<le> a" by simp
  then show "4096 * (a div 4096) < hi" using assms(3) by simp
qed

lemma early_identity_page:
  assumes lay: "early_layout lk e" and a: "early_identity lk e a"
  shows "early_identity lk e (4096 * (a div 4096))" "a < 4194304"
proof -
  note L = lay [unfolded early_layout_def Let_def] and U = early_layoutD [OF lay]
  have ts: "(unat (el_ktable_start lk) - unat (el_high_vma lk)) mod 4096 = 0"
    using early_offsets(3) [OF lay, of "el_ktable_start lk"] L by auto
  show "early_identity lk e (4096 * (a div 4096))"
    using a page_between [of 0 a "0x100000"] page_between [of "unat (el_early_start lk)" a] page_between [of e a] page_between [OF ts, of a] L
    unfolding early_identity_def U(1,2) by auto
  show "a < 4194304" using a L unfolding early_identity_def U(1,2) by auto
qed

lemma page_low_or: "((a :: u32) AND PAGE_MASK) OR (a AND 0xFFF) = a"
proof -
  have "PAGE_MASK OR 0xFFF = (- 1 :: u32)" by (simp add: PAGE_MASK_def)
  then show ?thesis by (simp flip: bit.conj_disj_distrib)
qed

lemma page_of_addr: "of_nat (4096 * (unat a div 4096)) = (a :: u32) AND PAGE_MASK"
  using page_mask_unat [of a] unat_of_nat_u32 [of "4096 * (unat a div 4096)"] unat_u32_lt [of a]
  by (simp add: word_unat_eq_iff mult.commute)

lemma early_kernel_page:
  assumes lay: "early_layout lk e" and va: "el_ktable_start lk \<le> va" "va AND PAGE_MASK < el_kernel_end lk"
  defines "K \<equiv> unat (el_high_vma lk)"
  shows "(unat va - K) div 4096 < 1024" "unat (el_ktable_start lk) - K \<le> 4096 * ((unat va - K) div 4096)"
    "4096 * ((unat va - K) div 4096) < unat (el_kernel_end lk) - K"
    "va AND PAGE_MASK = el_console_debug lk \<longleftrightarrow> 4096 * ((unat va - K) div 4096) = unat (el_console_debug lk) - K"
    "of_nat (4096 * ((unat va - K) div 4096)) = (va - el_high_vma lk) AND PAGE_MASK"
    "va AND 0xFFF = (va - el_high_vma lk) AND 0xFFF"
proof -
  note L = lay [unfolded early_layout_def Let_def, folded K_def]
  let ?a = "va - el_high_vma lk" and ?j = "(unat va - K) div 4096"
  have b: "K \<le> unat va" "unat (el_ktable_start lk) \<le> unat va" and p: "unat va div 4096 * 4096 < unat (el_kernel_end lk)"
    using va L by (auto simp: word_le_nat_alt word_less_nat_alt page_mask_unat)
  have r: "unat va < K + 4194304"
  proof -
    obtain q where q: "K = 4096 * (1024 * q)" using L by (auto elim!: dvdE [OF mod_0_imp_dvd])
    then have "4096 * (unat va div 4096) < 4096 * (1024 * q + 1024)" using p L by (simp add: mult.commute)
    then have "unat va div 4096 + 1 \<le> 1024 * q + 1024" by simp
    then show ?thesis unfolding q using less_mult_div_page [of "unat va"] by linarith
  qed
  note b = b(1) r b(2)
  note O = early_offsets [OF lay b(1,2) [unfolded K_def], folded K_def]
  have a: "unat ?a = unat va - K" using b(1) by (simp add: unat_sub word_le_nat_alt K_def)
  show "?j < 1024" using b(2) by (intro less_mult_imp_div_less) simp
  have ts: "(unat (el_ktable_start lk) - K) mod 4096 = 0"
    using early_offsets(3) [OF lay, of "el_ktable_start lk"] L by (auto simp: K_def)
  have e: "unat va div 4096 * 4096 = K + 4096 * ?j"
    using O(3) b(1) div_mult_mod_eq [of "unat va" 4096] div_mult_mod_eq [of "unat va - K" 4096] by linarith
  show "unat (el_ktable_start lk) - K \<le> 4096 * ?j" using page_between(1) [OF ts, of "unat va - K" "Suc (unat va - K)"] b by auto
  show "4096 * ?j < unat (el_kernel_end lk) - K" using p e by linarith
  show "of_nat (4096 * ?j) = ?a AND PAGE_MASK" using page_of_addr [of ?a] by (simp add: a)
  show "va AND 0xFFF = ?a AND 0xFFF" unfolding low_bits a O(3) ..
  show "va AND PAGE_MASK = el_console_debug lk \<longleftrightarrow> 4096 * ?j = unat (el_console_debug lk) - K"
    using L e by (auto simp: word_unat_eq_iff page_mask_unat)
qed

lemma slot_bounds:
  fixes K a :: nat
  assumes "K mod 4194304 = 0" "a div 4096 div 1024 = K div 4194304"
  shows "K \<le> a" "a < K + 4194304"
proof -
  have "K = 4194304 * (a div 4194304)" using assms mult_div_mod_eq [of 4194304 K] by (simp add: div_mult2_eq [symmetric])
  moreover have "a mod 4194304 < 4194304" by simp
  ultimately show "K \<le> a" "a < K + 4194304" using mult_div_mod_eq [of 4194304 a] by linarith+
qed

text \<open>What the boot page tables translate, from their entries.\<close>

definition boot_tables :: "early_links \<Rightarrow> nat \<Rightarrow> mem \<Rightarrow> bool" where
  "boot_tables lk e m \<longleftrightarrow>
     (let B = el_boot_pt lk; P = el_boot_kernel_pt lk - el_high_vma lk; D = el_boot_page_directory lk - el_high_vma lk; K = unat (el_high_vma lk)
      in (\<forall>j < 1024. if early_identity lk e (4096 * j) then entry m B j = of_nat (4096 * j) OR 3 else \<not> bit (entry m B j) 0)
       \<and> (\<forall>j < 1024. if unat (el_ktable_start lk) - K \<le> 4096 * j \<and> 4096 * j < unat (el_kernel_end lk) - K
            then entry m P j = (if 4096 * j = unat (el_console_debug lk) - K then 0xB8003 else of_nat (4096 * j) OR 3) else \<not> bit (entry m P j) 0)
       \<and> (\<forall>j < 1024. pde m D j = (if j = K div 4194304 then P OR 3 else if j = 0 then B OR 3 else 0)))"

lemma boot_tables_walk:
  fixes lk :: early_links and e :: nat and m :: mem
  defines "D \<equiv> el_boot_page_directory lk - el_high_vma lk" and "K \<equiv> unat (el_high_vma lk)"
  assumes lay: "early_layout lk e" and tab: "boot_tables lk e m"
  shows "pd_ok m D (2 ^ 32)"
    and "page_walk m D va = (if early_identity lk e (unat (va AND PAGE_MASK)) then Some (va, 2)
      else if el_ktable_start lk \<le> va \<and> va AND PAGE_MASK < el_kernel_end lk
      then Some (if va AND PAGE_MASK = el_console_debug lk then 0xB8000 OR (va AND 0xFFF) else va - el_high_vma lk, 2) else None)"
proof -
  let ?B = "el_boot_pt lk" and ?P = "el_boot_kernel_pt lk - el_high_vma lk" and ?u = "unat va div 4096"
  note L = lay [unfolded early_layout_def Let_def] and T = tab [unfolded boot_tables_def Let_def, folded D_def K_def]
  have pg: "pg_ok ?B" "pg_ok ?P" "pg_ok D" "distinct [?B, ?P, D]" and k: "K mod 4194304 = 0" "0 < K" using L by (auto simp: D_def K_def)
  have k0: "K div 4194304 \<noteq> 0" using k by (auto elim!: dvdE)
  have t: "t OR 3 \<noteq> 0" "(t OR 3) AND PAGE_MASK = t" "bit (t OR 3) 0" if "pg_ok t" for t
    using pg_ok_mask [OF that] mask_or_flags(1) [of 3 t] that by (auto simp: pg_ok_def or_eq_0_iff bit_simps)
  have D: "pde m D j = (if j = K div 4194304 then ?P OR 3 else if j = 0 then ?B OR 3 else 0)" if "j < 1024" for j using T that by blast
  show ok: "pd_ok m D (2 ^ 32)"
    using pg t [OF pg(1)] t [OF pg(2)] unfolding pd_ok_def by (auto simp: D pg_ok_def)
  have q: "unat (va AND PAGE_MASK) = 4096 * ?u" by (simp add: page_mask_unat mult.commute)
  have v: "?u div 1024 < 1024" using unat_u32_lt [of va] by (simp add: less_mult_imp_div_less div_mult2_eq [symmetric])
  have hi: "K div 4194304 < 1024" using L by (simp add: K_def less_mult_imp_div_less)
  consider (low) "early_identity lk e (4096 * ?u)" | (high) "\<not> early_identity lk e (4096 * ?u)" "el_ktable_start lk \<le> va" "va AND PAGE_MASK < el_kernel_end lk"
    | (out) "\<not> early_identity lk e (4096 * ?u)" "\<not> (el_ktable_start lk \<le> va \<and> va AND PAGE_MASK < el_kernel_end lk)" by blast
  then show "page_walk m D va = (if early_identity lk e (unat (va AND PAGE_MASK)) then Some (va, 2)
      else if el_ktable_start lk \<le> va \<and> va AND PAGE_MASK < el_kernel_end lk
      then Some (if va AND PAGE_MASK = el_console_debug lk then 0xB8000 OR (va AND 0xFFF) else va - el_high_vma lk, 2) else None)"
  proof cases
    case low
    have j: "?u < 1024" using early_identity_page(2) [OF lay low] by simp
    have "entry m ?B (?u mod 1024) = (va AND PAGE_MASK) OR 3"
      using conjunct1 [OF T, rule_format, OF j] low j by (simp add: page_of_addr del: of_nat_mult)
    then show ?thesis using walk_rw [OF ok _ pg(1), of va va] D [of 0] j k0 low unfolding q by (simp add: page_low_or)
  next
    case high
    let ?a = "va - el_high_vma lk"
    note E = early_kernel_page [OF lay high(2,3), folded K_def]
    have b: "K \<le> unat va" "unat va < K + 4194304" using E(1) high(2) L by (auto simp: word_le_nat_alt K_def div_less_iff_less_mult)
    note O = early_offsets [OF lay b [unfolded K_def], folded K_def]
    have e: "entry m ?P (?u mod 1024) = ((if va AND PAGE_MASK = el_console_debug lk then 0xB8000 else ?a) AND PAGE_MASK) OR 3"
      using conjunct1 [OF conjunct2 [OF T], rule_format, OF E(1)] E(2,3) unfolding O(1) E(4,5) by (simp add: PAGE_MASK_def)
    have "pde m D (?u div 1024) = ?P OR 3" using D [OF hi] O(2) by simp
    then show ?thesis using walk_rw [OF ok _ pg(2) e] page_low_or [of ?a] high unfolding q by (auto simp: E(6) PAGE_MASK_def)
  next
    case out
    have "\<not> bit (pte_at m D ?u) 0"
    proof -
      consider "?u div 1024 = K div 4194304" | "?u div 1024 = 0" | "pde m D (?u div 1024) = 0" using D [OF v] by fastforce
      then show ?thesis
      proof cases
        case 1
        have b: "K \<le> unat va" "unat va < K + 4194304" using slot_bounds [OF k(1) 1] .
        note O = early_offsets [OF lay b [unfolded K_def], folded K_def]
        let ?j = "(unat va - K) div 4096"
        have j: "?j < 1024" using b by (simp add: less_mult_imp_div_less)
        have "\<not> (unat (el_ktable_start lk) - K \<le> 4096 * ?j \<and> 4096 * ?j < unat (el_kernel_end lk) - K)"
        proof
          assume r: "unat (el_ktable_start lk) - K \<le> 4096 * ?j \<and> 4096 * ?j < unat (el_kernel_end lk) - K"
          have e: "?u * 4096 = K + 4096 * ?j" using O(3) b(1) div_mult_mod_eq [of "unat va" 4096] div_mult_mod_eq [of "unat va - K" 4096] by linarith
          have "unat (el_ktable_start lk) \<le> unat va" using r e div_times_less_eq_dividend [of "unat va" 4096] by linarith
          moreover have "?u * 4096 < unat (el_kernel_end lk)" using r e by linarith
          ultimately show False using out(2) by (simp add: word_le_nat_alt word_less_nat_alt page_mask_unat)
        qed
        then have "\<not> bit (entry m ?P ?j) 0" using conjunct1 [OF conjunct2 [OF T], rule_format, OF j] by simp
        then show ?thesis using D [OF hi] t [OF pg(2)] by (simp add: pte_at_def 1 O(1))
      next
        case 2
        then have j: "?u < 1024" by (simp add: div_eq_0_iff)
        have "\<not> bit (entry m ?B ?u) 0" using conjunct1 [OF T, rule_format, OF j] out(1) by simp
        then show ?thesis using D [of 0] k0 t [OF pg(1)] j by (simp add: pte_at_def)
      qed (simp add: pte_at_def)
    qed
    then show ?thesis using out by (simp add: page_walk_pte [OF ok] q)
  qed
qed

text \<open>C14: the page tables with which paging is switched on. Let the linker's layout be as the linker
  script has it, the boot directory and the kernel's boot table still be empty, and so the entries of \<^verbatim>\<open>boot_pt\<close> from 257 on
  (the loop that should clear that table clears what is before them). Then \<^verbatim>\<open>early_page_map\<close> returns, writing only into the boot
  directory and its two tables, and the address space is exactly this: the pages of the first megabyte, of the boot code with one page more, of
  the kernel's static page tables and of the six frames behind the boot modules, which are for paging structures, are mapped to themselves; the
  pages of the kernel are mapped to their distance from \<^verbatim>\<open>K_HIGH_VMA\<close>, except for the console page, which shows
  the text buffer at \<^verbatim>\<open>0xB8000\<close>; all with read and write access for the kernel only; and no other address is mapped.\<close>

theorem early_page_map_maps:
  assumes "early_layout lk (unat (range_end (boot_module_phys_range (e_kinfo s))))"
    and "\<forall>j < 1024. pde (e_mem s) (el_boot_page_directory lk - el_high_vma lk) j = 0"
    and "\<forall>j < 1024. entry (e_mem s) (el_boot_kernel_pt lk - el_high_vma lk) j = 0"
    and "\<forall>j. 256 < j \<and> j < 1024 \<longrightarrow> entry (e_mem s) (el_boot_pt lk) j = 0"
  shows "\<exists>m'. early_page_map lk s = Inr (s\<lparr>e_mem := m'\<rparr>)
    \<and> only_in {el_boot_pt lk, el_boot_kernel_pt lk - el_high_vma lk, el_boot_page_directory lk - el_high_vma lk} (e_mem s) m'
    \<and> (\<forall>va. page_walk m' (el_boot_page_directory lk - el_high_vma lk) va =
         (if early_identity lk (unat (range_end (boot_module_phys_range (e_kinfo s)))) (unat (va AND PAGE_MASK)) then Some (va, 2)
          else if el_ktable_start lk \<le> va \<and> va AND PAGE_MASK < el_kernel_end lk
          then Some (if va AND PAGE_MASK = el_console_debug lk then 0xB8000 OR (va AND 0xFFF) else va - el_high_vma lk, 2) else None))"
proof -
  let ?B = "el_boot_pt lk" and ?P = "el_boot_kernel_pt lk - el_high_vma lk" and ?D = "el_boot_page_directory lk - el_high_vma lk"
    and ?e = "unat (range_end (boot_module_phys_range (e_kinfo s)))"
  obtain m' where m': "early_page_map lk s = Inr (s\<lparr>e_mem := m'\<rparr>)" "only_in {?B, ?P, ?D} (e_mem s) m'"
    and B: "\<forall>j < 1024. early_identity lk ?e (4096 * j) \<longrightarrow> entry m' ?B j = of_nat (4096 * j) OR 3"
      "\<forall>j < 1024. \<not> early_identity lk ?e (4096 * j) \<longrightarrow> entry m' ?B j = entry (clear_boot_pt ?B (e_mem s)) ?B j"
    and P: "\<forall>j < 1024. unat (el_ktable_start lk) - unat (el_high_vma lk) \<le> 4096 * j \<and> 4096 * j < unat (el_kernel_end lk) - unat (el_high_vma lk) \<longrightarrow>
         entry m' ?P j = (if 4096 * j = unat (el_console_debug lk) - unat (el_high_vma lk) then 0xB8003 else of_nat (4096 * j) OR 3)"
      "\<forall>j < 1024. \<not> (unat (el_ktable_start lk) - unat (el_high_vma lk) \<le> 4096 * j \<and> 4096 * j < unat (el_kernel_end lk) - unat (el_high_vma lk)) \<longrightarrow>
         entry m' ?P j = entry (e_mem s) ?P j"
    and D: "\<forall>j < 1024. entry m' ?D j = (if j = unat (el_high_vma lk) div 4194304 then ?P OR 3 else if j = 0 then ?B OR 3 else entry (e_mem s) ?D j)"
    using early_page_map_tables [OF assms(1)] by blast
  have "pg_ok ?B" using assms(1) by (simp add: early_layout_def Let_def)
  note C = clear_boot_pt_entries [OF this]
  have "\<not> bit (entry m' ?B j) 0" if j: "j < 1024" "\<not> early_identity lk ?e (4096 * j)" for j
  proof -
    have "\<not> 4096 * j < 0x100000" using j(2) by (auto simp: early_identity_def)
    then consider "j = 256" | "256 < j" by linarith
    then show ?thesis
    proof cases
      case 1
      then show ?thesis using B(2) [rule_format, OF j] C(2) [of "e_mem s"] by simp
    next
      case 2
      then show ?thesis using B(2) [rule_format, OF j] C(1) [OF 2 j(1), of "e_mem s"] assms(4) j(1) by simp
    qed
  qed
  then have "boot_tables lk ?e m'" using B(1) P D assms(2,3) by (simp add: boot_tables_def Let_def pde_def)
  then show ?thesis using m' boot_tables_walk(2) [OF assms(1)] by blast
qed


definition sample_early_links :: early_links where
  "sample_early_links = \<lparr>el_high_vma = 0xFE800000, el_kernel_start = 0xFE905000, el_kernel_end = 0xFE940000, el_ktable_start = 0xFE905000,
     el_ktable_end = 0xFE90A000, el_early_start = 0x100000, el_early_end = 0x104000, el_boot_pt = 0x102000, el_boot_kernel_pt = 0xFE905000,
     el_boot_page_directory = 0xFE906000, el_console_debug = 0xFE93F000\<rparr>"

lemma sample_early_layout: "e mod 4096 = 0 \<Longrightarrow> e + 24576 \<le> 4194304 \<Longrightarrow> early_layout sample_early_links e"
  by (simp add: early_layout_def sample_early_links_def pg_ok_def)

theorem early_page_map_maps_witness:
  "\<exists>m'. early_page_map sample_early_links \<lparr>e_mem = (\<lambda>_. 0), e_x = 0, e_y = 0,
        e_kinfo = zero_kinfo\<lparr>boot_module_phys_range := \<lparr>range_start = 0x140000, range_end = 0x180000\<rparr>\<rparr>\<rparr>
      = Inr \<lparr>e_mem = m', e_x = 0, e_y = 0, e_kinfo = zero_kinfo\<lparr>boot_module_phys_range := \<lparr>range_start = 0x140000, range_end = 0x180000\<rparr>\<rparr>\<rparr>
     \<and> page_walk m' 0x106000 0x185123 = Some (0x185123, 2) \<and> page_walk m' 0x106000 0xFE912345 = Some (0x112345, 2)
     \<and> page_walk m' 0x106000 0xFE93F008 = Some (0xB8008, 2) \<and> page_walk m' 0x106000 0x80000000 = None \<and> page_walk m' 0x106000 0x186000 = None \<and> page_walk m' 0x106000 0xFE940000 = None"
proof -
  let ?s = "\<lparr>e_mem = (\<lambda>_. 0), e_x = 0, e_y = 0, e_kinfo = zero_kinfo\<lparr>boot_module_phys_range := \<lparr>range_start = 0x140000, range_end = 0x180000\<rparr>\<rparr>\<rparr>"
  have d: "el_boot_page_directory sample_early_links - el_high_vma sample_early_links = 0x106000" by (simp add: sample_early_links_def)
  have e: "unat (range_end (boot_module_phys_range (e_kinfo ?s))) = 0x180000" by simp
  have l: "early_layout sample_early_links (unat (range_end (boot_module_phys_range (e_kinfo ?s))))" unfolding e by (rule sample_early_layout) simp_all
  have z: "\<forall>j < 1024. pde (e_mem ?s) (el_boot_page_directory sample_early_links - el_high_vma sample_early_links) j = 0"
    "\<forall>j < 1024. entry (e_mem ?s) (el_boot_kernel_pt sample_early_links - el_high_vma sample_early_links) j = 0"
    "\<forall>j. 256 < j \<and> j < 1024 \<longrightarrow> entry (e_mem ?s) (el_boot_pt sample_early_links) j = 0"
    by (simp_all add: pde_def load32_zero)
  obtain m' where m': "early_page_map sample_early_links ?s = Inr (?s\<lparr>e_mem := m'\<rparr>)"
    and W: "\<forall>va. page_walk m' 0x106000 va = (if early_identity sample_early_links 0x180000 (unat (va AND PAGE_MASK)) then Some (va, 2)
          else if el_ktable_start sample_early_links \<le> va \<and> va AND PAGE_MASK < el_kernel_end sample_early_links
          then Some (if va AND PAGE_MASK = el_console_debug sample_early_links then 0xB8000 OR (va AND 0xFFF) else va - el_high_vma sample_early_links, 2) else None)"
    using early_page_map_maps [OF l z] unfolding d e by blast
  have "page_walk m' 0x106000 0x185123 = Some (0x185123, 2)" "page_walk m' 0x106000 0xFE912345 = Some (0x112345, 2)"
    "page_walk m' 0x106000 0xFE93F008 = Some (0xB8008, 2)" "page_walk m' 0x106000 0x80000000 = None" "page_walk m' 0x106000 0x186000 = None"
    "page_walk m' 0x106000 0xFE940000 = None"
    unfolding W [rule_format] by (simp_all add: early_identity_def sample_early_links_def PAGE_MASK_def)
  then show ?thesis using m' by simp
qed

section \<open>What the tags say\<close>

datatype boot_tag =
    Mmap_Tag nat "multiboot_memory_map_t list"
  | Meminfo_Tag u32
  | Module_Tag paddr_t paddr_t "u8 list"
  | Other_Tag

text \<open>The tag of \<open>sz\<close> bytes at \<open>a\<close>: its type and its contents.\<close>

fun tag_body :: "mem \<Rightarrow> nat \<Rightarrow> nat \<Rightarrow> boot_tag \<Rightarrow> bool" where
  "tag_body m a sz (Mmap_Tag es maps) \<longleftrightarrow> tag_type m (of_nat a) = 6 \<and> unat (tag_entry_size m (of_nat a)) = es \<and> 24 \<le> es
     \<and> sz = 16 + es * length maps \<and> (\<forall>i < length maps. read_memmap m (of_nat (a + (16 + es * i))) = maps ! i)"
| "tag_body m a sz (Meminfo_Tag upper) \<longleftrightarrow> tag_type m (of_nat a) = 4 \<and> 16 \<le> sz \<and> tag_mem_upper m (of_nat a) = upper"
| "tag_body m a sz (Module_Tag st en nm) \<longleftrightarrow> tag_type m (of_nat a) = 3 \<and> 16 + length nm < sz
     \<and> tag_mod_start m (of_nat a) = st \<and> tag_mod_end m (of_nat a) = en
     \<and> (\<forall>i < length nm. m (of_nat (a + (16 + i))) = nm ! i \<and> nm ! i \<noteq> 0) \<and> m (of_nat (a + (16 + length nm))) = 0"
| "tag_body m a sz Other_Tag \<longleftrightarrow> tag_type m (of_nat a) \<notin> {0, 3, 4, 6}"

text \<open>The list of tags from \<open>a\<close> on, up to and including the end tag, which ends at \<open>e\<close>.\<close>

fun tags_at :: "mem \<Rightarrow> nat \<Rightarrow> (nat \<times> boot_tag) list \<Rightarrow> nat \<Rightarrow> bool" where
  "tags_at m a [] e \<longleftrightarrow> tag_type m (of_nat a) = 0 \<and> e = a + 8 \<and> e < 2 ^ 32"
| "tags_at m a ((sz, t) # ts) e \<longleftrightarrow> 8 \<le> sz \<and> unat (tag_size m (of_nat a)) = sz \<and> tag_body m a sz t
     \<and> tags_at m (a + (sz + 7) div 8 * 8) ts e"

lemma tags_at_bounds: "tags_at m a ts e \<Longrightarrow> a + 8 \<le> e \<and> e < 2 ^ 32"
  by (induction ts arbitrary: a) fastforce+

lemma tag_step: "(sz :: nat) \<le> (sz + 7) div 8 * 8" "8 \<le> sz \<Longrightarrow> 8 \<le> (sz + 7) div 8 * 8"
  by presburger+

text \<open>The tags only depend on the bytes between their bounds.\<close>

lemma loads_cong:
  fixes m m' :: mem
  assumes same: "\<And>x. lo \<le> unat x \<Longrightarrow> unat x < hi \<Longrightarrow> m' x = m x" and hi: "hi < 2 ^ 32"
  shows "lo \<le> b \<Longrightarrow> b < hi \<Longrightarrow> m' (of_nat b) = m (of_nat b)"
    "lo \<le> b \<Longrightarrow> b + 4 \<le> hi \<Longrightarrow> load32 m' (of_nat b) = load32 m (of_nat b)"
    "lo \<le> b \<Longrightarrow> b + 24 \<le> hi \<Longrightarrow> read_memmap m' (of_nat b) = read_memmap m (of_nat b)"
proof -
  show b: "m' (of_nat b) = m (of_nat b)" if "lo \<le> b" "b < hi" for b
    using same [of "of_nat b"] that hi by (simp add: unat_of_nat_u32)
  show w: "load32 m' (of_nat b) = load32 m (of_nat b)" if "lo \<le> b" "b + 4 \<le> hi" for b
  proof (rule load32_cong)
    fix i :: nat assume "i < 4"
    then show "m' (of_nat b + of_nat i) = m (of_nat b + of_nat i)" using b [of "b + i"] that by simp
  qed
  show "read_memmap m' (of_nat b) = read_memmap m (of_nat b)" if "lo \<le> b" "b + 24 \<le> hi" for b
    using w [of b] w [of "b + 4"] w [of "b + 8"] w [of "b + 12"] w [of "b + 16"] w [of "b + 20"] that
    by (simp add: read_memmap_def load64_def add.assoc)
qed

lemma tag_body_cong:
  assumes same: "\<And>x. a \<le> unat x \<Longrightarrow> unat x < hi \<Longrightarrow> m' x = m x" and hi: "hi < 2 ^ 32" "a + sz \<le> hi" "8 \<le> sz"
  shows "tag_body m a sz t \<Longrightarrow> tag_body m' a sz t"
proof (cases t)
  note C = loads_cong [of a hi m' m, OF same hi(1)]
  have T: "tag_type m' (of_nat a) = tag_type m (of_nat a)" using C(2) [of a] hi by (simp add: tag_type_def)
  assume b: "tag_body m a sz t"
  {
    case (Mmap_Tag es maps)
    have "read_memmap m' (of_nat (a + (16 + es * i))) = read_memmap m (of_nat (a + (16 + es * i)))" if "i < length maps" for i
    proof (rule C(3))
      have "es * Suc i \<le> es * length maps" using that by (intro mult_le_mono2) simp
      then show "a + (16 + es * i) + 24 \<le> hi" using b hi(2) by (simp add: Mmap_Tag)
    qed auto
    then show ?thesis using b C(2) [of "a + 8"] hi by (auto simp: Mmap_Tag T tag_entry_size_def)
  next
    case (Meminfo_Tag upper)
    then show ?thesis using b C(2) [of "a + 12"] hi by (simp add: T tag_mem_upper_def)
  next
    case (Module_Tag st en nm)
    then show ?thesis
      using b C(2) [of "a + 8"] C(2) [of "a + 12"] C(1) [of "a + (16 + i)" for i] C(1) hi
      by (auto simp: T tag_mod_start_def tag_mod_end_def)
  next
    case Other_Tag
    then show ?thesis using b by (simp add: T)
  }
qed

lemma tags_at_cong:
  assumes "tags_at m a ts e" "\<And>x. a \<le> unat x \<Longrightarrow> unat x < e \<Longrightarrow> m' x = m x"
  shows "tags_at m' a ts e"
  using assms
proof (induction ts arbitrary: a)
  case Nil
  then show ?case using loads_cong(2) [of a e m' m a] by (simp add: tag_type_def)
next
  case (Cons st ts)
  obtain sz t where st: "st = (sz, t)" by (cases st)
  have h: "8 \<le> sz" "unat (tag_size m (of_nat a)) = sz" "tag_body m a sz t" "tags_at m (a + (sz + 7) div 8 * 8) ts e"
    using Cons.prems(1) by (simp_all add: st)
  have e: "a + sz + 8 \<le> e" "e < 2 ^ 32" using tags_at_bounds [OF h(4)] tag_step(1) [of sz] by auto
  have "tag_body m' a sz t" by (rule tag_body_cong [OF Cons.prems(2) _ _ h(1,3)]) (use e in auto)
  moreover have "tags_at m' (a + (sz + 7) div 8 * 8) ts e" by (rule Cons.IH [OF h(4)]) (use Cons.prems(2) in auto)
  moreover have "tag_size m' (of_nat a) = tag_size m (of_nat a)"
    using loads_cong(2) [of a e m' m "a + 4"] Cons.prems(2) e h(1) by (simp add: tag_size_def)
  ultimately show ?case using h(1,2) by (simp add: st)
qed


section \<open>Copying a module\<close>

lemma copy_module_memcpy: "copy_module (unat n) src dst m = memcpy_loop m dst src n"
proof (induction "unat n" arbitrary: n src dst m)
  case 0
  then have "n = 0" by (simp add: word_unat_eq_iff)
  then show ?case by (simp add: memcpy_loop.simps [of m dst src 0])
next
  case (Suc k)
  then have n: "0 < n" "k = unat (n - 1)" by (auto simp: word_less_nat_alt)
  have "copy_module (unat n) src dst m = copy_module (unat (n - 1)) (src + 1) (dst + 1) (m(dst := m src))"
    using Suc.hyps(2) n(2) by (metis copy_module.simps(2))
  then show ?case using Suc.hyps(1) [OF n(2)] n(1) by (simp add: memcpy_loop.simps [of m dst src n])
qed

lemma copy_module_bytes:
  fixes st en dst :: paddr_t
  assumes "unat st \<le> unat en" "unat dst < unat st \<or> unat en \<le> unat dst"
  shows "copy_module (unat en - unat st) st dst m x = (if unat (x - dst) < unat en - unat st then m (st + (x - dst)) else m x)"
proof -
  have n: "unat (en - st) = unat en - unat st" using assms(1) by (simp add: unat_sub word_le_nat_alt)
  have "unat (en - st) \<le> unat (dst - st)"
  proof (rule ccontr)
    assume "\<not> ?thesis"
    then have d: "unat (dst - st) < unat en - unat st" using n by simp
    then show False using unat_add_no_wrap [of st "dst - st"] unat_u32_lt [of en] assms(2) by simp
  qed
  then show ?thesis using memcpy_loop_apply [of dst st "en - st" m x] copy_module_memcpy [of "en - st" st dst m] n by simp
qed

lemma copy_name_prefix:
  assumes "\<forall>i < length nm. m (p + of_nat i) = nm ! i \<and> nm ! i \<noteq> 0" "m (p + of_nat (length nm)) = 0" "i + n \<le> length old"
  shows "copy_name n p i m old = (p + of_nat (min n (length nm)), take i old @ take n nm @ drop (i + min n (length nm)) old)"
  using assms
proof (induction n arbitrary: p i nm old)
  case (Suc n)
  show ?case
  proof (cases nm)
    case Nil
    then show ?thesis using Suc.prems by simp
  next
    case (Cons c cs)
    have h: "m p = c" "c \<noteq> 0" using Suc.prems(1) [rule_format, of 0] by (simp_all add: Cons)
    have "copy_name n (p + 1) (i + 1) m (old[i := c]) =
        (p + 1 + of_nat (min n (length cs)), take (i + 1) (old[i := c]) @ take n cs @ drop (i + 1 + min n (length cs)) (old[i := c]))"
    proof (rule Suc.IH)
      show "\<forall>i < length cs. m (p + 1 + of_nat i) = cs ! i \<and> cs ! i \<noteq> 0"
        using Suc.prems(1) [rule_format, of "Suc _"] by (auto simp: Cons ac_simps)
      show "m (p + 1 + of_nat (length cs)) = 0" using Suc.prems(2) by (simp add: Cons ac_simps)
    qed (use Suc.prems(3) in simp)
    moreover have "take (i + 1) (old[i := c]) = take i old @ [c]" using Suc.prems(3) by (simp add: take_Suc_conv_app_nth)
    ultimately show ?thesis using h Suc.prems(3) by (simp add: Cons ac_simps)
  qed
qed simp

section \<open>The abstract reading of the tags\<close>

definition usable :: "multiboot_memory_map_t \<Rightarrow> bool" where
  "usable e \<longleftrightarrow> map_type e = MULTIBOOT_MEMORY_AVAILABLE \<and> 0x100000 \<le> map_addr e"

definition save_map :: "multiboot_memory_map_t \<Rightarrow> nat \<times> kernel_info_t \<Rightarrow> nat \<times> kernel_info_t" where
  "save_map e = (\<lambda>(idx, k). if idx < 19 \<and> usable e
     then (Suc idx, k\<lparr>memmaps := (memmaps k)[idx := e], no_mmaps := no_mmaps k + 1\<rparr>) else (idx, k))"

fun do_tag :: "boot_tag \<Rightarrow> kernel_info_t \<times> tag_locals \<Rightarrow> kernel_info_t \<times> tag_locals" where
  "do_tag (Mmap_Tag es maps) (k, l) =
     (let (idx, k) = fold save_map maps (saved_mmap_index l, k) in (k, l\<lparr>saved_mmap_index := idx\<rparr>))"
| "do_tag (Meminfo_Tag upper) (k, l) = (k\<lparr>mem_upper := upper\<rparr>, l)"
| "do_tag (Module_Tag st en nm) (k, l) =
     (if 5 \<le> module_index l then (k, l)
      else let i = module_index l; b = last_module_end_addr l; e = page_align (b + (en - st)); old = mod_name (modules k ! i)
           in (k\<lparr>modules := (modules k)[i := (modules k ! i)\<lparr>start_paddr := b, end_paddr := e,
                   mod_name := take 31 nm @ drop (min 31 (length nm)) old\<rparr>], no_modules := no_modules k + 1\<rparr>,
               l\<lparr>total_module_size := total_module_size l + (e - b), last_module_end_addr := e, module_index := Suc i\<rparr>))"
| "do_tag Other_Tag (k, l) = (k, l)"

lemma save_map_full: "19 \<le> idx \<Longrightarrow> fold save_map maps (idx, k) = (idx, k)"
  by (induction maps) (simp_all add: save_map_def)

lemma mmap_entries_fold:
  assumes "\<forall>i < length maps. read_memmap m (of_nat (c + es * i)) = maps ! i" "0 < es" "c + es * length maps < 2 ^ 32" "length maps < n"
  shows "mmap_entries n (of_nat c) (of_nat (c + es * length maps)) (of_nat es) m idx k = Inr (fold save_map maps (idx, k))"
  using assms
proof (induction maps arbitrary: n c idx k)
  case Nil
  then show ?case by (cases n) simp_all
next
  case (Cons e maps)
  then obtain n' where n: "n = Suc n'" by (cases n) auto
  have hi: "c + es * length (e # maps) = (c + es) + es * length maps" by simp
  have c: "(of_nat c :: u32) < of_nat (c + es * length (e # maps))"
    using Cons.prems(2,3) by (simp add: word_less_nat_alt unat_of_nat_u32 del: of_nat_add of_nat_mult)
  have e: "read_memmap m (of_nat c) = e" using Cons.prems(1) [rule_format, of 0] by simp
  have IH: "mmap_entries n' (of_nat c + of_nat es) (of_nat (c + es * length (e # maps))) (of_nat es) m idx k = Inr (fold save_map maps (idx, k))" for idx k
    unfolding hi of_nat_add [of c es, symmetric]
  proof (rule Cons.IH)
    show "\<forall>i < length maps. read_memmap m (of_nat (c + es + es * i)) = maps ! i"
      using Cons.prems(1) [rule_format, of "Suc _"] by (auto simp: algebra_simps)
  qed (use Cons.prems(2-4) n in simp_all)
  show ?case
  proof (cases "idx + 1 < NO_MEMMAPS")
    case True
    have "mmap_entries n (of_nat c) (of_nat (c + es * length (e # maps))) (of_nat es) m idx k = (if usable e
        then mmap_entries n' (of_nat c + of_nat es) (of_nat (c + es * length (e # maps))) (of_nat es) m (idx + 1)
               (k\<lparr>memmaps := (memmaps k)[idx := e], no_mmaps := no_mmaps k + 1\<rparr>)
        else mmap_entries n' (of_nat c + of_nat es) (of_nat (c + es * length (e # maps))) (of_nat es) m idx k)"
      unfolding n mmap_entries.simps Let_def e using c True by (auto simp: usable_def not_less)
    then show ?thesis unfolding IH using True by (simp add: save_map_def [of e] NO_MEMMAPS_def)
  next
    case False
    then show ?thesis using save_map_full [of idx "e # maps" k] by (simp add: n NO_MEMMAPS_def)
  qed
qed


section \<open>Placing the modules\<close>

fun mods_of :: "(nat \<times> boot_tag) list \<Rightarrow> (paddr_t \<times> paddr_t \<times> u8 list) list" where
  "mods_of [] = []"
| "mods_of ((sz, Module_Tag st en nm) # ts) = (st, en, nm) # mods_of ts"
| "mods_of (_ # ts) = mods_of ts"

fun place_end :: "paddr_t \<Rightarrow> (paddr_t \<times> paddr_t \<times> u8 list) list \<Rightarrow> paddr_t" where
  "place_end b [] = b"
| "place_end b ((st, en, nm) # ms) = place_end (page_align (b + (en - st))) ms"

fun placeable :: "paddr_t \<Rightarrow> (paddr_t \<times> paddr_t \<times> u8 list) list \<Rightarrow> bool" where
  "placeable b [] \<longleftrightarrow> True"
| "placeable b ((st, en, nm) # ms) \<longleftrightarrow> unat st \<le> unat en \<and> unat b + (unat en - unat st) + 4096 < 2 ^ 32 \<and> placeable (page_align (b + (en - st))) ms"

fun copied :: "mem \<Rightarrow> mem \<Rightarrow> paddr_t \<Rightarrow> (paddr_t \<times> paddr_t \<times> u8 list) list \<Rightarrow> bool" where
  "copied m m' b [] \<longleftrightarrow> True"
| "copied m m' b ((st, en, nm) # ms) \<longleftrightarrow> (\<forall>j < unat en - unat st. m' (b + of_nat j) = m (st + of_nat j))
     \<and> copied m m' (page_align (b + (en - st))) ms"

lemma page_align_ge: "unat a + 4096 < 2 ^ 32 \<Longrightarrow> unat a \<le> unat (page_align a) \<and> unat (page_align a) mod 4096 = 0"
proof -
  assume a: "unat a + 4096 < 2 ^ 32"
  have m: "unat (a AND PAGE_MASK) = unat a div 4096 * 4096" by (rule page_mask_unat)
  show ?thesis
  proof (cases "a AND NOT PAGE_MASK = 0")
    case True
    have "a = (a AND PAGE_MASK) OR (a AND NOT PAGE_MASK)" by (simp flip: bit.conj_disj_distrib)
    then have "a = a AND PAGE_MASK" using True by simp
    then have "unat a mod 4096 = 0" using m by (metis mod_mult_self2_is_0)
    then show ?thesis using True by (simp add: page_align_def page_masks)
  next
    case False
    have "unat ((a AND PAGE_MASK) + 4096) = unat a div 4096 * 4096 + 4096" using a m by (simp add: unat_word_ariths)
    moreover have "unat a \<le> unat a div 4096 * 4096 + 4096" using div_mult_mod_eq [of "unat a" 4096] mod_less_divisor [of 4096 "unat a"] by linarith
    ultimately show ?thesis using False by (simp add: page_align_def page_masks)
  qed
qed

lemma place_step:
  assumes "placeable b ((st, en, nm) # ms)"
  shows "unat (b + (en - st)) = unat b + (unat en - unat st)" "unat b + (unat en - unat st) \<le> unat (page_align (b + (en - st)))"
proof -
  have n: "unat (en - st) = unat en - unat st" using assms by (simp add: unat_sub word_le_nat_alt)
  have lt: "unat b + (unat en - unat st) + 4096 < 2 ^ 32" using assms unfolding placeable.simps by blast
  then show u: "unat (b + (en - st)) = unat b + (unat en - unat st)" using unat_add_no_wrap [of b "en - st"] unfolding n by simp
  show "unat b + (unat en - unat st) \<le> unat (page_align (b + (en - st)))" using page_align_ge [of "b + (en - st)"] lt unfolding u by simp
qed

lemma place_end_ge: "placeable b ms \<Longrightarrow> unat b \<le> unat (place_end b ms)"
proof (induction ms arbitrary: b)
  case (Cons x ms)
  obtain st en nm where x: "x = (st, en, nm)" by (cases x)
  have "unat (page_align (b + (en - st))) \<le> unat (place_end b (x # ms))" using Cons.IH [of "page_align (b + (en - st))"] Cons.prems by (simp add: x)
  moreover have "unat b \<le> unat (page_align (b + (en - st)))" using place_step(2) [of b st en nm ms] Cons.prems unfolding x by linarith
  ultimately show ?case by (rule order_trans [rotated])
qed simp

lemma copied_cong:
  assumes "copied m1 m' b ms" "\<And>st en nm j. (st, en, nm) \<in> set ms \<Longrightarrow> j < unat en - unat st \<Longrightarrow> m1 (st + of_nat j) = m (st + of_nat j)"
  shows "copied m m' b ms"
  using assms
proof (induction ms arbitrary: b)
  case (Cons x ms)
  obtain st en nm where x: "x = (st, en, nm)" by (cases x)
  show ?case using Cons.prems(1) Cons.IH [of "page_align (b + (en - st))"] Cons.prems(2) by (simp add: x) metis
qed simp


section \<open>The loop over the tags\<close>

lemma of_nat_field: "(of_nat (a + k) :: u32) = of_nat a + of_nat k"
  by simp

lemma next_tag:
  assumes "unat (sz :: u32) + 7 < 2 ^ 32"
  shows "(sz + 7) AND NOT 7 = of_nat ((unat sz + 7) div 8 * 8)"
proof -
  have m: "NOT 7 = NOT (mask 3 :: u32)" by (simp add: mask_eq_exp_minus_1)
  have "(sz + 7) AND NOT 7 = push_bit 3 (drop_bit 3 (sz + 7))" unfolding m by (rule bit_word_eqI) (auto simp: bit_simps)
  also have "\<dots> = of_nat (unat (sz + 7) div 8 * 8)"
    by (simp add: push_bit_eq_mult drop_bit_eq_div word_unat_eq_iff unat_word_ariths unat_div unat_of_nat)
  finally show ?thesis using assms by (simp add: unat_word_ariths)
qed

lemma handle_plain_tag:
  assumes "tag_body m a sz t" "unat (tag_size m (of_nat a)) = sz" "a + sz < 2 ^ 32" "e_mem s = m"
    and "\<And>st en nm. t = Module_Tag st en nm \<Longrightarrow> 5 \<le> module_index l" "\<And>es maps. t = Mmap_Tag es maps \<Longrightarrow> length maps < fuel"
  shows "handle_tag fuel (of_nat a) (s, l) = Inr (s\<lparr>e_kinfo := fst (do_tag t (e_kinfo s, l))\<rparr>, snd (do_tag t (e_kinfo s, l)))"
proof (cases t)
  case (Mmap_Tag es maps)
  have en: "(of_nat a + tag_size m (of_nat a) :: u32) = of_nat (a + 16 + es * length maps)"
    using assms(1,2) by (simp add: Mmap_Tag flip: of_nat_add) (metis add.assoc of_nat_add of_nat_unat ucast_id)
  have "mmap_entries fuel (of_nat (a + 16)) (of_nat (a + 16 + es * length maps)) (of_nat es) m (saved_mmap_index l) (e_kinfo s)
      = Inr (fold save_map maps (saved_mmap_index l, e_kinfo s))"
    using assms(1,3,6) by (intro mmap_entries_fold) (auto simp: Mmap_Tag add.assoc)
  moreover have "tag_entry_size m (of_nat a) = of_nat es" using assms(1) by (auto simp: Mmap_Tag)
  ultimately show ?thesis
    using assms(1,4) en
    by (simp add: Mmap_Tag handle_tag_def Let_def MULTIBOOT_TAG_TYPE_MMAP_def tag_entries_def add.assoc split: prod.split)
qed (use assms in \<open>auto simp: handle_tag_def Let_def MULTIBOOT_TAG_TYPE_MMAP_def MULTIBOOT_TAG_TYPE_BASIC_MEMINFO_def
      MULTIBOOT_TAG_TYPE_MODULE_def NO_MODULES_def\<close>)


lemma handle_module_tag:
  assumes b: "tag_body m a sz (Module_Tag st en nm)" and m: "e_mem s = m" and i: "module_index l < 5" "length (modules (e_kinfo s)) = 5"
    and nm: "length (mod_name (modules (e_kinfo s) ! module_index l)) = 32"
    and sz: "a + sz < 2 ^ 32" and se: "unat st \<le> unat en" and dst: "unat (last_module_end_addr l) < unat st \<or> unat en \<le> unat (last_module_end_addr l)"
    and out: "\<And>x. a \<le> unat x \<Longrightarrow> unat x < a + sz \<Longrightarrow> unat en - unat st \<le> unat (x - last_module_end_addr l)"
  shows "\<exists>m1 p. handle_tag fuel (of_nat a) (s, l) = Inr (s\<lparr>e_mem := m1, e_kinfo := fst (do_tag (Module_Tag st en nm) (e_kinfo s, l))\<rparr>,
       snd (do_tag (Module_Tag st en nm) (e_kinfo s, l)))
     \<and> a + 16 \<le> unat p \<and> unat p < a + sz
     \<and> (\<forall>x. m1 x = (if x = p then 0 else if unat (x - last_module_end_addr l) < unat en - unat st then m (st + (x - last_module_end_addr l)) else m x))"
proof -
  let ?dst = "last_module_end_addr l" and ?i = "module_index l" and ?k = "e_kinfo s"
  let ?m = "copy_module (unat en - unat st) st ?dst m" and ?p = "of_nat (a + 16 + min 31 (length nm)) :: u32"
  note C = copy_module_bytes [OF se dst, of m]
  have same: "?m x = m x" if "a \<le> unat x" "unat x < a + sz" for x using C [of x] out [OF that] by simp
  have b': "tag_body ?m a sz (Module_Tag st en nm)"
    by (rule tag_body_cong [where hi = "a + sz", OF same _ _ _ b]) (use sz b in auto)
  have name: "copy_name 31 (of_nat a + 16) 0 ?m (mod_name (modules ?k ! ?i)) = (?p, take 31 nm @ drop (min 31 (length nm)) (mod_name (modules ?k ! ?i)))"
    using copy_name_prefix [of nm ?m "of_nat a + 16" 0 31 "mod_name (modules ?k ! ?i)"] b' nm by (simp add: add.assoc)
  have p: "unat ?p = a + 16 + min 31 (length nm)" using b sz by (intro unat_of_nat_u32) auto
  have "handle_tag fuel (of_nat a) (s, l) = Inr (s\<lparr>e_mem := ?m(?p := 0), e_kinfo := fst (do_tag (Module_Tag st en nm) (?k, l))\<rparr>,
       snd (do_tag (Module_Tag st en nm) (?k, l)))"
    using b m i name unfolding handle_tag_def
    by (simp add: Let_def MULTIBOOT_TAG_TYPE_MMAP_def MULTIBOOT_TAG_TYPE_BASIC_MEMINFO_def MULTIBOOT_TAG_TYPE_MODULE_def NO_MODULES_def
        module_tag_def tag_cmdline_def MAX_MODULE_NAME_LEN_def)
  moreover have "a + 16 \<le> unat ?p \<and> unat ?p < a + sz" using p b by auto
  ultimately show ?thesis using C by (intro exI [of _ "?m(?p := 0)"] exI [of _ ?p]) simp
qed

lemma region_mem:
  fixes x b :: u32
  assumes "unat b + n \<le> 2 ^ 32"
  shows "unat (x - b) < n \<longleftrightarrow> unat b \<le> unat x \<and> unat x < unat b + n"
proof (cases "b \<le> x")
  case True
  then show ?thesis by (auto simp: unat_sub word_le_nat_alt)
next
  case False
  have "\<not> unat (x - b) < n" using unat_add_no_wrap [of b "x - b"] assms False by (auto simp: word_le_nat_alt)
  then show ?thesis using False by (simp add: word_le_nat_alt)
qed

definition do_tags :: "(nat \<times> boot_tag) list \<Rightarrow> kernel_info_t \<times> tag_locals \<Rightarrow> kernel_info_t \<times> tag_locals" where
  "do_tags ts = fold (\<lambda>(sz, t). do_tag t) ts"

lemma do_tags_Cons: "do_tags ((sz, t) # ts) kl = do_tags ts (do_tag t kl)"
  by (simp add: do_tags_def)

lemma save_maps_modules: "modules (snd (fold save_map maps (idx, k))) = modules k"
  by (induction maps arbitrary: idx k) (simp_all add: save_map_def)

lemma do_tag_modules:
  "length (modules k) = 5 \<Longrightarrow> \<forall>x \<in> set (modules k). length (mod_name x) = 32 \<Longrightarrow>
   length (modules (fst (do_tag t (k, l)))) = 5 \<and> (\<forall>x \<in> set (modules (fst (do_tag t (k, l)))). length (mod_name x) = 32)"
proof (cases t)
  case (Module_Tag st en nm)
  assume k: "length (modules k) = 5" "\<forall>x \<in> set (modules k). length (mod_name x) = 32"
  then have "length (mod_name (modules k ! module_index l)) = 32" if "module_index l < 5" using that by (simp add: nth_mem)
  then show ?thesis
    using k by (auto simp: Module_Tag Let_def dest!: set_update_subset_insert [THEN subsetD])
qed (use save_maps_modules in \<open>auto simp: split_beta\<close>)

text \<open>The modules that are still to be placed, and what lies apart from what.\<close>

definition mods_fit :: "paddr_t \<Rightarrow> (paddr_t \<times> paddr_t \<times> u8 list) list \<Rightarrow> nat \<Rightarrow> nat \<Rightarrow> bool" where
  "mods_fit b ms a e \<longleftrightarrow> placeable b ms \<and> {a..<e} \<inter> {unat b..<unat (place_end b ms)} = {}
     \<and> (\<forall>(st, en, nm) \<in> set ms. {unat st..<unat en} \<inter> {unat b..<unat (place_end b ms)} = {} \<and> {unat st..<unat en} \<inter> {a..<e} = {})"

lemma mods_fit_less: "mods_fit b ms a e \<Longrightarrow> a \<le> a' \<Longrightarrow> mods_fit b ms a' e"
proof -
  assume f: "mods_fit b ms a e" and "a \<le> a'"
  then have "{a'..<e} \<subseteq> {a..<e}" by auto
  then show ?thesis using f unfolding mods_fit_def by blast
qed

lemma mods_fit_Cons:
  assumes f: "mods_fit b ((st, en, nm) # ms) a e"
  shows "mods_fit (page_align (b + (en - st))) ms a e" "unat st \<le> unat en" "unat b < unat st \<or> unat en \<le> unat b"
    "unat b + (unat en - unat st) \<le> 2 ^ 32" "unat b + (unat en - unat st) \<le> unat (page_align (b + (en - st)))"
    "unat (page_align (b + (en - st))) \<le> unat (place_end b ((st, en, nm) # ms))"
proof -
  have p: "placeable b ((st, en, nm) # ms)" using f unfolding mods_fit_def by blast
  show st: "unat b + (unat en - unat st) \<le> unat (page_align (b + (en - st)))" by (rule place_step(2) [OF p])
  show ge: "unat (page_align (b + (en - st))) \<le> unat (place_end b ((st, en, nm) # ms))" using place_end_ge [of "page_align (b + (en - st))" ms] p by simp
  show se: "unat st \<le> unat en" using p by simp
  show "unat b + (unat en - unat st) \<le> 2 ^ 32" using place_step(1) [OF p] unat_u32_lt [of "b + (en - st)"] by simp
  have dj: "{unat st..<unat en} \<inter> {unat b..<unat (place_end b ((st, en, nm) # ms))} = {}" using f unfolding mods_fit_def by simp
  show "unat b < unat st \<or> unat en \<le> unat b"
  proof (rule ccontr)
    assume c: "\<not> ?thesis"
    then have "unat b < unat (place_end b ((st, en, nm) # ms))" using st ge se by linarith
    then have "unat b \<in> {unat st..<unat en} \<inter> {unat b..<unat (place_end b ((st, en, nm) # ms))}" using c by simp
    then show False using dj by simp
  qed
  have sub: "{unat (page_align (b + (en - st)))..<unat (place_end (page_align (b + (en - st))) ms)} \<subseteq> {unat b..<unat (place_end (page_align (b + (en - st))) ms)}"
    using st by auto
  show "mods_fit (page_align (b + (en - st))) ms a e"
    using sub f unfolding mods_fit_def placeable.simps place_end.simps list.set(2) by blast
qed


lemma module_index_step:
  "i < 5 \<Longrightarrow> take (5 - i) ((x, y, z) # ms) = (x, y, z) # take (5 - Suc i) ms"
  by (simp add: take_Cons')

lemma tags_at_live: "tag_body m a sz t \<Longrightarrow> tag_type m (of_nat a) \<noteq> MULTIBOOT_TAG_TYPE_END"
  by (cases t) (auto simp: MULTIBOOT_TAG_TYPE_END_def)

text \<open>What one module tag does to memory, for the rest of the loop.\<close>

lemma module_step:
  assumes fit: "mods_fit b ((x, y, z) # ms) a e" and p: "a + 16 \<le> unat p" "unat p < a + sz" and e: "a + sz \<le> a'" "a' + 8 \<le> e" "e < 2 ^ 32"
    and m1: "\<forall>w. m1 w = (if w = p then 0 else if unat (w - b) < unat y - unat x then m (x + (w - b)) else m w)"
  shows "\<And>w. a' \<le> unat w \<Longrightarrow> unat w < e \<Longrightarrow> m1 w = m w" "tag_size m1 (of_nat a) = tag_size m (of_nat a)"
    and "copied m1 m' (page_align (b + (y - x))) ms \<Longrightarrow>
      \<forall>w. unat w \<notin> {a'..<e} \<longrightarrow> unat w \<notin> {unat (page_align (b + (y - x)))..<unat (place_end b ((x, y, z) # ms))} \<longrightarrow> m' w = m1 w \<Longrightarrow>
      copied m m' b ((x, y, z) # ms) \<and> (\<forall>w. unat w \<notin> {a..<e} \<longrightarrow> unat w \<notin> {unat b..<unat (place_end b ((x, y, z) # ms))} \<longrightarrow> m' w = m w)"
proof -
  note F = mods_fit_Cons [OF fit] and R = region_mem [OF mods_fit_Cons(4) [OF fit]]
  let ?B = "unat (place_end b ((x, y, z) # ms))"
  have dj: "w \<notin> {unat b..<?B}" if "w \<in> {a..<e}" for w using fit that unfolding mods_fit_def by blast
  have keep: "m1 w = m w" if "w \<noteq> p" "unat w \<notin> {unat b..<?B}" for w
    using m1 that F(5,6) by (auto simp: R)
  show tl: "m1 w = m w" if "a' \<le> unat w" "unat w < e" for w
    by (rule keep) (use that p e dj [of "unat w"] in auto)
  have "m1 w = m w" if "a \<le> unat w" "unat w < a + 16" for w
    by (rule keep) (use that p e dj [of "unat w"] in auto)
  then show "tag_size m1 (of_nat a) = tag_size m (of_nat a)"
    using loads_cong(2) [of a "a + 16" m1 m "a + 4"] p e by (simp add: tag_size_def)
  assume c: "copied m1 m' (page_align (b + (y - x))) ms"
    and o: "\<forall>w. unat w \<notin> {a'..<e} \<longrightarrow> unat w \<notin> {unat (page_align (b + (y - x)))..<?B} \<longrightarrow> m' w = m1 w"
  have pe: "unat p \<in> {a..<e}" using p e by simp
  have "copied m m' (page_align (b + (y - x))) ms"
  proof (rule copied_cong [OF c])
    fix st en nm j assume s: "(st, en, nm) \<in> set ms" "j < unat en - unat st"
    then have "{unat st..<unat en} \<inter> {unat b..<?B} = {}" "{unat st..<unat en} \<inter> {a..<e} = {}"
      using fit unfolding mods_fit_def by auto
    moreover have u: "unat (st + of_nat j) = unat st + j" using s(2) unat_u32_lt [of en] by (intro unat_plus_of_nat) simp
    moreover have "unat (st + of_nat j) \<in> {unat st..<unat en}" using s(2) unfolding u by simp
    ultimately have "unat (st + of_nat j) \<notin> {unat b..<?B}" "unat (st + of_nat j) \<notin> {a..<e}" by (auto simp only: disjoint_iff)
    then show "m1 (st + of_nat j) = m (st + of_nat j)" using pe by (intro keep) auto
  qed
  moreover have "m' (b + of_nat j) = m (x + of_nat j)" if j: "j < unat y - unat x" for j
  proof -
    have lt: "unat b + j < unat (page_align (b + (y - x)))" using j F(5) by linarith
    then have u: "unat (b + of_nat j) = unat b + j" using unat_u32_lt [of "page_align (b + (y - x))"] by (intro unat_plus_of_nat) simp
    have d: "unat (b + of_nat j) \<notin> {a..<e}" using dj lt F(6) unfolding u by fastforce
    then have "m' (b + of_nat j) = m1 (b + of_nat j)" using o [rule_format, of "b + of_nat j"] lt e d unfolding u by auto
    moreover have "b + of_nat j \<noteq> p" "unat (of_nat j :: u32) = j" using d pe j unat_u32_lt [of y] by (auto intro: unat_of_nat_u32)
    ultimately show ?thesis using m1 j by simp
  qed
  moreover have "m' w = m w" if "unat w \<notin> {a..<e}" "unat w \<notin> {unat b..<?B}" for w
  proof -
    have "m' w = m1 w" using o that e F(5) by auto
    also have "\<dots> = m w" using that pe by (intro keep) auto
    finally show ?thesis .
  qed
  ultimately show "copied m m' b ((x, y, z) # ms) \<and> (\<forall>w. unat w \<notin> {a..<e} \<longrightarrow> unat w \<notin> {unat b..<?B} \<longrightarrow> m' w = m w)" by simp
qed


lemma tag_loop_step:
  assumes "tag_type (e_mem s) (of_nat a) \<noteq> MULTIBOOT_TAG_TYPE_END" "unat (tag_size (e_mem s) (of_nat a)) = sz" "sz + 7 < 2 ^ 32"
    and "handle_tag fuel (of_nat a) (s, l) = Inr (s1, l1)" "tag_size (e_mem s1) (of_nat a) = tag_size (e_mem s) (of_nat a)"
  shows "tag_loop (Suc n) fuel (of_nat a) (s, l) = tag_loop n fuel (of_nat (a + (sz + 7) div 8 * 8)) (s1, l1)"
  using assms next_tag [of "tag_size (e_mem s) (of_nat a)"] by simp

definition loop_ok :: "(nat \<times> boot_tag) list \<Rightarrow> nat \<Rightarrow> nat \<Rightarrow> early \<Rightarrow> tag_locals \<Rightarrow> early \<times> tag_locals \<Rightarrow> bool" where
  "loop_ok ts a e s l r \<longleftrightarrow>
     (let b = last_module_end_addr l; ms = take (5 - module_index l) (mods_of ts); m' = e_mem (fst r)
      in r = (s\<lparr>e_mem := m', e_kinfo := fst (do_tags ts (e_kinfo s, l))\<rparr>, snd (do_tags ts (e_kinfo s, l)))
       \<and> copied (e_mem s) m' b ms
       \<and> (\<forall>x. unat x \<notin> {a..<e} \<longrightarrow> unat x \<notin> {unat b..<unat (place_end b ms)} \<longrightarrow> m' x = e_mem s x))"

lemma tag_loop_ok:
  assumes "tags_at (e_mem s) a ts e" "mods_fit (last_module_end_addr l) (take (5 - module_index l) (mods_of ts)) a e"
    and "\<forall>sz es maps. (sz, Mmap_Tag es maps) \<in> set ts \<longrightarrow> length maps < fuel" "length ts < n"
    and "length (modules (e_kinfo s)) = 5" "\<forall>x \<in> set (modules (e_kinfo s)). length (mod_name x) = 32"
  shows "\<exists>r. tag_loop n fuel (of_nat a) (s, l) = Inr r \<and> loop_ok ts a e s l r"
  using assms
proof (induction ts arbitrary: a s l n)
  case Nil
  then show ?case by (cases n) (auto simp: loop_ok_def do_tags_def MULTIBOOT_TAG_TYPE_END_def)
next
  case (Cons st ts)
  obtain sz t where t: "st = (sz, t)" by (cases st)
  obtain n' where n: "n = Suc n'" "length ts < n'" using Cons.prems(4) by (cases n) auto
  let ?m = "e_mem s" and ?k = "e_kinfo s" and ?b = "last_module_end_addr l" and ?a' = "a + (sz + 7) div 8 * 8"
  let ?k1 = "fst (do_tag t (?k, l))" and ?l1 = "snd (do_tag t (?k, l))" and ?ms = "take (5 - module_index l) (mods_of (st # ts))"
  have h: "8 \<le> sz" "unat (tag_size ?m (of_nat a)) = sz" "tag_body ?m a sz t" "tags_at ?m ?a' ts e"
    using Cons.prems(1) by (simp_all add: t)
  have bnd: "?a' + 8 \<le> e" "e < 2 ^ 32" "a + sz \<le> ?a'" "a \<le> ?a'" "sz + 7 < 2 ^ 32" "a + sz < 2 ^ 32"
    using tags_at_bounds [OF h(4)] tag_step(1) [of sz] by auto
  note step = tag_loop_step [OF tags_at_live [OF h(3)] h(2) bnd(5), of fuel l _ _ n', folded n(1)]
  note M = do_tag_modules [OF Cons.prems(5,6), of t l]
  have fuel: "\<forall>sz es maps. (sz, Mmap_Tag es maps) \<in> set ts \<longrightarrow> length maps < fuel" using Cons.prems(3) by auto
  show ?case
  proof (cases "\<exists>x y z. t = Module_Tag x y z \<and> module_index l < 5")
    case False
    let ?s1 = "s\<lparr>e_kinfo := ?k1\<rparr>"
    have ht: "handle_tag fuel (of_nat a) (s, l) = Inr (?s1, ?l1)"
      by (rule handle_plain_tag [OF h(3,2) bnd(6) refl]) (use False Cons.prems(3) in \<open>auto simp: t not_less\<close>)
    have same: "last_module_end_addr ?l1 = ?b" "take (5 - module_index ?l1) (mods_of ts) = ?ms"
      using False by (cases t; auto simp: t split_beta)+
    obtain r where r: "tag_loop n' fuel (of_nat ?a') (?s1, ?l1) = Inr r" "loop_ok ts ?a' e ?s1 ?l1 r"
      using Cons.IH [where s = ?s1 and a = ?a' and l = ?l1 and n = n', unfolded same] h(4) fuel n(2) M mods_fit_less [OF Cons.prems(2) bnd(4)] by auto
    have "loop_ok (st # ts) a e s l r"
      using r(2) bnd(4) unfolding loop_ok_def Let_def same by (auto simp: t do_tags_Cons)
    then show ?thesis using step [OF ht] r(1) by simp
  next
    case True
    then obtain x y z where T: "t = Module_Tag x y z" and i: "module_index l < 5" by blast
    let ?b1 = "page_align (?b + (y - x))" and ?ms1 = "take (5 - Suc (module_index l)) (mods_of ts)"
    have ms: "?ms = (x, y, z) # ?ms1" using module_index_step [OF i] by (simp add: t T)
    note fit = Cons.prems(2) [unfolded ms] and F = mods_fit_Cons [OF Cons.prems(2) [unfolded ms]]
    have nm: "length (mod_name (modules ?k ! module_index l)) = 32" using Cons.prems(5,6) i by (simp add: nth_mem)
    have out: "unat y - unat x \<le> unat (w - ?b)" if "a \<le> unat w" "unat w < a + sz" for w
    proof -
      have "unat w \<in> {a..<e}" using that bnd by simp
      then have "unat w \<notin> {unat ?b..<unat (place_end ?b ((x, y, z) # ?ms1))}" using fit unfolding mods_fit_def by blast
      then show ?thesis using region_mem [OF F(4), of w] F(5,6) by auto
    qed
    obtain m1 p where m1: "handle_tag fuel (of_nat a) (s, l) = Inr (s\<lparr>e_mem := m1, e_kinfo := ?k1\<rparr>, ?l1)" "a + 16 \<le> unat p" "unat p < a + sz"
      "\<forall>w. m1 w = (if w = p then 0 else if unat (w - ?b) < unat y - unat x then ?m (x + (w - ?b)) else ?m w)"
      using handle_module_tag [OF h(3) [unfolded T] refl i Cons.prems(5) nm bnd(6) F(2,3) out, of fuel] unfolding T by blast
    note S = module_step [OF fit m1(2,3) bnd(3,1,2) m1(4)]
    let ?s1 = "s\<lparr>e_mem := m1, e_kinfo := ?k1\<rparr>"
    have l1: "last_module_end_addr ?l1 = ?b1" "module_index ?l1 = Suc (module_index l)" using i by (simp_all add: T Let_def)
    have ta: "tags_at m1 ?a' ts e" by (rule tags_at_cong [OF h(4) S(1)])
    obtain r where r: "tag_loop n' fuel (of_nat ?a') (?s1, ?l1) = Inr r" "loop_ok ts ?a' e ?s1 ?l1 r"
      using Cons.IH [where s = ?s1 and a = ?a' and l = ?l1 and n = n', unfolded l1] ta fuel n(2) M mods_fit_less [OF F(1) bnd(4)] by auto
    have "loop_ok (st # ts) a e s l r"
      using r(2) S(3) [of "e_mem (fst r)"] unfolding loop_ok_def Let_def l1 ms by (simp add: t do_tags_Cons)
    then show ?thesis using step [OF m1(1)] r(1) S(2) by simp
  qed
qed

section \<open>What the kernel is told\<close>

fun maps_of :: "(nat \<times> boot_tag) list \<Rightarrow> multiboot_memory_map_t list" where
  "maps_of [] = []"
| "maps_of ((sz, Mmap_Tag es maps) # ts) = filter usable maps @ maps_of ts"
| "maps_of (_ # ts) = maps_of ts"

fun upper_of :: "u32 \<Rightarrow> (nat \<times> boot_tag) list \<Rightarrow> u32" where
  "upper_of u [] = u"
| "upper_of u ((sz, Meminfo_Tag v) # ts) = upper_of v ts"
| "upper_of u (_ # ts) = upper_of u ts"

fun placed :: "paddr_t \<Rightarrow> (paddr_t \<times> paddr_t \<times> u8 list) list \<Rightarrow> boot_module list" where
  "placed b [] = []"
| "placed b ((st, en, nm) # ms) = \<lparr>start_paddr = b, end_paddr = page_align (b + (en - st)), start_vaddr = 0,
     mod_name = take 31 nm @ replicate (32 - min 31 (length nm)) 0\<rparr> # placed (page_align (b + (en - st))) ms"

lemma length_placed [simp]: "length (placed b ms) = length ms"
  by (induction b ms rule: placed.induct) simp_all

lemma save_maps:
  assumes "memmaps k = L @ R" "length L \<le> 19" "length (L @ R) = 20"
  shows "fold save_map maps (length L, k) =
    (let new = take (19 - length L) (filter usable maps) in (length (L @ new),
       k\<lparr>memmaps := (L @ new) @ drop (length new) R, no_mmaps := no_mmaps k + of_nat (length new)\<rparr>))"
  using assms
proof (induction maps arbitrary: L R k)
  case (Cons e maps)
  show ?case
  proof (cases "length L < 19 \<and> usable e")
    case True
    then obtain r R' where R: "R = r # R'" using Cons.prems(3) by (cases R) auto
    let ?k = "k\<lparr>memmaps := (L @ [e]) @ R', no_mmaps := no_mmaps k + 1\<rparr>"
    have t: "take (19 - length L) (e # xs) = e # take (19 - length (L @ [e])) xs" for xs :: "multiboot_memory_map_t list"
      using True by (simp add: take_Cons')
    have "fold save_map (e # maps) (length L, k) = fold save_map maps (length (L @ [e]), ?k)"
      using True Cons.prems(1) by (simp add: save_map_def [of e] R list_update_append)
    then show ?thesis
      using Cons.IH [of ?k "L @ [e]" R'] Cons.prems True unfolding filter.simps(2) if_P [OF conjunct2 [OF True]] t Let_def by (simp add: R)
  next
    case False
    then have "fold save_map (e # maps) (length L, k) = fold save_map maps (length L, k)" by (auto simp: save_map_def [of e])
    then show ?thesis using Cons.IH [OF Cons.prems] False Cons.prems(2) by (cases "usable e") (simp_all add: Let_def)
  qed
qed simp

lemma take_take_rest: "take (n - length (take n xs)) ys = take (n - length xs) ys"
  by (cases "length xs \<le> n") simp_all

lemma do_tags_maps:
  fixes ts :: "(nat \<times> boot_tag) list"
  assumes "saved_mmap_index l = length L" "memmaps k = L @ R" "length L \<le> 19" "length (L @ R) = 20"
  defines "new \<equiv> take (19 - length L) (maps_of ts)"
  shows "memmaps (fst (do_tags ts (k, l))) = (L @ new) @ drop (length new) R \<and> no_mmaps (fst (do_tags ts (k, l))) = no_mmaps k + of_nat (length new)"
  using assms(1-4) unfolding new_def
proof (induction ts arbitrary: k l L R)
  case Nil
  then show ?case by (simp add: do_tags_def)
next
  case (Cons st ts)
  obtain sz t where t: "st = (sz, t)" by (cases st)
  have IH: "memmaps (fst (do_tags ts (k', l'))) = (L' @ take (19 - length L') (maps_of ts)) @ drop (length (take (19 - length L') (maps_of ts))) R'
      \<and> no_mmaps (fst (do_tags ts (k', l'))) = no_mmaps k' + of_nat (length (take (19 - length L') (maps_of ts)))"
    if "saved_mmap_index l' = length L'" "memmaps k' = L' @ R'" "length L' \<le> 19" "length (L' @ R') = 20" for k' l' L' R'
    by (rule Cons.IH [OF that])
  show ?case
  proof (cases t)
    case (Mmap_Tag es maps)
    let ?xs = "filter usable maps"
    let ?new = "take (19 - length L) ?xs"
    let ?k = "k\<lparr>memmaps := (L @ ?new) @ drop (length ?new) R, no_mmaps := no_mmaps k + of_nat (length ?new)\<rparr>"
      and ?l = "l\<lparr>saved_mmap_index := length (L @ ?new)\<rparr>"
    have d: "do_tag (Mmap_Tag es maps) (k, l) = (?k, ?l)" using save_maps [OF Cons.prems(2-4), of maps] Cons.prems(1) by (simp add: Let_def)
    have tk: "take (19 - length L) (?xs @ ys) = ?new @ take (19 - length (L @ ?new)) ys" for ys
      using take_take_rest [of "19 - length L" ?xs ys] by simp
    have len: "length (L @ ?new) \<le> 19" "length ((L @ ?new) @ drop (length ?new) R) = 20" using Cons.prems(3,4) by auto
    have "memmaps (fst (do_tags ts (?k, ?l))) = ((L @ ?new) @ take (19 - length (L @ ?new)) (maps_of ts))
          @ drop (length (take (19 - length (L @ ?new)) (maps_of ts))) (drop (length ?new) R)
      \<and> no_mmaps (fst (do_tags ts (?k, ?l))) = no_mmaps ?k + of_nat (length (take (19 - length (L @ ?new)) (maps_of ts)))"
      by (rule IH) (use len in simp_all)
    then show ?thesis unfolding t do_tags_Cons d Mmap_Tag maps_of.simps tk length_append [of ?new] drop_drop by (simp add: ac_simps)
  next
    case (Module_Tag st en nm)
    then show ?thesis using IH Cons.prems by (simp add: t do_tags_Cons Let_def)
  qed (use IH Cons.prems in \<open>simp_all add: t do_tags_Cons\<close>)
qed


lemma save_maps_other: "mem_upper (snd (fold save_map maps (idx, k))) = mem_upper k \<and> modules (snd (fold save_map maps (idx, k))) = modules k
    \<and> no_modules (snd (fold save_map maps (idx, k))) = no_modules k"
  by (induction maps arbitrary: idx k) (simp_all add: save_map_def)

lemma do_tags_upper: "mem_upper (fst (do_tags ts (k, l))) = upper_of (mem_upper k) ts"
proof (induction ts arbitrary: k l)
  case (Cons st ts)
  obtain sz t where t: "st = (sz, t)" by (cases st)
  have IH: "mem_upper (fst (do_tags ts kl)) = upper_of (mem_upper (fst kl)) ts" for kl using Cons.IH [of "fst kl" "snd kl"] by simp
  show ?case unfolding t do_tags_Cons IH by (cases t) (simp_all add: split_beta save_maps_other Let_def)
qed (simp add: do_tags_def)

lemma do_tags_mods:
  fixes ts :: "(nat \<times> boot_tag) list"
  assumes "module_index l = length L" "modules k = L @ replicate (5 - length L) zero_module" "length L \<le> 5"
  defines "ms \<equiv> take (5 - length L) (mods_of ts)" and "b \<equiv> last_module_end_addr l"
  shows "modules (fst (do_tags ts (k, l))) = (L @ placed b ms) @ replicate (5 - length (L @ placed b ms)) zero_module
    \<and> no_modules (fst (do_tags ts (k, l))) = no_modules k + of_nat (length ms)
    \<and> last_module_end_addr (snd (do_tags ts (k, l))) = place_end b ms
    \<and> total_module_size (snd (do_tags ts (k, l))) = total_module_size l + (place_end b ms - b)"
  using assms(1-3) unfolding ms_def b_def
proof (induction ts arbitrary: k l L)
  case Nil
  then show ?case by (simp add: do_tags_def)
next
  case (Cons st ts)
  obtain sz t where t: "st = (sz, t)" by (cases st)
  show ?case
  proof (cases "\<exists>x y z. t = Module_Tag x y z \<and> length L < 5")
    case False
    let ?k = "fst (do_tag t (k, l))" and ?l = "snd (do_tag t (k, l))"
    have same: "module_index ?l = length L" "modules ?k = L @ replicate (5 - length L) zero_module" "no_modules ?k = no_modules k"
      "last_module_end_addr ?l = last_module_end_addr l" "total_module_size ?l = total_module_size l"
      "take (5 - length L) (mods_of (st # ts)) = take (5 - length L) (mods_of ts)"
      using False Cons.prems by (cases t; auto simp: t split_beta save_maps_other)+
    show ?thesis using Cons.IH [OF same(1,2) Cons.prems(3)] unfolding same by (simp add: t do_tags_Cons)
  next
    case True
    then obtain x y z where T: "t = Module_Tag x y z" and i: "length L < 5" by blast
    let ?b = "last_module_end_addr l"
    let ?b1 = "page_align (?b + (y - x))"
    let ?M = "\<lparr>start_paddr = ?b, end_paddr = ?b1, start_vaddr = 0, mod_name = take 31 z @ replicate (32 - min 31 (length z)) 0\<rparr>"
    have r: "replicate (5 - length L) zero_module = zero_module # replicate (5 - length (L @ [?M])) zero_module"
      using i by (cases "5 - length L") auto
    have md: "modules k = L @ zero_module # replicate (5 - length (L @ [?M])) zero_module" using Cons.prems(2) unfolding r .
    let ?k = "k\<lparr>modules := (L @ [?M]) @ replicate (5 - length (L @ [?M])) zero_module, no_modules := no_modules k + 1\<rparr>"
      and ?l = "l\<lparr>total_module_size := total_module_size l + (?b1 - ?b), last_module_end_addr := ?b1, module_index := length (L @ [?M])\<rparr>"
    have d: "do_tag (Module_Tag x y z) (k, l) = (?k, ?l)"
      using i Cons.prems(1) by (simp add: Let_def md nth_append list_update_append zero_module_def [unfolded MAX_MODULE_NAME_LEN_def])
    have tk: "take (5 - length L) ((x, y, z) # ms) = (x, y, z) # take (5 - length (L @ [?M])) ms" for ms
      using module_index_step [OF i] by simp
    show ?thesis
      using Cons.IH [of ?l "L @ [?M]" ?k] i unfolding t T do_tags_Cons d mods_of.simps tk by (simp add: algebra_simps)
  qed
qed

lemma copied_keep:
  assumes "copied m m' b ms" "placeable b ms" "\<And>w. unat b \<le> unat w \<Longrightarrow> unat w < unat (place_end b ms) \<Longrightarrow> m'' w = m' w"
  shows "copied m m'' b ms"
  using assms
proof (induction ms arbitrary: b)
  case (Cons x ms)
  obtain st en nm where x: "x = (st, en, nm)" by (cases x)
  let ?b = "page_align (b + (en - st))"
  have p: "placeable b ((st, en, nm) # ms)" using Cons.prems(2) by (simp only: x)
  have pb: "placeable ?b ms" using p by simp
  have ge: "unat b + (unat en - unat st) \<le> unat ?b" "unat ?b \<le> unat (place_end ?b ms)" using place_step(2) [OF p] place_end_ge [OF pb] by simp_all
  have "copied m m'' ?b ms"
    by (rule Cons.IH [OF _ pb]) (use Cons.prems(1,3) ge(1) in \<open>auto simp: x\<close>)
  moreover have "m'' (b + of_nat j) = m' (b + of_nat j)" if "j < unat en - unat st" for j
  proof -
    have "unat b + j < unat (place_end ?b ms)" using that ge by linarith
    then show ?thesis
      using Cons.prems(3) [of "b + of_nat j"] unat_plus_of_nat [of b j] unat_u32_lt [of "place_end ?b ms"] by (simp add: x)
  qed
  ultimately show ?case using Cons.prems(1) by (simp add: x)
qed simp

text \<open>The page tables lie below the modules, so filling them does not disturb the modules.\<close>

lemma tables_below:
  assumes "only_in W m m'" "\<forall>t \<in> W. pg_ok t \<and> unat t + 4096 \<le> b" "W \<noteq> {}" "b \<le> unat w" "unat w < 4194304"
  shows "m' w = m w"
proof (rule only_in_byte [OF assms(1)])
  obtain t where "t \<in> W" using assms(3) by blast
  then have "unat t + 4096 \<le> unat w" using assms(2,4) by fastforce
  then have "1 \<le> unat w div 4096" by simp
  moreover have "unat w div 4096 * 4096 \<le> unat w" by simp
  ultimately have "unat (w AND PAGE_MASK) \<noteq> 0" "unat (w AND PAGE_MASK) + 4096 < 2 ^ 32" using assms(5) unfolding page_mask_unat by simp_all
  then show "pg_ok (w AND PAGE_MASK)" by (auto simp: pg_ok_def page_mask_unat word_unat_eq_iff)
  show "w AND PAGE_MASK \<notin> W"
  proof
    assume "w AND PAGE_MASK \<in> W"
    then have "unat w div 4096 * 4096 + 4096 \<le> unat w" using assms(2,4) page_mask_unat [of w] by fastforce
    then show False using div_mult_mod_eq [of "unat w" 4096] mod_less_divisor [of 4096 "unat w"] by linarith
  qed
qed

lemma unat_ucast_u64 [simp]: "unat (ucast (b :: u32) :: u64) = unat b"
  using unat_u32_lt [of b] by (simp add: unsigned_ucast_eq take_bit_nat_eq_self)

lemma carve_conserves:
  fixes a l :: u64 and b e :: u32
  assumes "a \<le> ucast b" "b \<le> e"
  shows "ucast e + (l - ucast (ucast (ucast b - a) :: u32) - ucast (e - b)) = a + l"
proof -
  have "unat (ucast b - a) < 2 ^ 32" using assms(1) unat_u32_lt [of b] by (simp add: unat_sub word_le_nat_alt)
  then have h1: "(ucast (ucast (ucast b - a :: u64) :: u32) :: u64) = ucast b - a" by (simp add: word_unat_eq_iff unsigned_ucast_eq unsigned_take_bit_eq take_bit_nat_eq_self)
  have h2: "(ucast (e - b) :: u64) = ucast e - ucast b" using assms(2) by (simp add: word_unat_eq_iff unat_sub word_le_nat_alt)
  show ?thesis unfolding h1 h2 by simp
qed


definition tables_of :: "early_links \<Rightarrow> paddr_t set" where
  "tables_of lk = {el_boot_pt lk, el_boot_kernel_pt lk - el_high_vma lk, el_boot_page_directory lk - el_high_vma lk}"

lemma early_page_map_only:
  assumes "early_layout lk (unat (range_end (boot_module_phys_range (e_kinfo s))))"
  shows "\<exists>m'. early_page_map lk s = Inr (s\<lparr>e_mem := m'\<rparr>) \<and> only_in (tables_of lk) (e_mem s) m'"
  using early_page_map_tables [OF assms] unfolding tables_of_def by blast

text \<open>The loop over the tags, from the start of \<^verbatim>\<open>early_main\<close>.\<close>

lemma early_tags_ok:
  fixes lk :: early_links and ts :: "(nat \<times> boot_tag) list"
  defines "b \<equiv> el_kernel_end lk - el_high_vma lk" and "ms \<equiv> take 5 (mods_of ts)" and "maps \<equiv> take 19 (maps_of ts)"
  assumes "tags_at (e_mem s) (unat img + 8) ts e" "mods_fit b ms (unat img + 8) e" "e_kinfo s = zero_kinfo"
    and "maps \<noteq> []" "upper_of 0 ts \<noteq> 0" "ms \<noteq> []"
    and "length ts < fuel" "\<forall>sz es xs. (sz, Mmap_Tag es xs) \<in> set ts \<longrightarrow> length xs < fuel"
  shows "\<exists>m1 k1 l1. tag_loop fuel fuel (img + 8) (s\<lparr>e_kinfo := early_start_info lk (e_kinfo s)\<rparr>,
        \<lparr>saved_mmap_index = 0, module_index = 0, last_module_end_addr = b, total_module_size = 0\<rparr>) = Inr (s\<lparr>e_mem := m1, e_kinfo := k1\<rparr>, l1)
    \<and> copied (e_mem s) m1 b ms
    \<and> modules k1 = placed b ms @ replicate (5 - length ms) zero_module \<and> no_modules k1 = of_nat (length ms) \<and> (of_nat (length ms) :: u32) \<noteq> 0
    \<and> last_module_end_addr l1 = place_end b ms \<and> total_module_size l1 = place_end b ms - b
    \<and> (\<exists>rest. memmaps k1 = maps @ rest) \<and> no_mmaps k1 = of_nat (length maps) \<and> (of_nat (length maps) :: u32) \<noteq> 0 \<and> mem_upper k1 \<noteq> 0"
proof -
  let ?k = "early_start_info lk (e_kinfo s)" and ?l = "\<lparr>saved_mmap_index = 0, module_index = 0, last_module_end_addr = b, total_module_size = 0\<rparr>"
  let ?s = "s\<lparr>e_kinfo := ?k\<rparr>" and ?e = "place_end b ms"
  have k: "modules ?k = [] @ replicate (5 - length []) zero_module" "length (modules ?k) = 5" "\<forall>x \<in> set (modules ?k). length (mod_name x) = 32"
    "length (memmaps ?k) = 20" "no_mmaps ?k = 0" "no_modules ?k = 0" "mem_upper ?k = 0"
    using assms(6) by (simp_all add: early_start_info_def Let_def zero_kinfo_def zero_module_def NO_MODULES_def NO_MEMMAPS_def MAX_MODULE_NAME_LEN_def)
  have img: "img + 8 = of_nat (unat img + 8)" by simp
  obtain r where r: "tag_loop fuel fuel (img + 8) (?s, ?l) = Inr r" "loop_ok ts (unat img + 8) e ?s ?l r"
    using tag_loop_ok [where s = ?s and a = "unat img + 8" and l = ?l and ts = ts and e = e and fuel = fuel and n = fuel] assms(4,5,10,11) k(2,3)
    unfolding img ms_def by auto
  let ?k1 = "fst (do_tags ts (?k, ?l))" and ?l1 = "snd (do_tags ts (?k, ?l))" and ?m1 = "e_mem (fst r)"
  have res: "r = (s\<lparr>e_mem := ?m1, e_kinfo := ?k1\<rparr>, ?l1)" "copied (e_mem s) ?m1 b ms"
    using r(2) unfolding loop_ok_def Let_def ms_def by simp_all
  have M: "modules ?k1 = placed b ms @ replicate (5 - length ms) zero_module" "no_modules ?k1 = of_nat (length ms)"
      "last_module_end_addr ?l1 = ?e" "total_module_size ?l1 = ?e - b"
    using do_tags_mods [where L = "[]" and k = ?k and l = ?l and ts = ts] k(1,6) by (simp_all add: ms_def)
  have N: "memmaps ?k1 = maps @ drop (length maps) (memmaps ?k)" "no_mmaps ?k1 = of_nat (length maps)"
    using do_tags_maps [where L = "[]" and R = "memmaps ?k" and k = ?k and l = ?l and ts = ts] k(4,5) by (simp_all add: maps_def)
  have nz: "(of_nat (length maps) :: u32) \<noteq> 0" "(of_nat (length ms) :: u32) \<noteq> 0" "mem_upper ?k1 \<noteq> 0"
    using assms(7-9) do_tags_upper [of ts ?k ?l] k(7) unat_of_nat_u32 [of "length maps"] unat_of_nat_u32 [of "length ms"]
    by (auto simp: word_unat_eq_iff maps_def ms_def)
  show ?thesis using r(1) res M N nz by (intro exI [of _ ?m1] exI [of _ ?k1] exI [of _ ?l1]) simp
qed

text \<open>C13: what the boot loader's tags become. If the information structure holds a well-formed list of tags
  that offers a usable memory region, an amount of upper memory and a module, if the first five
  modules fit behind the kernel without touching the tags, the modules' images or the page tables, and the
  links are laid out as in the linker script, then \<^verbatim>\<open>early_main\<close> returns with enough fuel. The kernel
  is told the first 19 usable regions above one megabyte, of which the first one now begins behind the
  modules and (when it held the kernel) still ends where it did; the first five modules, one after another
  from the end of the kernel on, page-aligned, each with its bytes copied and with at most 31 characters of its
  command line.\<close>

theorem early_main_boots:
  fixes lk :: early_links and ts :: "(nat \<times> boot_tag) list"
  defines "b \<equiv> el_kernel_end lk - el_high_vma lk" and "ms \<equiv> take 5 (mods_of ts)" and "maps \<equiv> take 19 (maps_of ts)"
  assumes "tags_at (e_mem s) (unat img + 8) ts e" "mods_fit b ms (unat img + 8) e" "e_kinfo s = zero_kinfo"
    and "maps \<noteq> []" "upper_of 0 ts \<noteq> 0" "ms \<noteq> []"
    and "early_layout lk (unat (place_end b ms))" "\<forall>t \<in> tables_of lk. unat t + 4096 \<le> unat b"
    and "length ts < fuel" "\<forall>sz es xs. (sz, Mmap_Tag es xs) \<in> set ts \<longrightarrow> length xs < fuel"
  shows "\<exists>s'. early_main fuel lk MULTIBOOT2_BOOTLOADER_MAGIC img s = Returned s'
    \<and> no_mmaps (e_kinfo s') = of_nat (length maps)
    \<and> (\<forall>i. 0 < i \<and> i < length maps \<longrightarrow> memmaps (e_kinfo s') ! i = maps ! i)
    \<and> map_addr (memmaps (e_kinfo s') ! 0) = ucast (place_end b ms)
    \<and> (map_addr (maps ! 0) \<le> ucast b \<longrightarrow>
         map_addr (memmaps (e_kinfo s') ! 0) + map_len (memmaps (e_kinfo s') ! 0) = map_addr (maps ! 0) + map_len (maps ! 0))
    \<and> no_modules (e_kinfo s') = of_nat (length ms) \<and> take (length ms) (modules (e_kinfo s')) = placed b ms
    \<and> copied (e_mem s) (e_mem s') b ms
    \<and> boot_module_phys_range (e_kinfo s') = \<lparr>range_start = b, range_end = place_end b ms\<rparr>"
proof -
  let ?e = "place_end b ms"
  obtain m1 k1 l1 rest where loop: "tag_loop fuel fuel (img + 8) (s\<lparr>e_kinfo := early_start_info lk (e_kinfo s)\<rparr>,
        \<lparr>saved_mmap_index = 0, module_index = 0, last_module_end_addr = b, total_module_size = 0\<rparr>) = Inr (s\<lparr>e_mem := m1, e_kinfo := k1\<rparr>, l1)"
    and cp1: "copied (e_mem s) m1 b ms"
    and M: "modules k1 = placed b ms @ replicate (5 - length ms) zero_module" "no_modules k1 = of_nat (length ms)"
      "last_module_end_addr l1 = ?e" "total_module_size l1 = ?e - b"
    and N: "memmaps k1 = maps @ rest" "no_mmaps k1 = of_nat (length maps)"
    and nz: "(of_nat (length maps) :: u32) \<noteq> 0" "(of_nat (length ms) :: u32) \<noteq> 0" "mem_upper k1 \<noteq> 0"
    using early_tags_ok [of s img ts e lk fuel] assms(4-9,12,13) unfolding b_def ms_def maps_def by (elim meta_impE exE conjE) blast+
  let ?k2 = "k1\<lparr>boot_module_phys_range := \<lparr>range_start = b, range_end = ?e\<rparr>\<rparr>"
  let ?s2 = "s\<lparr>e_mem := m1, e_kinfo := ?k2\<rparr>"
  obtain m' where m': "early_page_map lk ?s2 = Inr (?s2\<lparr>e_mem := m'\<rparr>)" "only_in (tables_of lk) m1 m'"
    using early_page_map_only [of lk ?s2] assms(10) by fastforce
  let ?z = "maps ! 0"
  let ?z' = "?z\<lparr>map_len := map_len ?z - ucast (ucast (ucast b - map_addr ?z) :: u32) - ucast (?e - b), map_addr := ucast ?e\<rparr>"
  let ?s' = "?s2\<lparr>e_mem := m', e_kinfo := ?k2\<lparr>memmaps := (memmaps k1)[0 := ?z']\<rparr>\<rparr>"
  have z: "memmaps k1 ! 0 = ?z" using N(1) assms(7) by (simp add: nth_append)
  have run: "early_main fuel lk MULTIBOOT2_BOOTLOADER_MAGIC img s = Returned ?s'"
    unfolding early_main_def Let_def b_def [symmetric] using loop m'(1) nz by (simp add: M N(2) z)
  have cp: "copied (e_mem s) m' b ms"
  proof (rule copied_keep [OF cp1])
    show "placeable b ms" using assms(5) unfolding mods_fit_def by blast
    fix w :: u32 assume w: "unat b \<le> unat w" "unat w < unat ?e"
    have "\<forall>t \<in> tables_of lk. pg_ok t \<and> unat t + 4096 \<le> unat b" using assms(10,11) by (auto simp: tables_of_def early_layout_def Let_def)
    then show "m' w = m1 w"
      using tables_below [OF m'(2) _ _ w(1)] w(2) assms(10) by (auto simp: tables_of_def early_layout_def Let_def)
  qed
  have "b \<le> ?e" using place_end_ge [of b ms] assms(5) unfolding mods_fit_def word_le_nat_alt by blast
  note carve = carve_conserves [OF _ this]
  have len: "0 < length (memmaps k1)" using N(1) assms(7) by simp
  have z0: "memmaps (e_kinfo ?s') ! 0 = ?z'" using len by simp
  have "\<forall>i. 0 < i \<and> i < length maps \<longrightarrow> memmaps (e_kinfo ?s') ! i = maps ! i" using N(1) by (simp add: nth_append)
  moreover have "map_addr (memmaps (e_kinfo ?s') ! 0) = ucast ?e" unfolding z0 by simp
  moreover have "map_addr ?z \<le> ucast b \<longrightarrow> map_addr (memmaps (e_kinfo ?s') ! 0) + map_len (memmaps (e_kinfo ?s') ! 0) = map_addr ?z + map_len ?z"
    unfolding z0 using carve by simp
  moreover have "take (length ms) (modules (e_kinfo ?s')) = placed b ms" "no_modules (e_kinfo ?s') = of_nat (length ms)" "no_mmaps (e_kinfo ?s') = of_nat (length maps)"
    "boot_module_phys_range (e_kinfo ?s') = \<lparr>range_start = b, range_end = ?e\<rparr>" "copied (e_mem s) (e_mem ?s') b ms"
    using M(1,2) N(2) cp by simp_all
  ultimately show ?thesis using run by blast
qed


definition sample_tags :: "u8 list" where
  "sample_tags = [4, 0, 0, 0, 16, 0, 0, 0, 0, 2, 0, 0, 0, 0x70, 0, 0,
     6, 0, 0, 0, 40, 0, 0, 0, 24, 0, 0, 0, 0, 0, 0, 0, 0, 0, 0x10, 0, 0, 0, 0, 0, 0, 0, 0xF0, 7, 0, 0, 0, 0, 1, 0, 0, 0, 0, 0, 0, 0,
     3, 0, 0, 0, 21, 0, 0, 0, 0, 0, 0x20, 0, 5, 0, 0x20, 0, 0x6D, 0x6D, 0x61, 0x6E, 0, 0, 0, 0,
     0, 0, 0, 0, 8, 0, 0, 0]"

definition sample_boot :: early where
  "sample_boot = \<lparr>e_mem = (\<lambda>a. if 0x9008 \<le> unat a \<and> unat a < 0x9008 + length sample_tags then sample_tags ! (unat a - 0x9008) else ucast a),
     e_x = 0, e_y = 0, e_kinfo = zero_kinfo\<rparr>"

definition sample_taglist :: "(nat \<times> boot_tag) list" where
  "sample_taglist = [(16, Meminfo_Tag 0x7000), (40, Mmap_Tag 24 [\<lparr>map_addr = 0x100000, map_len = 0x7F00000, map_type = 1, map_zero = 0\<rparr>]),
     (21, Module_Tag 0x200000 0x200005 [0x6D, 0x6D, 0x61, 0x6E])]"

lemma sample_boot_words:
  "load32 (e_mem sample_boot) 0x9008 = 4" "load32 (e_mem sample_boot) 0x900C = 16" "load32 (e_mem sample_boot) 0x9014 = 0x7000"
  "load32 (e_mem sample_boot) 0x9018 = 6" "load32 (e_mem sample_boot) 0x901C = 40" "load32 (e_mem sample_boot) 0x9020 = 24"
  "load32 (e_mem sample_boot) 0x9028 = 0x100000" "load32 (e_mem sample_boot) 0x902C = 0" "load32 (e_mem sample_boot) 0x9030 = 0x7F00000"
  "load32 (e_mem sample_boot) 0x9034 = 0" "load32 (e_mem sample_boot) 0x9038 = 1" "load32 (e_mem sample_boot) 0x903C = 0"
  "load32 (e_mem sample_boot) 0x9040 = 3" "load32 (e_mem sample_boot) 0x9044 = 21" "load32 (e_mem sample_boot) 0x9048 = 0x200000"
  "load32 (e_mem sample_boot) 0x904C = 0x200005" "load32 (e_mem sample_boot) 0x9058 = 0"
  "e_mem sample_boot 0x9050 = 0x6D" "e_mem sample_boot 0x9051 = 0x6D" "e_mem sample_boot 0x9052 = 0x61" "e_mem sample_boot 0x9053 = 0x6E" "e_mem sample_boot 0x9054 = 0"
  by (simp_all add: sample_boot_def sample_tags_def load32_def)

lemma sample_boot_tags: "tags_at (e_mem sample_boot) 0x9008 sample_taglist 0x9060"
  by (auto simp: sample_taglist_def tag_type_def tag_size_def tag_entry_size_def tag_mem_upper_def
      tag_mod_start_def tag_mod_end_def read_memmap_def load64_def sample_boot_words less_Suc_eq)

theorem early_main_boots_witness:
  "\<exists>s'. early_main 10 sample_early_links MULTIBOOT2_BOOTLOADER_MAGIC 0x9000 sample_boot = Returned s'
     \<and> no_modules (e_kinfo s') = 1 \<and> end_paddr (modules (e_kinfo s') ! 0) = 0x141000 \<and> e_mem s' 0x140003 = 3
     \<and> map_addr (memmaps (e_kinfo s') ! 0) = 0x141000 \<and> map_len (memmaps (e_kinfo s') ! 0) = 0x7EBF000"
proof -
  have ev: "mods_of sample_taglist = [(0x200000, 0x200005, [0x6D, 0x6D, 0x61, 0x6E])]" "upper_of 0 sample_taglist = 0x7000" "length sample_taglist = 3"
    "maps_of sample_taglist = [\<lparr>map_addr = 0x100000, map_len = 0x7F00000, map_type = 1, map_zero = 0\<rparr>]"
    by (simp_all add: sample_taglist_def usable_def MULTIBOOT_MEMORY_AVAILABLE_def)
  have al: "page_align 0x140005 = 0x141000" by (simp add: page_align_def ARCH_PAGE_MASK_def)
  have b: "el_kernel_end sample_early_links - el_high_vma sample_early_links = 0x140000" by (simp add: sample_early_links_def)
  have fit: "mods_fit 0x140000 [(0x200000, 0x200005, [0x6D, 0x6D, 0x61, 0x6E])] 0x9008 0x9060" by (simp add: mods_fit_def al)
  have lay: "early_layout sample_early_links 0x141000" by (rule sample_early_layout) simp_all
  have tb: "\<forall>t \<in> tables_of sample_early_links. unat t + 4096 \<le> 0x140000" by (simp add: tables_of_def sample_early_links_def)
  have fuel: "\<forall>sz es xs. (sz, Mmap_Tag es xs) \<in> set sample_taglist \<longrightarrow> length xs < 10" by (auto simp: sample_taglist_def)
  have z: "e_kinfo sample_boot = zero_kinfo" "e_mem sample_boot 0x200003 = 3" by (simp_all add: sample_boot_def sample_tags_def)
  obtain s' where s': "early_main 10 sample_early_links MULTIBOOT2_BOOTLOADER_MAGIC 0x9000 sample_boot = Returned s'"
      "map_addr (memmaps (e_kinfo s') ! 0) = 0x141000" "map_addr (memmaps (e_kinfo s') ! 0) + map_len (memmaps (e_kinfo s') ! 0) = 0x8000000"
      "no_modules (e_kinfo s') = 1" "take 1 (modules (e_kinfo s')) = placed 0x140000 [(0x200000, 0x200005, [0x6D, 0x6D, 0x61, 0x6E])]"
      "copied (e_mem sample_boot) (e_mem s') 0x140000 [(0x200000, 0x200005, [0x6D, 0x6D, 0x61, 0x6E])]"
    using early_main_boots [of sample_boot "0x9000" sample_taglist "0x9060" sample_early_links 10, unfolded ev b]
      sample_boot_tags fit lay tb fuel z by (auto simp: al)
  have "end_paddr (modules (e_kinfo s') ! 0) = 0x141000" using s'(5) by (cases "modules (e_kinfo s')") (simp_all add: al)
  moreover have "e_mem s' 0x140003 = 3" using s'(6) z(2) by (auto dest: spec [where x = 3])
  moreover have "map_len (memmaps (e_kinfo s') ! 0) = 0x7EBF000" using s'(3) eq_diff_eq [of "map_len (memmaps (e_kinfo s') ! 0)" "0x8000000" "0x141000"] unfolding s'(2) by (simp add: add.commute)
  ultimately show ?thesis using s'(1,2,4) by blast
qed

end
