(* ===== verification/Kmem.thy ===== *)
theory Kmem
  imports Kmalloc Early
begin

text \<open>
  The kernel's own memory, \<^verbatim>\<open>kern/kmem.c\<close>: the sections of the kernel are mapped one after another in the
  kernel's page directory with the permissions each of them needs, the heap behind them, and the
  heap is initialised. The first memory map, from which frames are cut, is the one of the paging
  state; the heap is seen through its virtual addresses, so its memory is kept apart.
\<close>

section \<open>Definitions\<close>

text \<open>The addresses the linker script defines.\<close>

record kmem_links =
  kl_kernel_start :: vaddr_t
  kl_ktable_end :: vaddr_t
  kl_kernel_text_end :: vaddr_t
  kl_kernel_bss_start :: vaddr_t
  kl_kernel_bss_end :: vaddr_t
  kl_kernel_rodata_end :: vaddr_t
  kl_stack_guard_start :: vaddr_t
  kl_stack_start :: vaddr_t
  kl_stack_end :: vaddr_t
  kl_console_debug :: vaddr_t

record kmem =
  kn_pg :: pgstate
  kn_heap :: kheap
  kn_con :: console
  kn_info :: kernel_info_t

definition kmem_mmap :: "vaddr_t \<Rightarrow> paddr_t \<Rightarrow> vaddr_t \<Rightarrow> u32 \<Rightarrow> vaddr_t" where
  "kmem_mmap vaddr paddr page_table_ptr flags = 0"

definition module_ranges :: "kernel_info_t \<Rightarrow> (paddr_t \<times> paddr_t) list" where
  "module_ranges info = map (\<lambda>md. (start_paddr md, end_paddr md)) (take (unat (no_modules info)) (modules info))"

text \<open>
  The calls of \<^verbatim>\<open>kmap\<close> for the kernel image, in order: virtual address, physical address, size,
  protection. The running addresses advance by the size of each section.
\<close>

definition kernel_requests :: "kmem_links \<Rightarrow> vaddr_t \<Rightarrow> (vaddr_t \<times> paddr_t \<times> size_t \<times> u32) list" where
  "kernel_requests lk hv =
     (let curr_addr_phys = kl_kernel_start lk - hv;
          curr_addr = kl_kernel_start lk;
          size_ktable = kl_ktable_end lk - kl_kernel_start lk;
          r_ktable = (curr_addr, curr_addr_phys, size_ktable, KMAP_PROT_READ OR KMAP_PROT_WRITE);
          curr_addr_phys = curr_addr_phys + size_ktable; curr_addr = curr_addr + size_ktable;
          size_text = kl_kernel_text_end lk - kl_ktable_end lk;
          r_text = (curr_addr, curr_addr_phys, size_text, KMAP_PROT_READ OR KMAP_PROT_EXEC);
          curr_addr_phys = curr_addr_phys + size_text; curr_addr = curr_addr + size_text;
          size_bss = kl_kernel_bss_end lk - kl_kernel_bss_start lk;
          r_bss = (curr_addr, curr_addr_phys, size_bss, KMAP_PROT_WRITE OR KMAP_PROT_READ);
          curr_addr_phys = curr_addr_phys + size_bss; curr_addr = curr_addr + size_bss;
          size_rodata = kl_kernel_rodata_end lk - kl_kernel_bss_end lk;
          r_rodata = (curr_addr, curr_addr_phys, size_rodata, KMAP_PROT_READ);
          curr_addr_phys = curr_addr_phys + size_rodata; curr_addr = curr_addr + size_rodata;
          size_data = kl_stack_guard_start lk - kl_kernel_rodata_end lk;
          r_data = (curr_addr, curr_addr_phys, size_data, KMAP_PROT_READ OR KMAP_PROT_WRITE);
          curr_addr_phys = curr_addr_phys + size_data; curr_addr = curr_addr + size_data;
          r_guard = (curr_addr, 0, 4096, KMAP_PROT_NONE);
          curr_addr = curr_addr + PAGE_SIZE; curr_addr_phys = curr_addr_phys + PAGE_SIZE;
          size_stack = kl_stack_end lk - kl_stack_start lk;
          r_stack = (curr_addr, curr_addr_phys, size_stack, KMAP_PROT_READ OR KMAP_PROT_WRITE);
          r_console = (kl_console_debug lk, 0xB8000, 4096, KMAP_PROT_READ OR KMAP_PROT_WRITE)
      in [r_ktable, r_text, r_bss, r_rodata, r_data, r_guard, r_stack, r_console])"

definition kheap_start :: "kmem_links \<Rightarrow> vaddr_t" where
  "kheap_start lk = kl_kernel_start lk + (kl_ktable_end lk - kl_kernel_start lk) + (kl_kernel_text_end lk - kl_ktable_end lk)
     + (kl_kernel_bss_end lk - kl_kernel_bss_start lk) + (kl_kernel_rodata_end lk - kl_kernel_bss_end lk)
     + (kl_stack_guard_start lk - kl_kernel_rodata_end lk) + PAGE_SIZE + (kl_stack_end lk - kl_stack_start lk) + 4096"

fun kmaps :: "bool \<Rightarrow> vaddr_t \<Rightarrow> (vaddr_t \<times> paddr_t \<times> size_t \<times> u32) list \<Rightarrow> pgstate \<Rightarrow> pgstate outcome" where
  "kmaps debug pdv [] s = Inr s"
| "kmaps debug pdv ((vaddr, paddr, sz, flags) # rs) s = bindE (kmap debug pdv vaddr paddr sz flags s) (kmaps debug pdv rs)"

definition kmem_map_kernel_memory :: "bool \<Rightarrow> ktables \<Rightarrow> kmem_links \<Rightarrow> kmem \<Rightarrow> kmem outcome" where
  "kmem_map_kernel_memory debug kt lk s =
     bindE (bootstrap_map_boot_modules kt (module_ranges (kn_info s)) (kn_pg s)) (\<lambda>pg.
     bindE (kmaps debug (kt_page_directory kt) (kernel_requests lk (high_vma pg)) pg) (\<lambda>pg.
     bindE (ASSERT debug (mm_len pg > ucast CONF_KHEAP_SIZE)) (\<lambda>_.
     bindE (kmap debug (kt_page_directory kt) (kheap_start lk) PAGE_ALLOCATE CONF_KHEAP_SIZE (KMAP_PROT_READ OR KMAP_PROT_WRITE) pg) (\<lambda>pg.
       Inr (s\<lparr>kn_pg := pg, kn_info := (kn_info s)\<lparr>kheap_range := (kheap_range (kn_info s))\<lparr>range_start := kheap_start lk\<rparr>\<rparr>\<rparr>)))))"

definition kmem_init :: "bool \<Rightarrow> ktables \<Rightarrow> kmem_links \<Rightarrow> kmem \<Rightarrow> kmem outcome" where
  "kmem_init debug kt lk s =
     bindE (klog ''INFO'' ''kern/kmem.c'' 60 ''Remapping kernel'' [] (kn_con s)) (\<lambda>(_, con).
     bindE (kmem_map_kernel_memory debug kt lk (s\<lparr>kn_con := con\<rparr>)) (\<lambda>s.
       let s = s\<lparr>kn_pg := bootstrap_load_kernel_mappings kt (kn_pg s)\<rparr>
       in bindE (klog ''INFO'' ''kern/kmem.c'' 64 ''Initializing kheap'' [] (kn_con s)) (\<lambda>(_, con).
          bindE (kmalloc_init debug (range_start (kheap_range (kn_info s))) CONF_KHEAP_SIZE (kn_heap s)) (\<lambda>hp.
            Inr (s\<lparr>kn_con := con, kn_heap := hp\<rparr>)))))"

definition kmem_init_cleanup :: "ktables \<Rightarrow> kmem \<Rightarrow> kmem" where
  "kmem_init_cleanup kt s = s\<lparr>kn_pg := bootstrap_load_boot_mappings kt (kn_pg s)\<rparr>"

section \<open>Mapping within one page table\<close>

text \<open>The pages below \<open>lim\<close> outside the paging structures stay as they are, and outside the paging structures.\<close>

definition others_kept :: "paddr_t \<Rightarrow> nat \<Rightarrow> mem \<Rightarrow> mem \<Rightarrow> bool" where
  "others_kept pd lim m m' \<longleftrightarrow> (\<forall>q. other_page m pd q \<longrightarrow> unat q < lim \<longrightarrow> same_page m m' q \<and> other_page m' pd q)"

lemma others_kept_refl [simp]: "others_kept pd lim m m"
  by (simp add: others_kept_def)

lemma others_kept_trans: "others_kept pd lim m m1 \<Longrightarrow> others_kept pd lim' m1 m2 \<Longrightarrow> lim \<le> lim' \<Longrightarrow> others_kept pd lim m m2"
  unfolding others_kept_def using same_page_trans order.strict_trans2 by blast

text \<open>A range of fresh pages whose page table exists.\<close>

lemma kmap_one:
  fixes s :: pgstate and pdv :: vaddr_t
  defines "pd \<equiv> kphys s pdv"
  assumes ok: "pd_ok (pmem s) pd (unat (mm_addr s))" and v: "v div 1024 < 1024" "v mod 1024 + n \<le> 1024" "n < 1024"
    and tab: "pde (pmem s) pd (v div 1024) \<noteq> 0" and pa: "paddr mod 4096 = 0"
    and new: "\<forall>u. v \<le> u \<and> u < v + n \<longrightarrow> pte_at (pmem s) pd u = 0"
    and fr: "frames s ((if paddr = PAGE_ALLOCATE then n else 0) + N)"
  shows "\<exists>s' f. kmap debug pdv (of_nat (4096 * v)) paddr (of_nat (4096 * n)) flags s = Inr s'
    \<and> pd_ok (pmem s') pd (unat (mm_addr s')) \<and> high_vma s' = high_vma s \<and> pd_reg s' = pd_reg s \<and> frames s' N \<and> unat (mm_addr s) \<le> unat (mm_addr s')
    \<and> (\<forall>u. pte_at (pmem s') pd u = (if v \<le> u \<and> u < v + n then (of_nat (f + 4096 * (u - v)) AND PAGE_MASK) OR page_flags flags else pte_at (pmem s) pd u))
    \<and> (paddr \<noteq> PAGE_ALLOCATE \<longrightarrow> f = unat paddr) \<and> (\<forall>i < 1024. pde (pmem s') pd i = pde (pmem s) pd i)
    \<and> others_kept pd (unat (mm_addr s)) (pmem s) (pmem s')"
proof -
  let ?t = "table (pmem s) pd (v div 1024)"
  have d: "v = 1024 * (v div 1024) + v mod 1024" by simp
  have "1024 * (v div 1024) + 1024 \<le> 1048576" using v(1) by simp
  then have v': "v < 1048576" "v + n \<le> 1048576" using d v(2) mod_less_divisor [of 1024 v] by linarith+
  have t0: "?t \<noteq> 0" using pd_okD(3) [OF ok v(1) tab] by (auto simp: pg_ok_def)
  have "table_count ?t v n = 0" using v t0 by (simp add: table_count_def)
  then have k: "unat (no_page_tables ?t (of_nat (4096 * v)) (of_nat (4096 * n))) = 0"
    using no_page_tables_nat [of v n ?t] v v' by simp
  have same_dir: "u div 1024 = v div 1024" if "v \<le> u" "u < v + n" for u
    using that v(2) d mult_Suc_right [of 1024 "v div 1024"] by (intro div_nat_eqI) linarith+
  have sz: "debug \<Longrightarrow> (of_nat (4096 * n) :: u32) mod 4096 = 0" using vpn_offsets(1) [of n] v(3) by (simp add: word_unat_eq_iff unat_mod)
  have e0: "empties (pte_at (pmem s) pd) v (v + n) = n" using new by (subst empties_all) auto
  note span = bootstrap_mmap_span [where s = s and pdv = pdv and v = v and n = n and sz = "of_nat (4096 * n)" and paddr = paddr and debug = debug
      and kern = True and flags = flags and N = N, folded pd_def, unfolded k]
  have top: "v div 1024 + 0 \<le> 1024" using v(1) by simp
  have cover: "pde (pmem s) pd (u div 1024) \<noteq> 0 \<or> u div 1024 < v div 1024 + 0" if "v \<le> u" "u < v + n" for u
    unfolding same_dir [OF that] using tab by blast
  have fr': "frames s (0 + ((if paddr = PAGE_ALLOCATE then empties (pte_at (pmem s) pd) v (v + n) else 0) + N))" using fr unfolding e0 by simp
  have sp: "spans (of_nat (4096 * n)) n" using v(3) by (intro spans_pages) simp
  obtain s' f where s': "bootstrap_mmap debug True pdv paddr (of_nat (4096 * v)) (of_nat (4096 * n)) flags s = Inr s'"
    "pd_ok (pmem s') pd (unat (mm_addr s'))" "pte_at (pmem s') pd = fst (a_map (paddr = PAGE_ALLOCATE) (page_flags flags) (pte_at (pmem s) pd) f v n)"
    "if paddr = PAGE_ALLOCATE then unat (mm_addr s) \<le> f \<and> f mod 4096 = 0 \<and> unat (mm_addr s') = f + 4096 * empties (pte_at (pmem s) pd) v (v + n)
            \<and> unat (mm_addr s') < 2 ^ 32 \<and> pd_ok (pmem s') pd f else f = unat paddr"
    "\<forall>i < 1024. pde (pmem s) pd i \<noteq> 0 \<or> i < v div 1024 \<or> v div 1024 + 0 \<le> i \<longrightarrow> pde (pmem s') pd i = pde (pmem s) pd i"
    "high_vma s' = high_vma s" "pd_reg s' = pd_reg s" "frames s' N" "unat (mm_addr s) \<le> unat (mm_addr s')"
    "others_kept pd (unat (mm_addr s)) (pmem s) (pmem s')"
    using span [OF ok v'(2,1) sp pa sz top cover fr'] unfolding others_kept_def by blast
  have "pte_at (pmem s') pd u = (if v \<le> u \<and> u < v + n then (of_nat (f + 4096 * (u - v)) AND PAGE_MASK) OR page_flags flags else pte_at (pmem s) pd u)" for u
    using new s'(3) empties_all [of v u "pte_at (pmem s) pd"] by (cases "paddr = PAGE_ALLOCATE") (auto simp: a_map_at a_map_fixed_at)
  moreover have "pde (pmem s') pd i = pde (pmem s) pd i" if "i < 1024" for i using s'(5) that by (cases "i < v div 1024") auto
  ultimately show ?thesis using s'(1,2,4,6-10) by (intro exI [of _ s'] exI [of _ f]) (auto simp: kmap_def)
qed


text \<open>Requests in pages: first page, number of pages, physical address, protection.\<close>

type_synonym page_request = "nat \<times> nat \<times> paddr_t \<times> u32"

fun request :: "page_request \<Rightarrow> vaddr_t \<times> paddr_t \<times> size_t \<times> u32" where
  "request (v, n, pa, fl) = (of_nat (4096 * v), pa, of_nat (4096 * n), fl)"

fun request_ok :: "nat \<Rightarrow> page_request \<Rightarrow> bool" where
  "request_ok idx (v, n, pa, fl) \<longleftrightarrow> v div 1024 = idx \<and> v mod 1024 + n \<le> 1024 \<and> n < 1024 \<and> pa mod 4096 = 0 \<and> (pa = 0 \<longrightarrow> n = 1 \<and> fl = KMAP_PROT_NONE)"

fun request_pages :: "page_request \<Rightarrow> nat set" where
  "request_pages (v, n, pa, fl) = {v..<v + n}"

fun request_done :: "mem \<Rightarrow> paddr_t \<Rightarrow> page_request \<Rightarrow> bool" where
  "request_done m pd (v, n, pa, fl) \<longleftrightarrow> (\<forall>u. v \<le> u \<and> u < v + n \<longrightarrow>
     (if pa = 0 then \<not> bit (pte_at m pd u) 0 else pte_at m pd u = ((pa + of_nat (4096 * (u - v))) AND PAGE_MASK) OR page_flags fl))"

definition guards :: "page_request list \<Rightarrow> nat" where
  "guards rs = length (filter (\<lambda>(v, n, pa, fl). pa = 0) rs)"

lemma page_flags_none: "page_flags KMAP_PROT_NONE = 0"
  by (simp add: page_flags_def KMAP_PROT_NONE_def)

lemma masked_not_present: "\<not> bit ((x AND PAGE_MASK) OR 0 :: u32) 0"
  by (simp add: PAGE_MASK_def bit_simps)

lemma kmaps_ok:
  fixes pdv :: vaddr_t
  assumes "pd_ok (pmem s) pd (unat (mm_addr s))" "pd = kphys s pdv" "idx < 1024" "pde (pmem s) pd idx \<noteq> 0"
    and "\<forall>r \<in> set rs. request_ok idx r" "sorted_wrt (\<lambda>r r'. request_pages r \<inter> request_pages r' = {}) rs"
    and "\<forall>r \<in> set rs. \<forall>u \<in> request_pages r. pte_at (pmem s) pd u = 0" "frames s (guards rs + N)"
  shows "\<exists>s'. kmaps debug pdv (map request rs) s = Inr s' \<and> pd_ok (pmem s') pd (unat (mm_addr s')) \<and> high_vma s' = high_vma s \<and> pd_reg s' = pd_reg s
    \<and> frames s' N \<and> unat (mm_addr s) \<le> unat (mm_addr s') \<and> (\<forall>i < 1024. pde (pmem s') pd i = pde (pmem s) pd i) \<and> (\<forall>r \<in> set rs. request_done (pmem s') pd r)
    \<and> (\<forall>u. u \<notin> \<Union> (request_pages ` set rs) \<longrightarrow> pte_at (pmem s') pd u = pte_at (pmem s) pd u)
    \<and> others_kept pd (unat (mm_addr s)) (pmem s) (pmem s')"
  using assms
proof (induction rs arbitrary: s)
  case Nil
  then show ?case by (simp add: guards_def)
next
  case (Cons r rs)
  obtain v n pa fl where r: "r = (v, n, pa, fl)" by (cases r)
  have ro: "v div 1024 = idx" "v mod 1024 + n \<le> 1024" "n < 1024" "pa mod 4096 = 0" "pa = 0 \<Longrightarrow> n = 1 \<and> fl = KMAP_PROT_NONE"
    using Cons.prems(5) by (auto simp: r)
  have fr: "frames s ((if pa = PAGE_ALLOCATE then n else 0) + (guards rs + N))"
    using Cons.prems(8) ro(5) by (auto simp: guards_def r PAGE_ALLOCATE_def)
  have new: "\<forall>u. v \<le> u \<and> u < v + n \<longrightarrow> pte_at (pmem s) (kphys s pdv) u = 0" using Cons.prems(2,7) by (auto simp: r)
  obtain s1 f where s1: "kmap debug pdv (of_nat (4096 * v)) pa (of_nat (4096 * n)) fl s = Inr s1" "pd_ok (pmem s1) pd (unat (mm_addr s1))"
    "high_vma s1 = high_vma s" "pd_reg s1 = pd_reg s" "frames s1 (guards rs + N)"
    "\<forall>u. pte_at (pmem s1) pd u = (if v \<le> u \<and> u < v + n then (of_nat (f + 4096 * (u - v)) AND PAGE_MASK) OR page_flags fl else pte_at (pmem s) pd u)"
    "pa \<noteq> PAGE_ALLOCATE \<longrightarrow> f = unat pa" "\<forall>i < 1024. pde (pmem s1) pd i = pde (pmem s) pd i" "unat (mm_addr s) \<le> unat (mm_addr s1)"
    "others_kept pd (unat (mm_addr s)) (pmem s) (pmem s1)"
    using kmap_one [where s = s and pdv = pdv and v = v and n = n and paddr = pa and flags = fl and N = "guards rs + N" and debug = debug]
      Cons.prems(1-4) ro(1-4) new fr by auto
  have dj: "request_pages r \<inter> request_pages r' = {}" if "r' \<in> set rs" for r' using Cons.prems(6) that by simp
  have new1: "\<forall>r' \<in> set rs. \<forall>u \<in> request_pages r'. pte_at (pmem s1) pd u = 0"
  proof (intro ballI)
    fix r' u assume "r' \<in> set rs" "u \<in> request_pages r'"
    moreover from this have "u \<notin> request_pages r" using dj by blast
    ultimately show "pte_at (pmem s1) pd u = 0" using s1(6) Cons.prems(7) by (auto simp: r)
  qed
  have "kphys s1 pdv = kphys s pdv" using s1(3) by (simp add: kphys_def)
  then obtain s' where s': "kmaps debug pdv (map request rs) s1 = Inr s'" "pd_ok (pmem s') pd (unat (mm_addr s'))" "high_vma s' = high_vma s1" "pd_reg s' = pd_reg s1"
    "frames s' N" "\<forall>i < 1024. pde (pmem s') pd i = pde (pmem s1) pd i" "\<forall>r \<in> set rs. request_done (pmem s') pd r"
    "\<forall>u. u \<notin> \<Union> (request_pages ` set rs) \<longrightarrow> pte_at (pmem s') pd u = pte_at (pmem s1) pd u" "unat (mm_addr s1) \<le> unat (mm_addr s')"
    "others_kept pd (unat (mm_addr s1)) (pmem s1) (pmem s')"
    using Cons.IH [OF s1(2)] Cons.prems(2-6) s1(5,8) new1 by auto
  have pte: "pte_at (pmem s') pd u = (of_nat (f + 4096 * (u - v)) AND PAGE_MASK) OR page_flags fl" if u: "v \<le> u" "u < v + n" for u
  proof -
    have "u \<in> request_pages r" using u by (simp add: r)
    then have "u \<notin> \<Union> (request_pages ` set rs)" using dj by blast
    then show ?thesis using s'(8) s1(6) u by simp
  qed
  have "request_done (pmem s') pd r"
  proof (cases "pa = 0")
    case True
    then show ?thesis using pte masked_not_present ro(5) by (simp add: r page_flags_none)
  next
    case False
    then have "of_nat (f + x) = pa + of_nat x" for x using s1(7) by (simp add: PAGE_ALLOCATE_def)
    then show ?thesis using pte False by (simp add: r)
  qed
  then show ?case using s' s1 others_kept_trans [OF s1(10) s'(10) s1(9)] by (auto simp: r)
qed

lemma kmaps_end: "kmaps debug pdv rs s = Inr s' \<Longrightarrow> mm_end s' = mm_end s"
proof (induction rs arbitrary: s)
  case (Cons r rs)
  then show ?case by (cases r) (auto simp: kmap_def bindE_Inr_iff dest!: bootstrap_mmap_end)
qed simp

section \<open>The kernel's page directory\<close>

lemma identity_loop_fill: "identity_loop n pt a lim off m = fill_entries n pt 0 a lim off m"
  by (induction n arbitrary: a off m) simp_all

definition module_range_ok :: "paddr_t \<times> paddr_t \<Rightarrow> bool" where
  "module_range_ok = (\<lambda>(st, en). unat st mod 4096 = 0 \<and> unat st \<le> unat en \<and> unat en \<le> 4194304 \<and> unat st < 4194304)"

definition in_ranges :: "(paddr_t \<times> paddr_t) list \<Rightarrow> nat \<Rightarrow> bool" where
  "in_ranges mods a \<longleftrightarrow> (\<exists>(st, en) \<in> set mods. unat st \<le> a \<and> a < unat en)"

lemma identity_modules_ok:
  assumes "pg_ok pt" "\<forall>r \<in> set mods. module_range_ok r"
  shows "\<exists>m'. identity_modules pt mods m = Inr m' \<and> only_in {pt} m m'
    \<and> (\<forall>j < 1024. entry m' pt j = (if in_ranges mods (4096 * j) then of_nat (4096 * j) OR 3 else entry m pt j))"
  using assms(2)
proof (induction mods arbitrary: m)
  case Nil
  then show ?case by (auto simp: in_ranges_def)
next
  case (Cons r mods)
  obtain st en where r: "r = (st, en)" by (cases r)
  have h: "unat st mod 4096 = 0" "unat st \<le> unat en" "unat en \<le> 4194304" "unat st < 4194304" using Cons.prems by (simp_all add: r module_range_ok_def)
  have off: "unat (drop_bit ARCH_VADDR_PT_OFFSET (st AND ARCH_VADDR_PT_OFFSET_MASK)) = unat st div 4096"
    using pt_offsets(2) [of st] h(4) by (simp add: less_mult_imp_div_less)
  have lim: "unat en = unat st + (unat en - unat st)" using h(2) by simp
  have st0: "0 + st = of_nat (unat st)" by simp
  obtain m1 where m1: "identity_loop (2 ^ 20) pt st en (drop_bit ARCH_VADDR_PT_OFFSET (st AND ARCH_VADDR_PT_OFFSET_MASK)) m = Inr m1" "only_in {pt} m m1"
    "\<forall>j < 1024. entry m1 pt j = (if unat st \<le> 4096 * j \<and> 4096 * j < unat en then of_nat (4096 * j) OR 3 else entry m pt j)"
    using fill_identity [OF assms(1) h(1-3) st0 off lim order_refl, of m] unfolding identity_loop_fill by blast
  obtain m' where m': "identity_modules pt mods m1 = Inr m'" "only_in {pt} m1 m'"
    "\<forall>j < 1024. entry m' pt j = (if in_ranges mods (4096 * j) then of_nat (4096 * j) OR 3 else entry m1 pt j)"
    using Cons.IH [of m1] Cons.prems by auto
  have "in_ranges (r # mods) a \<longleftrightarrow> (unat st \<le> a \<and> a < unat en) \<or> in_ranges mods a" for a by (auto simp: in_ranges_def r)
  then show ?case using m1 m' only_in_trans [OF m1(2) m'(2)] by (intro exI [of _ m']) (simp add: r)
qed

text \<open>Where the static tables lie in physical memory.\<close>

definition ktables_ok :: "ktables \<Rightarrow> pgstate \<Rightarrow> bool" where
  "ktables_ok kt s \<longleftrightarrow> (\<forall>t \<in> {kt_page_directory kt, kt_kernel_pt kt, kt_bootstrap_pt kt}.
       high_vma s \<le> t \<and> pg_ok (t - high_vma s) \<and> unat (t - high_vma s) + 4096 \<le> unat (mm_addr s))
     \<and> distinct [kt_page_directory kt, kt_kernel_pt kt, kt_bootstrap_pt kt]
     \<and> (\<forall>j < 1024. entry (pmem s) (kt_page_directory kt - high_vma s) j = 0 \<and> entry (pmem s) (kt_kernel_pt kt - high_vma s) j = 0)
     \<and> 0 < high_vma s \<and> unat (high_vma s) mod 4194304 = 0"

lemma table_entry:
  assumes "pg_ok t"
  shows "(t OR 3) AND PAGE_MASK = t" "(t OR 3) AND 6 = 2" "t OR 3 \<noteq> 0" "bit (t OR 3) 0"
proof -
  have "t AND 6 = (t AND PAGE_MASK) AND 6" using pg_ok_mask [OF assms] by simp
  also have "\<dots> = 0" by (simp add: PAGE_MASK_def and.assoc)
  finally show "(t OR 3) AND 6 = 2" by (simp add: bit.conj_disj_distrib2)
  show "(t OR 3) AND PAGE_MASK = t" "t OR 3 \<noteq> 0" "bit (t OR 3) 0"
    using pg_ok_mask [OF assms] mask_or_flags(1) [of 3 t] assms by (auto simp: pg_ok_def or_eq_0_iff bit_simps)
qed

text \<open>The identity mapping of the first megabyte and of the modules, in the first page table.\<close>

definition low_entry :: "(paddr_t \<times> paddr_t) list \<Rightarrow> nat \<Rightarrow> u32" where
  "low_entry mods j = (if 4096 * j < 0x100000 \<or> in_ranges mods (4096 * j) then of_nat (4096 * j) OR 3 else 0)"

lemma map_boot_modules_ok:
  fixes kt :: ktables and s :: pgstate
  defines "PD \<equiv> kt_page_directory kt - high_vma s" and "KP \<equiv> kt_kernel_pt kt - high_vma s" and "BP \<equiv> kt_bootstrap_pt kt - high_vma s"
    and "idx \<equiv> unat (high_vma s) div 4194304"
  assumes kt: "ktables_ok kt s" and mods: "\<forall>r \<in> set mods. module_range_ok r"
  shows "\<exists>m'. bootstrap_map_boot_modules kt mods s = Inr (s\<lparr>pmem := m'\<rparr>) \<and> pd_ok m' PD (unat (mm_addr s))
    \<and> (\<forall>i < 1024. pde m' PD i = (if i = 0 then BP OR 3 else if i = idx then KP OR 3 else 0))
    \<and> (\<forall>j < 1024. entry m' KP j = 0) \<and> only_in {PD, BP} (pmem s) m'
    \<and> (\<forall>j < 1024. entry m' BP j = low_entry mods j)"
proof -
  have pg: "pg_ok PD" "pg_ok KP" "pg_ok BP" and ne: "PD \<noteq> KP" "PD \<noteq> BP" "KP \<noteq> BP" and hv: "0 < high_vma s" "unat (high_vma s) mod 4194304 = 0"
    and z: "\<And>j. j < 1024 \<Longrightarrow> entry (pmem s) PD j = 0" "\<And>j. j < 1024 \<Longrightarrow> entry (pmem s) KP j = 0"
    and below: "unat PD + 4096 \<le> unat (mm_addr s)" "unat KP + 4096 \<le> unat (mm_addr s)" "unat BP + 4096 \<le> unat (mm_addr s)"
    and kp: "kphys s (kt_page_directory kt) = PD" "kphys s (kt_bootstrap_pt kt) = BP"
    using kt by (auto simp: ktables_ok_def PD_def KP_def BP_def kphys_def)
  have idx: "unat (drop_bit ARCH_VADDR_PD_OFFSET (high_vma s AND ARCH_VADDR_PD_OFFSET_MASK)) = idx" "idx < 1024" "idx \<noteq> 0"
    using pt_offsets(1) [of "high_vma s"] hv unat_u32_lt [of "high_vma s"]
    by (auto simp: idx_def div_mult2_eq [symmetric] less_mult_imp_div_less word_less_nat_alt elim!: dvdE)
  let ?m1 = "store32 (pmem s) (cell PD (4 * idx)) (KP OR 3)"
  let ?m2 = "store32 ?m1 (cell PD 0) (BP OR 3)"
  let ?m3 = "memset ?m2 BP 0 4096"
  note S1 = store_entry [OF pg(1) idx(2), where m = "pmem s" and v = "KP OR 3"] and S2 = store_entry [OF pg(1), where i = 0 and m = ?m1 and v = "BP OR 3", simplified]
  have c3: "only_in {BP} ?m2 ?m3" using memset_page(2) [OF pg(3)] by (auto simp: only_in_def)
  have bz: "0 + 0 = (of_nat 0 :: u32)" "unat (0 :: u32) = 0 div 4096" "unat (0x100000 :: u32) = unat (0 :: u32) + (0x100000 - 0)" "unat (0 :: u32) \<le> 0"
    "(0 :: nat) mod 4096 = 0" "(0 :: nat) \<le> 0x100000" "(0x100000 :: nat) \<le> 4194304" by simp_all
  obtain m4 where m4: "identity_loop (2 ^ 20) BP 0 0x100000 0 ?m3 = Inr m4" "only_in {BP} ?m3 m4"
    "\<forall>j < 1024. entry m4 BP j = (if 0 \<le> 4096 * j \<and> 4096 * j < 0x100000 then of_nat (4096 * j) OR 3 else entry ?m3 BP j)"
    using fill_identity [OF pg(3) bz(5-7) bz(1-4), of ?m3] unfolding identity_loop_fill by blast
  obtain m5 where m5: "identity_modules BP mods m4 = Inr m5" "only_in {BP} m4 m5"
    "\<forall>j < 1024. entry m5 BP j = (if in_ranges mods (4096 * j) then of_nat (4096 * j) OR 3 else entry m4 BP j)"
    using identity_modules_ok [OF pg(3) mods, of m4] by blast
  have run: "bootstrap_map_boot_modules kt mods s = Inr (s\<lparr>pmem := m5\<rparr>)"
    unfolding bootstrap_map_boot_modules_def Let_def kp entry_cell idx(1) KP_def [symmetric] BP_def [symmetric] page_masks
      pg_ok_mask [OF pg(2)] pg_ok_mask [OF pg(3)]
    using m4(1) m5(1) by (simp add: ARCH_PD_ENTRY_PRESENT_def ARCH_PD_ENTRY_RW_def)
  have o5: "only_in {BP} ?m2 m5" by (rule only_in_trans [OF only_in_trans [OF c3 m4(2)] m5(2)])
  have P: "pde m5 PD i = (if i = 0 then BP OR 3 else if i = idx then KP OR 3 else 0)" if "i < 1024" for i
    using only_in_entry [OF o5 pg(1) _ that] S1(2) [OF pg(1) that] S2(2) [OF pg(1) that] z(1) [OF that] ne idx(3) by (auto simp: pde_def cell_0)
  have Kz: "entry m5 KP j = 0" if "j < 1024" for j
    using only_in_entry [OF o5 pg(2) _ that] S1(2) [OF pg(2) that] S2(2) [OF pg(2) that] z(2) [OF that] ne by simp
  note t = table_entry
  have "pd_ok m5 PD (unat (mm_addr s))"
    using pg ne below t [OF pg(2)] t [OF pg(3)] idx unfolding pd_ok_def by (auto simp: P)
  moreover have "only_in {PD, BP} (pmem s) m5"
    using only_in_trans [OF only_in_trans [OF only_in_mono [OF S1(1)] only_in_mono [OF S2(1)]] only_in_mono [OF o5], of "{PD, BP}"] by auto
  moreover have "entry m5 BP j = low_entry mods j" if "j < 1024" for j
    using m4(3) m5(3) memset_page(1) [OF pg(3), of "4 * j" ?m2] that by (simp add: low_entry_def)
  ultimately show ?thesis using run P Kz by blast
qed

section \<open>The layout of the kernel\<close>

text \<open>
  The sections in the order of the linker script, each with its protection, and what the script
  guarantees of their addresses: page aligned, one behind the other, in the range of one page table.
\<close>

definition kernel_sections :: "kmem_links \<Rightarrow> (vaddr_t \<times> vaddr_t \<times> u32) list" where
  "kernel_sections lk =
     [(kl_kernel_start lk, kl_ktable_end lk, KMAP_PROT_READ OR KMAP_PROT_WRITE),
      (kl_ktable_end lk, kl_kernel_text_end lk, KMAP_PROT_READ OR KMAP_PROT_EXEC),
      (kl_kernel_bss_start lk, kl_kernel_bss_end lk, KMAP_PROT_WRITE OR KMAP_PROT_READ),
      (kl_kernel_bss_end lk, kl_kernel_rodata_end lk, KMAP_PROT_READ),
      (kl_kernel_rodata_end lk, kl_stack_guard_start lk, KMAP_PROT_READ OR KMAP_PROT_WRITE),
      (kl_stack_start lk, kl_stack_end lk, KMAP_PROT_READ OR KMAP_PROT_WRITE)]"

fun chained :: "vaddr_t \<Rightarrow> (vaddr_t \<times> vaddr_t \<times> u32) list \<Rightarrow> bool" where
  "chained x [] \<longleftrightarrow> True"
| "chained x ((a, e, fl) # rs) \<longleftrightarrow> x \<le> a \<and> a \<le> e \<and> unat a mod 4096 = 0 \<and> unat e mod 4096 = 0 \<and> chained e rs"

definition kernel_layout :: "kmem_links \<Rightarrow> vaddr_t \<Rightarrow> bool" where
  "kernel_layout lk hv \<longleftrightarrow> unat hv mod 4194304 = 0 \<and> 0 < hv \<and> hv \<le> 0xFE800000 \<and> hv < kl_kernel_start lk
     \<and> chained hv (kernel_sections lk) \<and> kl_kernel_bss_start lk = kl_kernel_text_end lk
     \<and> unat (kl_stack_start lk) = unat (kl_stack_guard_start lk) + 4096
     \<and> kl_console_debug lk = kl_stack_end lk \<and> unat (kl_console_debug lk) + 4096 < unat hv + 4194304"

definition section_request :: "vaddr_t \<Rightarrow> vaddr_t \<times> vaddr_t \<times> u32 \<Rightarrow> page_request" where
  "section_request hv = (\<lambda>(a, e, fl). (unat a div 4096, (unat e - unat a) div 4096, a - hv, fl))"

definition page_requests :: "kmem_links \<Rightarrow> vaddr_t \<Rightarrow> page_request list" where
  "page_requests lk hv = map (section_request hv) (take 5 (kernel_sections lk))
     @ [(unat (kl_stack_guard_start lk) div 4096, 1, 0, KMAP_PROT_NONE)]
     @ map (section_request hv) (drop 5 (kernel_sections lk))
     @ [(unat (kl_console_debug lk) div 4096, 1, 0xB8000, KMAP_PROT_READ OR KMAP_PROT_WRITE)]"

lemma page_addr: "unat (a :: u32) mod 4096 = 0 \<Longrightarrow> of_nat (4096 * (unat a div 4096)) = a"
  by (metis dvd_mult_div_cancel mod_0_imp_dvd unat_of_nat_u32 unat_u32_lt word_unat_eq_iff)

lemma page_size_diff:
  assumes "a \<le> e" "unat (a :: u32) mod 4096 = 0" "unat (e :: u32) mod 4096 = 0"
  shows "of_nat (4096 * ((unat e - unat a) div 4096)) = e - a"
proof -
  have "unat (e - a) = unat e - unat a" using assms(1) by (simp add: unat_sub)
  moreover have "(unat e - unat a) mod 4096 = 0" using assms(2,3) by (meson dvd_diff_nat mod_0_imp_dvd mod_eq_0_iff_dvd)
  ultimately show ?thesis using page_addr [of "e - a"] by simp
qed

lemma section_request_eq:
  assumes "a \<le> e" "unat a mod 4096 = 0" "unat e mod 4096 = 0"
  shows "request (section_request hv (a, e, fl)) = (a, a - hv, e - a, fl)"
  using page_addr [OF assms(2)] page_size_diff [OF assms] by (simp add: section_request_def del: of_nat_mult)

lemma kernel_requests_pages:
  assumes "kernel_layout lk hv"
  shows "map request (page_requests lk hv) = kernel_requests lk hv" "kheap_start lk = kl_console_debug lk + 4096"
proof -
  have ss: "kl_stack_start lk = kl_stack_guard_start lk + 4096" 
    using assms unat_u32_lt [of "kl_stack_start lk"] by (simp add: kernel_layout_def word_unat_eq_iff unat_word_ariths)
  have bs: "kl_kernel_bss_start lk = kl_kernel_text_end lk" using assms by (simp add: kernel_layout_def)
  note L = assms [unfolded kernel_layout_def kernel_sections_def chained.simps bs]
  have one: "of_nat (4096 * 1) = (4096 :: u32)" by simp
  show "map request (page_requests lk hv) = kernel_requests lk hv"
    using L page_addr [of "kl_stack_guard_start lk"] page_addr [of "kl_console_debug lk"]
    by (simp add: page_requests_def kernel_sections_def section_request_eq kernel_requests_def Let_def PAGE_SIZE_def ss bs del: of_nat_mult)
  show "kheap_start lk = kl_console_debug lk + 4096"
    using L by (simp add: kheap_start_def PAGE_SIZE_def ss bs)
qed


lemma section_bounds:
  assumes "kernel_layout lk hv" "(a, e, fl) \<in> set (kernel_sections lk)"
  shows "hv < a" "a \<le> e" "e \<le> kl_console_debug lk" "unat a mod 4096 = 0" "unat e mod 4096 = 0"
  using assms by (auto simp: kernel_layout_def kernel_sections_def intro: order_trans less_le_trans)

text \<open>Every address of the kernel image lies in the range of its page table.\<close>

lemma image_page:
  assumes "kernel_layout lk hv" "hv \<le> a" "a \<le> kl_console_debug lk"
  shows "unat a div 4096 div 1024 = unat hv div 4194304" "unat a div 4096 mod 1024 = (unat a - unat hv) div 4096"
    "unat a div 4096 mod 1024 + 1 < 1024" "unat (a - hv) = unat a - unat hv"
proof -
  have h: "unat hv mod 4194304 = 0" "unat hv \<le> unat a" "unat a + 4096 < unat hv + 4194304"
    using assms by (auto simp: kernel_layout_def word_le_nat_alt)
  show "unat a div 4096 div 1024 = unat hv div 4194304" "unat a div 4096 mod 1024 = (unat a - unat hv) div 4096"
    using high_offsets(1,2) [OF h(1,2)] h(3) by simp_all
  moreover have "(unat a - unat hv) div 4096 < 1023" using h(2,3) by (intro less_mult_imp_div_less) simp
  ultimately show "unat a div 4096 mod 1024 + 1 < 1024" by simp
  show "unat (a - hv) = unat a - unat hv" using assms(2) by (simp add: unat_sub)
qed

lemma div_diff_page:
  assumes "a \<le> e" "a mod 4096 = 0" "e mod 4096 = (0 :: nat)"
  shows "(e - a) div 4096 = e div 4096 - a div 4096" "a div 4096 \<le> e div 4096"
  using assms by (auto elim!: dvdE [OF mod_0_imp_dvd] simp flip: diff_mult_distrib2)

fun in_order :: "nat \<Rightarrow> page_request list \<Rightarrow> bool" where
  "in_order x [] \<longleftrightarrow> True"
| "in_order x ((v, n, pa, fl) # rs) \<longleftrightarrow> x \<le> v \<and> in_order (v + n) rs"

lemma in_order_above: "in_order x rs \<Longrightarrow> r \<in> set rs \<Longrightarrow> request_pages r \<subseteq> {x..}"
  by (induction x rs rule: in_order.induct) fastforce+

lemma in_order_disjoint: "in_order x rs \<Longrightarrow> sorted_wrt (\<lambda>r r'. request_pages r \<inter> request_pages r' = {}) rs"
proof (induction x rs rule: in_order.induct)
  case (2 x v n pa fl rs)
  then have "request_pages r \<subseteq> {v + n..}" if "r \<in> set rs" for r using in_order_above [OF _ that] by simp
  then show ?case using 2 by fastforce
qed simp

lemma section_request_pages:
  assumes "a \<le> e" "unat a mod 4096 = 0" "unat e mod 4096 = 0"
  shows "request_pages (section_request hv (a, e, fl)) = {unat a div 4096..<unat e div 4096}"
  using assms div_diff_page [of "unat a" "unat e"] by (simp add: section_request_def word_le_nat_alt)

lemma section_request_ok:
  assumes lay: "kernel_layout lk hv" and s: "(a, e, fl) \<in> set (kernel_sections lk)"
  shows "request_ok (unat hv div 4194304) (section_request hv (a, e, fl))" "a - hv \<noteq> 0"
proof -
  note B = section_bounds [OF lay s]
  have B': "hv \<le> a" "hv \<le> e" "a \<le> kl_console_debug lk" using B(1-3) by auto
  have d: "(unat e - unat a) div 4096 = unat e div 4096 - unat a div 4096" "unat a div 4096 \<le> unat e div 4096"
    using div_diff_page [of "unat a" "unat e"] B(2,4,5) by (simp_all add: word_le_nat_alt)
  note A = image_page [OF lay B'(1,3)] and E = image_page [OF lay B'(2) B(3)]
  have ea: "unat a div 4096 mod 1024 + (unat e div 4096 - unat a div 4096) = unat e div 4096 mod 1024"
  proof -
    have lin: "x mod 1024 + (y - x) = y mod 1024" if "x \<le> y" "x div 1024 = y div 1024" for x y :: nat
      using that mult_div_mod_eq [of 1024 x] mult_div_mod_eq [of 1024 y] by linarith
    show ?thesis by (rule lin [OF d(2)]) (simp add: A(1) E(1))
  qed
  show nz: "a - hv \<noteq> 0" using B(1) by simp
  have "unat (a - hv) mod 4096 = unat a mod 4096"
  proof -
    have "unat a + 4096 < unat hv + 4194304" "unat hv mod 4194304 = 0"
      using lay B'(3) by (auto simp: kernel_layout_def word_le_nat_alt)
    then show ?thesis using high_offsets(3) [of "unat hv" "unat a"] B'(1) A(4) by (simp add: word_le_nat_alt)
  qed
  then have "(a - hv) mod 4096 = 0" using B(4) by (simp add: word_unat_eq_iff unat_mod)
  moreover have "unat e div 4096 - unat a div 4096 < 1024" "unat a div 4096 mod 1024 + (unat e div 4096 - unat a div 4096) \<le> 1024"
    using ea E(3) by linarith+
  ultimately show "request_ok (unat hv div 4194304) (section_request hv (a, e, fl))"
    using nz A(1) by (simp add: section_request_def d(1) ea)
qed

lemma page_requests_ok:
  assumes lay: "kernel_layout lk hv"
  shows "\<forall>r \<in> set (page_requests lk hv). request_ok (unat hv div 4194304) r"
    "sorted_wrt (\<lambda>r r'. request_pages r \<inter> request_pages r' = {}) (page_requests lk hv)"
    "guards (page_requests lk hv) = 1"
proof -
  let ?g = "kl_stack_guard_start lk" and ?c = "kl_console_debug lk"
  have g: "hv \<le> ?g" "?g \<le> ?c" "hv \<le> ?c" "unat ?g mod 4096 = 0" "unat ?c mod 4096 = 0"
    using section_bounds [OF lay, of "kl_kernel_rodata_end lk" ?g] section_bounds [OF lay, of "kl_stack_start lk" "kl_stack_end lk"] lay
    by (auto simp: kernel_sections_def kernel_layout_def word_le_nat_alt)
  note G = image_page [OF lay g(1,2)] and C = image_page [OF lay g(3) order_refl]
  have S: "request_ok (unat hv div 4194304) (section_request hv r)" if "r \<in> set (kernel_sections lk)" for r
    using section_request_ok(1) [OF lay] that by (cases r) auto
  have "set (page_requests lk hv) \<subseteq> section_request hv ` set (kernel_sections lk)
     \<union> {(unat ?g div 4096, 1, 0, KMAP_PROT_NONE), (unat ?c div 4096, 1, 0xB8000, KMAP_PROT_READ OR KMAP_PROT_WRITE)}"
    by (auto simp: page_requests_def dest: in_set_takeD in_set_dropD)
  moreover have "request_ok (unat hv div 4194304) (unat ?g div 4096, 1, 0, KMAP_PROT_NONE)"
    "request_ok (unat hv div 4194304) (unat ?c div 4096, 1, 0xB8000, KMAP_PROT_READ OR KMAP_PROT_WRITE)"
    using G(1,3) C(1,3) by simp_all
  ultimately show "\<forall>r \<in> set (page_requests lk hv). request_ok (unat hv div 4194304) r" using S by blast
  have "\<forall>(a, e, fl) \<in> set (kernel_sections lk). unat a div 4096 + (unat e - unat a) div 4096 = unat e div 4096"
    using div_diff_page section_bounds(2,4,5) [OF lay] by (fastforce simp: word_le_nat_alt)
  note e = this [unfolded kernel_sections_def, simplified]
  have ss: "unat (kl_stack_start lk) div 4096 = unat ?g div 4096 + 1" "?c = kl_stack_end lk" "kl_kernel_bss_start lk = kl_kernel_text_end lk"
    using lay by (simp_all add: kernel_layout_def)
  have "in_order 0 (page_requests lk hv)"
    using e ss by (simp add: page_requests_def kernel_sections_def section_request_def)
  then show "sorted_wrt (\<lambda>r r'. request_pages r \<inter> request_pages r' = {}) (page_requests lk hv)"
    by (rule in_order_disjoint)
  have nz: "\<forall>(a, e, fl) \<in> set (kernel_sections lk). a \<noteq> hv" using section_bounds(1) [OF lay] by blast
  show "guards (page_requests lk hv) = 1"
    using nz [unfolded kernel_sections_def] by (simp add: guards_def page_requests_def kernel_sections_def section_request_def)
qed

section \<open>The whole kernel mapped\<close>

lemma high_page:
  fixes va hv :: u32
  assumes "unat hv mod 4194304 = 0" "hv \<le> va"
  shows "(va AND PAGE_MASK) - hv = (va - hv) AND PAGE_MASK" "va AND 0xFFF = (va - hv) AND 0xFFF" "hv \<le> (va AND PAGE_MASK)"
proof -
  obtain q where q: "unat hv = 4096 * (1024 * q)" using assms(1) by (auto elim!: dvdE [OF mod_0_imp_dvd])
  have le: "4096 * (1024 * q) \<le> unat va" using assms(2) q by (simp add: word_le_nat_alt)
  obtain r where r: "unat va = 4096 * (1024 * q) + r" using le le_Suc_ex by blast
  have u: "unat (va - hv) = r" using assms(2) q r by (simp add: unat_sub)
  have hv: "hv = of_nat (4096 * (1024 * q))" unfolding q [symmetric] by simp
  have d: "unat va div 4096 = 1024 * q + r div 4096" unfolding r by simp
  have "va AND PAGE_MASK = of_nat (4096 * (1024 * q + r div 4096))" using page_of_addr [of va] d by simp
  then show "(va AND PAGE_MASK) - hv = (va - hv) AND PAGE_MASK" using page_of_addr [of "va - hv"] u hv by simp
  show "va AND 0xFFF = (va - hv) AND 0xFFF" unfolding low_bits u unfolding r by (simp only: mod_mult_self4)
  have "4096 * (1024 * q) \<le> unat va div 4096 * 4096" unfolding d by simp
  then show "hv \<le> (va AND PAGE_MASK)" using q by (simp add: word_le_nat_alt page_mask_unat)
qed

text \<open>Reading a finished request back through the page walk.\<close>

lemma request_walk:
  assumes ok: "pd_ok m pd lim" and d: "pde m pd (unat va div 4096 div 1024) AND 6 = 2"
    and p: "pte_at m pd (unat va div 4096) = (x AND PAGE_MASK) OR page_flags fl" and fl: "bit (page_flags fl) 0"
  shows "page_walk m pd va = Some ((x AND PAGE_MASK) OR (va AND 0xFFF), page_flags fl AND 2)"
proof -
  have "pde m pd (unat va div 4096 div 1024) AND ((x AND PAGE_MASK) OR page_flags fl) AND 6
    = (pde m pd (unat va div 4096 div 1024) AND 6) AND ((x AND PAGE_MASK) OR page_flags fl)" by (simp add: ac_simps)
  also have "\<dots> = page_flags fl AND 2"
    unfolding d by (simp add: bit.conj_disj_distrib PAGE_MASK_def ac_simps)
  finally show ?thesis
    unfolding page_walk_pte [OF ok] p Let_def using fl mask_or_flags(1) [OF page_flags_small(1)] by (simp add: bit_simps)
qed

lemma section_flags:
  assumes "(a, e, fl) \<in> set (kernel_sections lk)"
  shows "bit (page_flags fl) 0" "page_flags fl AND 2 = fl AND KMAP_PROT_WRITE"
  using assms by (auto simp: kernel_sections_def page_flags_def Let_def KMAP_PROT_READ_def KMAP_PROT_WRITE_def KMAP_PROT_EXEC_def KMAP_PROT_NONE_def KMAP_PROT_USER_def
      ARCH_PD_ENTRY_PRESENT_def ARCH_PD_ENTRY_RW_def ARCH_PD_ENTRY_USER_def)

lemma section_walk:
  assumes lay: "kernel_layout lk hv" and s: "(a, e, fl) \<in> set (kernel_sections lk)" and ok: "pd_ok m pd lim"
    and d: "pde m pd (unat hv div 4194304) AND 6 = 2" and rd: "request_done m pd (section_request hv (a, e, fl))"
    and va: "a \<le> va" "va < e"
  shows "page_walk m pd va = Some (va - hv, fl AND KMAP_PROT_WRITE)"
proof -
  note B = section_bounds [OF lay s]
  have hv: "unat hv mod 4194304 = 0" using lay by (simp add: kernel_layout_def)
  have le: "hv \<le> va" "va \<le> kl_console_debug lk" using B(1,3) va by auto
  let ?u = "unat va div 4096" and ?v = "unat a div 4096"
  have u: "?v \<le> ?u" using va(1) by (simp add: word_le_nat_alt div_le_mono)
  have "unat va < 4096 * (unat e div 4096)" using va(2) B(5) by (simp add: word_less_nat_alt mod_0_imp_dvd)
  then have "?u < unat e div 4096" by (simp add: less_mult_imp_div_less mult.commute)
  then have u2: "?u < ?v + (unat e - unat a) div 4096" using div_diff_page [of "unat a" "unat e"] B(2,4,5) by (simp add: word_le_nat_alt)
  have sub: "of_nat (4096 * (?u - ?v)) = (va AND PAGE_MASK) - a"
    using page_of_addr [of va] page_addr [OF B(4)] u by (simp add: of_nat_diff right_diff_distrib flip: diff_mult_distrib2)
  have "pte_at m pd ?u = ((a - hv + of_nat (4096 * (?u - ?v))) AND PAGE_MASK) OR page_flags fl"
    using rd u u2 B(1) by (simp add: section_request_def del: of_nat_mult)
  then have p: "pte_at m pd ?u = ((va - hv) AND PAGE_MASK) OR page_flags fl"
    unfolding sub using high_page(1) [OF hv le(1)] mask_mask [of "va - hv"] by simp
  show ?thesis
    using request_walk [OF ok _ p section_flags(1) [OF s]] d image_page(1) [OF lay le] section_flags(2) [OF s] high_page(2) [OF hv le(1)] page_low_or [of "va - hv"] by simp
qed

lemma kheap_map_ok:
  fixes s :: pgstate and pdv :: vaddr_t
  defines "pd \<equiv> kphys s pdv"
  assumes ok: "pd_ok (pmem s) pd (unat (mm_addr s))" and v: "v div 1024 + 5 \<le> 1024" "v mod 1024 \<noteq> 0"
    and tab: "pde (pmem s) pd (v div 1024) \<noteq> 0" and new: "\<forall>u. v \<le> u \<and> u < v + 4096 \<longrightarrow> pte_at (pmem s) pd u = 0"
    and fr: "frames s (4101 + N)"
  shows "\<exists>s' f. kmap debug pdv (of_nat (4096 * v)) PAGE_ALLOCATE CONF_KHEAP_SIZE flags s = Inr s'
    \<and> pd_ok (pmem s') pd (unat (mm_addr s')) \<and> high_vma s' = high_vma s \<and> pd_reg s' = pd_reg s \<and> frames s' N
    \<and> (\<forall>u. pte_at (pmem s') pd u = (if v \<le> u \<and> u < v + 4096 then (of_nat (f + 4096 * (u - v)) AND PAGE_MASK) OR page_flags flags else pte_at (pmem s) pd u))
    \<and> unat (mm_addr s) \<le> f \<and> f mod 4096 = 0 \<and> unat (mm_addr s') = f + 4096 * 4096 \<and> unat (mm_addr s') < 2 ^ 32
    \<and> (\<forall>i < 1024. pde (pmem s) pd i \<noteq> 0 \<longrightarrow> pde (pmem s') pd i = pde (pmem s) pd i) \<and> tables_added True pd (pmem s) (pmem s')
    \<and> (\<forall>i < 1024. i < v div 1024 \<or> v div 1024 + 5 \<le> i \<longrightarrow> pde (pmem s') pd i = pde (pmem s) pd i) \<and> others_kept pd (unat (mm_addr s)) (pmem s) (pmem s')"
proof -
  let ?t = "table (pmem s) pd (v div 1024)"
  have dv: "v = 1024 * (v div 1024) + v mod 1024" "v mod 1024 < 1024" by simp_all
  have v': "v < 1048576" "v + 4096 \<le> 1048576" using dv v(1) by linarith+
  have t0: "?t \<noteq> 0" using pd_okD(3) [OF ok _ tab] v(1) by (auto simp: pg_ok_def)
  have sz: "CONF_KHEAP_SIZE = of_nat (4096 * 4096)" by (simp add: CONF_KHEAP_SIZE_def)
  have "table_count ?t v 4096 = 5" using t0 by (simp add: table_count_def)
  then have k: "unat (no_page_tables ?t (of_nat (4096 * v)) CONF_KHEAP_SIZE) = 5"
    unfolding sz using no_page_tables_nat [of v 4096 ?t] v'(1) by simp
  have e0: "empties (pte_at (pmem s) pd) v (v + 4096) = 4096" using new by (subst empties_all) auto
  note span = bootstrap_mmap_span [where s = s and pdv = pdv and v = v and n = 4096 and sz = CONF_KHEAP_SIZE and paddr = PAGE_ALLOCATE and debug = debug
      and kern = True and flags = flags and N = N, folded pd_def, unfolded k]
  have sp: "spans CONF_KHEAP_SIZE 4096" unfolding sz by (intro spans_pages) simp
  have fr': "frames s (5 + ((if PAGE_ALLOCATE = PAGE_ALLOCATE then empties (pte_at (pmem s) pd) v (v + 4096) else 0) + N))" using fr unfolding e0 by simp
  have cover: "pde (pmem s) pd (u div 1024) \<noteq> 0 \<or> u div 1024 < v div 1024 + 5" if "v \<le> u" "u < v + 4096" for u
  proof -
    have "u < 1024 * (v div 1024) + 5120" using that dv by linarith
    then have "u < (v div 1024 + 5) * 1024" by (simp only: add_mult_distrib mult.commute) simp
    then show ?thesis by (simp add: less_mult_imp_div_less)
  qed
  have pa: "PAGE_ALLOCATE mod 4096 = (0 :: u32)" "CONF_KHEAP_SIZE mod 4096 = 0" by (simp_all add: PAGE_ALLOCATE_def CONF_KHEAP_SIZE_def)
  obtain s' f where s': "bootstrap_mmap debug True pdv PAGE_ALLOCATE (of_nat (4096 * v)) CONF_KHEAP_SIZE flags s = Inr s'"
    "pd_ok (pmem s') pd (unat (mm_addr s'))" "pte_at (pmem s') pd = fst (a_map True (page_flags flags) (pte_at (pmem s) pd) f v 4096)"
    "unat (mm_addr s) \<le> f" "f mod 4096 = 0" "unat (mm_addr s') = f + 4096 * 4096" "unat (mm_addr s') < 2 ^ 32"
    "\<forall>i < 1024. pde (pmem s) pd i \<noteq> 0 \<longrightarrow> pde (pmem s') pd i = pde (pmem s) pd i" "tables_added True pd (pmem s) (pmem s')"
    "high_vma s' = high_vma s" "pd_reg s' = pd_reg s" "frames s' N"
    "\<forall>i < 1024. i < v div 1024 \<or> v div 1024 + 5 \<le> i \<longrightarrow> pde (pmem s') pd i = pde (pmem s) pd i" "others_kept pd (unat (mm_addr s)) (pmem s) (pmem s')"
    using span [OF ok v'(2,1) sp pa(1) pa(2) v(1) cover fr'] unfolding e0 others_kept_def by auto
  have pte: "pte_at (pmem s') pd u = (if v \<le> u \<and> u < v + 4096 then (of_nat (f + 4096 * (u - v)) AND PAGE_MASK) OR page_flags flags else pte_at (pmem s) pd u)" for u
    using new s'(3) empties_all [of v u "pte_at (pmem s) pd"] by (auto simp: a_map_at)
  show ?thesis using s' pte unfolding kmap_def by (intro exI [of _ s'] exI [of _ f]) blast
qed


lemma rw_page_flags: "page_flags (KMAP_PROT_READ OR KMAP_PROT_WRITE) = 3"
  by (simp add: page_flags_def Let_def KMAP_PROT_READ_def KMAP_PROT_WRITE_def KMAP_PROT_USER_def KMAP_PROT_NONE_def ARCH_PD_ENTRY_PRESENT_def ARCH_PD_ENTRY_RW_def)

lemma request_done_cong:
  "request_done m pd r \<Longrightarrow> (\<And>u. u \<in> request_pages r \<Longrightarrow> pte_at m' pd u = pte_at m pd u) \<Longrightarrow> request_done m' pd r"
  by (cases r) auto

lemma page_requests_set:
  "set (page_requests lk hv) = section_request hv ` set (kernel_sections lk)
     \<union> {(unat (kl_stack_guard_start lk) div 4096, 1, 0, KMAP_PROT_NONE),
        (unat (kl_console_debug lk) div 4096, 1, 0xB8000, KMAP_PROT_READ OR KMAP_PROT_WRITE)}"
  by (simp add: page_requests_def kernel_sections_def insert_commute)

text \<open>The requests end with the console page, and the heap starts on the next page.\<close>

lemma heap_page:
  assumes lay: "kernel_layout lk hv"
  defines "c \<equiv> unat (kl_console_debug lk) div 4096"
  shows "kl_console_debug lk + 4096 = of_nat (4096 * (c + 1))" "(c + 1) div 1024 = unat hv div 4194304" "(c + 1) mod 1024 \<noteq> 0"
    "(c + 1) div 1024 + 5 \<le> 1024" "\<forall>r \<in> set (page_requests lk hv). request_pages r \<subseteq> {unat hv div 4096..<c + 1}"
proof -
  have h: "hv \<le> kl_console_debug lk" "unat (kl_console_debug lk) mod 4096 = 0"
    using section_bounds [OF lay, of "kl_stack_start lk" "kl_stack_end lk"] lay by (auto simp: kernel_sections_def kernel_layout_def)
  note C = image_page [OF lay h(1) order_refl, folded c_def]
  show "kl_console_debug lk + 4096 = of_nat (4096 * (c + 1))" using page_addr [OF h(2), folded c_def] by simp
  have "(c + 1) mod 1024 = c mod 1024 + 1 \<and> (c + 1) div 1024 = c div 1024" using C(3) by (simp add: mod_Suc div_Suc)
  then show "(c + 1) div 1024 = unat hv div 4194304" "(c + 1) mod 1024 \<noteq> 0" using C(1) by simp_all
  moreover have "unat hv div 4194304 \<le> 0xFE800000 div 4194304"
    using lay by (intro div_le_mono) (simp add: kernel_layout_def word_le_nat_alt)
  ultimately show "(c + 1) div 1024 + 5 \<le> 1024" by simp
  have S: "request_pages (section_request hv r) \<subseteq> {unat hv div 4096..<c + 1}" if r: "r \<in> set (kernel_sections lk)" for r
  proof -
    obtain a e fl where ae: "r = (a, e, fl)" by (cases r)
    note B = section_bounds [OF lay, of a e fl] 
    have "unat hv div 4096 \<le> unat a div 4096" "unat e div 4096 \<le> c"
      using B(1,3) r ae unfolding c_def by (simp_all add: div_le_mono word_le_nat_alt word_less_nat_alt)
    then show ?thesis unfolding ae using section_request_pages [of a e hv fl] B r ae by auto
  qed
  have data: "(kl_kernel_rodata_end lk, kl_stack_guard_start lk, KMAP_PROT_READ OR KMAP_PROT_WRITE) \<in> set (kernel_sections lk)"
    by (simp add: kernel_sections_def)
  have "hv \<le> kl_stack_guard_start lk" "kl_stack_guard_start lk \<le> kl_console_debug lk"
    using section_bounds [OF lay data] by auto
  then have "unat hv div 4096 \<le> unat (kl_stack_guard_start lk) div 4096" "unat (kl_stack_guard_start lk) div 4096 \<le> c" "unat hv div 4096 \<le> c"
    using h(1) unfolding c_def by (simp_all add: div_le_mono word_le_nat_alt)
  then show "\<forall>r \<in> set (page_requests lk hv). request_pages r \<subseteq> {unat hv div 4096..<c + 1}"
    using S unfolding page_requests_set c_def [symmetric] by auto
qed


text \<open>The page-table entries after the kernel image is mapped; nothing is mapped behind it.\<close>

lemma image_entries:
  fixes s :: kmem and kt :: ktables and lk :: kmem_links
  defines "hv \<equiv> high_vma (kn_pg s)" and "PD \<equiv> kt_page_directory kt - high_vma (kn_pg s)" and "h \<equiv> unat (kl_console_debug lk) div 4096 + 1"
  assumes lay: "kernel_layout lk hv" and kt: "ktables_ok kt (kn_pg s)" and mods: "\<forall>r \<in> set (module_ranges (kn_info s)). module_range_ok r"
    and fr: "frames (kn_pg s) (4102 + N)"
  shows "\<exists>s1 s2. bootstrap_map_boot_modules kt (module_ranges (kn_info s)) (kn_pg s) = Inr s1 \<and> high_vma s1 = hv
    \<and> kmaps debug (kt_page_directory kt) (kernel_requests lk hv) s1 = Inr s2 \<and> high_vma s2 = hv \<and> kphys s2 (kt_page_directory kt) = PD
    \<and> pd_ok (pmem s2) PD (unat (mm_addr s2)) \<and> frames s2 (4101 + N) \<and> unat (mm_addr (kn_pg s)) \<le> unat (mm_addr s2)
    \<and> (\<forall>i < 1024. 0 < i \<longrightarrow> pde (pmem s2) PD i = (if i = unat hv div 4194304 then (kt_kernel_pt kt - hv) OR 3 else 0))
    \<and> ((kt_kernel_pt kt - hv) OR 3) AND 6 = 2 \<and> 0 < unat hv div 4194304
    \<and> (\<forall>r \<in> set (page_requests lk hv). request_done (pmem s2) PD r) \<and> (\<forall>u \<ge> h. pte_at (pmem s2) PD u = 0)
    \<and> mm_end s2 = mm_end (kn_pg s)
    \<and> pde (pmem s2) PD 0 = (kt_bootstrap_pt kt - hv) OR 3 \<and> (\<forall>u < 1024. pte_at (pmem s2) PD u = low_entry (module_ranges (kn_info s)) u)
    \<and> (\<forall>q. pg_ok q \<and> q \<notin> {PD, kt_kernel_pt kt - hv, kt_bootstrap_pt kt - hv} \<and> unat q < unat (mm_addr (kn_pg s)) \<longrightarrow>
         same_page (pmem (kn_pg s)) (pmem s2) q \<and> other_page (pmem s2) PD q)"
proof -
  let ?S = "kn_pg s" and ?pdv = "kt_page_directory kt" and ?idx = "unat hv div 4194304" and ?KP = "kt_kernel_pt kt - hv" and ?BP = "kt_bootstrap_pt kt - hv"
  note H = heap_page [OF lay, folded h_def]
  obtain m1 where m1: "bootstrap_map_boot_modules kt (module_ranges (kn_info s)) ?S = Inr (?S\<lparr>pmem := m1\<rparr>)" "pd_ok m1 PD (unat (mm_addr ?S))"
    "\<forall>i < 1024. pde m1 PD i = (if i = 0 then ?BP OR 3 else if i = ?idx then ?KP OR 3 else 0)" "\<forall>j < 1024. entry m1 ?KP j = 0"
    "only_in {PD, ?BP} (pmem ?S) m1" "\<forall>j < 1024. entry m1 ?BP j = low_entry (module_ranges (kn_info s)) j"
    using map_boot_modules_ok [OF kt mods, folded PD_def hv_def] by blast
  define s1 where "s1 = ?S\<lparr>pmem := m1\<rparr>"
  have kp: "kphys s1 ?pdv = PD" using kt by (auto simp: ktables_ok_def kphys_def s1_def PD_def)
  have "0 < hv" "unat hv mod 4194304 = 0" using lay by (auto simp: kernel_layout_def)
  then have i0: "?idx \<noteq> 0" "?idx < 1024" using H(2,4) by (auto simp: word_less_nat_alt elim!: dvdE [OF mod_0_imp_dvd])
  have pg: "pg_ok ?KP" using kt by (simp add: ktables_ok_def hv_def)
  note t = table_entry(1-3) [OF pg]
  have z: "pte_at m1 PD u = 0" if "?idx * 1024 \<le> u" for u
  proof -
    have "?idx \<le> u div 1024" using that by (simp add: less_eq_div_iff_mult_less_eq)
    then show ?thesis using m1(3,4) i0 t(1) by (auto simp: pte_at_def)
  qed
  have low: "?idx * 1024 \<le> u" if "unat hv div 4096 \<le> u" for u
    using that div_mult2_eq [of "unat hv" 4096 1024] mult_div_mod_eq [of 1024 "unat hv div 4096"] by simp
  have R: "\<forall>r \<in> set (page_requests lk hv). \<forall>u \<in> request_pages r. pte_at m1 PD u = 0"
    using H(5) z low by fastforce
  note Q = page_requests_ok [OF lay]
  have hv1: "high_vma s1 = hv" by (simp add: s1_def hv_def)
  have ok1: "pd_ok (pmem s1) PD (unat (mm_addr s1))" and tab1: "pde (pmem s1) PD ?idx \<noteq> 0" and fr1: "frames s1 (guards (page_requests lk hv) + (4101 + N))"
    and R': "\<forall>r \<in> set (page_requests lk hv). \<forall>u \<in> request_pages r. pte_at (pmem s1) PD u = 0"
    using m1(2,3) i0 t(3) fr R Q(3) by (simp_all add: s1_def frames_def)
  obtain s2 where s2: "kmaps debug ?pdv (map request (page_requests lk hv)) s1 = Inr s2" "pd_ok (pmem s2) PD (unat (mm_addr s2))" "high_vma s2 = hv"
    "frames s2 (4101 + N)" "\<forall>i < 1024. pde (pmem s2) PD i = pde m1 PD i" "\<forall>r \<in> set (page_requests lk hv). request_done (pmem s2) PD r"
    "\<forall>u. u \<notin> \<Union> (request_pages ` set (page_requests lk hv)) \<longrightarrow> pte_at (pmem s2) PD u = pte_at m1 PD u" "unat (mm_addr ?S) \<le> unat (mm_addr s2)"
    "others_kept PD (unat (mm_addr ?S)) m1 (pmem s2)"
    using kmaps_ok [OF ok1 kp [symmetric] i0(2) tab1 Q(1,2) R' fr1, where debug = debug] by (auto simp: s1_def hv_def)
  have kp2: "kphys s2 ?pdv = PD" using kp unfolding kphys_def hv1 s2(3) by assumption
  have new: "\<forall>u \<ge> h. pte_at (pmem s2) PD u = 0"
  proof (intro allI impI)
    fix u assume u: "h \<le> u"
    then have "u \<notin> \<Union> (request_pages ` set (page_requests lk hv))" using H(5) by fastforce
    moreover have "unat hv div 4096 \<le> h" using H(5) by (auto simp: page_requests_set)
    ultimately show "pte_at (pmem s2) PD u = 0" using s2(7) z [OF low [of u]] u by simp
  qed
  have "pg_ok ?BP" using kt by (simp add: ktables_ok_def hv_def)
  note b = table_entry [OF this]
  have low: "pde (pmem s2) PD 0 = ?BP OR 3" "\<forall>u < 1024. pte_at (pmem s2) PD u = low_entry (module_ranges (kn_info s)) u"
  proof -
    show p0: "pde (pmem s2) PD 0 = ?BP OR 3" using s2(5) m1(3) by simp
    have "u \<notin> \<Union> (request_pages ` set (page_requests lk hv))" if "u < 1024" for u
      using H(5) low [of u] i0(1) that by fastforce
    moreover have "pte_at m1 PD u = low_entry (module_ranges (kn_info s)) u" if "u < 1024" for u
      using m1(3,6) b that by (simp add: pte_at_def)
    ultimately show "\<forall>u < 1024. pte_at (pmem s2) PD u = low_entry (module_ranges (kn_info s)) u" using s2(7) by simp
  qed
  have kept: "same_page (pmem ?S) (pmem s2) q \<and> other_page (pmem s2) PD q"
    if q: "pg_ok q" "q \<notin> {PD, ?KP, ?BP}" "unat q < unat (mm_addr ?S)" for q
  proof -
    have "other_page m1 PD q" using q(1,2) m1(3) t(1) b(1) by (auto simp: other_page_def)
    then show ?thesis using s2(9) q m1(5) same_page_trans by (auto simp: others_kept_def only_in_def)
  qed
  have end2: "mm_end s2 = mm_end ?S" using kmaps_end [OF s2(1)] by (simp add: s1_def)
  have "pde (pmem s2) PD i = (if i = ?idx then ?KP OR 3 else 0)" if "i < 1024" "0 < i" for i using s2(5) m1(3) that by simp
  then show ?thesis
    using m1(1) hv1 s2 kp2 t(2) i0(1) new kernel_requests_pages(1) [OF lay] kept end2 low
    by (intro exI [of _ s1] exI [of _ s2]) (simp add: s1_def)
qed

text \<open>The page-table entries after the whole kernel is mapped.\<close>

text \<open>Entries that give user mode no access.\<close>

lemma supervisor_entry:
  fixes x :: u32
  shows "x AND 6 = 2 \<Longrightarrow> \<not> bit x 2" "x AND 7 = 3 \<Longrightarrow> \<not> bit x 2"
proof -
  have a: "bit (x AND 6) 2 = bit x 2" "bit (x AND 7) 2 = bit x 2" by (simp_all add: bit_simps)
  show "x AND 6 = 2 \<Longrightarrow> \<not> bit x 2" "x AND 7 = 3 \<Longrightarrow> \<not> bit x 2" using a by (simp_all add: bit_simps)
qed

text \<open>The directory after the heap is mapped: the two tables there were, and those of the heap, all for the kernel only.\<close>

lemma heap_directory:
  assumes base: "\<forall>i < 1024. 0 < i \<longrightarrow> pde m2 pd i = (if i = idx then KP OR 3 else 0)" "pde m2 pd 0 = BP OR 3" and pg: "pg_ok KP" "pg_ok BP"
    and kept: "\<forall>i < 1024. pde m2 pd i \<noteq> 0 \<longrightarrow> pde m3 pd i = pde m2 pd i" "tables_added True pd m2 m3"
      "\<forall>i < 1024. i < idx \<or> idx + 5 \<le> i \<longrightarrow> pde m3 pd i = pde m2 pd i"
    and i: "i < 1024"
  shows "pde m3 pd i \<noteq> 0 \<Longrightarrow> pde m3 pd i AND 6 = 2" "pde m3 pd i \<noteq> 0 \<Longrightarrow> i = 0 \<or> idx \<le> i \<and> i < idx + 5" "\<not> bit (pde m3 pd i) 2"
proof -
  have and6: "x AND 6 = 2" if "x AND 7 = 3" for x :: u32
  proof -
    have "x AND 6 = (x AND 7) AND 6" by (simp add: and.assoc)
    then show ?thesis using that by simp
  qed
  show f: "pde m3 pd i AND 6 = 2" if nz: "pde m3 pd i \<noteq> 0"
  proof (cases "pde m2 pd i = 0")
    case True
    then show ?thesis using kept(2) i nz by (intro and6) (simp add: tables_added_def table_flags_def)
  next
    case False
    then have "pde m2 pd i = KP OR 3 \<or> pde m2 pd i = BP OR 3" using base i by (cases "i = 0") (auto split: if_splits)
    then show ?thesis using kept(1) i False table_entry(2) [OF pg(1)] table_entry(2) [OF pg(2)] by auto
  qed
  show "i = 0 \<or> idx \<le> i \<and> i < idx + 5" if "pde m3 pd i \<noteq> 0"
  proof (rule ccontr)
    assume n: "\<not> (i = 0 \<or> idx \<le> i \<and> i < idx + 5)"
    then have "pde m3 pd i = pde m2 pd i" using kept(3) i by auto
    then show False using base(1) i that n by auto
  qed
  show "\<not> bit (pde m3 pd i) 2" using f by (cases "pde m3 pd i = 0") (simp_all add: supervisor_entry(1))
qed

lemma kernel_entries:
  fixes s :: kmem and kt :: ktables and lk :: kmem_links
  defines "hv \<equiv> high_vma (kn_pg s)" and "PD \<equiv> kt_page_directory kt - high_vma (kn_pg s)" and "h \<equiv> unat (kl_console_debug lk) div 4096 + 1"
  assumes lay: "kernel_layout lk hv" and kt: "ktables_ok kt (kn_pg s)" and mods: "\<forall>r \<in> set (module_ranges (kn_info s)). module_range_ok r"
    and fr: "frames (kn_pg s) (4102 + N)"
  shows "\<exists>pg f. kmem_map_kernel_memory debug kt lk s = Inr (s\<lparr>kn_pg := pg, kn_info := (kn_info s)\<lparr>kheap_range := (kheap_range (kn_info s))\<lparr>range_start := kl_console_debug lk + 4096\<rparr>\<rparr>\<rparr>)
    \<and> pd_ok (pmem pg) PD (unat (mm_addr pg)) \<and> high_vma pg = hv \<and> frames pg N
    \<and> (\<forall>r \<in> set (page_requests lk hv). request_done (pmem pg) PD r)
    \<and> (\<forall>u. h \<le> u \<and> u < h + 4096 \<longrightarrow> pte_at (pmem pg) PD u = (of_nat (f + 4096 * (u - h)) AND PAGE_MASK) OR 3
         \<and> pde (pmem pg) PD (u div 1024) AND 6 = 2)
    \<and> pde (pmem pg) PD (unat hv div 4194304) AND 6 = 2
    \<and> unat (mm_addr (kn_pg s)) \<le> f \<and> f mod 4096 = 0 \<and> unat (mm_addr pg) = f + 4096 * 4096 \<and> unat (mm_addr pg) < 2 ^ 32
    \<and> mm_end pg = mm_end (kn_pg s)
    \<and> pde (pmem pg) PD 0 = (kt_bootstrap_pt kt - hv) OR 3 \<and> (\<forall>u < 1024. pte_at (pmem pg) PD u = low_entry (module_ranges (kn_info s)) u)
    \<and> (\<forall>i < 1024. pde (pmem pg) PD i \<noteq> 0 \<longrightarrow> i = 0 \<or> unat hv div 4194304 \<le> i \<and> i < unat hv div 4194304 + 5)
    \<and> (\<forall>i < 1024. \<not> bit (pde (pmem pg) PD i) 2)
    \<and> (\<forall>q. pg_ok q \<and> q \<notin> {PD, kt_kernel_pt kt - hv, kt_bootstrap_pt kt - hv} \<and> unat q < unat (mm_addr (kn_pg s)) \<longrightarrow>
         same_page (pmem (kn_pg s)) (pmem pg) q \<and> other_page (pmem pg) PD q)"
proof -
  let ?pdv = "kt_page_directory kt" and ?idx = "unat hv div 4194304" and ?KP = "kt_kernel_pt kt - hv"
  note H = heap_page [OF lay, folded h_def]
  obtain s1 s2 where m1: "bootstrap_map_boot_modules kt (module_ranges (kn_info s)) (kn_pg s) = Inr s1" "high_vma s1 = hv"
    and s2: "kmaps debug ?pdv (kernel_requests lk hv) s1 = Inr s2" "high_vma s2 = hv" "pd_ok (pmem s2) PD (unat (mm_addr s2))" "frames s2 (4101 + N)"
      "\<forall>i < 1024. 0 < i \<longrightarrow> pde (pmem s2) PD i = (if i = ?idx then ?KP OR 3 else 0)" "\<forall>r \<in> set (page_requests lk hv). request_done (pmem s2) PD r"
      "\<forall>u \<ge> h. pte_at (pmem s2) PD u = 0" "unat (mm_addr (kn_pg s)) \<le> unat (mm_addr s2)" "mm_end s2 = mm_end (kn_pg s)"
      "\<forall>q. pg_ok q \<and> q \<notin> {PD, ?KP, kt_bootstrap_pt kt - hv} \<and> unat q < unat (mm_addr (kn_pg s)) \<longrightarrow>
         same_page (pmem (kn_pg s)) (pmem s2) q \<and> other_page (pmem s2) PD q"
      "pde (pmem s2) PD 0 = (kt_bootstrap_pt kt - hv) OR 3" "\<forall>u < 1024. pte_at (pmem s2) PD u = low_entry (module_ranges (kn_info s)) u"
    and t: "(?KP OR 3) AND 6 = 2" and i0: "0 < ?idx" and kp2: "kphys s2 ?pdv = PD"
    using image_entries [OF lay [unfolded hv_def] kt mods fr, of debug] unfolding PD_def [symmetric] unfolding hv_def [symmetric] h_def [symmetric] by blast
  have pg: "pg_ok ?KP" "pg_ok (kt_bootstrap_pt kt - hv)" using kt by (simp_all add: ktables_ok_def hv_def)
  have idx: "?idx < 1024" using H(2,4) by simp
  have nz: "?KP OR 3 \<noteq> 0" using t by auto
  have tab: "pde (pmem s2) PD (h div 1024) \<noteq> 0" using s2(5) i0 idx nz by (simp add: H(2))
  have new: "\<forall>u. h \<le> u \<and> u < h + 4096 \<longrightarrow> pte_at (pmem s2) PD u = 0" using s2(7) by simp
  obtain s3 f where s3: "kmap debug ?pdv (of_nat (4096 * h)) PAGE_ALLOCATE CONF_KHEAP_SIZE (KMAP_PROT_READ OR KMAP_PROT_WRITE) s2 = Inr s3"
    "pd_ok (pmem s3) PD (unat (mm_addr s3))" "high_vma s3 = hv" "frames s3 N"
    "\<forall>u. pte_at (pmem s3) PD u = (if h \<le> u \<and> u < h + 4096 then (of_nat (f + 4096 * (u - h)) AND PAGE_MASK) OR page_flags (KMAP_PROT_READ OR KMAP_PROT_WRITE) else pte_at (pmem s2) PD u)"
    "unat (mm_addr s2) \<le> f" "f mod 4096 = 0" "unat (mm_addr s3) = f + 4096 * 4096" "unat (mm_addr s3) < 2 ^ 32"
    "\<forall>i < 1024. pde (pmem s2) PD i \<noteq> 0 \<longrightarrow> pde (pmem s3) PD i = pde (pmem s2) PD i" "tables_added True PD (pmem s2) (pmem s3)"
    "\<forall>i < 1024. i < h div 1024 \<or> h div 1024 + 5 \<le> i \<longrightarrow> pde (pmem s3) PD i = pde (pmem s2) PD i" "others_kept PD (unat (mm_addr s2)) (pmem s2) (pmem s3)"
    using kheap_map_ok [where s = s2 and pdv = ?pdv and v = h and N = N and debug = debug and flags = "KMAP_PROT_READ OR KMAP_PROT_WRITE", unfolded kp2, OF s2(3) H(4,3) tab new s2(4)] s2(2)
    by auto
  have "mm_len s2 > ucast CONF_KHEAP_SIZE"
    using s2(4) by (simp add: frames_def CONF_KHEAP_SIZE_def word_less_nat_alt)
  then have run: "kmem_map_kernel_memory debug kt lk s = Inr (s\<lparr>kn_pg := s3, kn_info := (kn_info s)\<lparr>kheap_range := (kheap_range (kn_info s))\<lparr>range_start := kl_console_debug lk + 4096\<rparr>\<rparr>\<rparr>)"
    using m1 s2(1) s3(1) kernel_requests_pages(2) [OF lay] H(1) unfolding kmem_map_kernel_memory_def by simp
  note fl = rw_page_flags
  have "request_done (pmem s3) PD r" if "r \<in> set (page_requests lk hv)" for r
  proof (rule request_done_cong)
    show "request_done (pmem s2) PD r" using s2(6) that by blast
    show "pte_at (pmem s3) PD u = pte_at (pmem s2) PD u" if "u \<in> request_pages r" for u
      using that s3(5) H(5) \<open>r \<in> _\<close> by fastforce
  qed
  moreover have dir: "pde (pmem s3) PD i \<noteq> 0 \<Longrightarrow> pde (pmem s3) PD i AND 6 = 2"
      "pde (pmem s3) PD i \<noteq> 0 \<Longrightarrow> i = 0 \<or> ?idx \<le> i \<and> i < ?idx + 5" "\<not> bit (pde (pmem s3) PD i) 2" if "i < 1024" for i
    using heap_directory [OF s2(5,11) pg s3(10,11) s3(12) [unfolded H(2)] that] by blast+
  moreover have "pde (pmem s3) PD ?idx AND 6 = 2" using s3(10) s2(5) i0 idx nz by (intro dir(1)) simp_all
  moreover have "pde (pmem s3) PD (u div 1024) AND 6 = 2" if u: "h \<le> u" "u < h + 4096" for u
  proof -
    have "pte_at (pmem s3) PD u \<noteq> 0" using s3(5) u fl by (simp add: or_eq_0_iff)
    then show ?thesis using dir(1) by (auto simp: pte_at_def split: if_splits)
  qed
  moreover have "same_page (pmem (kn_pg s)) (pmem s3) q \<and> other_page (pmem s3) PD q"
    if q: "pg_ok q" "q \<notin> {PD, ?KP, kt_bootstrap_pt kt - hv}" "unat q < unat (mm_addr (kn_pg s))" for q
  proof -
    have a: "same_page (pmem (kn_pg s)) (pmem s2) q" "other_page (pmem s2) PD q" using s2(10) q by blast+
    then have "same_page (pmem s2) (pmem s3) q \<and> other_page (pmem s3) PD q"
      using s3(13) q(3) s2(8) unfolding others_kept_def by (meson order.strict_trans2)
    then show ?thesis using same_page_trans [OF a(1)] by blast
  qed
  moreover have "pde (pmem s3) PD 0 = (kt_bootstrap_pt kt - hv) OR 3" using s3(12) s2(11) i0 unfolding H(2) by auto
  moreover have "\<forall>u < 1024. pte_at (pmem s3) PD u = low_entry (module_ranges (kn_info s)) u"
  proof -
    have "1024 \<le> h" using H(2) i0 by (metis div_less gr_implies_not0 not_le)
    then show ?thesis using s3(5) s2(12) by auto
  qed
  moreover have "mm_end s3 = mm_end (kn_pg s)" using bootstrap_mmap_end [OF s3(1) [unfolded kmap_def]] s2(9) by simp
  ultimately show ?thesis
    using run s3(2-9) fl order_trans [OF s2(8) s3(6)] by (intro exI [of _ s3] exI [of _ f]) simp
qed


lemma walk_page:
  assumes ok: "pd_ok m pd lim" and u: "u < 1048576" "d < 4096" and p: "p < 1048576"
    and e: "pde m pd (u div 1024) AND 6 = 2" "pte_at m pd u = (of_nat (4096 * p) AND PAGE_MASK) OR 3"
  shows "page_walk m pd (of_nat (4096 * u + d)) = Some (of_nat (4096 * p + d), 2)"
proof -
  let ?va = "of_nat (4096 * u + d) :: u32" and ?x = "of_nat (4096 * p) :: u32"
  note U = page_low [OF u]
  have x: "?x AND PAGE_MASK = ?x" using page_of_addr [of ?x] vpn_offsets(1) [OF p] by simp
  have "page_walk m pd ?va = Some ((?x AND PAGE_MASK) OR (?va AND 0xFFF), 2)"
    using request_walk [OF ok, of ?va ?x "KMAP_PROT_READ OR KMAP_PROT_WRITE"] e unfolding U rw_page_flags by simp
  moreover have "unat ?va mod 4096 = d" using u unat_of_nat_u32 [of "4096 * u + d"] by simp
  ultimately show ?thesis unfolding frame_low unfolding x by (simp add: cell_def)
qed

text \<open>C15: the kernel maps itself as its sections need it: in the new page directory every address of a
  section is mapped to its load address (the address minus the offset of the kernel), writable
  for the tables, bss, data and stack and read-only for code and constants; the guard page below
  the stack is not mapped, the console page shows the text buffer at 0xB8000, and the 16 MB of
  heap behind it are mapped writable onto fresh frames, with no two pages sharing one; the heap
  range is recorded in the kernel information.\<close>

theorem kernel_memory_mapped:
  fixes s :: kmem and kt :: ktables and lk :: kmem_links
  defines "hv \<equiv> high_vma (kn_pg s)" and "PD \<equiv> kt_page_directory kt - high_vma (kn_pg s)"
  assumes lay: "kernel_layout lk hv" and kt: "ktables_ok kt (kn_pg s)" and mods: "\<forall>r \<in> set (module_ranges (kn_info s)). module_range_ok r"
    and fr: "frames (kn_pg s) 4102"
  shows "\<exists>s' f. kmem_map_kernel_memory debug kt lk s = Inr s'
    \<and> (\<forall>(a, e, fl) \<in> set (kernel_sections lk). \<forall>va. a \<le> va \<and> va < e \<longrightarrow> page_walk (pmem (kn_pg s')) PD va = Some (va - hv, fl AND KMAP_PROT_WRITE))
    \<and> (\<forall>va. kl_stack_guard_start lk \<le> va \<and> va < kl_stack_start lk \<longrightarrow> page_walk (pmem (kn_pg s')) PD va = None)
    \<and> (\<forall>d < 4096. page_walk (pmem (kn_pg s')) PD (kl_console_debug lk + of_nat d) = Some (0xB8000 + of_nat d, 2))
    \<and> (\<forall>i < 4096. \<forall>d < 4096. page_walk (pmem (kn_pg s')) PD (range_start (kheap_range (kn_info s')) + of_nat (4096 * i + d)) = Some (of_nat (f + 4096 * i + d), 2))
    \<and> range_start (kheap_range (kn_info s')) = kl_console_debug lk + 4096
    \<and> unat (mm_addr (kn_pg s)) \<le> f \<and> unat (mm_addr (kn_pg s')) = f + 4096 * 4096 \<and> unat (mm_addr (kn_pg s')) < 2 ^ 32"
proof -
  let ?h = "unat (kl_console_debug lk) div 4096 + 1" and ?c = "kl_console_debug lk" and ?idx = "unat hv div 4194304"
  obtain pg f where pg: "kmem_map_kernel_memory debug kt lk s = Inr (s\<lparr>kn_pg := pg, kn_info := (kn_info s)\<lparr>kheap_range := (kheap_range (kn_info s))\<lparr>range_start := ?c + 4096\<rparr>\<rparr>\<rparr>)"
    and ok: "pd_ok (pmem pg) PD (unat (mm_addr pg))" and R: "\<forall>r \<in> set (page_requests lk hv). request_done (pmem pg) PD r"
    and hp: "\<And>u. ?h \<le> u \<Longrightarrow> u < ?h + 4096 \<Longrightarrow> pte_at (pmem pg) PD u = (of_nat (f + 4096 * (u - ?h)) AND PAGE_MASK) OR 3 \<and> pde (pmem pg) PD (u div 1024) AND 6 = 2"
    and pi: "pde (pmem pg) PD ?idx AND 6 = 2"
    and f: "unat (mm_addr (kn_pg s)) \<le> f" "f mod 4096 = 0" "unat (mm_addr pg) = f + 4096 * 4096" "unat (mm_addr pg) < 2 ^ 32"
    using kernel_entries [OF lay [unfolded hv_def] kt mods, where N = 0 and debug = debug] fr unfolding PD_def [symmetric] unfolding hv_def [symmetric] by auto
  note H = heap_page [OF lay]
  have h: "?h + 4096 \<le> 1048576" using H(4) mult_div_mod_eq [of 1024 ?h] mod_less_divisor [of 1024 ?h] by linarith
  have c: "?c = of_nat (4096 * (?h - 1))" "(?h - 1) div 1024 = ?idx"
    using H(1,2,3) div_Suc [of "?h - 1" 1024] mod_Suc [of "?h - 1" 1024] by (auto simp: algebra_simps split: if_splits)
  have sec: "page_walk (pmem pg) PD va = Some (va - hv, fl AND KMAP_PROT_WRITE)" if "(a, e, fl) \<in> set (kernel_sections lk)" "a \<le> va" "va < e" for a e fl va
    using section_walk [OF lay that(1) ok pi _ that(2,3)] R that(1) unfolding page_requests_set by blast
  have guard: "page_walk (pmem pg) PD va = None" if "kl_stack_guard_start lk \<le> va" "va < kl_stack_start lk" for va
  proof -
    let ?g = "kl_stack_guard_start lk"
    have "unat ?g \<le> unat va" "unat va < unat ?g + 4096" "unat ?g mod 4096 = 0"
      using that lay section_bounds(5) [OF lay, of "kl_kernel_rodata_end lk" ?g "KMAP_PROT_READ OR KMAP_PROT_WRITE"]
      by (auto simp: word_le_nat_alt word_less_nat_alt kernel_layout_def kernel_sections_def)
    then have u: "unat va div 4096 = unat ?g div 4096" by (auto elim!: dvdE [OF mod_0_imp_dvd] intro!: div_nat_eqI)
    have "\<not> bit (pte_at (pmem pg) PD (unat ?g div 4096)) 0" using R unfolding page_requests_set by auto
    then show ?thesis unfolding page_walk_pte [OF ok] u by simp
  qed
  have con: "page_walk (pmem pg) PD (?c + of_nat d) = Some (0xB8000 + of_nat d, 2)" if "d < 4096" for d
  proof -
    have "pte_at (pmem pg) PD (?h - 1) = (of_nat (4096 * 0xB8) AND PAGE_MASK) OR 3" using R unfolding page_requests_set by (auto simp: rw_page_flags)
    then show ?thesis using walk_page [OF ok _ that, where u = "?h - 1" and p = "0xB8"] c h pi by simp
  qed
  have heap: "page_walk (pmem pg) PD (?c + 4096 + of_nat (4096 * i + d)) = Some (of_nat (f + 4096 * i + d), 2)" if "i < 4096" "d < 4096" for i d
  proof -
    obtain q where q: "f = 4096 * q" using f(2) by (auto elim!: dvdE [OF mod_0_imp_dvd])
    show ?thesis using walk_page [OF ok _ that(2), where u = "?h + i" and p = "q + i"] hp [of "?h + i"] H(1) h that(1) f(3,4) q by (simp add: algebra_simps)
  qed
  show ?thesis using pg sec guard con heap f by (intro exI [of _ "s\<lparr>kn_pg := pg, kn_info := (kn_info s)\<lparr>kheap_range := (kheap_range (kn_info s))\<lparr>range_start := ?c + 4096\<rparr>\<rparr>\<rparr>"] exI [of _ f]) auto
qed


definition sample_kmem_links :: kmem_links where
  "sample_kmem_links = \<lparr>kl_kernel_start = 0xFE905000, kl_ktable_end = 0xFE90A000, kl_kernel_text_end = 0xFE920000, kl_kernel_bss_start = 0xFE920000,
     kl_kernel_bss_end = 0xFE930000, kl_kernel_rodata_end = 0xFE934000, kl_stack_guard_start = 0xFE938000, kl_stack_start = 0xFE939000,
     kl_stack_end = 0xFE93F000, kl_console_debug = 0xFE93F000\<rparr>"

definition sample_tables :: ktables where
  "sample_tables = \<lparr>kt_boot_page_directory = 0xFE905000, kt_page_directory = 0xFE906000, kt_kernel_pt = 0xFE907000, kt_bootstrap_pt = 0xFE908000,
     kt_module_bootstrap_pt = 0xFE909000\<rparr>"

definition sample_kmem :: kmem where
  "sample_kmem = \<lparr>kn_pg = \<lparr>pmem = (\<lambda>_. 0), mm_addr = 0x200000, mm_len = 0x7000000, high_vma = 0xFE800000, pd_reg = 0x105000,
       boot_mem_start = 0x140000, boot_mem_end = 0x200000\<rparr>,
     kn_heap = \<lparr>km_mem = (\<lambda>_. 0), pool_start = 0, pool_end = 0, page_freelist_head = 0, bags = []\<rparr>,
     kn_con = \<lparr>con_mem = (\<lambda>_. 0), term_buff = 0xFE93F000, vga_cmd_port = 0x3D4, con_x = 0, con_y = 0, cursor_x = 0, cursor_y = 0, color_attrib = 7\<rparr>,
     kn_info = zero_kinfo\<lparr>no_modules := 1, modules := [\<lparr>start_paddr = 0x140000, end_paddr = 0x148000, start_vaddr = 0, mod_name = []\<rparr>]\<rparr>\<rparr>"

theorem kernel_memory_mapped_witness:
  "\<exists>s'. kmem_map_kernel_memory True sample_tables sample_kmem_links sample_kmem = Inr s'
     \<and> page_walk (pmem (kn_pg s')) 0x106000 0xFE912345 = Some (0x112345, 0) \<and> page_walk (pmem (kn_pg s')) 0x106000 0xFE93A004 = Some (0x13A004, 2)
     \<and> page_walk (pmem (kn_pg s')) 0x106000 0xFE938FFC = None \<and> page_walk (pmem (kn_pg s')) 0x106000 0xFE93F008 = Some (0xB8008, 2)
     \<and> range_start (kheap_range (kn_info s')) = 0xFE940000"
proof -
  have lay: "kernel_layout sample_kmem_links (high_vma (kn_pg sample_kmem))" by (simp add: kernel_layout_def kernel_sections_def sample_kmem_links_def sample_kmem_def)
  have kt: "ktables_ok sample_tables (kn_pg sample_kmem)" by (simp add: ktables_ok_def sample_tables_def sample_kmem_def pg_ok_def load32_zero)
  have mods: "\<forall>r \<in> set (module_ranges (kn_info sample_kmem)). module_range_ok r" by (simp add: module_ranges_def sample_kmem_def module_range_ok_def)
  have fr: "frames (kn_pg sample_kmem) 4102" by (simp add: frames_def sample_kmem_def)
  have hv: "high_vma (kn_pg sample_kmem) = 0xFE800000" "kt_page_directory sample_tables = 0xFE906000" by (simp_all add: sample_kmem_def sample_tables_def)
  obtain s' f where s': "kmem_map_kernel_memory True sample_tables sample_kmem_links sample_kmem = Inr s'"
    "\<forall>(a, e, fl) \<in> set (kernel_sections sample_kmem_links). \<forall>va. a \<le> va \<and> va < e \<longrightarrow> page_walk (pmem (kn_pg s')) 0x106000 va = Some (va - 0xFE800000, fl AND KMAP_PROT_WRITE)"
    "\<forall>va. kl_stack_guard_start sample_kmem_links \<le> va \<and> va < kl_stack_start sample_kmem_links \<longrightarrow> page_walk (pmem (kn_pg s')) 0x106000 va = None"
    "\<forall>d < 4096. page_walk (pmem (kn_pg s')) 0x106000 (kl_console_debug sample_kmem_links + of_nat d) = Some (0xB8000 + of_nat d, 2)"
    "range_start (kheap_range (kn_info s')) = kl_console_debug sample_kmem_links + 4096"
    using kernel_memory_mapped [OF lay kt mods fr, where debug = True] unfolding hv by auto
  have "page_walk (pmem (kn_pg s')) 0x106000 0xFE912345 = Some (0x112345, 0)" "page_walk (pmem (kn_pg s')) 0x106000 0xFE93A004 = Some (0x13A004, 2)"
    using s'(2) by (simp_all add: kernel_sections_def sample_kmem_links_def KMAP_PROT_READ_def KMAP_PROT_WRITE_def KMAP_PROT_EXEC_def)
  moreover have "page_walk (pmem (kn_pg s')) 0x106000 0xFE93F008 = Some (0xB8008, 2)" using s'(4) [rule_format, of 8] by (simp add: sample_kmem_links_def)
  ultimately show ?thesis using s'(1,3,5) by (auto simp: sample_kmem_links_def)
qed

end
