(* ===== verification/Elf.thy ===== *)
theory Elf
  imports Paging
begin

text \<open>
  The ELF loader of \<^verbatim>\<open>lib/libelf/elf.c\<close>: the header checks of \<^verbatim>\<open>elf_ctx_create\<close> and the
  loading of the program segments by \<^verbatim>\<open>elf_ctx_load\<close>, which goes through the callbacks of
  \<^verbatim>\<open>exec_info_t\<close>. The image is read at its physical address, where the boot code has
  mapped it to itself; the copy into the new address space is a sequence of byte stores whose
  destination goes through the page walk of the process's directory, so a byte that is not mapped
  is a page fault.
\<close>

section \<open>File format\<close>

record Elf_Hdr =
  e_ident :: "u8 list"
  e_type :: u16
  e_machine :: u16
  e_version :: u32
  e_entry :: u32
  e_phoff :: u32
  e_shoff :: u32
  e_flags :: u32
  e_ehsize :: u16
  e_phentsize :: u16
  e_phnum :: u16
  e_shentsize :: u16
  e_shnum :: u16
  e_shstrndx :: u16

record Elf_Shdr =
  sh_name :: u32
  sh_type :: u32
  sh_flags :: u32
  sh_addr :: u32
  sh_offset :: u32
  sh_size :: u32
  sh_link :: u32
  sh_info :: u32
  sh_addralign :: u32
  sh_entsize :: u32

record Elf_Phdr =
  p_type :: u32
  p_offset :: u32
  p_vaddr :: u32
  p_paddr :: u32
  p_filesz :: u32
  p_memsz :: u32
  p_flags :: u32
  p_align :: u32

definition read_hdr :: "mem \<Rightarrow> u32 \<Rightarrow> Elf_Hdr" where
  "read_hdr m a = \<lparr>e_ident = map (\<lambda>i. m (a + of_nat i)) [0..<16], e_type = load16 m (a + 16),
     e_machine = load16 m (a + 18), e_version = load32 m (a + 20), e_entry = load32 m (a + 24),
     e_phoff = load32 m (a + 28), e_shoff = load32 m (a + 32),
     e_flags = load32 m (a + 36), e_ehsize = load16 m (a + 40), e_phentsize = load16 m (a + 42),
     e_phnum = load16 m (a + 44), e_shentsize = load16 m (a + 46), e_shnum = load16 m (a + 48),
     e_shstrndx = load16 m (a + 50)\<rparr>"

definition read_shdr :: "mem \<Rightarrow> u32 \<Rightarrow> Elf_Shdr" where
  "read_shdr m a = \<lparr>sh_name = load32 m a, sh_type = load32 m (a + 4), sh_flags = load32 m (a + 8),
     sh_addr = load32 m (a + 12), sh_offset = load32 m (a + 16), sh_size = load32 m (a + 20),
     sh_link = load32 m (a + 24), sh_info = load32 m (a + 28), sh_addralign = load32 m (a + 32),
     sh_entsize = load32 m (a + 36)\<rparr>"

definition read_phdr :: "mem \<Rightarrow> u32 \<Rightarrow> Elf_Phdr" where
  "read_phdr m a = \<lparr>p_type = load32 m a, p_offset = load32 m (a + 4), p_vaddr = load32 m (a + 8),
     p_paddr = load32 m (a + 12), p_filesz = load32 m (a + 16), p_memsz = load32 m (a + 20), p_flags = load32 m (a + 24),
     p_align = load32 m (a + 28)\<rparr>"

definition SHDR_SIZE :: u32 where "SHDR_SIZE = 40"
definition PHDR_SIZE :: u32 where "PHDR_SIZE = 32"

definition elf_magic :: "u8 list" where "elf_magic = [0x7F, 0x45, 0x4C, 0x46]"
definition ARCH_ELF_CLASS :: u8 where "ARCH_ELF_CLASS = 1"
definition ARCH_ELF_BYTE_ORDER :: u8 where "ARCH_ELF_BYTE_ORDER = 1"
definition ARCH_ELF_MACHINE :: u16 where "ARCH_ELF_MACHINE = 3"
definition ARCH_ELF_TARGET_VERSION :: u8 where "ARCH_ELF_TARGET_VERSION = 1"
definition EIDX_CLASS :: nat where "EIDX_CLASS = 4"
definition EIDX_BYTE_ORDER :: nat where "EIDX_BYTE_ORDER = 5"
definition EIDX_VERSION :: nat where "EIDX_VERSION = 6"
definition ET_REL :: u16 where "ET_REL = 1"
definition ET_EXEC :: u16 where "ET_EXEC = 2"
definition SHT_SYMTAB :: u32 where "SHT_SYMTAB = 2"
definition PT_LOAD :: u32 where "PT_LOAD = 1"

datatype ElfError =
    ELF_OK
  | ELF_UNSUPP_MACHINE
  | ELF_UNSUPP_CLASS
  | ELF_UNSUPP_BYTE_ORDER
  | ELF_UNSUPP_VERSION
  | ELF_UNSUPP_PH_TYPE
  | ELF_INVALID_PH
  | ELF_INVALID_TYPE
  | ELF_INVALID_HDR

section \<open>Opening an image\<close>

definition elf_check_hdr :: "Elf_Hdr \<Rightarrow> ElfError" where
  "elf_check_hdr hdr =
     (if \<exists>i \<in> set [0..<length elf_magic]. e_ident hdr ! i \<noteq> elf_magic ! i then ELF_INVALID_HDR else ELF_OK)"

definition elf_check_arch_supported :: "Elf_Hdr \<Rightarrow> ElfError" where
  "elf_check_arch_supported hdr =
     (if e_ident hdr ! EIDX_CLASS \<noteq> ARCH_ELF_CLASS then ELF_UNSUPP_CLASS
      else if e_ident hdr ! EIDX_BYTE_ORDER \<noteq> ARCH_ELF_BYTE_ORDER then ELF_UNSUPP_BYTE_ORDER
      else if e_machine hdr \<noteq> ARCH_ELF_MACHINE then ELF_UNSUPP_MACHINE
      else if e_ident hdr ! EIDX_VERSION \<noteq> ARCH_ELF_TARGET_VERSION then ELF_UNSUPP_VERSION
      else if e_type hdr \<noteq> ET_REL \<and> e_type hdr \<noteq> ET_EXEC then ELF_INVALID_TYPE
      else ELF_OK)"

text \<open>A context names the places in the image by address.\<close>

record elf_ctx_t =
  elf_hdr :: u32
  section_headers :: u32
  symbol_table :: u32
  string_table :: u32
  program_headers :: u32
  elf_size :: size_t

definition elf_ctx_zero :: elf_ctx_t where
  "elf_ctx_zero = \<lparr>elf_hdr = 0, section_headers = 0, symbol_table = 0, string_table = 0, program_headers = 0, elf_size = 0\<rparr>"

definition elf_get_sheader :: "u32 \<Rightarrow> Elf_Hdr \<Rightarrow> u32" where
  "elf_get_sheader a hdr = a + e_shoff hdr"

definition find_symtab :: "mem \<Rightarrow> nat \<Rightarrow> elf_ctx_t \<Rightarrow> elf_ctx_t" where
  "find_symtab m shnum ctx =
     fold (\<lambda>i ctx.
        let a = section_headers ctx + of_nat i * SHDR_SIZE; shdr = read_shdr m a
        in if sh_type shdr = SHT_SYMTAB
           then ctx\<lparr>symbol_table := a, string_table := section_headers ctx + sh_link shdr * SHDR_SIZE\<rparr>
           else ctx) [1..<shnum] ctx"

definition elf_ctx_create :: "elf_ctx_t \<Rightarrow> u32 \<Rightarrow> size_t \<Rightarrow> mem \<Rightarrow> ElfError \<times> elf_ctx_t" where
  "elf_ctx_create ctx buf sz m =
     (let hdr = read_hdr m buf
      in if elf_check_hdr hdr \<noteq> ELF_OK then (elf_check_hdr hdr, ctx)
         else if elf_check_arch_supported hdr \<noteq> ELF_OK then (elf_check_arch_supported hdr, ctx)
         else let ctx = ctx\<lparr>elf_hdr := buf, section_headers := elf_get_sheader buf hdr,
                          program_headers := buf + e_phoff hdr\<rparr>
              in (ELF_OK, find_symtab m (unat (e_shnum hdr)) ctx))"

definition elf_ctx_get_section :: "elf_ctx_t \<Rightarrow> Elf_Shdr \<Rightarrow> u32" where
  "elf_ctx_get_section ctx sec_hdr = elf_hdr ctx + sh_offset sec_hdr"

fun elf_strerror :: "ElfError \<Rightarrow> string" where
  "elf_strerror ELF_OK = ''ELF_OK''"
| "elf_strerror ELF_UNSUPP_MACHINE = ''ELF_UNSUPP_MACHINE''"
| "elf_strerror ELF_UNSUPP_CLASS = ''ELF_UNSUPP_CLASS''"
| "elf_strerror ELF_UNSUPP_BYTE_ORDER = ''ELF_UNSUPP_BYTE_ORDER''"
| "elf_strerror ELF_UNSUPP_VERSION = ''ELF_UNSUPP_VERSION''"
| "elf_strerror ELF_UNSUPP_PH_TYPE = ''ELF_UNSUPP_PH_TYPE''"
| "elf_strerror ELF_INVALID_PH = ''ELF_INVALID_PH''"
| "elf_strerror ELF_INVALID_TYPE = ''ELF_INVALID_TYPE''"
| "elf_strerror ELF_INVALID_HDR = ''ELF_INVALID_HDR''"

section \<open>Loading\<close>

definition ARCH_MAIN_THREAD_STACK_ADDR :: u32 where "ARCH_MAIN_THREAD_STACK_ADDR = 0x80000000"
definition ARCH_MAIN_THREAD_STACK_SIZE :: u32 where "ARCH_MAIN_THREAD_STACK_SIZE = 0x4000"

text \<open>\<^verbatim>\<open>exec_info_t\<close>: the mapping callback is given the directory of the information block.\<close>

record exec_info =
  ei_page_directory :: paddr_t
  ei_main_thread_stack_top :: vaddr_t
  ei_mmap :: "(paddr_t \<Rightarrow> paddr_t \<Rightarrow> vaddr_t \<Rightarrow> size_t \<Rightarrow> u32 \<Rightarrow> pgstate \<Rightarrow> pgstate outcome) option"
  ei_on_load :: "(pgstate \<Rightarrow> pgstate outcome) option"

text \<open>
  The permission bits of a translation: \<open>acc\<close> are those an access needs, 2 (write) for a store of the
  kernel. With the write-protect bit of \<^verbatim>\<open>cr0\<close>, which \<^verbatim>\<open>boot.asm\<close> sets, they bind the kernel too.
\<close>

definition permits :: "u32 \<Rightarrow> u32 \<Rightarrow> bool" where
  "permits acc fl \<longleftrightarrow> acc AND fl = acc"

text \<open>
  The \<^verbatim>\<open>memcpy\<close> into the address space whose directory is loaded: the bytes in order, each
  destination address translated by the processor.
\<close>

fun copy_to_user :: "paddr_t \<Rightarrow> nat \<Rightarrow> vaddr_t \<Rightarrow> u32 \<Rightarrow> mem \<Rightarrow> mem outcome" where
  "copy_to_user pd 0 dst src m = Inr m"
| "copy_to_user pd (Suc n) dst src m =
     (case page_walk m pd dst of
        None \<Rightarrow> Inl (Page_Fault dst)
      | Some (pa, fl) \<Rightarrow> if permits 2 fl then copy_to_user pd n (dst + 1) (src + 1) (m(pa := m src)) else Inl (Page_Fault dst))"

text \<open>One turn of the loop over the program headers; \<open>Inl\<close> in the inner sum is an early return, with the
  error and the state reached.\<close>

definition load_segment ::
  "(paddr_t \<Rightarrow> paddr_t \<Rightarrow> vaddr_t \<Rightarrow> size_t \<Rightarrow> u32 \<Rightarrow> pgstate \<Rightarrow> pgstate outcome) \<Rightarrow> paddr_t \<Rightarrow> u32 \<Rightarrow> u32 \<Rightarrow>
    pgstate \<Rightarrow> (ElfError \<times> pgstate + pgstate) outcome" where
  "load_segment mm pd hdr a s =
     (let ph = read_phdr (pmem s) a
      in if p_type ph \<noteq> PT_LOAD then Inr (Inr s)
         else if p_filesz ph > p_memsz ph then Inr (Inl (ELF_INVALID_PH, s))
         else if p_align ph < 2 \<and> p_align ph AND (p_align ph - 1) = 0 \<and> p_align ph = 0 then Inl Divide_Error
         else if p_align ph < 2 \<and> p_align ph AND (p_align ph - 1) = 0
              \<and> (p_vaddr ph mod p_align ph \<noteq> 0 \<or> p_offset ph mod p_align ph \<noteq> 0) then Inr (Inl (ELF_INVALID_PH, s))
         else if p_filesz ph = 0 then Inr (Inr s)
         else bindE (mm pd PAGE_ALLOCATE (p_vaddr ph) (p_memsz ph) (p_flags ph OR PF_W) s) (\<lambda>s.
              bindE (copy_to_user (pd_reg s) (unat (p_filesz ph)) (p_vaddr ph) (hdr + p_offset ph) (pmem s)) (\<lambda>m.
              bindE (mm pd 0 (p_vaddr ph) (p_memsz ph) (p_flags ph) (s\<lparr>pmem := m\<rparr>)) (\<lambda>s. Inr (Inr s)))))"

fun load_segments ::
  "(paddr_t \<Rightarrow> paddr_t \<Rightarrow> vaddr_t \<Rightarrow> size_t \<Rightarrow> u32 \<Rightarrow> pgstate \<Rightarrow> pgstate outcome) \<Rightarrow> paddr_t \<Rightarrow> u32 \<Rightarrow> u32 \<Rightarrow> nat \<Rightarrow>
    pgstate \<Rightarrow> (ElfError \<times> pgstate + pgstate) outcome" where
  "load_segments mm pd hdr a 0 s = Inr (Inr s)"
| "load_segments mm pd hdr a (Suc n) s =
     bindE (load_segment mm pd hdr a s) (\<lambda>r. case r of
         Inl e \<Rightarrow> Inr (Inl e)
       | Inr s \<Rightarrow> load_segments mm pd hdr (a + PHDR_SIZE) n s)"

definition elf_ctx_load :: "elf_ctx_t \<Rightarrow> exec_info option \<Rightarrow> pgstate \<Rightarrow> (ElfError \<times> exec_info option \<times> pgstate) outcome" where
  "elf_ctx_load ctx info s =
     (case info of
        None \<Rightarrow> Inr (ELF_INVALID_HDR, None, s)
      | Some i \<Rightarrow> (case ei_mmap i of
          None \<Rightarrow> Inr (ELF_INVALID_HDR, info, s)
        | Some mm \<Rightarrow>
            let no_pheaders = unat (e_phnum (read_hdr (pmem s) (elf_hdr ctx)))
            in (case ei_on_load i of
                  None \<Rightarrow> Inl Null_Deref
                | Some on_load \<Rightarrow> bindE (on_load s) (\<lambda>s.
                    bindE (load_segments mm (ei_page_directory i) (elf_hdr ctx) (program_headers ctx) no_pheaders s) (\<lambda>r.
                      case r of
                        Inl (e, s) \<Rightarrow> Inr (e, info, s)
                      | Inr s \<Rightarrow>
                          bindE (mm (ei_page_directory i) PAGE_ALLOCATE
                                  (ARCH_MAIN_THREAD_STACK_ADDR - ARCH_MAIN_THREAD_STACK_SIZE)
                                  (ARCH_MAIN_THREAD_STACK_SIZE + 4096) (PF_W OR PF_R) s) (\<lambda>s.
                            Inr (ELF_OK, Some (i\<lparr>ei_main_thread_stack_top := ARCH_MAIN_THREAD_STACK_ADDR\<rparr>), s)))))))"

definition bootstrap_elf_on_load :: "pgstate \<Rightarrow> pgstate outcome" where
  "bootstrap_elf_on_load s = Inr s"

section \<open>Changes outside the paging structures\<close>

lemma only_in_walk:
  assumes o: "only_in W m m'" and ok: "pd_ok m pd lim" and W: "\<And>q. q \<in> W \<Longrightarrow> other_page m pd q"
  shows "\<And>i. i < 1024 \<Longrightarrow> pde m' pd i = pde m pd i" "pd_ok m' pd lim" "pte_at m' pd = pte_at m pd"
    "page_walk m' pd = page_walk m pd" "\<And>q. other_page m' pd q = other_page m pd q"
proof -
  note D = pd_okD [OF ok]
  have "pd \<notin> W" using W by (auto simp: other_page_def)
  then have spd: "same_page m m' pd" using o D(1) by (simp add: only_in_def)
  then show e: "pde m' pd i = pde m pd i" if "i < 1024" for i
    using entry_offset_ok [OF that] by (simp add: pde_def same_page_def)
  show ok': "pd_ok m' pd lim" using ok e by (simp add: pd_ok_def)
  show p: "pte_at m' pd = pte_at m pd"
  proof
    fix v show "pte_at m' pd v = pte_at m pd v"
    proof (cases "v div 1024 < 1024 \<and> pde m pd (v div 1024) \<noteq> 0")
      case True
      then have "table m pd (v div 1024) \<notin> W" "pg_ok (table m pd (v div 1024))"
        using W D(3) by (auto simp: other_page_def)
      then have "same_page m m' (table m pd (v div 1024))" using o by (simp add: only_in_def)
      then have "load32 m' (cell (table m pd (v div 1024)) (4 * (v mod 1024))) =
          load32 m (cell (table m pd (v div 1024)) (4 * (v mod 1024)))"
        using entry_offset_ok [of "v mod 1024"] by (simp add: same_page_def)
      then show ?thesis using e True by (simp add: pte_at_def)
    qed (use e in \<open>auto simp: pte_at_def\<close>)
  qed
  show "page_walk m' pd = page_walk m pd"
  proof
    fix va show "page_walk m' pd va = page_walk m pd va"
      by (rule page_walk_outside [OF ok ok']) (use p e in auto)
  qed
  show "other_page m' pd q = other_page m pd q" for q
    using e by (auto simp: other_page_def)
qed

section \<open>Copying into an address space\<close>

lemma copy_to_user_ok:
  assumes ok: "pd_ok m pd lim" and W: "\<And>q. q \<in> W \<Longrightarrow> other_page m pd q"
    and pa: "\<And>k. k < n \<Longrightarrow> \<exists>fl. page_walk m pd (dst + of_nat k) = Some (pa k, fl) \<and> permits 2 fl"
    and inW: "\<And>k. k < n \<Longrightarrow> pa k AND PAGE_MASK \<in> W"
    and inj: "inj_on pa {..<n}"
    and src: "\<And>k. k < n \<Longrightarrow> (src + of_nat k) AND PAGE_MASK \<notin> W"
  shows "\<exists>m'. copy_to_user pd n dst src m = Inr m' \<and> only_in W m m'
    \<and> (\<forall>k < n. m' (pa k) = m (src + of_nat k)) \<and> (\<forall>x. x \<notin> pa ` {..<n} \<longrightarrow> m' x = m x)"
  using assms
proof (induction n arbitrary: dst src m pa)
  case 0
  then show ?case by simp
next
  case (Suc n)
  obtain fl where w0: "page_walk m pd dst = Some (pa 0, fl)" "permits 2 fl" using Suc.prems(3) [of 0] by auto
  let ?m = "m(pa 0 := m src)" and ?pa = "\<lambda>k. pa (Suc k)"
  have pg: "pg_ok (pa 0 AND PAGE_MASK)" using W [OF inW] Suc.prems(2,4) by (auto simp: other_page_def)
  have "only_in W m (m(cell (pa 0 AND PAGE_MASK) (unat (pa 0) mod 4096) := m src))"
    by (rule only_in_upd [OF pg]) (use Suc.prems(4) in auto)
  then have o: "only_in W m ?m" by (simp flip: addr_cell)
  note K = only_in_walk [OF o Suc.prems(1,2)]
  have e: "dst + of_nat (Suc k) = dst + 1 + of_nat k" "src + of_nat (Suc k) = src + 1 + of_nat k" for k
    by simp_all
  have "\<exists>m'. copy_to_user pd n (dst + 1) (src + 1) ?m = Inr m' \<and> only_in W ?m m'
    \<and> (\<forall>k < n. m' (?pa k) = ?m (src + 1 + of_nat k)) \<and> (\<forall>x. x \<notin> ?pa ` {..<n} \<longrightarrow> m' x = ?m x)"
  proof (rule Suc.IH [OF K(2)])
    show "other_page ?m pd q" if "q \<in> W" for q using K(5) Suc.prems(2) that by simp
    show "\<exists>fl. page_walk ?m pd (dst + 1 + of_nat k) = Some (?pa k, fl) \<and> permits 2 fl" if "k < n" for k
      using Suc.prems(3) [of "Suc k"] that by (simp add: K(4) flip: e)
    show "?pa k AND PAGE_MASK \<in> W" if "k < n" for k using Suc.prems(4) that by simp
    show "inj_on ?pa {..<n}" using Suc.prems(5) by (auto simp: inj_on_def)
    show "(src + 1 + of_nat k) AND PAGE_MASK \<notin> W" if "k < n" for k
      using Suc.prems(6) [of "Suc k"] that by (simp flip: e)
  qed
  then obtain m' where m': "copy_to_user pd n (dst + 1) (src + 1) ?m = Inr m'" "only_in W ?m m'"
    "\<And>k. k < n \<Longrightarrow> m' (?pa k) = ?m (src + 1 + of_nat k)" "\<And>x. x \<notin> ?pa ` {..<n} \<Longrightarrow> m' x = ?m x"
    by blast
  have src0: "src + of_nat k \<noteq> pa 0" if "k < Suc n" for k
    using Suc.prems(6) [OF that] Suc.prems(4) [of 0] by auto
  have "m' (pa k) = m (src + of_nat k)" if k: "k < Suc n" for k
  proof (cases k)
    case 0
    have "pa 0 \<notin> ?pa ` {..<n}" using Suc.prems(5) by (auto simp: inj_on_def)
    then show ?thesis using m'(4) 0 by simp
  next
    case (Suc l)
    then show ?thesis using m'(3) [of l] k src0 [OF k] by (simp add: e add.assoc)
  qed
  moreover have "m' x = m x" if "x \<notin> pa ` {..<Suc n}" for x
  proof -
    have "x \<noteq> pa 0" "x \<notin> ?pa ` {..<n}" using that by auto
    then show ?thesis using m'(4) by simp
  qed
  moreover have "copy_to_user pd (Suc n) dst src m = Inr m'" using w0 m'(1) by simp
  ultimately show ?case using only_in_trans [OF o m'(2)] by blast
qed


section \<open>Mapping within one page table\<close>

lemma one_table_count:
  assumes "v < 1048576" "spans sz n" "n < 1024" "v mod 1024 + n \<le> 1024"
  shows "unat (no_page_tables pt (of_nat (4096 * v)) sz) = (if pt = 0 then 1 else 0)"
proof -
  let ?a = "arch_get_pt_offset (of_nat (4096 * v)) ARCH_PD_0"
  have a: "unat ?a = v mod 1024" by (rule vpn_offsets(3) [OF assms(1)])
  have sz: "unat sz \<le> 4096 * n" "unat sz < 4194304" using assms(2,3) by (auto simp: spans_def)
  have q: "unat (sz div 4096) \<le> n" using sz(1) by (simp add: unat_div)
  have "unat (sz div ARCH_PT_ADDRESSABLE_BYTES) = 0"
    using sz(2) by (simp add: unat_div ARCH_PT_ADDRESSABLE_BYTES_def)
  then have z: "sz div ARCH_PT_ADDRESSABLE_BYTES = 0" by (simp add: word_unat_eq_iff)
  have "unat (?a + sz div 4096) \<le> 1024"
    using a q assms(4) unat_add_no_wrap [of ?a "sz div 4096"] by simp
  then have "\<not> ?a + sz div 4096 > 1024" by (simp add: word_less_nat_alt)
  then show ?thesis by (simp add: no_page_tables_def z Let_def del: arch_get_pt_offset.simps)
qed

lemma empties_none: "(\<And>u. v \<le> u \<Longrightarrow> u < w \<Longrightarrow> P u \<noteq> 0) \<Longrightarrow> empties P v w = 0"
  unfolding empties_def by (subst filter_False) auto

lemma one_table_pages:
  fixes v n u :: nat
  assumes "v mod 1024 + n \<le> 1024"
  shows "v \<le> u \<Longrightarrow> u < v + n \<Longrightarrow> u div 1024 = v div 1024" "v < 1048576 \<Longrightarrow> v + n \<le> 1048576"
proof -
  have v: "v = 1024 * (v div 1024) + v mod 1024" by simp
  have lin: "u div 1024 = a" if "v = 1024 * a + r" "r + n \<le> 1024" "v \<le> u" "u < v + n" for a r :: nat
  proof -
    have "1024 * a \<le> u" "u < 1024 * Suc a" using that by auto
    then show ?thesis by (intro div_nat_eqI) (auto simp: mult.commute)
  qed
  show "v \<le> u \<Longrightarrow> u < v + n \<Longrightarrow> u div 1024 = v div 1024" by (rule lin [OF v assms])
  have lin2: "v + n \<le> 1048576" if "v = 1024 * a + r" "r + n \<le> 1024" "a < 1024" for a r :: nat using that by simp
  show "v < 1048576 \<Longrightarrow> v + n \<le> 1048576" using lin2 [OF v assms] vpn_offsets(4) [of v] by simp
qed

lemma mmap_one_table:
  assumes ok: "pd_ok (pmem s) pd (unat (mm_addr s))" and pd: "pd < high_vma s"
    and v: "v < 1048576" "spans sz n" "n < 1024" "v mod 1024 + n \<le> 1024"
    and dbg: "debug \<longrightarrow> sz mod 4096 = 0"
    and fr: "frames s ((if pde (pmem s) pd (v div 1024) = 0 then 1 else 0) + (empties (pte_at (pmem s) pd) v (v + n) + N))"
  shows "\<exists>s' f. bootstrap_mmap debug kern pd PAGE_ALLOCATE (of_nat (4096 * v)) sz flags s = Inr s'
    \<and> unat (mm_addr s) \<le> f \<and> f mod 4096 = 0 \<and> unat (mm_addr s') = f + 4096 * empties (pte_at (pmem s) pd) v (v + n)
    \<and> unat (mm_addr s') < 2 ^ 32 \<and> pd_ok (pmem s') pd f
    \<and> pte_at (pmem s') pd = fst (a_map True (page_flags flags) (pte_at (pmem s) pd) f v n)
    \<and> (\<forall>q. other_page (pmem s) pd q \<longrightarrow> unat q < unat (mm_addr s) \<longrightarrow> same_page (pmem s) (pmem s') q \<and> other_page (pmem s') pd q)
    \<and> (\<forall>i < 1024. pde (pmem s) pd i \<noteq> 0 \<or> i \<noteq> v div 1024 \<longrightarrow> pde (pmem s') pd i = pde (pmem s) pd i)
    \<and> tables_added kern pd (pmem s) (pmem s')
    \<and> high_vma s' = high_vma s \<and> pd_reg s' = pd_reg s \<and> frames s' N"
proof -
  have kp: "kphys s pd = pd" using pd by (simp add: kphys_def)
  let ?t = "table (pmem s) pd (v div 1024)"
  have vd: "v div 1024 < 1024" by (rule vpn_offsets(4) [OF v(1)])
  have t0: "?t = 0 \<longleftrightarrow> pde (pmem s) pd (v div 1024) = 0"
    using pd_okD(3) [OF ok vd] by (auto simp: pg_ok_def)
  have K: "unat (no_page_tables ?t (of_nat (4096 * v)) sz) = (if pde (pmem s) pd (v div 1024) = 0 then 1 else 0)"
    using one_table_count [OF v, of ?t] t0 by simp
  have "\<exists>s' f. bootstrap_mmap debug kern pd PAGE_ALLOCATE (of_nat (4096 * v)) sz flags s = Inr s'
    \<and> pd_ok (pmem s') pd (unat (mm_addr s'))
    \<and> pte_at (pmem s') pd = fst (a_map (PAGE_ALLOCATE = PAGE_ALLOCATE) (page_flags flags) (pte_at (pmem s) pd) f v n)
    \<and> (if PAGE_ALLOCATE = PAGE_ALLOCATE
       then unat (mm_addr s) \<le> f \<and> f mod 4096 = 0 \<and> unat (mm_addr s') = f + 4096 * empties (pte_at (pmem s) pd) v (v + n)
            \<and> unat (mm_addr s') < 2 ^ 32 \<and> pd_ok (pmem s') pd f
       else f = unat PAGE_ALLOCATE)
    \<and> (\<forall>q. other_page (pmem s) pd q \<longrightarrow> unat q < unat (mm_addr s) \<longrightarrow> same_page (pmem s) (pmem s') q \<and> other_page (pmem s') pd q)
    \<and> (\<forall>i < 1024. pde (pmem s) pd i \<noteq> 0 \<or> i < v div 1024
          \<or> v div 1024 + (if pde (pmem s) pd (v div 1024) = 0 then 1 else 0) \<le> i \<longrightarrow> pde (pmem s') pd i = pde (pmem s) pd i)
    \<and> tables_added kern pd (pmem s) (pmem s') \<and> unat (mm_addr s) \<le> unat (mm_addr s')
    \<and> high_vma s' = high_vma s \<and> pd_reg s' = pd_reg s \<and> frames s' N"
  proof (rule bootstrap_mmap_span [where s = s and pdv = pd and v = v and sz = sz and n = n and paddr = PAGE_ALLOCATE
      and debug = debug and N = N and kern = kern and flags = flags, unfolded kp K])
    show "pde (pmem s) pd (u div 1024) \<noteq> 0 \<or> u div 1024 < v div 1024 + (if pde (pmem s) pd (v div 1024) = 0 then 1 else 0)"
      if "v \<le> u" "u < v + n" for u
      using one_table_pages(1) [OF v(4) that] by simp
  qed (use ok v fr vd dbg one_table_pages(2) [OF v(4,1)] in \<open>simp_all add: PAGE_ALLOCATE_def\<close>)
  then show ?thesis by (auto simp: neq_iff Suc_le_eq)
qed


section \<open>What a process sees\<close>

definition user_byte :: "mem \<Rightarrow> paddr_t \<Rightarrow> vaddr_t \<Rightarrow> u8 option" where
  "user_byte m pd va = map_option (\<lambda>(pa, _). m pa) (page_walk m pd va)"

abbreviation frame :: "mem \<Rightarrow> paddr_t \<Rightarrow> nat \<Rightarrow> paddr_t" where
  "frame m pd u \<equiv> pte_at m pd u AND PAGE_MASK"

abbreviation vpn :: "vaddr_t \<Rightarrow> nat" where
  "vpn va \<equiv> unat va div 4096"

lemma walk_frame:
  assumes "pd_ok m pd lim" "bit (pte_at m pd (vpn va)) 0"
  shows "\<exists>fl. page_walk m pd va = Some (cell (frame m pd (vpn va)) (unat va mod 4096), fl)"
    "user_byte m pd va = Some (m (cell (frame m pd (vpn va)) (unat va mod 4096)))"
  using assms(2) by (simp_all add: user_byte_def page_walk_pte [OF assms(1)] Let_def frame_low)

lemma walk_flags:
  assumes "pd_ok m pd lim" "bit (pte_at m pd (vpn va)) 0"
  shows "page_walk m pd va = Some (cell (frame m pd (vpn va)) (unat va mod 4096), pde m pd (vpn va div 1024) AND pte_at m pd (vpn va) AND 6)"
  using assms(2) by (simp add: page_walk_pte [OF assms(1)] Let_def frame_low)

text \<open>A directory entry that is free for a table of user pages, or has one.\<close>

abbreviation user_table :: "mem \<Rightarrow> paddr_t \<Rightarrow> nat \<Rightarrow> bool" where
  "user_table m pd i \<equiv> pde m pd i = 0 \<or> pde m pd i AND 6 = 6"

lemma user_table_flags:
  fixes e x :: u32
  assumes "e AND 6 = 6"
  shows "e AND x AND 6 = x AND 6" "bit x 1 \<Longrightarrow> permits 2 (e AND x AND 6)"
proof -
  have "e AND x AND 6 = x AND (e AND 6)" by (simp add: ac_simps)
  then show e: "e AND x AND 6 = x AND 6" using assms by simp
  assume "bit x 1"
  then have "2 AND (x AND 6) = (2 :: u32)" by (intro bit_word_eqI) (auto simp: bit_simps bit_numeral_rec(2) nat.split split: nat.splits)
  then show "permits 2 (e AND x AND 6)" by (simp add: permits_def e)
qed

lemma user_byte_same:
  assumes ok: "pd_ok m pd lim" "pd_ok m' pd lim'"
    and p: "pte_at m' pd (vpn va) = pte_at m pd (vpn va)"
    and d: "\<forall>i < 1024. pde m pd i \<noteq> 0 \<longrightarrow> pde m' pd i = pde m pd i"
    and f: "same_page m m' (frame m pd (vpn va))"
  shows "user_byte m' pd va = user_byte m pd va"
proof (cases "bit (pte_at m pd (vpn va)) 0")
  case True
  then have "bit (pte_at m' pd (vpn va)) 0" using p by simp
  then show ?thesis
    using walk_frame(2) [OF ok(1) True] walk_frame(2) [OF ok(2)] p f by (simp add: same_page_bytes)
next
  case False
  then show ?thesis using p by (simp add: user_byte_def page_walk_pte [OF ok(1)] page_walk_pte [OF ok(2)])
qed

section \<open>The loader's invariant\<close>

text \<open>
  The pages \<open>U\<close> loaded so far have frames of their own, taken from the memory above \<open>lo\<close> and not used
  by the paging structures.
\<close>

definition owned :: "mem \<Rightarrow> paddr_t \<Rightarrow> nat \<Rightarrow> nat \<Rightarrow> nat set \<Rightarrow> bool" where
  "owned m pd lo hi U \<longleftrightarrow> inj_on (frame m pd) U
     \<and> (\<forall>u \<in> U. other_page m pd (frame m pd u) \<and> lo \<le> unat (frame m pd u) \<and> unat (frame m pd u) + 4096 \<le> hi)"

definition linv :: "pgstate \<Rightarrow> paddr_t \<Rightarrow> nat \<Rightarrow> nat set \<Rightarrow> bool" where
  "linv s pd lo U \<longleftrightarrow> pd_ok (pmem s) pd (unat (mm_addr s)) \<and> lo \<le> unat (mm_addr s)
     \<and> owned (pmem s) pd lo (unat (mm_addr s)) U \<and> pd < high_vma s \<and> pd_reg s = pd"

lemma linv_table: "linv s pd lo U \<Longrightarrow> u \<in> U \<Longrightarrow> pte_at (pmem s) pd u \<noteq> 0 \<and> pde (pmem s) pd (u div 1024) \<noteq> 0"
  by (auto simp: linv_def owned_def other_page_def pg_ok_def pte_at_def)

lemma added_user_table:
  assumes "tables_added False pd m m'" "i < 1024" "pde m pd i = 0" "pde m' pd i \<noteq> 0"
  shows "pde m' pd i AND 6 = 6"
proof -
  have "pde m' pd i AND 7 = 7" using assms by (simp add: tables_added_def table_flags_def)
  moreover have "pde m' pd i AND 6 = (pde m' pd i AND 7) AND 6" by (simp add: and.assoc)
  ultimately show ?thesis by simp
qed

text \<open>What a step of the loader leaves as it was.\<close>

definition lkeeps :: "pgstate \<Rightarrow> pgstate \<Rightarrow> paddr_t \<Rightarrow> nat \<Rightarrow> nat set \<Rightarrow> bool" where
  "lkeeps s s' pd lo U \<longleftrightarrow> (\<forall>va. vpn va \<in> U \<longrightarrow> user_byte (pmem s') pd va = user_byte (pmem s) pd va)
     \<and> (\<forall>q. other_page (pmem s) pd q \<longrightarrow> unat q < lo \<longrightarrow> same_page (pmem s) (pmem s') q \<and> other_page (pmem s') pd q)
     \<and> high_vma s' = high_vma s \<and> unat (mm_addr s) \<le> unat (mm_addr s')"

lemma lkeeps_trans: "lkeeps s s1 pd lo U \<Longrightarrow> lkeeps s1 s2 pd lo U \<Longrightarrow> lkeeps s s2 pd lo U"
  unfolding lkeeps_def using same_page_trans order_trans by (metis (no_types, lifting))

lemma lkeeps_mono: "lkeeps s s' pd lo U \<Longrightarrow> V \<subseteq> U \<Longrightarrow> lkeeps s s' pd lo V"
  unfolding lkeeps_def by blast

lemma lkeeps_refl: "lkeeps s s pd lo U"
  by (simp add: lkeeps_def)

lemma aligned_frame:
  assumes "x mod 4096 = 0" "x < 4294967296"
  shows "(of_nat x AND PAGE_MASK :: u32) = of_nat x" "unat (of_nat x :: u32) = x"
proof -
  show u: "unat (of_nat x :: u32) = x" by (rule unat_of_nat_u32 [OF assms(2)])
  have "unat (of_nat x AND PAGE_MASK :: u32) = x" using assms(1) u by (auto simp: page_mask_unat)
  then show "(of_nat x AND PAGE_MASK :: u32) = of_nat x" using u by (simp add: word_unat_eq_iff)
qed

text \<open>Mapping pages that were not mapped, with frames from \<open>f\<close> on.\<close>

lemma map_fresh:
  assumes inv: "linv s pd lo U" and lo: "0 < lo"
    and new: "\<And>u. v \<le> u \<Longrightarrow> u < v + n \<Longrightarrow> pte_at (pmem s) pd u = 0"
    and f: "unat (mm_addr s) \<le> f" "f mod 4096 = 0" "unat (mm_addr s') = f + 4096 * n" "f + 4096 * n < 4294967296"
    and ok': "pd_ok (pmem s') pd f"
    and pte: "pte_at (pmem s') pd = fst (a_map True (page_flags flags) (pte_at (pmem s) pd) f v n)"
    and oth: "\<And>q. other_page (pmem s) pd q \<Longrightarrow> unat q < unat (mm_addr s) \<Longrightarrow> same_page (pmem s) (pmem s') q \<and> other_page (pmem s') pd q"
    and pdes: "\<And>i. i < 1024 \<Longrightarrow> pde (pmem s) pd i \<noteq> 0 \<Longrightarrow> pde (pmem s') pd i = pde (pmem s) pd i"
    and rest: "high_vma s' = high_vma s" "pd_reg s' = pd_reg s"
  shows "linv s' pd lo (U \<union> {v..<v + n}) \<and> lkeeps s s' pd lo U
    \<and> (\<forall>u. if v \<le> u \<and> u < v + n then pte_at (pmem s') pd u AND 0xFFF = page_flags flags
           else pte_at (pmem s') pd u = pte_at (pmem s) pd u)"
proof -
  from inv have ok: "pd_ok (pmem s) pd (unat (mm_addr s))" and lo': "lo \<le> unat (mm_addr s)"
    and own: "owned (pmem s) pd lo (unat (mm_addr s)) U" and pd: "pd < high_vma s" "pd_reg s = pd"
    by (auto simp: linv_def)
  let ?P = "pte_at (pmem s) pd"
  have E: "empties ?P v u = u - v" if "u \<le> v + n" for u using new that by (intro empties_all) auto
  have in_range: "pte_at (pmem s') pd u = (of_nat (f + 4096 * (u - v)) AND PAGE_MASK) OR page_flags flags" if "v \<le> u" "u < v + n" for u
    using that new [OF that] E [of u] by (simp add: pte a_map_at)
  have outside: "pte_at (pmem s') pd u = ?P u" if "\<not> (v \<le> u \<and> u < v + n)" for u
    using that by (auto simp: pte a_map_at)
  have al: "(f + 4096 * k) mod 4096 = 0" for k using f(2) by simp
  have fru: "frame (pmem s') pd u = of_nat (f + 4096 * (u - v))" "unat (frame (pmem s') pd u) = f + 4096 * (u - v)"
    "f + 4096 * (u - v) + 4096 \<le> unat (mm_addr s')" if "v \<le> u" "u < v + n" for u
  proof -
    have "u - v < n" using that by simp
    then have "4096 * (u - v) + 4096 \<le> 4096 * n" by simp
    then show le: "f + 4096 * (u - v) + 4096 \<le> unat (mm_addr s')" using f(3) by simp
    have lt: "f + 4096 * (u - v) < 4294967296" using le f(3,4) by simp
    show fe: "frame (pmem s') pd u = of_nat (f + 4096 * (u - v))"
      unfolding in_range [OF that] mask_or_flags(1) [OF page_flags_small(1)] by (rule aligned_frame(1) [OF al lt])
    show "unat (frame (pmem s') pd u) = f + 4096 * (u - v)" unfolding fe by (rule aligned_frame(2) [OF al lt])
  qed
  have nr: "\<not> (v \<le> u \<and> u < v + n)" if "u \<in> U" for u
    using own that new [of u] by (auto simp: owned_def other_page_def pg_ok_def)
  have old: "frame (pmem s') pd u = frame (pmem s) pd u" if "u \<in> U" for u
    using outside [OF nr [OF that]] by simp
  have newpage: "other_page (pmem s') pd (frame (pmem s') pd u)" if "v \<le> u" "u < v + n" for u
  proof -
    have "pg_ok (frame (pmem s') pd u)"
      using fru [OF that] f lo lo' al [of "u - v"] by (auto simp: pg_ok_def word_unat_eq_iff)
    moreover have "frame (pmem s') pd u \<noteq> pd" using pd_okD(2) [OF ok'] fru(2) [OF that] by auto
    moreover have "table (pmem s') pd i \<noteq> frame (pmem s') pd u" if "i < 1024" "pde (pmem s') pd i \<noteq> 0" for i
      using pd_okD(3) [OF ok' that] fru(2) [OF \<open>v \<le> u\<close> \<open>u < v + n\<close>] by auto
    ultimately show ?thesis by (simp add: other_page_def)
  qed
  have ou: "other_page (pmem s) pd (frame (pmem s) pd u)" "lo \<le> unat (frame (pmem s) pd u)"
    "unat (frame (pmem s) pd u) + 4096 \<le> unat (mm_addr s)" if "u \<in> U" for u
    using own that by (auto simp: owned_def)
  have "inj_on (frame (pmem s') pd) (U \<union> {v..<v + n})"
  proof (rule inj_onI)
    fix x y assume xy: "x \<in> U \<union> {v..<v + n}" "y \<in> U \<union> {v..<v + n}" "frame (pmem s') pd x = frame (pmem s') pd y"
    have U: "z \<in> U \<Longrightarrow> unat (frame (pmem s') pd z) < f" for z using old ou(3) [of z] f(1) by simp
    have R: "z \<in> {v..<v + n} \<Longrightarrow> f \<le> unat (frame (pmem s') pd z)" for z using fru(2) [of z] by simp
    consider "x \<in> U \<and> y \<in> U" | "x \<in> {v..<v + n} \<and> y \<in> {v..<v + n}"
      using xy U [of x] U [of y] R [of x] R [of y] by fastforce
    then show "x = y"
    proof cases
      case 1
      then show ?thesis using own xy(3) old by (auto simp: owned_def inj_on_def)
    next
      case 2
      then show ?thesis using fru(2) [of x] fru(2) [of y] xy(3) by auto
    qed
  qed
  moreover have "other_page (pmem s') pd (frame (pmem s') pd u) \<and> lo \<le> unat (frame (pmem s') pd u)
      \<and> unat (frame (pmem s') pd u) + 4096 \<le> unat (mm_addr s')" if "u \<in> U \<union> {v..<v + n}" for u
    using that old [of u] ou [of u] oth [of "frame (pmem s) pd u"] newpage [of u] fru(2,3) [of u] f lo' by auto
  ultimately have "owned (pmem s') pd lo (unat (mm_addr s')) (U \<union> {v..<v + n})" by (simp add: owned_def)
  then have "linv s' pd lo (U \<union> {v..<v + n})"
    using pd_ok_mono [OF ok'] f lo' pd rest by (simp add: linv_def)
  moreover have "user_byte (pmem s') pd va = user_byte (pmem s) pd va" if "vpn va \<in> U" for va
    using ou [OF that] oth [of "frame (pmem s) pd (vpn va)"] outside [OF nr [OF that]]
    by (intro user_byte_same [OF ok ok']) (auto simp: pdes)
  then have "lkeeps s s' pd lo U" using oth lo' rest(1) f(1,3) by (auto simp: lkeeps_def)
  moreover have "pte_at (pmem s') pd u AND 0xFFF = page_flags flags" if "v \<le> u" "u < v + n" for u
    unfolding in_range [OF that] by (rule mask_or_flags(2) [OF page_flags_small(1)])
  ultimately show ?thesis using outside by auto
qed


text \<open>First mapping of a segment.\<close>

lemma load_map_new:
  assumes inv: "linv s pd lo U" and lo: "0 < lo"
    and v: "v < 1048576" "spans sz n" "n < 1024" "v mod 1024 + n \<le> 1024"
    and new: "\<And>u. v \<le> u \<Longrightarrow> u < v + n \<Longrightarrow> pte_at (pmem s) pd u = 0"
    and dbg: "debug \<longrightarrow> sz mod 4096 = 0" and fr: "frames s (Suc n + N)" and n0: "0 < n"
  shows "\<exists>s'. bootstrap_mmap debug False pd PAGE_ALLOCATE (of_nat (4096 * v)) sz flags s = Inr s'
    \<and> linv s' pd lo (U \<union> {v..<v + n}) \<and> lkeeps s s' pd lo U \<and> frames s' N
    \<and> (\<forall>u. if v \<le> u \<and> u < v + n then pte_at (pmem s') pd u AND 0xFFF = page_flags flags
           else pte_at (pmem s') pd u = pte_at (pmem s) pd u)
    \<and> (\<forall>i < 1024. pde (pmem s) pd i \<noteq> 0 \<or> i \<noteq> v div 1024 \<longrightarrow> pde (pmem s') pd i = pde (pmem s) pd i)
    \<and> (user_table (pmem s) pd (v div 1024) \<longrightarrow> pde (pmem s') pd (v div 1024) AND 6 = 6)"
proof -
  from inv have ok: "pd_ok (pmem s) pd (unat (mm_addr s))" and pd: "pd < high_vma s" by (auto simp: linv_def)
  let ?P = "pte_at (pmem s) pd"
  have E: "empties ?P v (v + n) = n" using new by (subst empties_all) auto
  have fr': "frames s ((if pde (pmem s) pd (v div 1024) = 0 then 1 else 0) + (empties ?P v (v + n) + N))"
    using E by (intro frames_less [OF fr]) simp
  obtain s' f where s': "bootstrap_mmap debug False pd PAGE_ALLOCATE (of_nat (4096 * v)) sz flags s = Inr s'"
    "unat (mm_addr s) \<le> f" "f mod 4096 = 0" "unat (mm_addr s') = f + 4096 * n" "f + 4096 * n < 4294967296"
    "pd_ok (pmem s') pd f" "pte_at (pmem s') pd = fst (a_map True (page_flags flags) ?P f v n)"
    "\<And>q. other_page (pmem s) pd q \<Longrightarrow> unat q < unat (mm_addr s) \<Longrightarrow> same_page (pmem s) (pmem s') q \<and> other_page (pmem s') pd q"
    "\<And>i. i < 1024 \<Longrightarrow> pde (pmem s) pd i \<noteq> 0 \<or> i \<noteq> v div 1024 \<Longrightarrow> pde (pmem s') pd i = pde (pmem s) pd i"
    "high_vma s' = high_vma s" "pd_reg s' = pd_reg s" "frames s' N" "tables_added False pd (pmem s) (pmem s')"
    using mmap_one_table [OF ok pd v dbg fr', of False flags] E by auto
  moreover from this have L: "linv s' pd lo (U \<union> {v..<v + n}) \<and> lkeeps s s' pd lo U
    \<and> (\<forall>u. if v \<le> u \<and> u < v + n then pte_at (pmem s') pd u AND 0xFFF = page_flags flags
           else pte_at (pmem s') pd u = pte_at (pmem s) pd u)"
    by (intro map_fresh [OF inv lo new]) simp_all
  moreover have "pde (pmem s') pd (v div 1024) AND 6 = 6" if t: "user_table (pmem s) pd (v div 1024)"
  proof -
    have vd: "v div 1024 < 1024" by (rule vpn_offsets(4) [OF v(1)])
    have "pde (pmem s') pd (v div 1024) \<noteq> 0" using linv_table [OF conjunct1 [OF L], of v] n0 by simp
    then show ?thesis using t s'(9) [OF vd] added_user_table [OF s'(13) vd] by (cases "pde (pmem s) pd (v div 1024) = 0") auto
  qed
  ultimately show ?thesis by blast
qed

text \<open>Mapping the pages of a segment again, with other flags.\<close>

lemma load_map_again:
  assumes inv: "linv s pd lo U" and U: "{v..<v + n} \<subseteq> U"
    and v: "v < 1048576" "spans sz n" "n < 1024" "v mod 1024 + n \<le> 1024" "0 < n"
    and dbg: "debug \<longrightarrow> sz mod 4096 = 0" and fr: "frames s N"
  shows "\<exists>s'. bootstrap_mmap debug False pd PAGE_ALLOCATE (of_nat (4096 * v)) sz flags s = Inr s'
    \<and> linv s' pd lo U \<and> lkeeps s s' pd lo (U - {v..<v + n}) \<and> frames s' N
    \<and> (\<forall>u. pte_at (pmem s') pd u = (if v \<le> u \<and> u < v + n then frame (pmem s) pd u OR page_flags flags else pte_at (pmem s) pd u))
    \<and> (\<forall>u \<in> U. same_page (pmem s) (pmem s') (frame (pmem s) pd u))
    \<and> (\<forall>i < 1024. pde (pmem s') pd i = pde (pmem s) pd i)"
proof -
  from inv have ok: "pd_ok (pmem s) pd (unat (mm_addr s))" and lo': "lo \<le> unat (mm_addr s)"
    and own: "owned (pmem s) pd lo (unat (mm_addr s)) U" and pd: "pd < high_vma s" "pd_reg s = pd"
    by (auto simp: linv_def)
  let ?P = "pte_at (pmem s) pd"
  have nz: "?P u \<noteq> 0" if "u \<in> U" for u using own that by (auto simp: owned_def other_page_def pg_ok_def)
  have nz': "?P u \<noteq> 0" if "v \<le> u" "u < v + n" for u using nz [of u] U that by auto
  have E: "empties ?P v (v + n) = 0" using nz' by (intro empties_none) auto
  have "pde (pmem s) pd (v div 1024) \<noteq> 0" using nz' [of v] v(5) by (auto simp: pte_at_def split: if_splits)
  note vnz = this
  then have fr': "frames s ((if pde (pmem s) pd (v div 1024) = 0 then 1 else 0) + (empties ?P v (v + n) + N))"
    using E fr by simp
  obtain s' f where run: "bootstrap_mmap debug False pd PAGE_ALLOCATE (of_nat (4096 * v)) sz flags s = Inr s'"
    and f: "unat (mm_addr s) \<le> f" "unat (mm_addr s') = f"
    and ok': "pd_ok (pmem s') pd f"
    and pte: "pte_at (pmem s') pd = fst (a_map True (page_flags flags) ?P f v n)"
    and oth: "\<And>q. other_page (pmem s) pd q \<Longrightarrow> unat q < unat (mm_addr s) \<Longrightarrow> same_page (pmem s) (pmem s') q \<and> other_page (pmem s') pd q"
    and pdes: "\<forall>i < 1024. pde (pmem s) pd i \<noteq> 0 \<or> i \<noteq> v div 1024 \<longrightarrow> pde (pmem s') pd i = pde (pmem s) pd i"
    and rest: "high_vma s' = high_vma s" "pd_reg s' = pd_reg s" "frames s' N"
    using mmap_one_table [OF ok pd(1) v(1-4) dbg fr', of False flags] E by auto
  have new: "pte_at (pmem s') pd u = (if v \<le> u \<and> u < v + n then frame (pmem s) pd u OR page_flags flags else ?P u)" for u
    using nz' [of u] by (auto simp: pte a_map_at)
  have same: "frame (pmem s') pd u = frame (pmem s) pd u" for u
    unfolding new using mask_or_flags(1) [OF page_flags_small(1)] by simp
  have ou: "other_page (pmem s) pd (frame (pmem s) pd u)" "lo \<le> unat (frame (pmem s) pd u)"
    "unat (frame (pmem s) pd u) + 4096 \<le> unat (mm_addr s)" if "u \<in> U" for u
    using own that by (auto simp: owned_def)
  have keep: "same_page (pmem s) (pmem s') (frame (pmem s) pd u) \<and> other_page (pmem s') pd (frame (pmem s) pd u)" if "u \<in> U" for u
    using oth [OF ou(1) [OF that]] ou(3) [OF that] by simp
  have "owned (pmem s') pd lo (unat (mm_addr s')) U"
    using own keep f unfolding owned_def same by auto
  then have "linv s' pd lo U" using ok' f lo' pd rest by (simp add: linv_def)
  moreover have "user_byte (pmem s') pd va = user_byte (pmem s) pd va" if "vpn va \<in> U - {v..<v + n}" for va
    using that keep [of "vpn va"] by (intro user_byte_same [OF ok ok']) (auto simp: new pdes)
  then have "lkeeps s s' pd lo (U - {v..<v + n})" using oth lo' rest(1) f by (auto simp: lkeeps_def)
  moreover have "\<forall>i < 1024. pde (pmem s') pd i = pde (pmem s) pd i" using pdes vnz by blast
  ultimately show ?thesis using run rest(3) new keep by blast
qed

lemma vpn_add:
  assumes "v < 1048576" "k < 4096 * n" "v + n \<le> 1048576"
  shows "vpn (of_nat (4096 * v) + of_nat k) = v + k div 4096"
    "unat (of_nat (4096 * v) + of_nat k :: u32) mod 4096 = k mod 4096"
proof -
  have "4096 * v + k < 4294967296" using assms by linarith
  then have "unat (of_nat (4096 * v) + of_nat k :: u32) = 4096 * v + k"
    using unat_of_nat_u32 [of "4096 * v + k"] by simp
  then show "vpn (of_nat (4096 * v) + of_nat k) = v + k div 4096"
    "unat (of_nat (4096 * v) + of_nat k :: u32) mod 4096 = k mod 4096" by simp_all
qed

text \<open>Copying a segment's bytes into its pages.\<close>

lemma load_copy:
  assumes inv: "linv s pd lo U" and U: "{v..<v + n} \<subseteq> U" and v: "v < 1048576" "v + n \<le> 1048576"
    and pres: "\<And>u. v \<le> u \<Longrightarrow> u < v + n \<Longrightarrow> bit (pte_at (pmem s) pd u) 0 \<and> bit (pte_at (pmem s) pd u) 1 \<and> pde (pmem s) pd (u div 1024) AND 6 = 6"
    and len: "len \<le> 4096 * n"
    and src: "\<And>k. k < len \<Longrightarrow> unat ((src + of_nat k) AND PAGE_MASK) < lo"
  shows "\<exists>m'. copy_to_user pd len (of_nat (4096 * v)) src (pmem s) = Inr m' \<and> linv (s\<lparr>pmem := m'\<rparr>) pd lo U
    \<and> lkeeps s (s\<lparr>pmem := m'\<rparr>) pd lo (U - {v..<v + n}) \<and> pte_at m' pd = pte_at (pmem s) pd
    \<and> (\<forall>i < 1024. pde m' pd i = pde (pmem s) pd i)
    \<and> (\<forall>k < len. m' (cell (frame (pmem s) pd (v + k div 4096)) (k mod 4096)) = pmem s (src + of_nat k))"
proof -
  let ?m = "pmem s" and ?W = "frame (pmem s) pd ` {v..<v + n}"
  from inv have ok: "pd_ok ?m pd (unat (mm_addr s))" and lo': "lo \<le> unat (mm_addr s)"
    and own: "owned ?m pd lo (unat (mm_addr s)) U" and pd: "pd < high_vma s" "pd_reg s = pd"
    by (auto simp: linv_def)
  have ou: "other_page ?m pd (frame ?m pd u)" "lo \<le> unat (frame ?m pd u)" if "u \<in> U" for u
    using own that by (auto simp: owned_def)
  define pa where "pa k = cell (frame ?m pd (v + k div 4096)) (k mod 4096)" for k
  have kn: "v + k div 4096 \<in> {v..<v + n}" if "k < len" for k
    using that len by (simp add: less_mult_imp_div_less mult.commute)
  have pgk: "pg_ok (frame ?m pd (v + k div 4096))" if "k < len" for k
    using ou(1) [of "v + k div 4096"] subsetD [OF U kn [OF that]] by (simp add: other_page_def)
  have pam: "pa k AND PAGE_MASK = frame ?m pd (v + k div 4096)" if "k < len" for k
    unfolding pa_def by (rule cell_page [OF pgk [OF that]]) simp
  have W: "other_page ?m pd q" if "q \<in> ?W" for q using that ou(1) U by auto
  have "\<exists>m'. copy_to_user pd len (of_nat (4096 * v)) src ?m = Inr m' \<and> only_in ?W ?m m'
    \<and> (\<forall>k < len. m' (pa k) = ?m (src + of_nat k)) \<and> (\<forall>x. x \<notin> pa ` {..<len} \<longrightarrow> m' x = ?m x)"
  proof (rule copy_to_user_ok [OF ok W])
    fix k assume k: "k < len"
    have va: "vpn (of_nat (4096 * v) + of_nat k) = v + k div 4096" "unat (of_nat (4096 * v) + of_nat k :: u32) mod 4096 = k mod 4096"
      using vpn_add [OF v(1) _ v(2), of k] k len by auto
    have P: "bit (pte_at ?m pd (v + k div 4096)) 0" "bit (pte_at ?m pd (v + k div 4096)) 1" "pde ?m pd ((v + k div 4096) div 1024) AND 6 = 6"
      using pres kn [OF k] by auto
    show "\<exists>fl. page_walk ?m pd (of_nat (4096 * v) + of_nat k) = Some (pa k, fl) \<and> permits 2 fl"
      using walk_flags [OF ok, of "of_nat (4096 * v) + of_nat k"] P(1) user_table_flags(2) [OF P(3,2)] unfolding va pa_def by blast
    show "pa k AND PAGE_MASK \<in> ?W" using pam [OF k] kn [OF k] by auto
    show "(src + of_nat k) AND PAGE_MASK \<notin> ?W" using src [OF k] ou(2) U by fastforce
  next
    show "inj_on pa {..<len}"
    proof (rule inj_onI)
      fix k l assume kl: "k \<in> {..<len}" "l \<in> {..<len}" "pa k = pa l"
      then have "frame ?m pd (v + k div 4096) = frame ?m pd (v + l div 4096) \<and> k mod 4096 = l mod 4096"
        using cell_eq_iff [OF pgk pgk, of k l "k mod 4096" "l mod 4096"] by (simp add: pa_def)
      moreover from this have "k div 4096 = l div 4096"
        using inj_onD [OF conjunct1 [OF own [unfolded owned_def]], of "v + k div 4096" "v + l div 4096"]
          subsetD [OF U kn [of k]] subsetD [OF U kn [of l]] kl by simp
      ultimately show "k = l" by (metis div_mult_mod_eq)
    qed
  qed
  then obtain m' where m': "copy_to_user pd len (of_nat (4096 * v)) src ?m = Inr m'" "only_in ?W ?m m'"
    "\<forall>k < len. m' (pa k) = ?m (src + of_nat k)"
    by blast
  note K = only_in_walk [OF m'(2) ok W]
  have "owned m' pd lo (unat (mm_addr s)) U" using own by (simp add: owned_def K(3,5))
  then have "linv (s\<lparr>pmem := m'\<rparr>) pd lo U" using K(2) lo' pd by (simp add: linv_def)
  moreover have same: "same_page ?m m' q" if "other_page ?m pd q" "q \<notin> ?W" for q
    using m'(2) that by (auto simp: only_in_def other_page_def)
  have "user_byte m' pd va = user_byte ?m pd va" if "vpn va \<in> U - {v..<v + n}" for va
  proof (rule user_byte_same [OF ok K(2)])
    have "frame ?m pd (vpn va) \<notin> frame ?m pd ` {v..<v + n}"
      using inj_on_image_mem_iff [OF conjunct1 [OF own [unfolded owned_def]] _ U, of "vpn va"] that by simp
    then show "same_page ?m m' (frame ?m pd (vpn va))" using ou(1) that by (intro same) auto
  qed (use K in auto)
  moreover have "same_page ?m m' q" if "other_page ?m pd q" "unat q < lo" for q
    using that ou(2) U by (intro same) fastforce+
  ultimately show ?thesis
    using m'(1,3) K(1,3,5) by (intro exI [of _ m']) (auto simp: lkeeps_def pa_def)
qed


section \<open>Segments\<close>

abbreviation seg_vpn :: "Elf_Phdr \<Rightarrow> nat" where
  "seg_vpn ph \<equiv> unat (p_vaddr ph) div 4096"

definition seg_pages :: "Elf_Phdr \<Rightarrow> nat" where
  "seg_pages ph = (unat (p_memsz ph) + 4095) div 4096"

definition seg_range :: "Elf_Phdr \<Rightarrow> nat set" where
  "seg_range ph = {seg_vpn ph..<seg_vpn ph + seg_pages ph}"

text \<open>The segments the loader can load: page-aligned, within the reach of one page table, readable or
  writable.\<close>

definition seg_ok :: "Elf_Phdr \<Rightarrow> bool" where
  "seg_ok ph \<longleftrightarrow> p_filesz ph \<le> p_memsz ph \<and> 2 \<le> p_align ph \<and> p_vaddr ph mod 4096 = 0
     \<and> seg_pages ph < 1024 \<and> seg_vpn ph mod 1024 + seg_pages ph \<le> 1024 \<and> p_flags ph AND 6 \<noteq> 0"

definition seg_loads :: "Elf_Phdr \<Rightarrow> bool" where
  "seg_loads ph \<longleftrightarrow> p_type ph = PT_LOAD \<and> p_filesz ph \<noteq> 0"

text \<open>A stretch of physical memory that is not part of the paging structures and lies below the memory handed out.\<close>

definition image_at :: "mem \<Rightarrow> paddr_t \<Rightarrow> nat \<Rightarrow> u32 \<Rightarrow> nat \<Rightarrow> bool" where
  "image_at m pd lo a len \<longleftrightarrow> (\<forall>k < len. other_page m pd ((a + of_nat k) AND PAGE_MASK) \<and> unat ((a + of_nat k) AND PAGE_MASK) < lo)"

definition seg_loaded :: "mem \<Rightarrow> mem \<Rightarrow> paddr_t \<Rightarrow> u32 \<Rightarrow> Elf_Phdr \<Rightarrow> bool" where
  "seg_loaded m0 m pd hdr ph \<longleftrightarrow>
     (\<forall>k < unat (p_filesz ph). user_byte m pd (p_vaddr ph + of_nat k) = Some (m0 (hdr + p_offset ph + of_nat k)))
     \<and> (\<forall>u \<in> seg_range ph. pte_at m pd u AND 0xFFF = page_flags (elf_prot (p_flags ph)))"

lemma image_keep:
  assumes "image_at (pmem s) pd lo a len" "lkeeps s s' pd lo U"
  shows "image_at (pmem s') pd lo a len" "k < len \<Longrightarrow> pmem s' (a + of_nat k) = pmem s (a + of_nat k)"
proof -
  have I: "other_page (pmem s) pd ((a + of_nat k) AND PAGE_MASK)" "unat ((a + of_nat k) AND PAGE_MASK) < lo" if "k < len" for k
    using assms(1) that by (auto simp: image_at_def)
  have L: "same_page (pmem s) (pmem s') ((a + of_nat k) AND PAGE_MASK)" "other_page (pmem s') pd ((a + of_nat k) AND PAGE_MASK)"
    if "k < len" for k
    using assms(2) I [OF that] by (auto simp: lkeeps_def)
  show "image_at (pmem s') pd lo a len" using L(2) I(2) by (simp add: image_at_def)
  assume k: "k < len"
  let ?a = "a + of_nat k"
  have "pmem s' (cell (?a AND PAGE_MASK) (unat ?a mod 4096)) = pmem s (cell (?a AND PAGE_MASK) (unat ?a mod 4096))"
    using L(1) [OF k] by (simp add: same_page_bytes)
  then show "pmem s' ?a = pmem s ?a" by (simp flip: addr_cell)
qed

lemma elf_page_flags: "page_flags (elf_prot f) = (if f AND 6 = 0 then 0 else 5 OR (if bit f 1 then 2 else 0))"
proof -
  have e: "f AND 2 = 0 \<longleftrightarrow> \<not> bit f 1" "f AND 4 = 0 \<longleftrightarrow> \<not> bit f 2"
    using and_exp_eq_0_iff_not_bit [of f 1] and_exp_eq_0_iff_not_bit [of f 2] by simp_all
  have "f AND 6 = (f AND 2) OR (f AND 4)" by (simp flip: bit.conj_disj_distrib)
  moreover have "x OR y = 0 \<longleftrightarrow> x = 0 \<and> y = 0" for x y :: u32 by (auto simp: or_eq_0_iff)
  ultimately have z: "f AND 6 = 0 \<longleftrightarrow> \<not> bit f 1 \<and> \<not> bit f 2" using e by simp
  show ?thesis
    unfolding z elf_prot_def page_flags_def
    by (auto simp: Let_def e PF_W_def PF_R_def KMAP_PROT_EXEC_def KMAP_PROT_READ_def KMAP_PROT_WRITE_def KMAP_PROT_USER_def
        KMAP_PROT_NONE_def ARCH_PD_ENTRY_PRESENT_def ARCH_PD_ENTRY_RW_def ARCH_PD_ENTRY_USER_def)
qed

lemma seg_okD:
  assumes "seg_ok ph" "p_filesz ph \<noteq> 0"
  shows "p_vaddr ph = of_nat (4096 * seg_vpn ph)" "seg_vpn ph < 1048576" "spans (p_memsz ph) (seg_pages ph)"
    "0 < seg_pages ph" "unat (p_filesz ph) \<le> 4096 * seg_pages ph" "seg_vpn ph + seg_pages ph \<le> 1048576"
    "bit (page_flags (elf_prot (p_flags ph))) 0"
proof -
  have "unat (p_vaddr ph) mod 4096 = 0" using assms(1) by (simp add: seg_ok_def word_unat_eq_iff unat_mod)
  then have "4096 * seg_vpn ph = unat (p_vaddr ph)" by auto
  then show "p_vaddr ph = of_nat (4096 * seg_vpn ph)" by simp
  show v: "seg_vpn ph < 1048576" using unat_u32_lt [of "p_vaddr ph"] by (simp add: less_mult_imp_div_less)
  have n: "seg_pages ph < 1024" and le: "unat (p_filesz ph) \<le> unat (p_memsz ph)"
    using assms(1) by (auto simp: seg_ok_def word_le_nat_alt)
  have lin: "x \<le> 4096 * q \<and> 4096 * q < x + 4096" if "x + 4095 = 4096 * q + r" "r < 4096" for x q r :: nat
    using that by simp
  have sp: "x \<le> 4096 * ((x + 4095) div 4096) \<and> 4096 * ((x + 4095) div 4096) < x + 4096" for x :: nat
    by (rule lin [of _ _ "(x + 4095) mod 4096"]) simp_all
  show s: "spans (p_memsz ph) (seg_pages ph)"
    using sp [of "unat (p_memsz ph)"] n by (simp add: spans_def seg_pages_def)
  show "unat (p_filesz ph) \<le> 4096 * seg_pages ph" using s le by (simp add: spans_def)
  then show "0 < seg_pages ph" using assms(2) by (cases "seg_pages ph") (auto simp: word_unat_eq_iff)
  show "seg_vpn ph + seg_pages ph \<le> 1048576"
    using one_table_pages(2) [OF _ v, of "seg_pages ph"] assms(1) by (simp add: seg_ok_def)
  show "bit (page_flags (elf_prot (p_flags ph))) 0"
    using assms(1) by (simp add: seg_ok_def elf_page_flags bit_simps)
qed


lemma load_segment_skip:
  assumes "ph = read_phdr (pmem s) a" "\<not> seg_loads ph" "p_type ph = PT_LOAD \<longrightarrow> seg_ok ph"
  shows "load_segment mm pd hdr a s = Inr (Inr s)"
proof -
  have "\<not> (p_align ph < 2)" if "p_type ph = PT_LOAD" using assms(3) that by (auto simp: seg_ok_def)
  moreover have "\<not> p_memsz ph < p_filesz ph" if "p_type ph = PT_LOAD" using assms(3) that by (auto simp: seg_ok_def)
  ultimately show ?thesis
    using assms(2) unfolding load_segment_def assms(1) [symmetric] Let_def by (cases "p_type ph = PT_LOAD") (simp_all add: seg_loads_def)
qed

text \<open>Pages mapped for writing are present and writable, and a segment whose bytes are in its frames can be read at its addresses.\<close>

lemma writable_present:
  assumes "x AND 0xFFF = page_flags (elf_prot (f OR PF_W))"
  shows "bit x 0" "bit x 1"
proof -
  have "bit ((f OR 2) AND 6) 1" by (simp add: bit_simps)
  then have "(f OR 2) AND 6 \<noteq> 0" by auto
  then have "bit (x AND 0xFFF) 0 \<and> bit (x AND 0xFFF) 1" unfolding assms by (simp add: elf_page_flags PF_W_def bit_simps)
  then show "bit x 0" "bit x 1" by (simp_all add: bit_simps)
qed

lemma segment_readable:
  assumes ok: "pd_ok m' pd lim" and ld: "seg_ok ph" "p_filesz ph \<noteq> 0"
    and pte: "\<And>u. u \<in> seg_range ph \<Longrightarrow> pte_at m' pd u = F u OR page_flags (elf_prot (p_flags ph))"
    and mask: "\<And>u. u \<in> seg_range ph \<Longrightarrow> F u AND PAGE_MASK = F u"
    and bytes: "\<And>k. k < unat (p_filesz ph) \<Longrightarrow> m' (cell (F (seg_vpn ph + k div 4096)) (k mod 4096)) = m (hdr + p_offset ph + of_nat k)"
  shows "seg_loaded m m' pd hdr ph"
proof -
  note S = seg_okD [OF ld]
  have "user_byte m' pd (p_vaddr ph + of_nat k) = Some (m (hdr + p_offset ph + of_nat k))" if k: "k < unat (p_filesz ph)" for k
  proof -
    let ?u = "seg_vpn ph + k div 4096" and ?va = "p_vaddr ph + of_nat k"
    have u: "?u \<in> seg_range ph" using k S(5) by (simp add: seg_range_def less_mult_imp_div_less mult.commute)
    have va: "vpn ?va = ?u" "unat ?va mod 4096 = k mod 4096" using vpn_add [OF S(2) _ S(6), of k] k S(1,5) by auto
    have "frame m' pd ?u = F ?u" using mask_or_flags(1) [OF page_flags_small(1), of "F ?u" "elf_prot (p_flags ph)"] mask [OF u] by (simp add: pte [OF u])
    moreover have "bit (pte_at m' pd ?u) 0" unfolding pte [OF u] using S(7) by (simp add: bit_simps)
    ultimately show ?thesis using walk_frame(2) [OF ok, of ?va] bytes [OF k] unfolding va by simp
  qed
  moreover have "pte_at m' pd u AND 0xFFF = page_flags (elf_prot (p_flags ph))" if "u \<in> seg_range ph" for u
    using mask_or_flags(2) [OF page_flags_small(1), of "F u" "elf_prot (p_flags ph)"] mask [OF that] by (simp add: pte [OF that])
  ultimately show ?thesis by (simp add: seg_loaded_def)
qed

lemma segment_walk:
  assumes ok: "pd_ok m pd lim" and ld: "seg_ok ph" "p_filesz ph \<noteq> 0" and va: "vpn va \<in> seg_range ph"
    and pte: "pte_at m pd (vpn va) AND 0xFFF = 5 OR (if bit (p_flags ph) 1 then 2 else 0)"
    and tab: "pde m pd (seg_vpn ph div 1024) AND 6 = 6"
  shows "\<exists>pa. page_walk m pd va = Some (pa, if bit (p_flags ph) 1 then 6 else 4)"
proof -
  let ?x = "pte_at m pd (vpn va)"
  have "vpn va div 1024 = seg_vpn ph div 1024"
    using ld(1) va by (intro one_table_pages(1) [of _ "seg_pages ph"]) (auto simp: seg_ok_def seg_range_def)
  then have t: "pde m pd (vpn va div 1024) AND 6 = 6" using tab by simp
  have "bit (?x AND 0xFFF) 0" unfolding pte by (simp add: bit_simps)
  then have b: "bit ?x 0" by (simp add: bit_simps)
  have "?x AND 6 = (?x AND 0xFFF) AND 6" by (simp add: and.assoc)
  then have "?x AND 6 = (if bit (p_flags ph) 1 then 6 else 4)" unfolding pte by simp
  then have "pde m pd (vpn va div 1024) AND ?x AND 6 = (if bit (p_flags ph) 1 then 6 else 4)" unfolding user_table_flags(1) [OF t] .
  then show ?thesis unfolding walk_flags [OF ok b] by (intro exI) (simp only:)
qed

lemma load_segment_ok:
  assumes inv: "linv s pd lo U" and lo: "0 < lo" and ph: "ph = read_phdr (pmem s) a" and ld: "seg_loads ph" "seg_ok ph"
    and new: "\<And>u. u \<in> seg_range ph \<Longrightarrow> pte_at (pmem s) pd u = 0"
    and img: "image_at (pmem s) pd lo (hdr + p_offset ph) (unat (p_filesz ph))"
    and dbg: "debug \<longrightarrow> p_memsz ph mod 4096 = 0" and tab: "user_table (pmem s) pd (seg_vpn ph div 1024)"
    and fr: "frames s (Suc (seg_pages ph) + N)"
  shows "\<exists>s'. load_segment (bootstrap_elf_mmap debug) pd hdr a s = Inr (Inr s')
    \<and> linv s' pd lo (U \<union> seg_range ph) \<and> lkeeps s s' pd lo U \<and> frames s' N
    \<and> seg_loaded (pmem s) (pmem s') pd hdr ph
    \<and> (\<forall>u. u \<notin> seg_range ph \<longrightarrow> pte_at (pmem s') pd u = pte_at (pmem s) pd u)
    \<and> (\<forall>i < 1024. pde (pmem s) pd i \<noteq> 0 \<or> i \<noteq> seg_vpn ph div 1024 \<longrightarrow> pde (pmem s') pd i = pde (pmem s) pd i)
    \<and> pde (pmem s') pd (seg_vpn ph div 1024) AND 6 = 6"
proof -
  let ?v = "seg_vpn ph" and ?n = "seg_pages ph" and ?f = "p_flags ph"
  have fs: "p_type ph = PT_LOAD" "p_filesz ph \<noteq> 0" using ld(1) by (auto simp: seg_loads_def)
  note S = seg_okD [OF ld(2) fs(2)]
  have n: "?n < 1024" "?v mod 1024 + ?n \<le> 1024" using ld(2) by (auto simp: seg_ok_def)
  have rng: "seg_range ph = {?v..<?v + ?n}" by (simp add: seg_range_def)
  have new': "pte_at (pmem s) pd u = 0" if "?v \<le> u" "u < ?v + ?n" for u using new [of u] that by (simp add: rng)
  obtain s1 where s1: "bootstrap_mmap debug False pd PAGE_ALLOCATE (of_nat (4096 * ?v)) (p_memsz ph) (elf_prot (?f OR PF_W)) s = Inr s1"
    "linv s1 pd lo (U \<union> seg_range ph)" "lkeeps s s1 pd lo U" "frames s1 N"
    "\<forall>u. if ?v \<le> u \<and> u < ?v + ?n then pte_at (pmem s1) pd u AND 0xFFF = page_flags (elf_prot (?f OR PF_W))
           else pte_at (pmem s1) pd u = pte_at (pmem s) pd u"
    "\<forall>i < 1024. pde (pmem s) pd i \<noteq> 0 \<or> i \<noteq> ?v div 1024 \<longrightarrow> pde (pmem s1) pd i = pde (pmem s) pd i"
    "pde (pmem s1) pd (?v div 1024) AND 6 = 6"
    unfolding rng using load_map_new [OF inv lo S(2,3) n new' dbg fr S(4), of "elf_prot (?f OR PF_W)"] tab by blast
  have present: "bit (pte_at (pmem s1) pd u) 0 \<and> bit (pte_at (pmem s1) pd u) 1 \<and> pde (pmem s1) pd (u div 1024) AND 6 = 6"
    if "?v \<le> u" "u < ?v + ?n" for u
    using writable_present [of "pte_at (pmem s1) pd u" ?f] s1(5,7) one_table_pages(1) [OF n(2) that] that by auto
  have U: "{?v..<?v + ?n} \<subseteq> U \<union> seg_range ph" by (simp add: rng)
  note I1 = image_keep [OF img s1(3)]
  have src: "unat ((hdr + p_offset ph + of_nat k) AND PAGE_MASK) < lo" if "k < unat (p_filesz ph)" for k
    using I1(1) that by (simp add: image_at_def)
  obtain m' where m': "copy_to_user pd (unat (p_filesz ph)) (of_nat (4096 * ?v)) (hdr + p_offset ph) (pmem s1) = Inr m'"
    "linv (s1\<lparr>pmem := m'\<rparr>) pd lo (U \<union> seg_range ph)"
    "lkeeps s1 (s1\<lparr>pmem := m'\<rparr>) pd lo (U \<union> seg_range ph - {?v..<?v + ?n})" "pte_at m' pd = pte_at (pmem s1) pd"
    "\<forall>i < 1024. pde m' pd i = pde (pmem s1) pd i"
    "\<forall>k < unat (p_filesz ph). m' (cell (frame (pmem s1) pd (?v + k div 4096)) (k mod 4096)) = pmem s1 (hdr + p_offset ph + of_nat k)"
    using load_copy [OF s1(2) U S(2,6) present S(5) src] by blast
  let ?s2 = "s1\<lparr>pmem := m'\<rparr>"
  have fr2: "frames ?s2 N" using s1(4) by (simp add: frames_def)
  obtain s' where s': "bootstrap_mmap debug False pd PAGE_ALLOCATE (of_nat (4096 * ?v)) (p_memsz ph) (elf_prot ?f) ?s2 = Inr s'"
    "linv s' pd lo (U \<union> seg_range ph)" "lkeeps ?s2 s' pd lo (U \<union> seg_range ph - {?v..<?v + ?n})" "frames s' N"
    "\<forall>u. pte_at (pmem s') pd u = (if ?v \<le> u \<and> u < ?v + ?n then frame m' pd u OR page_flags (elf_prot ?f) else pte_at m' pd u)"
    "\<forall>u \<in> U \<union> seg_range ph. same_page m' (pmem s') (frame m' pd u)"
    "\<forall>i < 1024. pde (pmem s') pd i = pde m' pd i"
    using load_map_again [OF m'(2) U S(2,3) n S(4) dbg fr2, of "elf_prot ?f"] by auto
  have reg: "pd_reg s1 = pd" using s1(2) by (simp add: linv_def)
  have al: "\<not> p_align ph < 2" using ld(2) by (auto simp: seg_ok_def)
  have le: "\<not> p_memsz ph < p_filesz ph" using ld(2) by (auto simp: seg_ok_def)
  have run: "load_segment (bootstrap_elf_mmap debug) pd hdr a s = Inr (Inr s')"
    using s1(1) m'(1) s'(1) fs al le reg S(1)
    by (simp add: load_segment_def Let_def bootstrap_elf_mmap_def PAGE_ALLOCATE_def flip: ph)
  have disj: "U \<inter> seg_range ph = {}"
    using inv new by (auto simp: linv_def owned_def other_page_def pg_ok_def)
  then have sub: "U \<subseteq> U \<union> seg_range ph - {?v..<?v + ?n}" by (auto simp: rng)
  have keep: "lkeeps s s' pd lo U"
    using lkeeps_trans [OF s1(3) lkeeps_trans [OF lkeeps_mono [OF m'(3) sub] lkeeps_mono [OF s'(3) sub]]] .
  have "seg_loaded (pmem s) (pmem s') pd hdr ph"
  proof (rule segment_readable [where F = "frame m' pd"])
    show "pd_ok (pmem s') pd (unat (mm_addr s'))" using s'(2) by (simp add: linv_def)
    show "pte_at (pmem s') pd u = frame m' pd u OR page_flags (elf_prot ?f)" if "u \<in> seg_range ph" for u using s'(5) that by (simp add: rng)
    fix k assume k: "k < unat (p_filesz ph)"
    have "?v + k div 4096 \<in> seg_range ph" using k S(5) by (simp add: rng less_mult_imp_div_less mult.commute)
    then show "pmem s' (cell (frame m' pd (?v + k div 4096)) (k mod 4096)) = pmem s (hdr + p_offset ph + of_nat k)"
      using s'(6) m'(6) k I1(2) [OF k] unfolding m'(4) by (simp add: same_page_bytes)
  qed (simp_all add: ld(2) fs(2) mask_mask)
  moreover have "pte_at (pmem s') pd u = pte_at (pmem s) pd u" if "u \<notin> seg_range ph" for u
    using s'(5) s1(5) that unfolding m'(4) by (auto simp: rng)
  moreover have "pde (pmem s') pd i = pde (pmem s) pd i" if "i < 1024" "pde (pmem s) pd i \<noteq> 0 \<or> i \<noteq> ?v div 1024" for i
    using s'(7) m'(5) s1(6) that by simp
  moreover have "pde (pmem s') pd (?v div 1024) AND 6 = 6" using s'(7) m'(5) s1(7) vpn_offsets(4) [OF S(2)] by simp
  ultimately show ?thesis using run s'(2,4) keep by blast
qed


section \<open>The program header table\<close>

definition phdrs :: "mem \<Rightarrow> u32 \<Rightarrow> nat \<Rightarrow> Elf_Phdr list" where
  "phdrs m a n = map (\<lambda>i. read_phdr m (a + of_nat i * PHDR_SIZE)) [0..<n]"

lemma phdrs_Suc: "phdrs m a (Suc n) = read_phdr m a # phdrs m (a + PHDR_SIZE) n"
  unfolding phdrs_def upt_conv_Cons [OF zero_less_Suc] map_Suc_upt [symmetric] by (simp add: algebra_simps)

lemma read_phdr_cong:
  assumes "\<And>k. k < 32 \<Longrightarrow> m' (a + of_nat k) = m (a + of_nat k)"
  shows "read_phdr m' a = read_phdr m a"
proof -
  have "load32 m' (a + of_nat d) = load32 m (a + of_nat d)" if "d \<le> 28" for d
  proof (rule load32_cong)
    fix i :: nat assume "i < 4"
    then have "d + i < 32" using that by simp
    then show "m' (a + of_nat d + of_nat i) = m (a + of_nat d + of_nat i)" using assms [of "d + i"] by (simp add: add.assoc)
  qed
  from this [of 0] this [of 4] this [of 8] this [of 12] this [of 16] this [of 20] this [of 24] this [of 28]
  show ?thesis by (simp add: read_phdr_def)
qed

lemma image_shift:
  assumes "image_at m pd lo a len" "d + n \<le> len"
  shows "image_at m pd lo (a + of_nat d) n"
  unfolding image_at_def
proof (intro allI impI)
  fix k assume "k < n"
  then have "d + k < len" using assms(2) by simp
  then show "other_page m pd ((a + of_nat d + of_nat k) AND PAGE_MASK) \<and> unat ((a + of_nat d + of_nat k) AND PAGE_MASK) < lo"
    using assms(1) by (simp add: image_at_def add.assoc flip: of_nat_add)
qed

lemma phdrs_keep:
  assumes "image_at (pmem s) pd lo a (32 * n)" "lkeeps s s' pd lo U"
  shows "phdrs (pmem s') a n = phdrs (pmem s) a n"
  unfolding phdrs_def
proof (rule map_cong [OF refl], rule read_phdr_cong)
  fix i k :: nat assume "i \<in> set [0..<n]" "k < 32"
  then have "32 * i + k < 32 * n" by simp
  then show "pmem s' (a + of_nat i * PHDR_SIZE + of_nat k) = pmem s (a + of_nat i * PHDR_SIZE + of_nat k)"
    using image_keep(2) [OF assms, of "32 * i + k"] by (simp add: PHDR_SIZE_def ac_simps)
qed

text \<open>The table of headers describes segments the loader can load: each one loadable on its own and
  inside the image, on pages that are not mapped yet and that no two of them share, in a page table for user
  pages if there is one.\<close>

definition loadable :: "Elf_Phdr list \<Rightarrow> Elf_Phdr list" where
  "loadable phs = filter seg_loads phs"

definition segs_ok :: "mem \<Rightarrow> paddr_t \<Rightarrow> nat \<Rightarrow> u32 \<Rightarrow> Elf_Phdr list \<Rightarrow> bool" where
  "segs_ok m pd lo hdr phs \<longleftrightarrow>
     (\<forall>ph \<in> set phs. p_type ph = PT_LOAD \<longrightarrow> seg_ok ph \<and> image_at m pd lo (hdr + p_offset ph) (unat (p_filesz ph)))
     \<and> sorted_wrt (\<lambda>x y. seg_range x \<inter> seg_range y = {}) (loadable phs)
     \<and> (\<forall>ph \<in> set (loadable phs). user_table m pd (seg_vpn ph div 1024) \<and> (\<forall>u \<in> seg_range ph. pte_at m pd u = 0))"

text \<open>
  A kernel built with assertions checks in \<^verbatim>\<open>mmap\<close> that the size is a multiple of the page size; the
  loader passes \<^verbatim>\<open>p_memsz\<close> as it is in the file, so there the segments have to meet that too.
\<close>

definition asserted_sizes :: "bool \<Rightarrow> Elf_Phdr list \<Rightarrow> bool" where
  "asserted_sizes debug phs \<longleftrightarrow> (debug \<longrightarrow> (\<forall>ph \<in> set (loadable phs). p_memsz ph mod 4096 = 0))"

abbreviation loaded_pages :: "Elf_Phdr list \<Rightarrow> nat set" where
  "loaded_pages phs \<equiv> \<Union> (seg_range ` set (loadable phs))"

definition frames_needed :: "Elf_Phdr list \<Rightarrow> nat" where
  "frames_needed phs = sum_list (map (\<lambda>ph. Suc (seg_pages ph)) (loadable phs))"

lemma seg_pages_vpn:
  assumes "seg_ok ph" "p_filesz ph \<noteq> 0" "k < unat (p_filesz ph)"
  shows "vpn (p_vaddr ph + of_nat k) \<in> seg_range ph"
proof -
  note S = seg_okD [OF assms(1,2)]
  have "k < 4096 * seg_pages ph" using assms(3) S(5) by simp
  then show ?thesis
    using vpn_add(1) [OF S(2) _ S(6), of k] S(1) by (simp add: seg_range_def less_mult_imp_div_less mult.commute)
qed

lemma seg_loaded_keep:
  assumes "seg_loaded m0 (pmem s) pd hdr ph" "lkeeps s s' pd lo U" "seg_range ph \<subseteq> U" "seg_ok ph" "p_filesz ph \<noteq> 0"
    and "\<And>u. u \<in> seg_range ph \<Longrightarrow> pte_at (pmem s') pd u = pte_at (pmem s) pd u"
  shows "seg_loaded m0 (pmem s') pd hdr ph"
proof -
  have "user_byte (pmem s') pd (p_vaddr ph + of_nat k) = user_byte (pmem s) pd (p_vaddr ph + of_nat k)" if "k < unat (p_filesz ph)" for k
    using assms(2,3) seg_pages_vpn [OF assms(4,5) that] by (auto simp: lkeeps_def)
  then show ?thesis using assms(1,6) by (simp add: seg_loaded_def)
qed

lemma seg_loaded_src:
  assumes "seg_loaded (pmem s1) m pd hdr ph" "image_at (pmem s) pd lo (hdr + p_offset ph) (unat (p_filesz ph))" "lkeeps s s1 pd lo U"
  shows "seg_loaded (pmem s) m pd hdr ph"
  using assms(1) image_keep(2) [OF assms(2,3)] by (simp add: seg_loaded_def)

lemma segs_ok_keep:
  assumes so: "segs_ok (pmem s) pd lo hdr phs" and k: "lkeeps s s1 pd lo U" and p: "\<And>u. u \<in> loaded_pages phs \<Longrightarrow> pte_at (pmem s1) pd u = pte_at (pmem s) pd u"
    and t: "\<forall>i < 1024. pde (pmem s) pd i \<noteq> 0 \<or> i \<noteq> j \<longrightarrow> pde (pmem s1) pd i = pde (pmem s) pd i" "pde (pmem s1) pd j AND 6 = 6"
  shows "segs_ok (pmem s1) pd lo hdr phs"
proof -
  have "image_at (pmem s) pd lo (hdr + p_offset x) (unat (p_filesz x))" if "x \<in> set phs" "p_type x = PT_LOAD" for x
    using so that by (simp add: segs_ok_def)
  note im = image_keep(1) [OF this k]
  have "pte_at (pmem s1) pd u = 0" if "x \<in> set (loadable phs)" "u \<in> seg_range x" for x u
    using p [of u] so that by (auto simp: segs_ok_def)
  moreover have "user_table (pmem s1) pd (seg_vpn x div 1024)" if x: "x \<in> set (loadable phs)" for x
  proof -
    have "seg_vpn x div 1024 < 1024" using unat_u32_lt [of "p_vaddr x"] by (simp add: less_mult_imp_div_less div_mult2_eq [symmetric])
    then show ?thesis using so x t by (cases "seg_vpn x div 1024 = j") (auto simp: segs_ok_def)
  qed
  ultimately show ?thesis using so im by (simp add: segs_ok_def)
qed

lemma load_segments_ok:
  assumes "linv s pd lo U" "0 < lo" "phdrs (pmem s) a n = phs" "image_at (pmem s) pd lo a (32 * n)"
    "segs_ok (pmem s) pd lo hdr phs" "frames s (frames_needed phs + N)" "asserted_sizes debug phs"
  shows "\<exists>s'. load_segments (bootstrap_elf_mmap debug) pd hdr a n s = Inr (Inr s')
    \<and> linv s' pd lo (U \<union> loaded_pages phs) \<and> lkeeps s s' pd lo U \<and> frames s' N
    \<and> (\<forall>ph \<in> set (loadable phs). seg_loaded (pmem s) (pmem s') pd hdr ph)
    \<and> (\<forall>u. u \<notin> loaded_pages phs \<longrightarrow> pte_at (pmem s') pd u = pte_at (pmem s) pd u)
    \<and> (\<forall>i < 1024. (\<forall>ph \<in> set (loadable phs). seg_vpn ph div 1024 \<noteq> i) \<longrightarrow> pde (pmem s') pd i = pde (pmem s) pd i)
    \<and> (\<forall>i < 1024. pde (pmem s) pd i \<noteq> 0 \<longrightarrow> pde (pmem s') pd i = pde (pmem s) pd i)
    \<and> (\<forall>ph \<in> set (loadable phs). pde (pmem s') pd (seg_vpn ph div 1024) AND 6 = 6)"
  using assms
proof (induction n arbitrary: a s U phs)
  case 0
  then show ?case by (auto simp: phdrs_def loadable_def frames_needed_def lkeeps_refl)
next
  case (Suc n)
  obtain ph rest where phs: "phs = ph # rest" and ph: "ph = read_phdr (pmem s) a"
    and rest: "phdrs (pmem s) (a + PHDR_SIZE) n = rest"
    using Suc.prems(3) by (auto simp: phdrs_Suc)
  have im: "image_at (pmem s) pd lo (a + PHDR_SIZE) (32 * n)"
    using image_shift [OF Suc.prems(4), of 32 "32 * n"] by (simp add: PHDR_SIZE_def)
  have so: "segs_ok (pmem s) pd lo hdr rest" using Suc.prems(5) by (auto simp: segs_ok_def loadable_def phs split: if_splits)
  show ?case
  proof (cases "seg_loads ph")
    case False
    have "p_type ph = PT_LOAD \<longrightarrow> seg_ok ph" using Suc.prems(5) by (simp add: segs_ok_def phs)
    then have "load_segment (bootstrap_elf_mmap debug) pd hdr a s = Inr (Inr s)" by (rule load_segment_skip [OF ph False])
    moreover have "loadable phs = loadable rest" "frames_needed phs = frames_needed rest"
      using False by (simp_all add: phs loadable_def frames_needed_def)
    moreover have "asserted_sizes debug rest" using Suc.prems(7) calculation(2) by (simp add: asserted_sizes_def)
    ultimately show ?thesis using Suc.IH [OF Suc.prems(1,2) rest im so] Suc.prems(6) by simp
  next
    case True
    then have pt: "p_type ph = PT_LOAD" "p_filesz ph \<noteq> 0" by (simp_all add: seg_loads_def)
    have ok: "seg_ok ph" "image_at (pmem s) pd lo (hdr + p_offset ph) (unat (p_filesz ph))"
      using Suc.prems(5) pt by (simp_all add: segs_ok_def phs)
    have L: "loadable phs = ph # loadable rest" "frames_needed phs = Suc (seg_pages ph) + frames_needed rest"
      using True by (simp_all add: phs loadable_def frames_needed_def)
    have new: "pte_at (pmem s) pd u = 0" if "u \<in> seg_range ph" for u using Suc.prems(5) that by (simp add: segs_ok_def L)
    have dis: "seg_range ph \<inter> loaded_pages rest = {}" using Suc.prems(5) by (auto simp: segs_ok_def L)
    have dbg: "debug \<longrightarrow> p_memsz ph mod 4096 = 0" "asserted_sizes debug rest" using Suc.prems(7) by (simp_all add: asserted_sizes_def L)
    have tab: "user_table (pmem s) pd (seg_vpn ph div 1024)" using Suc.prems(5) by (simp add: segs_ok_def L)
    have fr: "frames s (Suc (seg_pages ph) + (frames_needed rest + N))" using Suc.prems(6) by (simp add: L(2) add.assoc)
    obtain s1 where s1: "load_segment (bootstrap_elf_mmap debug) pd hdr a s = Inr (Inr s1)"
      "linv s1 pd lo (U \<union> seg_range ph)" "lkeeps s s1 pd lo U" "frames s1 (frames_needed rest + N)"
      "seg_loaded (pmem s) (pmem s1) pd hdr ph"
      "\<And>u. u \<notin> seg_range ph \<Longrightarrow> pte_at (pmem s1) pd u = pte_at (pmem s) pd u"
      "\<forall>i < 1024. pde (pmem s) pd i \<noteq> 0 \<or> i \<noteq> seg_vpn ph div 1024 \<longrightarrow> pde (pmem s1) pd i = pde (pmem s) pd i"
      "pde (pmem s1) pd (seg_vpn ph div 1024) AND 6 = 6"
      using load_segment_ok [OF Suc.prems(1,2) ph True ok(1) new ok(2) dbg(1) tab fr] by blast
    have im_all: "image_at (pmem s) pd lo (hdr + p_offset x) (unat (p_filesz x))" if "x \<in> set rest" "p_type x = PT_LOAD" for x
      using so that by (simp add: segs_ok_def)
    have so1: "segs_ok (pmem s1) pd lo hdr rest" using segs_ok_keep [OF so s1(3) _ s1(7,8)] s1(6) dis by blast
    have rest1: "phdrs (pmem s1) (a + PHDR_SIZE) n = rest" using phdrs_keep [OF im s1(3)] rest by simp
    obtain s' where s': "load_segments (bootstrap_elf_mmap debug) pd hdr (a + PHDR_SIZE) n s1 = Inr (Inr s')"
      "linv s' pd lo (U \<union> seg_range ph \<union> loaded_pages rest)" "lkeeps s1 s' pd lo (U \<union> seg_range ph)" "frames s' N"
      "\<And>x. x \<in> set (loadable rest) \<Longrightarrow> seg_loaded (pmem s1) (pmem s') pd hdr x"
      "\<And>u. u \<notin> loaded_pages rest \<Longrightarrow> pte_at (pmem s') pd u = pte_at (pmem s1) pd u"
      "\<And>i. i < 1024 \<Longrightarrow> \<forall>x \<in> set (loadable rest). seg_vpn x div 1024 \<noteq> i \<Longrightarrow> pde (pmem s') pd i = pde (pmem s1) pd i"
      "\<forall>i < 1024. pde (pmem s1) pd i \<noteq> 0 \<longrightarrow> pde (pmem s') pd i = pde (pmem s1) pd i"
      "\<And>x. x \<in> set (loadable rest) \<Longrightarrow> pde (pmem s') pd (seg_vpn x div 1024) AND 6 = 6"
      using Suc.IH [OF s1(2) Suc.prems(2) rest1 image_keep(1) [OF im s1(3)] so1 s1(4) dbg(2)] by blast
    have "seg_loaded (pmem s) (pmem s') pd hdr x" if "x \<in> set (loadable phs)" for x
    proof (cases "x = ph")
      case True
      show ?thesis unfolding True
      proof (rule seg_loaded_keep [OF s1(5) s'(3) _ ok(1) pt(2)])
        show "pte_at (pmem s') pd u = pte_at (pmem s1) pd u" if "u \<in> seg_range ph" for u
          using dis that by (intro s'(6)) blast
      qed simp
    next
      case False
      then have "x \<in> set (loadable rest)" using that by (simp add: L)
      then show ?thesis
        using s'(5) im_all [of x] by (intro seg_loaded_src [OF _ _ s1(3)]) (auto simp: loadable_def seg_loads_def)
    qed
    moreover have "lkeeps s s' pd lo U" using lkeeps_trans [OF s1(3) lkeeps_mono [OF s'(3)]] by simp
    moreover have "pte_at (pmem s') pd u = pte_at (pmem s) pd u" if "u \<notin> loaded_pages phs" for u
      using s'(6) [of u] s1(6) [of u] that by (simp add: L)
    moreover have "pde (pmem s') pd i = pde (pmem s) pd i" if "i < 1024" "\<forall>x \<in> set (loadable phs). seg_vpn x div 1024 \<noteq> i" for i
      using s'(7) [of i] s1(7) [rule_format, of i] that by (auto simp: L)
    moreover have "pde (pmem s') pd i = pde (pmem s) pd i" if "i < 1024" "pde (pmem s) pd i \<noteq> 0" for i
      using s'(8) s1(7) that by simp
    moreover have "pde (pmem s') pd (seg_vpn x div 1024) AND 6 = 6" if "x \<in> set (loadable phs)" for x
    proof (cases "x = ph")
      case True
      then show ?thesis using s1(8) s'(8) vpn_offsets(4) [OF seg_okD(2) [OF ok(1) pt(2)]] by auto
    qed (use that s'(9) L in auto)
    moreover have "linv s' pd lo (U \<union> loaded_pages phs)" using s'(2) by (simp add: L Un_assoc)
    ultimately show ?thesis using s1(1) s'(1,4) by simp
  qed
qed


section \<open>The stack\<close>

text \<open>The stack crosses from one page table into the next; both are allocated if the first is missing.\<close>

definition stack_pages :: "nat set" where
  "stack_pages = {0x7FFFC..<0x80001}"

lemma map_stack:
  assumes inv: "linv s pd lo U" and lo: "0 < lo" and new: "\<And>u. u \<in> stack_pages \<Longrightarrow> pte_at (pmem s) pd u = 0"
    and pde: "pde (pmem s) pd 511 = 0" and fr: "frames s (7 + N)"
  shows "\<exists>s'. bootstrap_elf_mmap debug pd PAGE_ALLOCATE (ARCH_MAIN_THREAD_STACK_ADDR - ARCH_MAIN_THREAD_STACK_SIZE)
      (ARCH_MAIN_THREAD_STACK_SIZE + 4096) (PF_W OR PF_R) s = Inr s'
    \<and> linv s' pd lo (U \<union> stack_pages) \<and> lkeeps s s' pd lo U \<and> frames s' N
    \<and> (\<forall>u. if u \<in> stack_pages then pte_at (pmem s') pd u AND 0xFFF = 7 else pte_at (pmem s') pd u = pte_at (pmem s) pd u)
    \<and> (\<forall>i < 1024. pde (pmem s) pd i \<noteq> 0 \<longrightarrow> pde (pmem s') pd i = pde (pmem s) pd i)"
proof -
  from inv have ok: "pd_ok (pmem s) pd (unat (mm_addr s))" and pd: "pd < high_vma s" by (auto simp: linv_def)
  have kp: "kphys s pd = pd" using pd by (simp add: kphys_def)
  let ?P = "pte_at (pmem s) pd" and ?fl = "elf_prot (PF_W OR PF_R)"
  have new': "?P u = 0" if "0x7FFFC \<le> u" "u < 0x7FFFC + 5" for u using new [of u] that by (simp add: stack_pages_def)
  have E: "empties ?P 0x7FFFC (0x7FFFC + 5) = 5" using new' by (subst empties_all) auto
  have fl: "page_flags ?fl = 7" by (simp add: elf_page_flags PF_W_def PF_R_def)
  have ad: "(ARCH_MAIN_THREAD_STACK_ADDR - ARCH_MAIN_THREAD_STACK_SIZE) = of_nat (4096 * 0x7FFFC)"
    "ARCH_MAIN_THREAD_STACK_SIZE + 4096 = of_nat (4096 * 5)"
    by (simp_all add: ARCH_MAIN_THREAD_STACK_ADDR_def ARCH_MAIN_THREAD_STACK_SIZE_def)
  have sp: "stack_pages = {0x7FFFC..<0x7FFFC + 5}" by (simp add: stack_pages_def)
  note M = bootstrap_mmap_ok [where s = s and pdv = pd and v = "0x7FFFC" and n = 5 and paddr = PAGE_ALLOCATE and N = N
      and debug = debug and kern = False and flags = ?fl, unfolded kp]
  obtain s' f where s': "bootstrap_mmap debug False pd PAGE_ALLOCATE (of_nat (4096 * 0x7FFFC)) (of_nat (4096 * 5)) ?fl s = Inr s'"
    "unat (mm_addr s) \<le> f" "f mod 4096 = 0" "unat (mm_addr s') = f + 4096 * 5" "f + 4096 * 5 < 4294967296"
    "pd_ok (pmem s') pd f" "pte_at (pmem s') pd = fst (a_map True (page_flags ?fl) ?P f 0x7FFFC 5)"
    "\<And>q. other_page (pmem s) pd q \<Longrightarrow> unat q < unat (mm_addr s) \<Longrightarrow> same_page (pmem s) (pmem s') q \<and> other_page (pmem s') pd q"
    "\<And>i. i < 1024 \<Longrightarrow> pde (pmem s) pd i \<noteq> 0 \<Longrightarrow> pde (pmem s') pd i = pde (pmem s) pd i"
    "high_vma s' = high_vma s" "pd_reg s' = pd_reg s" "frames s' N"
    using M ok pde fr E by (auto simp: PAGE_ALLOCATE_def)
  have "linv s' pd lo (U \<union> {0x7FFFC..<0x7FFFC + 5}) \<and> lkeeps s s' pd lo U
    \<and> (\<forall>u. if 0x7FFFC \<le> u \<and> u < 0x7FFFC + 5 then pte_at (pmem s') pd u AND 0xFFF = page_flags ?fl
           else pte_at (pmem s') pd u = pte_at (pmem s) pd u)"
    by (rule map_fresh [OF inv lo new' s'(2-11)])
  then show ?thesis
    using s'(1,9,12) unfolding sp ad bootstrap_elf_mmap_def fl atLeastLessThan_iff by blast
qed


section \<open>Symbol tables\<close>

lemma find_symtab_last:
  "section_headers (find_symtab m n ctx) = section_headers ctx \<and> elf_hdr (find_symtab m n ctx) = elf_hdr ctx
    \<and> program_headers (find_symtab m n ctx) = program_headers ctx
    \<and> symbol_table (find_symtab m n ctx) =
       (case filter (\<lambda>i. sh_type (read_shdr m (section_headers ctx + of_nat i * SHDR_SIZE)) = SHT_SYMTAB) (rev [1..<n]) of
          [] \<Rightarrow> symbol_table ctx
        | i # _ \<Rightarrow> section_headers ctx + of_nat i * SHDR_SIZE)
    \<and> string_table (find_symtab m n ctx) =
       (case filter (\<lambda>i. sh_type (read_shdr m (section_headers ctx + of_nat i * SHDR_SIZE)) = SHT_SYMTAB) (rev [1..<n]) of
          [] \<Rightarrow> string_table ctx
        | i # _ \<Rightarrow> section_headers ctx
            + sh_link (read_shdr m (section_headers ctx + of_nat i * SHDR_SIZE)) * SHDR_SIZE)"
proof (induction n)
  case 0
  then show ?case by (simp add: find_symtab_def)
next
  case (Suc n)
  show ?case
  proof (cases "1 \<le> n")
    case True
    let ?c = "find_symtab m n ctx"
    have step: "find_symtab m (Suc n) ctx =
        (let a = section_headers ?c + of_nat n * SHDR_SIZE; shdr = read_shdr m a
         in if sh_type shdr = SHT_SYMTAB
            then ?c\<lparr>symbol_table := a, string_table := section_headers ?c + sh_link shdr * SHDR_SIZE\<rparr> else ?c)"
    proof -
      have u: "[1..<Suc n] = [1..<n] @ [n]" using True by simp
      show ?thesis unfolding find_symtab_def u fold_append by (simp only: comp_apply fold_simps)
    qed
    show ?thesis unfolding step using Suc.IH True by (simp add: Let_def)
  qed (use Suc.IH in \<open>simp add: find_symtab_def\<close>)
qed


section \<open>The whole load\<close>

lemma elf_ctx_load_ok:
  fixes s :: pgstate and ctx :: elf_ctx_t
  defines "pd \<equiv> pd_reg s" and "hdr \<equiv> elf_hdr ctx" and "lo \<equiv> unat (mm_addr s)"
  defines "n \<equiv> unat (e_phnum (read_hdr (pmem s) hdr))"
  defines "phs \<equiv> phdrs (pmem s) (program_headers ctx) n"
  assumes "pd_ok (pmem s) pd lo" "pd < high_vma s"
    and "ei_page_directory info = pd" "ei_mmap info = Some (bootstrap_elf_mmap debug)" "ei_on_load info = Some bootstrap_elf_on_load"
    and "image_at (pmem s) pd lo (program_headers ctx) (32 * n)" "segs_ok (pmem s) pd lo hdr phs"
    and "loaded_pages phs \<inter> stack_pages = {}" "\<forall>u \<in> stack_pages. pte_at (pmem s) pd u = 0"
    and "pde (pmem s) pd 511 = 0" "\<forall>ph \<in> set (loadable phs). seg_vpn ph div 1024 \<noteq> 511"
    and "frames s (frames_needed phs + (7 + N))" "asserted_sizes debug phs"
  shows "\<exists>s'. elf_ctx_load ctx (Some info) s = Inr (ELF_OK, Some (info\<lparr>ei_main_thread_stack_top := 0x80000000\<rparr>), s')
    \<and> linv s' pd lo (loaded_pages phs \<union> stack_pages) \<and> lkeeps s s' pd lo {} \<and> frames s' N
    \<and> (\<forall>ph \<in> set (loadable phs). seg_loaded (pmem s) (pmem s') pd hdr ph)
    \<and> (\<forall>u \<in> stack_pages. pte_at (pmem s') pd u AND 0xFFF = 7)
    \<and> (\<forall>u. u \<notin> loaded_pages phs \<union> stack_pages \<longrightarrow> pte_at (pmem s') pd u = pte_at (pmem s) pd u)
    \<and> (\<forall>i < 1024. pde (pmem s) pd i \<noteq> 0 \<longrightarrow> (\<forall>ph \<in> set (loadable phs). seg_vpn ph div 1024 \<noteq> i) \<longrightarrow> pde (pmem s') pd i = pde (pmem s) pd i)
    \<and> (\<forall>ph \<in> set (loadable phs). pde (pmem s') pd (seg_vpn ph div 1024) AND 6 = 6)"
proof -
  note a = assms(6-)
  have lo: "0 < lo" using a(12) by (simp add: frames_def lo_def)
  have inv: "linv s pd lo {}" using a(1,2) by (simp add: linv_def owned_def lo_def pd_def)
  obtain s1 where s1: "load_segments (bootstrap_elf_mmap debug) pd hdr (program_headers ctx) n s = Inr (Inr s1)"
    "linv s1 pd lo ({} \<union> loaded_pages phs)" "lkeeps s s1 pd lo {}" "frames s1 (7 + N)"
    "\<forall>ph \<in> set (loadable phs). seg_loaded (pmem s) (pmem s1) pd hdr ph"
    "\<forall>u. u \<notin> loaded_pages phs \<longrightarrow> pte_at (pmem s1) pd u = pte_at (pmem s) pd u"
    "\<forall>i < 1024. (\<forall>ph \<in> set (loadable phs). seg_vpn ph div 1024 \<noteq> i) \<longrightarrow> pde (pmem s1) pd i = pde (pmem s) pd i"
    "\<forall>ph \<in> set (loadable phs). pde (pmem s1) pd (seg_vpn ph div 1024) AND 6 = 6"
    using load_segments_ok [OF inv lo meta_eq_to_obj_eq [OF phs_def, symmetric] a(6,7,12,13)] by blast
  have new: "pte_at (pmem s1) pd u = 0" if "u \<in> stack_pages" for u
  proof -
    have "u \<notin> loaded_pages phs" using a(8) that by blast
    then show ?thesis using s1(6) a(9) that by simp
  qed
  have p511: "pde (pmem s1) pd 511 = 0" using s1(7) a(10,11) by simp
  obtain s' where s': "bootstrap_elf_mmap debug pd PAGE_ALLOCATE (ARCH_MAIN_THREAD_STACK_ADDR - ARCH_MAIN_THREAD_STACK_SIZE)
      (ARCH_MAIN_THREAD_STACK_SIZE + 4096) (PF_W OR PF_R) s1 = Inr s'"
    "linv s' pd lo (loaded_pages phs \<union> stack_pages)" "lkeeps s1 s' pd lo (loaded_pages phs)"
    "\<And>u. if u \<in> stack_pages then pte_at (pmem s') pd u AND 0xFFF = 7 else pte_at (pmem s') pd u = pte_at (pmem s1) pd u"
    "\<forall>i < 1024. pde (pmem s1) pd i \<noteq> 0 \<longrightarrow> pde (pmem s') pd i = pde (pmem s1) pd i" "frames s' N"
    using map_stack [OF s1(2) lo new p511 s1(4), of debug] by auto
  have run: "elf_ctx_load ctx (Some info) s = Inr (ELF_OK, Some (info\<lparr>ei_main_thread_stack_top := 0x80000000\<rparr>), s')"
    using a(3-5) s1(1) s'(1) unfolding n_def hdr_def
    by (simp add: elf_ctx_load_def Let_def bootstrap_elf_on_load_def ARCH_MAIN_THREAD_STACK_ADDR_def)
  have ld: "seg_loaded (pmem s) (pmem s') pd hdr ph" if ph: "ph \<in> set (loadable phs)" for ph
  proof (rule seg_loaded_keep [OF _ s'(3)])
    show "seg_ok ph" "p_filesz ph \<noteq> 0" using a(7) ph by (auto simp: segs_ok_def loadable_def seg_loads_def)
    show "seg_loaded (pmem s) (pmem s1) pd hdr ph" "seg_range ph \<subseteq> loaded_pages phs" using s1(5) ph by auto
    show "pte_at (pmem s') pd u = pte_at (pmem s1) pd u" if "u \<in> seg_range ph" for u
    proof -
      have "u \<notin> stack_pages" using a(8) ph that by auto
      then show ?thesis using s'(4) [of u] by simp
    qed
  qed
  have stk: "pte_at (pmem s') pd u AND 0xFFF = 7" if "u \<in> stack_pages" for u using s'(4) [of u] that by simp
  have out: "pte_at (pmem s') pd u = pte_at (pmem s) pd u" if "u \<notin> loaded_pages phs \<union> stack_pages" for u
    using s'(4) [of u] s1(6) that by auto
  have keep: "lkeeps s s' pd lo {}" using lkeeps_trans [OF s1(3) lkeeps_mono [OF s'(3)]] by simp
  have pdes: "pde (pmem s') pd i = pde (pmem s) pd i"
    if "i < 1024" "pde (pmem s) pd i \<noteq> 0" "\<forall>ph \<in> set (loadable phs). seg_vpn ph div 1024 \<noteq> i" for i
    using that s1(7) s'(5) by simp
  have tabs: "pde (pmem s') pd (seg_vpn ph div 1024) AND 6 = 6" if "ph \<in> set (loadable phs)" for ph
  proof -
    have "seg_vpn ph div 1024 < 1024" using unat_u32_lt [of "p_vaddr ph"] by (simp add: less_mult_imp_div_less div_mult2_eq [symmetric])
    moreover have "pde (pmem s1) pd (seg_vpn ph div 1024) AND 6 = 6" using s1(8) that by blast
    moreover from this have "pde (pmem s1) pd (seg_vpn ph div 1024) \<noteq> 0" by auto
    ultimately show ?thesis using s'(5) by simp
  qed
  show ?thesis
    by (rule exI [of _ s']) (use run s'(2,6) keep ld stk out pdes tabs in blast)
qed

section \<open>A sample image\<close>

text \<open>A small executable at \<open>0x3000\<close>: one loadable segment of four bytes (a page in memory).\<close>

definition sample_image :: "u8 list" where
  "sample_image = [0x7F, 0x45, 0x4C, 0x46, 1, 1, 1, 0, 0, 0, 0, 0, 0, 0, 0, 0,
     2, 0, 3, 0, 1, 0, 0, 0, 0, 0, 0x40, 0, 0x34, 0, 0, 0, 0, 0, 0, 0, 0, 0, 0, 0, 0x34, 0, 32, 0, 1, 0, 40, 0, 0, 0, 0, 0,
     1, 0, 0, 0, 0x54, 0, 0, 0, 0, 0, 0x40, 0, 0, 0, 0x40, 0, 4, 0, 0, 0, 0, 0x10, 0, 0, 5, 0, 0, 0, 0, 0x10, 0, 0,
     0xDE, 0xAD, 0xBE, 0xEF]"

definition sample_mem :: mem where
  "sample_mem a = (if unat a - 0x3000 < length sample_image \<and> 0x3000 \<le> unat a then sample_image ! (unat a - 0x3000) else 0)"

definition sample_exec :: pgstate where
  "sample_exec = sample_pg\<lparr>pmem := sample_mem, pd_reg := 0x1000\<rparr>"

definition sample_ctx :: elf_ctx_t where
  "sample_ctx = snd (elf_ctx_create elf_ctx_zero 0x3000 0 sample_mem)"

definition sample_info :: exec_info where
  "sample_info = \<lparr>ei_page_directory = 0x1000, ei_main_thread_stack_top = 0,
     ei_mmap = Some (bootstrap_elf_mmap True), ei_on_load = Some bootstrap_elf_on_load\<rparr>"

lemma sample_hdr:
  "read_hdr sample_mem 0x3000 = \<lparr>e_ident = [0x7F, 0x45, 0x4C, 0x46, 1, 1, 1, 0, 0, 0, 0, 0, 0, 0, 0, 0], e_type = 2, e_machine = 3,
     e_version = 1, e_entry = 0x400000, e_phoff = 0x34, e_shoff = 0, e_flags = 0, e_ehsize = 0x34, e_phentsize = 32, e_phnum = 1,
     e_shentsize = 40, e_shnum = 0, e_shstrndx = 0\<rparr>"
  by (simp add: read_hdr_def sample_mem_def sample_image_def load16_def load32_def upt_rec)

lemma sample_phdr:
  "read_phdr sample_mem 0x3034 = \<lparr>p_type = 1, p_offset = 0x54, p_vaddr = 0x400000, p_paddr = 0x400000, p_filesz = 4, p_memsz = 0x1000, p_flags = 5,
     p_align = 0x1000\<rparr>"
  by (simp add: read_phdr_def sample_mem_def sample_image_def load32_def)

lemma sample_ctx_fields: "elf_hdr sample_ctx = 0x3000" "program_headers sample_ctx = 0x3034"
  by (simp_all add: sample_ctx_def elf_ctx_create_def Let_def sample_hdr elf_check_hdr_def elf_magic_def
      elf_check_arch_supported_def EIDX_CLASS_def EIDX_BYTE_ORDER_def EIDX_VERSION_def ARCH_ELF_CLASS_def
      ARCH_ELF_BYTE_ORDER_def ARCH_ELF_MACHINE_def ARCH_ELF_TARGET_VERSION_def ET_REL_def ET_EXEC_def
      find_symtab_def nth_Cons' upt_rec)

lemma sample_directory:
  "i < 1024 \<Longrightarrow> pde sample_mem 0x1000 i = 0" "pte_at sample_mem 0x1000 u = 0"
proof -
  have pg: "pg_ok 0x1000" by (simp add: pg_ok_def)
  show e: "pde sample_mem 0x1000 i = 0" if "i < 1024" for i
  proof -
    have "sample_mem (cell 0x1000 (4 * i) + of_nat k) = 0" if "k < 4" for k
    proof -
      have c: "cell 0x1000 (4 * i) + of_nat k = cell 0x1000 (4 * i + k)" by (simp add: cell_def add.assoc)
      have "unat (cell 0x1000 (4 * i + k)) = 0x1000 + (4 * i + k)"
        using unat_cell [OF pg, of "4 * i + k"] that \<open>i < 1024\<close> by simp
      then show ?thesis using that \<open>i < 1024\<close> unfolding c by (simp add: sample_mem_def)
    qed
    then have "load32 sample_mem (cell 0x1000 (4 * i)) = load32 (\<lambda>_. 0) (cell 0x1000 (4 * i))"
      by (intro load32_cong) simp
    then show ?thesis by (simp add: pde_def load32_zero)
  qed
  show "pte_at sample_mem 0x1000 u = 0" using e [of "u div 1024"] by (auto simp: pte_at_def)
qed


lemma sample_image_page:
  assumes "0x3000 \<le> unat a" "unat a + n \<le> 0x4000" "k < n"
  shows "(a + of_nat k) AND PAGE_MASK = (0x3000 :: u32)"
proof -
  have u: "unat (a + of_nat k) = unat a + k" using assms by (intro unat_plus_of_nat) simp
  have "3 * 4096 \<le> unat a + k" "unat a + k < Suc 3 * 4096" using assms by simp_all
  then have "(unat a + k) div 4096 = 3" by (intro div_nat_eqI) simp_all
  then have "unat ((a + of_nat k) AND PAGE_MASK) = 0x3000" by (simp add: page_mask_unat u)
  then show ?thesis by (simp add: word_unat_eq_iff)
qed

lemma sample_image_at:
  assumes "0x3000 \<le> unat a" "unat a + n \<le> 0x4000"
  shows "image_at sample_mem 0x1000 0x100000 a n"
  using sample_image_page [OF assms] by (simp add: image_at_def other_page_def pg_ok_def sample_directory)

section \<open>Properties\<close>

text \<open>C6: \<^verbatim>\<open>elf_ctx_load\<close> loads a well-formed executable. In an address space where the pages of the segments
  and of the stack are not mapped, with enough free frames, and with the image outside the paging
  structures and the free memory, it returns \<^verbatim>\<open>ELF_OK\<close> and sets the stack top; every loadable
  segment's file bytes can then be read at its virtual address, through the page tables, and every page of
  the segment is open to user mode, for writing exactly when the segment asks for it; the stack pages are mapped
  writable; all these pages have frames of their own; and no other mapping changes. In a kernel built with
  assertions the sizes of the segments in memory have to be multiples of the page size
  (\<open>asserted_sizes\<close>): \<^verbatim>\<open>paging_utils.c\<close> asserts that of the size it is asked to map.\<close>

theorem elf_ctx_load_loads:
  fixes s :: pgstate and ctx :: elf_ctx_t
  defines "pd \<equiv> pd_reg s" and "hdr \<equiv> elf_hdr ctx" and "lo \<equiv> unat (mm_addr s)"
  defines "n \<equiv> unat (e_phnum (read_hdr (pmem s) hdr))"
  defines "phs \<equiv> phdrs (pmem s) (program_headers ctx) n"
  assumes "pd_ok (pmem s) pd lo" "pd < high_vma s"
    and "ei_page_directory info = pd" "ei_mmap info = Some (bootstrap_elf_mmap debug)" "ei_on_load info = Some bootstrap_elf_on_load"
    and "image_at (pmem s) pd lo (program_headers ctx) (32 * n)" "segs_ok (pmem s) pd lo hdr phs"
    and "loaded_pages phs \<inter> stack_pages = {}" "\<forall>u \<in> stack_pages. pte_at (pmem s) pd u = 0"
    and "pde (pmem s) pd 511 = 0" "\<forall>ph \<in> set (loadable phs). seg_vpn ph div 1024 \<noteq> 511"
    and "frames s (frames_needed phs + 7)" "asserted_sizes debug phs"
  shows "\<exists>s'. elf_ctx_load ctx (Some info) s = Inr (ELF_OK, Some (info\<lparr>ei_main_thread_stack_top := 0x80000000\<rparr>), s')
    \<and> (\<forall>ph \<in> set (loadable phs).
         (\<forall>k < unat (p_filesz ph). user_byte (pmem s') pd (p_vaddr ph + of_nat k) = Some (pmem s (hdr + p_offset ph + of_nat k)))
         \<and> (\<forall>u \<in> seg_range ph. pte_at (pmem s') pd u AND 0xFFF = 5 OR (if bit (p_flags ph) 1 then 2 else 0))
         \<and> (\<forall>va. vpn va \<in> seg_range ph \<longrightarrow> (\<exists>pa. page_walk (pmem s') pd va = Some (pa, if bit (p_flags ph) 1 then 6 else 4))))
    \<and> (\<forall>u \<in> stack_pages. pte_at (pmem s') pd u AND 0xFFF = 7)
    \<and> inj_on (frame (pmem s') pd) (loaded_pages phs \<union> stack_pages)
    \<and> (\<forall>u. u \<notin> loaded_pages phs \<union> stack_pages \<longrightarrow> pte_at (pmem s') pd u = pte_at (pmem s) pd u)"
proof -
  have fr: "frames s (frames_needed phs + (7 + 0))" using assms(17) by simp
  note assms(6-16) [unfolded pd_def hdr_def lo_def n_def phs_def]
  note L = elf_ctx_load_ok [OF this fr [unfolded pd_def hdr_def lo_def n_def phs_def] assms(18) [unfolded pd_def hdr_def lo_def n_def phs_def],
    folded pd_def hdr_def lo_def, folded n_def, folded phs_def]
  obtain s' where s': "elf_ctx_load ctx (Some info) s = Inr (ELF_OK, Some (info\<lparr>ei_main_thread_stack_top := 0x80000000\<rparr>), s')"
    "linv s' pd lo (loaded_pages phs \<union> stack_pages)" "\<forall>ph \<in> set (loadable phs). seg_loaded (pmem s) (pmem s') pd hdr ph"
    "\<forall>u \<in> stack_pages. pte_at (pmem s') pd u AND 0xFFF = 7"
    "\<forall>u. u \<notin> loaded_pages phs \<union> stack_pages \<longrightarrow> pte_at (pmem s') pd u = pte_at (pmem s) pd u"
    "\<forall>ph \<in> set (loadable phs). pde (pmem s') pd (seg_vpn ph div 1024) AND 6 = 6"
    using L by blast
  have ok: "pd_ok (pmem s') pd (unat (mm_addr s'))" using s'(2) by (simp add: linv_def)
  have sg: "seg_ok ph" "p_filesz ph \<noteq> 0" "p_flags ph AND 6 \<noteq> 0" if "ph \<in> set (loadable phs)" for ph
    using assms(12) that by (auto simp: segs_ok_def loadable_def seg_loads_def seg_ok_def)
  have pte: "pte_at (pmem s') pd u AND 0xFFF = 5 OR (if bit (p_flags ph) 1 then 2 else 0)" if "ph \<in> set (loadable phs)" "u \<in> seg_range ph" for ph u
    using s'(3) that sg(3) [OF that(1)] by (auto simp: seg_loaded_def elf_page_flags)
  have "\<exists>pa. page_walk (pmem s') pd va = Some (pa, if bit (p_flags ph) 1 then 6 else 4)" if "ph \<in> set (loadable phs)" "vpn va \<in> seg_range ph" for ph va
    using segment_walk [OF ok sg(1,2) _ pte s'(6) [rule_format]] that by blast
  moreover have "inj_on (frame (pmem s') pd) (loaded_pages phs \<union> stack_pages)" using s'(2) by (simp add: linv_def owned_def)
  ultimately show ?thesis
    by (intro exI [of _ s']) (use s'(1,3-5) pte in \<open>auto simp: seg_loaded_def\<close>)
qed

theorem elf_ctx_load_loads_witness:
  "\<exists>s'. elf_ctx_load sample_ctx (Some sample_info) sample_exec
      = Inr (ELF_OK, Some (sample_info\<lparr>ei_main_thread_stack_top := 0x80000000\<rparr>), s')
    \<and> user_byte (pmem s') 0x1000 0x400003 = Some 0xEF"
proof -
  have f: "pd_reg sample_exec = 0x1000" "pmem sample_exec = sample_mem" "unat (mm_addr sample_exec) = 0x100000"
    "high_vma sample_exec = 0xC0000000" "\<And>k. k < 1000 \<Longrightarrow> frames sample_exec k"
    by (simp_all add: sample_exec_def sample_pg_def frames_def)
  let ?ph = "\<lparr>p_type = 1, p_offset = 0x54, p_vaddr = 0x400000, p_paddr = 0x400000, p_filesz = 4, p_memsz = 0x1000, p_flags = 5, p_align = 0x1000\<rparr> :: Elf_Phdr"
  have phs: "phdrs sample_mem 0x3034 1 = [?ph]" by (simp add: phdrs_def sample_phdr)
  have ph: "loadable [?ph] = [?ph]" "seg_pages ?ph = 1" "seg_range ?ph = {0x400}"
    by (auto simp: loadable_def seg_loads_def PT_LOAD_def seg_pages_def seg_range_def)
  have "seg_ok ?ph" by (simp add: seg_ok_def ph(2))
  then have sg: "segs_ok sample_mem 0x1000 0x100000 0x3000 [?ph]"
    by (simp add: segs_ok_def ph sample_directory sample_image_at)
  have ok: "pd_ok sample_mem 0x1000 0x100000" by (simp add: pd_ok_def pg_ok_def sample_directory)
  obtain s' where s': "elf_ctx_load sample_ctx (Some sample_info) sample_exec
      = Inr (ELF_OK, Some (sample_info\<lparr>ei_main_thread_stack_top := 0x80000000\<rparr>), s')"
    "\<forall>k < 4. user_byte (pmem s') 0x1000 (0x400000 + of_nat k) = Some (sample_mem (0x3000 + 0x54 + of_nat k))"
    using elf_ctx_load_loads [where s = sample_exec and ctx = sample_ctx and info = sample_info and debug = True, unfolded f sample_ctx_fields] ok sg phs
    by (auto simp: sample_hdr ph f sample_info_def sample_image_at sample_directory stack_pages_def frames_needed_def asserted_sizes_def)
  then have "user_byte (pmem s') 0x1000 0x400003 = Some (sample_mem 0x3057)" using s'(2) [rule_format, of 3] by simp
  then show ?thesis using s'(1) by (simp add: sample_mem_def sample_image_def)
qed


text \<open>C30: \<^verbatim>\<open>elf_ctx_create\<close> accepts exactly the 32-bit little-endian version-1 images for the 386 that are
  executable or relocatable; it then records where the headers are, with the last section of type
  \<^verbatim>\<open>SHT_SYMTAB\<close> (after section 0) as symbol table and its linked section as string table; a rejected
  image leaves the context as it was. The size of the buffer is not looked at.\<close>

theorem elf_ctx_create_accepts:
  fixes m :: mem and buf :: u32 and ctx :: elf_ctx_t and sz :: size_t
  defines "h \<equiv> read_hdr m buf" and "r \<equiv> elf_ctx_create ctx buf sz m"
  defines "symtabs \<equiv> filter (\<lambda>i. load32 m (buf + e_shoff h + of_nat i * 40 + 4) = 2) (rev [1..<unat (e_shnum h)])"
  shows "(fst r = ELF_OK) = (take 7 (e_ident h) = [0x7F, 0x45, 0x4C, 0x46, 1, 1, 1] \<and> e_machine h = 3 \<and> e_type h \<in> {1, 2})
    \<and> (fst r \<noteq> ELF_OK \<longrightarrow> snd r = ctx)
    \<and> (fst r = ELF_OK \<longrightarrow> elf_hdr (snd r) = buf \<and> section_headers (snd r) = buf + e_shoff h
      \<and> program_headers (snd r) = buf + e_phoff h
      \<and> symbol_table (snd r) = (case symtabs of [] \<Rightarrow> symbol_table ctx | i # _ \<Rightarrow> buf + e_shoff h + of_nat i * 40)
      \<and> string_table (snd r) = (case symtabs of [] \<Rightarrow> string_table ctx
           | i # _ \<Rightarrow> buf + e_shoff h + load32 m (buf + e_shoff h + of_nat i * 40 + 24) * 40))"
proof (intro conjI impI)
  note C = elf_check_arch_supported_def EIDX_CLASS_def EIDX_BYTE_ORDER_def EIDX_VERSION_def ARCH_ELF_CLASS_def
      ARCH_ELF_BYTE_ORDER_def ARCH_ELF_MACHINE_def ARCH_ELF_TARGET_VERSION_def ET_REL_def ET_EXEC_def
  have ix: "[0..<7] = [0, 1, 2, 3, 4, 5, 6 :: nat]" by code_simp
  have l: "take 7 (e_ident h) = map ((!) (e_ident h)) [0, 1, 2, 3, 4, 5, 6]"
    unfolding ix [symmetric] by (simp add: h_def read_hdr_def take_map)
  have hd: "elf_check_hdr h = ELF_OK \<longleftrightarrow> e_ident h ! 0 = 0x7F \<and> e_ident h ! 1 = 0x45 \<and> e_ident h ! 2 = 0x4C \<and> e_ident h ! 3 = 0x46"
    by (auto simp: elf_check_hdr_def elf_magic_def upt_rec nth_Cons' numeral_2_eq_2 numeral_3_eq_3)
  have ar: "elf_check_arch_supported h = ELF_OK \<longleftrightarrow>
      e_ident h ! 4 = 1 \<and> e_ident h ! 5 = 1 \<and> e_ident h ! 6 = 1 \<and> e_machine h = 3 \<and> e_type h \<in> {1, 2}"
    by (auto simp: C)
  have acc: "fst r = ELF_OK \<longleftrightarrow> elf_check_hdr h = ELF_OK \<and> elf_check_arch_supported h = ELF_OK"
    by (simp add: r_def elf_ctx_create_def Let_def flip: h_def)
  show "(fst r = ELF_OK) = (take 7 (e_ident h) = [0x7F, 0x45, 0x4C, 0x46, 1, 1, 1] \<and> e_machine h = 3 \<and> e_type h \<in> {1, 2})"
    unfolding acc hd ar l by auto
  show "fst r \<noteq> ELF_OK \<Longrightarrow> snd r = ctx"
    unfolding acc by (auto simp: r_def elf_ctx_create_def Let_def simp flip: h_def)
  assume ok: "fst r = ELF_OK"
  have rs: "snd r = find_symtab m (unat (e_shnum h)) (ctx\<lparr>elf_hdr := buf, section_headers := buf + e_shoff h, program_headers := buf + e_phoff h\<rparr>)"
    using ok unfolding acc by (simp add: r_def elf_ctx_create_def Let_def elf_get_sheader_def flip: h_def)
  show "elf_hdr (snd r) = buf" "section_headers (snd r) = buf + e_shoff h" "program_headers (snd r) = buf + e_phoff h"
    "symbol_table (snd r) = (case symtabs of [] \<Rightarrow> symbol_table ctx | i # _ \<Rightarrow> buf + e_shoff h + of_nat i * 40)"
    "string_table (snd r) = (case symtabs of [] \<Rightarrow> string_table ctx
           | i # _ \<Rightarrow> buf + e_shoff h + load32 m (buf + e_shoff h + of_nat i * 40 + 24) * 40)"
    unfolding rs symtabs_def
    using find_symtab_last [of m "unat (e_shnum h)" "ctx\<lparr>elf_hdr := buf, section_headers := buf + e_shoff h, program_headers := buf + e_phoff h\<rparr>"]
    by (simp_all add: SHDR_SIZE_def SHT_SYMTAB_def read_shdr_def cong: list.case_cong)
qed

theorem elf_ctx_create_accepts_witness:
  "fst (elf_ctx_create elf_ctx_zero 0x3000 0 sample_mem) = ELF_OK
    \<and> program_headers (snd (elf_ctx_create elf_ctx_zero 0x3000 0 sample_mem)) = 0x3034
    \<and> snd (elf_ctx_create elf_ctx_zero 0x3001 0 sample_mem) = elf_ctx_zero"
proof -
  have h: "e_ident (read_hdr sample_mem 0x3001) = map (\<lambda>i. sample_mem (0x3001 + of_nat i)) [0..<16]"
    by (simp add: read_hdr_def)
  have "take 7 (e_ident (read_hdr sample_mem 0x3001)) \<noteq> [0x7F, 0x45, 0x4C, 0x46, 1, 1, 1]"
    unfolding h by (simp add: sample_mem_def sample_image_def upt_rec)
  then show ?thesis
    using elf_ctx_create_accepts [where m = sample_mem and buf = "0x3000" and ctx = elf_ctx_zero and sz = 0]
      elf_ctx_create_accepts [where m = sample_mem and buf = "0x3001" and ctx = elf_ctx_zero and sz = 0]
    by (simp add: sample_hdr)
qed

lemma load_segments_skip:
  assumes "\<forall>i < j. p_type (phdrs (pmem s) a n ! i) \<noteq> PT_LOAD" "j \<le> n"
  shows "load_segments mm pd hdr a n s = load_segments mm pd hdr (a + of_nat j * PHDR_SIZE) (n - j) s"
  using assms
proof (induction j arbitrary: a n)
  case 0
  then show ?case by simp
next
  case (Suc j)
  obtain n' where n: "n = Suc n'" using Suc.prems(2) by (cases n) auto
  have "p_type (read_phdr (pmem s) a) \<noteq> PT_LOAD" using Suc.prems(1) by (auto simp: n phdrs_Suc)
  then have "load_segment mm pd hdr a s = Inr (Inr s)" by (simp add: load_segment_def)
  moreover have "\<forall>i < j. p_type (phdrs (pmem s) (a + PHDR_SIZE) n' ! i) \<noteq> PT_LOAD"
    using Suc.prems(1) by (auto simp: n phdrs_Suc)
  ultimately show ?case using Suc.IH [of "a + PHDR_SIZE" n'] Suc.prems(2) by (simp add: n algebra_simps)
qed

text \<open>C31: the first loadable header decides whether loading is refused at once: with more bytes in the file than in
  memory it is \<^verbatim>\<open>ELF_INVALID_PH\<close> and nothing is mapped; otherwise, with an alignment of 0, which the
  format allows for segments without alignment constraint, the check divides by zero.\<close>

theorem elf_ctx_load_refuses:
  assumes "ei_mmap info = Some mm" "ei_on_load info = Some bootstrap_elf_on_load"
    and "j < unat (e_phnum (read_hdr (pmem s) (elf_hdr ctx)))"
    and "ph = read_phdr (pmem s) (program_headers ctx + of_nat j * 32)" "p_type ph = 1"
    and "\<forall>i < j. p_type (read_phdr (pmem s) (program_headers ctx + of_nat i * 32)) \<noteq> 1"
    and "p_filesz ph > p_memsz ph \<or> p_align ph = 0"
  shows "elf_ctx_load ctx (Some info) s =
    (if p_filesz ph > p_memsz ph then Inr (ELF_INVALID_PH, Some info, s) else Inl Divide_Error)"
proof -
  let ?n = "unat (e_phnum (read_hdr (pmem s) (elf_hdr ctx)))" and ?a = "program_headers ctx"
  have skip: "load_segments mm pd hdr ?a ?n s = load_segments mm pd hdr (?a + of_nat j * PHDR_SIZE) (?n - j) s" for pd hdr
    using assms(3,6) by (intro load_segments_skip) (auto simp: phdrs_def PT_LOAD_def PHDR_SIZE_def)
  obtain n' where n: "?n - j = Suc n'" using assms(3) by (cases "?n - j") auto
  have "load_segment mm pd hdr (?a + of_nat j * PHDR_SIZE) s =
      (if p_filesz ph > p_memsz ph then Inr (Inl (ELF_INVALID_PH, s)) else Inl Divide_Error)" for pd hdr
    using assms(5,7) by (auto simp: load_segment_def Let_def PHDR_SIZE_def PT_LOAD_def simp flip: assms(4))
  then show ?thesis
    using assms(1,2) by (simp add: elf_ctx_load_def Let_def bootstrap_elf_on_load_def skip n)
qed

definition sample_bad_exec :: pgstate where
  "sample_bad_exec = sample_exec\<lparr>pmem := sample_mem(0x3051 := 0)\<rparr>"

theorem elf_ctx_load_refuses_witness:
  "elf_ctx_load sample_ctx (Some sample_info) sample_bad_exec = Inl Divide_Error"
proof -
  let ?ph = "read_phdr (pmem sample_bad_exec) 0x3034"
  have ph: "p_type ?ph = 1" "p_filesz ?ph = 4" "p_memsz ?ph = 0x1000" "p_align ?ph = 0"
    by (simp_all add: read_phdr_def sample_bad_exec_def sample_mem_def sample_image_def load32_def)
  have "e_phnum (read_hdr (pmem sample_bad_exec) 0x3000) = 1"
    by (simp add: read_hdr_def sample_bad_exec_def sample_mem_def sample_image_def load16_def)
  then show ?thesis
    using elf_ctx_load_refuses [of sample_info "bootstrap_elf_mmap True" 0 sample_bad_exec sample_ctx ?ph] ph
    by (simp add: sample_ctx_fields sample_info_def)
qed

end
