(* ===== verification/Pic.thy ===== *)
theory Pic
  imports Mugo_Prelude
begin

text \<open>
  Port input and output (\<^verbatim>\<open>outb\<close>, \<^verbatim>\<open>inb\<close> of \<^verbatim>\<open>arch_util.h\<close>) and the driver of the interrupt
  controllers, \<^verbatim>\<open>arch/i686/drivers/pic.c\<close>. What the ports do is hardware: a parameter \<open>bus\<close> of every
  operation, on a device state that the code never looks into. The behaviour of the two 8259A
  controllers the driver relies on is stated in \<open>pic_on_bus\<close>, from their data sheet.
\<close>

section \<open>Ports\<close>

record 'd bus =
  bus_out :: "u16 \<Rightarrow> u8 \<Rightarrow> 'd \<Rightarrow> 'd"
  bus_in :: "u16 \<Rightarrow> 'd \<Rightarrow> u8 \<times> 'd"

definition outb :: "'d bus \<Rightarrow> u16 \<Rightarrow> u8 \<Rightarrow> 'd \<Rightarrow> 'd" where
  "outb bus port val d = bus_out bus port val d"

definition inb :: "'d bus \<Rightarrow> u16 \<Rightarrow> 'd \<Rightarrow> u8 \<times> 'd" where
  "inb bus port d = bus_in bus port d"

section \<open>The driver\<close>

definition MASTER_PIC_COMMAND :: u16 where "MASTER_PIC_COMMAND = 0x20"
definition MASTER_PIC_DATA :: u16 where "MASTER_PIC_DATA = 0x21"
definition SLAVE_PIC_COMMAND :: u16 where "SLAVE_PIC_COMMAND = 0xA0"
definition SLAVE_PIC_DATA :: u16 where "SLAVE_PIC_DATA = 0xA1"
definition SLAVE_PIC_MASTER_IRQ_LINE :: nat where "SLAVE_PIC_MASTER_IRQ_LINE = 2"
definition MASTER_PIC_IRQ_OFFSET :: u8 where "MASTER_PIC_IRQ_OFFSET = 0x20"
definition SLAVE_PIC_IRQ_OFFSET :: u8 where "SLAVE_PIC_IRQ_OFFSET = 0x28"
definition PIC_EOI :: u8 where "PIC_EOI = 0x20"
definition PIC_READ_IRR :: u8 where "PIC_READ_IRR = 0x0A"
definition PIC_READ_ISR :: u8 where "PIC_READ_ISR = 0x0B"
definition ICW1_INIT :: u8 where "ICW1_INIT = 0x10"
definition ICW1_ICW4 :: u8 where "ICW1_ICW4 = 0x01"
definition ICW4_8086 :: u8 where "ICW4_8086 = 0x01"
definition SLAVE_IRQNUM_BEGIN :: u16 where "SLAVE_IRQNUM_BEGIN = 40"
definition IRQ_OFFSET :: u16 where "IRQ_OFFSET = 32"

lemmas pic_consts = MASTER_PIC_COMMAND_def MASTER_PIC_DATA_def SLAVE_PIC_COMMAND_def SLAVE_PIC_DATA_def
  SLAVE_PIC_MASTER_IRQ_LINE_def MASTER_PIC_IRQ_OFFSET_def SLAVE_PIC_IRQ_OFFSET_def PIC_EOI_def PIC_READ_IRR_def
  PIC_READ_ISR_def ICW1_INIT_def ICW1_ICW4_def ICW4_8086_def SLAVE_IRQNUM_BEGIN_def IRQ_OFFSET_def

definition PIC_sendEOI :: "'d bus \<Rightarrow> u16 \<Rightarrow> 'd \<Rightarrow> 'd" where
  "PIC_sendEOI bus irqnum d =
     (let d = (if SLAVE_IRQNUM_BEGIN \<le> irqnum then outb bus SLAVE_PIC_COMMAND PIC_EOI d else d)
      in outb bus MASTER_PIC_COMMAND PIC_EOI d)"

definition PIC_init :: "'d bus \<Rightarrow> 'd \<Rightarrow> 'd" where
  "PIC_init bus d =
     (let init_seq_flags = ICW1_INIT OR ICW1_ICW4;
          master_mask = 0xFF XOR push_bit SLAVE_PIC_MASTER_IRQ_LINE 1;
          slave_mask = 0xFF;
          d = outb bus MASTER_PIC_COMMAND init_seq_flags d;
          d = outb bus SLAVE_PIC_COMMAND init_seq_flags d;
          d = outb bus MASTER_PIC_DATA MASTER_PIC_IRQ_OFFSET d;
          d = outb bus SLAVE_PIC_DATA SLAVE_PIC_IRQ_OFFSET d;
          d = outb bus MASTER_PIC_DATA (push_bit SLAVE_PIC_MASTER_IRQ_LINE 1) d;
          d = outb bus SLAVE_PIC_DATA 0x2 d;
          d = outb bus MASTER_PIC_DATA ICW4_8086 d;
          d = outb bus SLAVE_PIC_DATA ICW4_8086 d;
          d = outb bus MASTER_PIC_DATA master_mask d
      in outb bus SLAVE_PIC_DATA slave_mask d)"

text \<open>The register and the bit of an interrupt number; a shift of \<^verbatim>\<open>1\<close> by 31 or more is undefined in C.\<close>

definition pic_line :: "u16 \<Rightarrow> u16 \<times> u16" where
  "pic_line irqnum =
     (let irqnum = irqnum - IRQ_OFFSET
      in if 8 \<le> irqnum then (SLAVE_PIC_DATA, irqnum - 8) else (MASTER_PIC_DATA, irqnum))"

definition PIC_mask_irq :: "'d bus \<Rightarrow> u16 \<Rightarrow> 'd \<Rightarrow> 'd outcome" where
  "PIC_mask_irq bus irqnum d =
     (let (port, line) = pic_line irqnum
      in if 31 \<le> line then Inl Bad_Arg
         else let (val, d) = inb bus port d
              in Inr (outb bus port (val OR ucast (push_bit (unat line) 1 :: u32)) d))"

definition PIC_unmask_irq :: "'d bus \<Rightarrow> u16 \<Rightarrow> 'd \<Rightarrow> 'd outcome" where
  "PIC_unmask_irq bus irqnum d =
     (let (port, line) = pic_line irqnum
      in if 31 \<le> line then Inl Bad_Arg
         else let (val, d) = inb bus port d
              in Inr (outb bus port (val AND ucast (NOT (push_bit (unat line) 1) :: u32)) d))"

text \<open>The two reads of \<^verbatim>\<open>__pic_read_register\<close> are unsequenced; the slave is read first here.\<close>

definition pic_read_register :: "'d bus \<Rightarrow> u8 \<Rightarrow> 'd \<Rightarrow> u16 \<times> 'd" where
  "pic_read_register bus cmd d =
     (let d = outb bus MASTER_PIC_COMMAND cmd d;
          d = outb bus SLAVE_PIC_COMMAND cmd d;
          (slave, d) = inb bus SLAVE_PIC_COMMAND d;
          (master, d) = inb bus MASTER_PIC_COMMAND d
      in (push_bit 8 (ucast slave) OR ucast master, d))"

definition PIC_read_ISR :: "'d bus \<Rightarrow> 'd \<Rightarrow> u16 \<times> 'd" where
  "PIC_read_ISR bus = pic_read_register bus PIC_READ_ISR"

definition PIC_read_IRR :: "'d bus \<Rightarrow> 'd \<Rightarrow> u16 \<times> 'd" where
  "PIC_read_IRR bus = pic_read_register bus PIC_READ_IRR"

definition PIC_check_spurious :: "'d bus \<Rightarrow> 'd \<Rightarrow> u32 \<times> 'd" where
  "PIC_check_spurious bus d =
     (let (irq_requests, d) = PIC_read_IRR bus d
      in if irq_requests AND push_bit 7 1 \<noteq> 0 then (1, d)
         else if irq_requests AND push_bit 15 1 \<noteq> 0 then (1, outb bus MASTER_PIC_COMMAND PIC_EOI d)
         else (0, d))"

section \<open>The controllers\<close>

text \<open>
  One 8259A: \<open>icw\<close> is the number of the initialisation word expected next (0 in operation),
  \<open>need4\<close> whether a fourth one follows, then the vector base, the cascade word, the mode word, the
  mask, request and in-service registers and the register that a read of the command port gives.
\<close>

record i8259 =
  icw :: nat
  need4 :: bool
  vec_base :: u8
  cascade :: u8
  mode_word :: u8
  imr :: u8
  irr :: u8
  isr :: u8
  sel_isr :: bool

text \<open>The non-specific end of interrupt clears the in-service bit of highest priority, the lowest one set.\<close>

definition eoi :: "u8 \<Rightarrow> u8" where
  "eoi r = (case filter (bit r) [0..<8] of [] \<Rightarrow> r | i # _ \<Rightarrow> unset_bit i r)"

definition i8259_cmd :: "u8 \<Rightarrow> i8259 \<Rightarrow> i8259" where
  "i8259_cmd v c =
     (if bit v 4 then c\<lparr>icw := 2, need4 := bit v 0, imr := 0, isr := 0, sel_isr := False\<rparr>
      else if bit v 3 then (if bit v 1 then c\<lparr>sel_isr := bit v 0\<rparr> else c)
      else if v AND 0xE0 = 0x20 then c\<lparr>isr := eoi (isr c)\<rparr> else c)"

definition i8259_data :: "u8 \<Rightarrow> i8259 \<Rightarrow> i8259" where
  "i8259_data v c =
     (if icw c = 2 then c\<lparr>vec_base := v AND 0xF8, icw := 3\<rparr>
      else if icw c = 3 then c\<lparr>cascade := v, icw := (if need4 c then 4 else 0)\<rparr>
      else if icw c = 4 then c\<lparr>mode_word := v, icw := 0\<rparr>
      else c\<lparr>imr := v\<rparr>)"

definition i8259_status :: "i8259 \<Rightarrow> u8" where
  "i8259_status c = (if sel_isr c then isr c else irr c)"

text \<open>
  The command bytes the driver sends: the first initialisation word (edge triggered, cascaded, a
  fourth word follows), the non-specific end of interrupt, and the two that select a register to
  read. \<open>i8259_cmd\<close> describes these; the other modes of the chip are not used and not assumed.
\<close>

definition pic_commands :: "u8 list" where
  "pic_commands = [0x11, 0x20, 0x0A, 0x0B]"

text \<open>
  A bus with two controllers at the usual ports, the master first: the writes of the driver and reads
  at their four ports act on them as above, and every other port leaves them alone.
\<close>

definition pic_on_bus :: "'d bus \<Rightarrow> ('d \<Rightarrow> i8259) \<Rightarrow> ('d \<Rightarrow> i8259) \<Rightarrow> bool" where
  "pic_on_bus bus mst slv \<longleftrightarrow>
     (\<forall>p v d. p \<noteq> 0x20 \<or> v \<in> set pic_commands \<longrightarrow> mst (bus_out bus p v d) =
        (if p = 0x20 then i8259_cmd v (mst d) else if p = 0x21 then i8259_data v (mst d) else mst d))
     \<and> (\<forall>p v d. p \<noteq> 0xA0 \<or> v \<in> set pic_commands \<longrightarrow> slv (bus_out bus p v d) =
        (if p = 0xA0 then i8259_cmd v (slv d) else if p = 0xA1 then i8259_data v (slv d) else slv d))
     \<and> (\<forall>p d. mst (snd (bus_in bus p d)) = mst d \<and> slv (snd (bus_in bus p d)) = slv d)
     \<and> (\<forall>d. fst (bus_in bus 0x20 d) = i8259_status (mst d) \<and> fst (bus_in bus 0x21 d) = imr (mst d)
          \<and> fst (bus_in bus 0xA0 d) = i8259_status (slv d) \<and> fst (bus_in bus 0xA1 d) = imr (slv d))"

section \<open>Driver on controllers\<close>

lemma pic_commands_mem [simp]:
  "0x11 \<in> set pic_commands" "0x20 \<in> set pic_commands" "0x0A \<in> set pic_commands" "0x0B \<in> set pic_commands"
  "PIC_EOI \<in> set pic_commands" "PIC_READ_IRR \<in> set pic_commands" "PIC_READ_ISR \<in> set pic_commands"
  "ICW1_INIT OR ICW1_ICW4 \<in> set pic_commands"
  by (simp_all add: pic_commands_def pic_consts)

lemma bus_out_simps:
  assumes "pic_on_bus bus mst slv"
  shows "v \<in> set pic_commands \<Longrightarrow> mst (outb bus MASTER_PIC_COMMAND v d) = i8259_cmd v (mst d)" "slv (outb bus MASTER_PIC_COMMAND v d) = slv d"
    "mst (outb bus MASTER_PIC_DATA v d) = i8259_data v (mst d)" "slv (outb bus MASTER_PIC_DATA v d) = slv d"
    "v \<in> set pic_commands \<Longrightarrow> slv (outb bus SLAVE_PIC_COMMAND v d) = i8259_cmd v (slv d)" "mst (outb bus SLAVE_PIC_COMMAND v d) = mst d"
    "slv (outb bus SLAVE_PIC_DATA v d) = i8259_data v (slv d)" "mst (outb bus SLAVE_PIC_DATA v d) = mst d"
  using assms by (simp_all add: pic_on_bus_def outb_def pic_consts)

lemma bus_in_simps:
  assumes "pic_on_bus bus mst slv"
  shows "fst (inb bus MASTER_PIC_COMMAND d) = i8259_status (mst d)" "fst (inb bus MASTER_PIC_DATA d) = imr (mst d)"
    "fst (inb bus SLAVE_PIC_COMMAND d) = i8259_status (slv d)" "fst (inb bus SLAVE_PIC_DATA d) = imr (slv d)"
    "mst (snd (inb bus p d)) = mst d" "slv (snd (inb bus p d)) = slv d"
  using assms by (simp_all add: pic_on_bus_def inb_def pic_consts)

lemmas bus_simps = bus_out_simps bus_in_simps

text \<open>The interrupt lines that are not masked, the slave's after the master's.\<close>

definition lines :: "i8259 \<Rightarrow> i8259 \<Rightarrow> nat set" where
  "lines m s = {n. n < 8 \<and> \<not> bit (imr m) n} \<union> {n. 8 \<le> n \<and> n < 16 \<and> \<not> bit (imr s) (n - 8)}"

text \<open>Both controllers initialised for vectors 32 to 47 and in operation.\<close>

definition pic_ready :: "i8259 \<Rightarrow> i8259 \<Rightarrow> bool" where
  "pic_ready m s \<longleftrightarrow> icw m = 0 \<and> icw s = 0 \<and> vec_base m = 32 \<and> vec_base s = 40
     \<and> cascade m = 4 \<and> cascade s = 2 \<and> mode_word m = 1 \<and> mode_word s = 1"

lemma PIC_init_ready:
  assumes "pic_on_bus bus mst slv"
  shows "pic_ready (mst (PIC_init bus d)) (slv (PIC_init bus d))" "lines (mst (PIC_init bus d)) (slv (PIC_init bus d)) = {2}"
proof -
  have m: "mst (PIC_init bus d) = (mst d)\<lparr>icw := 0, need4 := True, vec_base := 32, cascade := 4, mode_word := 1, imr := 0xFB, isr := 0, sel_isr := False\<rparr>"
    and s: "slv (PIC_init bus d) = (slv d)\<lparr>icw := 0, need4 := True, vec_base := 40, cascade := 2, mode_word := 1, imr := 0xFF, isr := 0, sel_isr := False\<rparr>"
    by (simp_all add: PIC_init_def Let_def bus_simps [OF assms] i8259_cmd_def i8259_data_def ICW1_INIT_def ICW1_ICW4_def
        MASTER_PIC_IRQ_OFFSET_def SLAVE_PIC_IRQ_OFFSET_def SLAVE_PIC_MASTER_IRQ_LINE_def ICW4_8086_def bit_simps push_bit_eq_mult)
  show "pic_ready (mst (PIC_init bus d)) (slv (PIC_init bus d))" by (simp add: m s pic_ready_def)
  have b: "n < 8 \<Longrightarrow> bit (0xFB :: u8) n \<longleftrightarrow> n \<noteq> 2" "n < 8 \<Longrightarrow> bit (0xFF :: u8) n" for n
    by (auto simp: less_Suc_eq numeral_eq_Suc elim!: less_SucE)
  show "lines (mst (PIC_init bus d)) (slv (PIC_init bus d)) = {2}" 
  proof -
    have "{n. n < 8 \<and> \<not> bit (0xFB :: u8) n} = {2}" "{n. 8 \<le> n \<and> n < 16 \<and> \<not> bit (0xFF :: u8) (n - 8)} = {}"
      using b(1) b(2) [of "n - 8" for n] by (auto dest: b(2) [of "n - 8" for n])
    moreover have "imr (mst (PIC_init bus d)) = 0xFB" "imr (slv (PIC_init bus d)) = 0xFF" by (simp_all add: m s)
    ultimately show ?thesis unfolding lines_def by (simp only: Un_empty_right)
  qed
qed

lemma pic_line_master: "32 \<le> n \<Longrightarrow> n < 40 \<Longrightarrow> pic_line n = (MASTER_PIC_DATA, n - 32) \<and> unat (n - 32) = unat n - 32"
  by (auto simp: pic_line_def IRQ_OFFSET_def Let_def word_le_nat_alt word_less_nat_alt unat_sub)

lemma pic_line_slave: "40 \<le> n \<Longrightarrow> n < 48 \<Longrightarrow> pic_line n = (SLAVE_PIC_DATA, n - 40) \<and> unat (n - 40) = unat n - 40"
  by (auto simp: pic_line_def IRQ_OFFSET_def Let_def word_le_nat_alt word_less_nat_alt unat_sub)


lemma bit_line_mask:
  assumes "k < 8" "j < 8"
  shows "bit (v OR ucast (push_bit k 1 :: u32) :: u8) j \<longleftrightarrow> bit v j \<or> j = k"
    "bit (v AND ucast (NOT (push_bit k 1) :: u32) :: u8) j \<longleftrightarrow> bit v j \<and> j \<noteq> k"
  using assms by (auto simp: bit_simps)

lemma i8259_data_ready: "icw c = 0 \<Longrightarrow> i8259_data v c = c\<lparr>imr := v\<rparr>"
  by (simp add: i8259_data_def)

text \<open>Masking and unmasking in one statement: line \<open>n - 32\<close> leaves or joins the enabled lines.\<close>

definition pic_switch :: "'d bus \<Rightarrow> bool \<Rightarrow> u16 \<Rightarrow> 'd \<Rightarrow> 'd outcome" where
  "pic_switch bus on n d = (if on then PIC_unmask_irq bus n d else PIC_mask_irq bus n d)"

definition switch_line :: "bool \<Rightarrow> u16 \<Rightarrow> nat set \<Rightarrow> nat set" where
  "switch_line on n L = (if on then insert (unat n - 32) L else L - {unat n - 32})"

lemma pic_switch_ok:
  assumes bus: "pic_on_bus bus mst slv" and r: "pic_ready (mst d) (slv d)" and n: "32 \<le> n" "n < 48"
  shows "\<exists>d'. pic_switch bus on n d = Inr d' \<and> pic_ready (mst d') (slv d')
    \<and> lines (mst d') (slv d') = switch_line on n (lines (mst d) (slv d))"
proof (cases "n < 40")
  case True
  define k where "k = unat n - 32"
  have k: "k < 8" using True n(1) by (simp add: k_def word_less_nat_alt word_le_nat_alt)
  have pl: "pic_line n = (MASTER_PIC_DATA, n - 32)" "unat (n - 32) = k" using pic_line_master [OF n(1) True] by (simp_all add: k_def)
  have nl: "\<not> 31 \<le> n - 32" using pl(2) k by (simp add: word_le_nat_alt)
  let ?v = "imr (mst d)" and ?b = "push_bit k 1 :: u32"
  define w where "w = (if on then ?v AND ucast (NOT ?b) else ?v OR ucast ?b)"
  obtain e where e: "inb bus MASTER_PIC_DATA d = (?v, e)" "mst e = mst d" "slv e = slv d"
    using bus_in_simps [OF bus] by (metis prod.collapse)
  have run: "pic_switch bus on n d = Inr (outb bus MASTER_PIC_DATA w e)"
    using nl by (simp add: pic_switch_def PIC_mask_irq_def PIC_unmask_irq_def pl e w_def)
  have m: "mst (outb bus MASTER_PIC_DATA w e) = (mst d)\<lparr>imr := w\<rparr>" "slv (outb bus MASTER_PIC_DATA w e) = slv d"
    using r e by (simp_all add: bus_simps [OF bus] i8259_data_ready pic_ready_def)
  have "lines ((mst d)\<lparr>imr := w\<rparr>) (slv d) = switch_line on n (lines (mst d) (slv d))"
    using bit_line_mask [OF k, of _ ?v] k unfolding switch_line_def k_def [symmetric] by (auto simp: lines_def w_def)
  then show ?thesis using run m r by (auto simp: pic_ready_def)
next
  case False
  define k where "k = unat n - 40"
  have k: "k < 8" "unat n - 32 = k + 8" using False n(2) by (auto simp: k_def word_less_nat_alt)
  have pl: "pic_line n = (SLAVE_PIC_DATA, n - 40)" "unat (n - 40) = k" using pic_line_slave [of n] False n by (simp_all add: k_def)
  have nl: "\<not> 31 \<le> n - 40" using pl(2) k by (simp add: word_le_nat_alt)
  let ?v = "imr (slv d)" and ?b = "push_bit k 1 :: u32"
  define w where "w = (if on then ?v AND ucast (NOT ?b) else ?v OR ucast ?b)"
  obtain e where e: "inb bus SLAVE_PIC_DATA d = (?v, e)" "mst e = mst d" "slv e = slv d"
    using bus_in_simps [OF bus] by (metis prod.collapse)
  have run: "pic_switch bus on n d = Inr (outb bus SLAVE_PIC_DATA w e)"
    using nl by (simp add: pic_switch_def PIC_mask_irq_def PIC_unmask_irq_def pl e w_def)
  have m: "slv (outb bus SLAVE_PIC_DATA w e) = (slv d)\<lparr>imr := w\<rparr>" "mst (outb bus SLAVE_PIC_DATA w e) = mst d"
    using r e by (simp_all add: bus_simps [OF bus] i8259_data_ready pic_ready_def)
  have "lines (mst d) ((slv d)\<lparr>imr := w\<rparr>) = switch_line on n (lines (mst d) (slv d))"
    using bit_line_mask [OF k(1), of _ ?v] k unfolding switch_line_def k(2) by (auto simp: lines_def w_def)
  then show ?thesis using run m r by (auto simp: pic_ready_def)
qed

fun pic_switches :: "'d bus \<Rightarrow> (bool \<times> u16) list \<Rightarrow> 'd \<Rightarrow> 'd outcome" where
  "pic_switches bus [] d = Inr d"
| "pic_switches bus ((on, n) # ops) d = bindE (pic_switch bus on n d) (pic_switches bus ops)"

lemma pic_switches_ok:
  assumes bus: "pic_on_bus bus mst slv"
  shows "pic_ready (mst d) (slv d) \<Longrightarrow> \<forall>(on, n) \<in> set ops. 32 \<le> n \<and> n < 48 \<Longrightarrow>
    \<exists>d'. pic_switches bus ops d = Inr d' \<and> pic_ready (mst d') (slv d')
      \<and> lines (mst d') (slv d') = fold (\<lambda>(on, n). switch_line on n) ops (lines (mst d) (slv d))"
proof (induction ops arbitrary: d)
  case (Cons op ops)
  obtain on n where op: "op = (on, n)" by (cases op)
  then obtain d1 where d1: "pic_switch bus on n d = Inr d1" "pic_ready (mst d1) (slv d1)"
    "lines (mst d1) (slv d1) = switch_line on n (lines (mst d) (slv d))"
    using pic_switch_ok [OF bus Cons.prems(1), of n on] Cons.prems(2) by auto
  then show ?case using Cons.IH [OF d1(2)] Cons.prems(2) by (simp add: op)
qed simp

section \<open>A bus\<close>

definition pc_bus :: "(i8259 \<times> i8259) bus" where
  "pc_bus = \<lparr>bus_out = (\<lambda>p v (m, s).
       (if p = 0x20 then i8259_cmd v m else if p = 0x21 then i8259_data v m else m,
        if p = 0xA0 then i8259_cmd v s else if p = 0xA1 then i8259_data v s else s)),
     bus_in = (\<lambda>p (m, s). (if p = 0x20 then i8259_status m else if p = 0x21 then imr m
        else if p = 0xA0 then i8259_status s else if p = 0xA1 then imr s else 0xFF, (m, s)))\<rparr>"

lemma pc_bus_ok: "pic_on_bus pc_bus fst snd"
  by (auto simp: pic_on_bus_def pc_bus_def split: prod.splits)

definition i8259_reset :: i8259 where
  "i8259_reset = \<lparr>icw = 0, need4 = False, vec_base = 0, cascade = 0, mode_word = 0, imr = 0, irr = 0, isr = 0, sel_isr = False\<rparr>"

section \<open>Properties\<close>

text \<open>C34: after initialisation, both controllers deliver vectors 32 to 47 and only the cascade line is
  enabled; from then on every sequence of mask and unmask calls for vectors 32 to 47 leaves exactly
  the lines enabled that it should, with no effect on any other line or on the initialisation.\<close>

theorem PIC_lines_refine:
  assumes "pic_on_bus bus mst slv" "\<forall>(on, n) \<in> set ops. 32 \<le> n \<and> n < 48"
  shows "\<exists>d'. pic_switches bus ops (PIC_init bus d) = Inr d'
    \<and> icw (mst d') = 0 \<and> icw (slv d') = 0 \<and> vec_base (mst d') = 32 \<and> vec_base (slv d') = 40
    \<and> lines (mst d') (slv d') = fold (\<lambda>(on, n) L. if on then insert (unat n - 32) L else L - {unat n - 32}) ops {2}"
proof -
  have e: "(\<lambda>(on, n). switch_line on n) = (\<lambda>(on, n) L. if on then insert (unat n - 32) L else L - {unat n - 32})"
    by (auto simp: fun_eq_iff switch_line_def)
  show ?thesis
    using pic_switches_ok [OF assms(1) PIC_init_ready(1) [OF assms(1)] assms(2), of d] PIC_init_ready(2) [OF assms(1), of d]
    unfolding e by (auto simp: pic_ready_def)
qed

theorem PIC_lines_refine_witness:
  "\<exists>d'. pic_switches pc_bus [(True, 32), (True, 41), (False, 34)] (PIC_init pc_bus (i8259_reset, i8259_reset)) = Inr d'
    \<and> lines (fst d') (snd d') = {0, 9}"
  using PIC_lines_refine [OF pc_bus_ok, of "[(True, 32), (True, 41), (False, 34)]" "(i8259_reset, i8259_reset)"]
  by (auto simp: insert_Diff_if)

end
