(* ===== verification/Descriptors.thy ===== *)
theory Descriptors
  imports Mugo_Prelude
begin

text \<open>
  The descriptor tables of the processor: \<^verbatim>\<open>arch/i686/boot/gdt.c\<close> (segments and the task state
  segment) and \<^verbatim>\<open>arch/i686/idt.c\<close> (interrupt gates). The addresses of the tables, of the handlers
  and of the kernel stack are link-time values and so arguments; loading a table register is
  storing the address of its descriptor.
\<close>

section \<open>Segments\<close>

record gdt_entry_t =
  limit_low :: u16
  base_low :: u16
  base_middle :: u8
  access_byte :: u8
  granularity :: u8
  base_high :: u8

record table_reg =
  tbl_limit :: u16
  tbl_base :: u32

record tss =
  tss_sp0 :: u32
  tss_ss0 :: u16
  tss_sp1 :: u32
  tss_ss1 :: u16
  tss_sp2 :: u32
  tss_ss2 :: u16
  tss_cr3 :: u32
  tss_eip :: u32
  tss_eflags :: u32
  tss_eax :: u32
  tss_ecx :: u32
  tss_edx :: u32
  tss_ebx :: u32
  tss_esp :: u32
  tss_ebp :: u32
  tss_esi :: u32
  tss_edi :: u32
  tss_es :: u16
  tss_cs :: u16
  tss_ss :: u16
  tss_ds :: u16
  tss_fs :: u16
  tss_gs :: u16
  tss_ldtr :: u16

text \<open>Sixteen-bit fields are padded to words, and there is an unnamed word at each end.\<close>

definition TSS_SIZE :: u32 where "TSS_SIZE = 104"

record gdt_state =
  gdt_entries :: "gdt_entry_t list"
  gdt :: table_reg
  gdt_tss :: tss
  gdtr :: u32
  task_loaded :: bool

definition fill_gdt_entry :: "nat \<Rightarrow> u32 \<Rightarrow> u32 \<Rightarrow> u8 \<Rightarrow> u8 \<Rightarrow> gdt_state \<Rightarrow> gdt_state" where
  "fill_gdt_entry segment_num base limit acc gran s =
     s\<lparr>gdt_entries := (gdt_entries s)[segment_num :=
       \<lparr>limit_low = ucast (limit AND 0xFFFF), base_low = ucast (base AND 0xFFFF),
        base_middle = ucast (drop_bit 16 base AND 0xFF), access_byte = acc,
        granularity = ucast (drop_bit 16 limit AND 0x0F) OR gran,
        base_high = ucast (drop_bit 24 base AND 0xFF)\<rparr>]\<rparr>"

definition init_gdt :: "u32 \<Rightarrow> u32 \<Rightarrow> u32 \<Rightarrow> vaddr_t \<Rightarrow> gdt_state \<Rightarrow> gdt_state" where
  "init_gdt gdt_entries_addr gdt_addr tss_addr kstack_top s =
     (let s = s\<lparr>gdt := \<lparr>tbl_limit = 8 * 6 - 1, tbl_base = gdt_entries_addr\<rparr>\<rparr>;
          s = fill_gdt_entry 0 0 0 0 0 s;
          s = fill_gdt_entry 1 0 0xFFFFFFFF 0x9A 0xC0 s;
          s = fill_gdt_entry 2 0 0xFFFFFFFF 0x92 0xC0 s;
          s = fill_gdt_entry 3 0 0xFFFFFFFF 0xFA 0xC0 s;
          s = fill_gdt_entry 4 0 0xFFFFFFFF 0xF2 0xC0 s;
          s = fill_gdt_entry 5 tss_addr TSS_SIZE 0x89 0xC0 s;
          s = s\<lparr>gdt_tss := (gdt_tss s)\<lparr>tss_ss0 := 0x10, tss_sp0 := kstack_top, tss_cs := 0x0b, tss_ss := 0x13,
                tss_ds := 0x13, tss_es := 0x13, tss_fs := 0x13, tss_gs := 0x13\<rparr>\<rparr>
      in s\<lparr>gdtr := gdt_addr, task_loaded := True\<rparr>)"

definition native_update_tss :: "vaddr_t \<Rightarrow> gdt_state \<Rightarrow> gdt_state" where
  "native_update_tss esp0 s = s\<lparr>gdt_tss := (gdt_tss s)\<lparr>tss_sp0 := esp0\<rparr>\<rparr>"

section \<open>Interrupt gates\<close>

record idt_entry_t =
  offset_low :: u16
  selector :: u16
  idt_zero :: u8
  type_attr :: u8
  offset_high :: u16

record idt_state =
  idt_entries :: "idt_entry_t list"
  idt :: table_reg
  idtr :: u32

definition fill_idt_entry :: "nat \<Rightarrow> u32 \<Rightarrow> u16 \<Rightarrow> u8 \<Rightarrow> idt_state \<Rightarrow> idt_state" where
  "fill_idt_entry num offset sel type s =
     s\<lparr>idt_entries := (idt_entries s)[num :=
       \<lparr>offset_low = ucast (offset AND 0xFFFF), selector = sel, idt_zero = 0, type_attr = type,
        offset_high = ucast (drop_bit 16 offset AND 0xFFFF)\<rparr>]\<rparr>"

text \<open>\<open>handler n\<close> is the address of the entry point of vector \<open>n\<close>: \<^verbatim>\<open>eh0\<close> to \<^verbatim>\<open>eh31\<close>, then \<^verbatim>\<open>irq0\<close> to \<^verbatim>\<open>irq15\<close>,
  in the order in which the code fills the table.\<close>

definition init_idt :: "u32 \<Rightarrow> u32 \<Rightarrow> (nat \<Rightarrow> u32) \<Rightarrow> idt_state \<Rightarrow> idt_state" where
  "init_idt idt_entries_addr idt_addr handler s =
     (let s = s\<lparr>idt := \<lparr>tbl_limit = 8 * 256 - 1, tbl_base = idt_entries_addr\<rparr>\<rparr>;
          s = fold (\<lambda>n. fill_idt_entry n (handler n) 0x08 0x8E) [0..<48] s
      in s\<lparr>idtr := idt_addr\<rparr>)"

section \<open>What the processor reads\<close>

text \<open>The fields of a descriptor as the processor puts them together.\<close>

definition seg_base :: "gdt_entry_t \<Rightarrow> u32" where
  "seg_base e = ucast (base_low e) OR push_bit 16 (ucast (base_middle e)) OR push_bit 24 (ucast (base_high e))"

definition seg_limit :: "gdt_entry_t \<Rightarrow> u32" where
  "seg_limit e = (let l = ucast (limit_low e) OR push_bit 16 (ucast (granularity e AND 0x0F))
     in if bit (granularity e) 7 then push_bit 12 l OR 0xFFF else l)"

definition seg_dpl :: "gdt_entry_t \<Rightarrow> u8" where
  "seg_dpl e = drop_bit 5 (access_byte e) AND 3"

definition gate_offset :: "idt_entry_t \<Rightarrow> u32" where
  "gate_offset e = ucast (offset_low e) OR push_bit 16 (ucast (offset_high e))"

text \<open>A present 32-bit interrupt gate for ring 0.\<close>

definition interrupt_gate :: "idt_entry_t \<Rightarrow> bool" where
  "interrupt_gate e \<longleftrightarrow> bit (type_attr e) 7 \<and> drop_bit 5 (type_attr e) AND 3 = 0 \<and> type_attr e AND 0x1F = 0x0E"

section \<open>Splitting and joining\<close>

text \<open>Both kinds of descriptor scatter an address over their fields; what the processor joins is what was split.\<close>

locale split_address =
  fixes split :: "u32 \<Rightarrow> 'e" and join :: "'e \<Rightarrow> u32"
  assumes join_split: "join (split a) = a"
begin

lemma split_inject: "split a = split b \<longleftrightarrow> a = b"
  using join_split [of a] join_split [of b] by metis

end

definition mk_gate :: "u16 \<Rightarrow> u8 \<Rightarrow> u32 \<Rightarrow> idt_entry_t" where
  "mk_gate sel type offset = \<lparr>offset_low = ucast (offset AND 0xFFFF), selector = sel, idt_zero = 0, type_attr = type,
     offset_high = ucast (drop_bit 16 offset AND 0xFFFF)\<rparr>"

definition mk_segment :: "u32 \<Rightarrow> u8 \<Rightarrow> u8 \<Rightarrow> u32 \<Rightarrow> gdt_entry_t" where
  "mk_segment limit acc gran base =
     \<lparr>limit_low = ucast (limit AND 0xFFFF), base_low = ucast (base AND 0xFFFF),
      base_middle = ucast (drop_bit 16 base AND 0xFF), access_byte = acc,
      granularity = ucast (drop_bit 16 limit AND 0x0F) OR gran, base_high = ucast (drop_bit 24 base AND 0xFF)\<rparr>"

lemma low_masks: "(0xFFFF :: u32) = mask 16" "(0xFF :: u32) = mask 8" "(0xF :: u32) = mask 4"
  by (simp_all add: mask_eq_exp_minus_1)

interpretation gate: split_address "mk_gate sel type" gate_offset
  by unfold_locales (rule bit_word_eqI, auto simp: gate_offset_def mk_gate_def low_masks bit_simps)

lemma seg_base_segment: "seg_base (mk_segment limit acc gran a) = a"
proof (rule bit_word_eqI)
  fix n assume "n < LENGTH(32)"
  then consider "n < 16" | "16 \<le> n \<and> n < 24" | "24 \<le> n \<and> n < 32" by fastforce
  then show "bit (seg_base (mk_segment limit acc gran a)) n = bit a n"
    by cases (auto simp: seg_base_def mk_segment_def low_masks bit_simps)
qed

interpretation segment: split_address "mk_segment limit acc gran" seg_base
  by unfold_locales (rule seg_base_segment)

lemma fill_gate: "fill_idt_entry n off sel type s = s\<lparr>idt_entries := (idt_entries s)[n := mk_gate sel type off]\<rparr>"
  by (simp add: fill_idt_entry_def mk_gate_def)

lemma fill_segment: "fill_gdt_entry n base limit acc gran s = s\<lparr>gdt_entries := (gdt_entries s)[n := mk_segment limit acc gran base]\<rparr>"
  by (simp add: fill_gdt_entry_def mk_segment_def)

lemma fill_gates:
  "length (idt_entries (fold (\<lambda>n. fill_idt_entry n (h n) sel ty) [0..<k] s)) = length (idt_entries s)"
  "k \<le> length (idt_entries s) \<Longrightarrow> i < length (idt_entries s) \<Longrightarrow>
    idt_entries (fold (\<lambda>n. fill_idt_entry n (h n) sel ty) [0..<k] s) ! i = (if i < k then mk_gate sel ty (h i) else idt_entries s ! i)"
proof (induction k)
  case (Suc k)
  { case 1 show ?case using Suc.IH(1) by (simp add: fill_gate) }
  case 2
  then show ?case using Suc.IH(1) Suc.IH(2) by (auto simp: fill_gate nth_list_update less_Suc_eq)
qed simp_all

definition zero_tss :: tss where
  "zero_tss = \<lparr>tss_sp0 = 0, tss_ss0 = 0, tss_sp1 = 0, tss_ss1 = 0, tss_sp2 = 0, tss_ss2 = 0, tss_cr3 = 0, tss_eip = 0,
     tss_eflags = 0, tss_eax = 0, tss_ecx = 0, tss_edx = 0, tss_ebx = 0, tss_esp = 0, tss_ebp = 0, tss_esi = 0,
     tss_edi = 0, tss_es = 0, tss_cs = 0, tss_ss = 0, tss_ds = 0, tss_fs = 0, tss_gs = 0, tss_ldtr = 0\<rparr>"

section \<open>Properties\<close>

text \<open>C36: after \<^verbatim>\<open>init_idt\<close> the processor finds, for each of the vectors 0 to 47, a present ring 0 interrupt
  gate to exactly the entry point of that vector in the kernel code segment; the other vectors are
  as before, the table register covers 256 gates, and no two vectors share a gate unless they share the entry
  point.\<close>

theorem init_idt_gates:
  assumes "length (idt_entries s) = 256"
  shows "(\<forall>n < 48. let e = idt_entries (init_idt ia da h s) ! n
         in gate_offset e = h n \<and> interrupt_gate e \<and> selector e = 0x08)
    \<and> (\<forall>n. 48 \<le> n \<and> n < 256 \<longrightarrow> idt_entries (init_idt ia da h s) ! n = idt_entries s ! n)
    \<and> unat (tbl_limit (idt (init_idt ia da h s))) + 1 = 256 * 8 \<and> tbl_base (idt (init_idt ia da h s)) = ia \<and> idtr (init_idt ia da h s) = da
    \<and> (\<forall>m < 48. \<forall>n < 48. idt_entries (init_idt ia da h s) ! m = idt_entries (init_idt ia da h s) ! n \<longleftrightarrow> h m = h n)"
proof -
  let ?s = "s\<lparr>idt := \<lparr>tbl_limit = 8 * 256 - 1, tbl_base = ia\<rparr>\<rparr>"
  have ent: "idt_entries (init_idt ia da h s) ! n = (if n < 48 then mk_gate 0x08 0x8E (h n) else idt_entries s ! n)" if "n < 256" for n
    using fill_gates(2) [of 48 ?s n h "0x08" "0x8E"] that assms by (simp add: init_idt_def Let_def del: upt_Suc)
  have rest: "idt (fold (\<lambda>n. fill_idt_entry n (h n) 0x08 0x8E) [0..<k] ?s) = idt ?s" for k
    by (induction k) (simp_all add: fill_gate)
  have gate: "interrupt_gate (mk_gate 0x08 0x8E a) \<and> selector (mk_gate 0x08 0x8E a) = 0x08" for a
    by (simp add: interrupt_gate_def mk_gate_def drop_bit_eq_div)
  show ?thesis
    using ent gate rest [of 48]
    by (simp add: Let_def gate.join_split gate.split_inject) (simp add: init_idt_def Let_def del: upt_Suc)
qed

theorem init_idt_gates_witness:
  "gate_offset (idt_entries (init_idt 0x1000 0x2000 (\<lambda>n. 0xC0100000 + 16 * of_nat n)
      \<lparr>idt_entries = replicate 256 (mk_gate 0 0 0), idt = \<lparr>tbl_limit = 0, tbl_base = 0\<rparr>, idtr = 0\<rparr>) ! 32) = 0xC0100200"
  using init_idt_gates [of "\<lparr>idt_entries = replicate 256 (mk_gate 0 0 0), idt = \<lparr>tbl_limit = 0, tbl_base = 0\<rparr>, idtr = 0\<rparr>"
      "0x1000" "0x2000" "\<lambda>n. 0xC0100000 + 16 * of_nat n"] by (simp add: Let_def)

text \<open>C37: the segments after \<^verbatim>\<open>init_gdt\<close>: the kernel's code and data (selectors 8 and 16) and the user's code and
  data (selectors \<open>0x1B\<close> and \<open>0x23\<close>, the ones a new thread gets) start at 0 and span the whole address space with
  privilege levels 0 and 3; the task state segment is found at its address, but with a limit 4096
  times its size, since the limit is counted in pages.\<close>

theorem init_gdt_segments:
  assumes "length (gdt_entries s) = 6"
  shows "(\<forall>sel \<in> {0x08, 0x10, 0x1B, 0x23}. let e = gdt_entries (init_gdt ea ga ta kst s) ! (sel div 8)
         in seg_base e = 0 \<and> seg_limit e = 0xFFFFFFFF \<and> bit (access_byte e) 7 \<and> unat (seg_dpl e) = sel mod 4)
    \<and> (let e = gdt_entries (init_gdt ea ga ta kst s) ! 5 in seg_base e = ta \<and> unat (seg_limit e) + 1 = 4096 * (unat TSS_SIZE + 1))
    \<and> tss_sp0 (gdt_tss (init_gdt ea ga ta kst s)) = kst \<and> tss_ss0 (gdt_tss (init_gdt ea ga ta kst s)) = 0x10
    \<and> tbl_base (gdt (init_gdt ea ga ta kst s)) = ea \<and> gdtr (init_gdt ea ga ta kst s) = ga"
proof -
  obtain a b c d e f where g: "gdt_entries s = [a, b, c, d, e, f]"
    using assms by (auto simp: length_Suc_conv numeral_eq_Suc)
  have "gdt_entries (init_gdt ea ga ta kst s) = [mk_segment 0 0 0 0, mk_segment 0xFFFFFFFF 0x9A 0xC0 0, mk_segment 0xFFFFFFFF 0x92 0xC0 0,
      mk_segment 0xFFFFFFFF 0xFA 0xC0 0, mk_segment 0xFFFFFFFF 0xF2 0xC0 0, mk_segment TSS_SIZE 0x89 0xC0 ta]"
    by (simp add: init_gdt_def Let_def fill_segment g numeral_eq_Suc)
  moreover have "seg_limit (mk_segment 0xFFFFFFFF acc 0xC0 x) = 0xFFFFFFFF" "seg_limit (mk_segment TSS_SIZE acc 0xC0 x) = 0x68FFF" for acc x
    by (simp_all add: seg_limit_def mk_segment_def TSS_SIZE_def Let_def drop_bit_eq_div push_bit_eq_mult)
  moreover have "access_byte (mk_segment l acc gr x) = acc" for l acc gr x by (simp add: mk_segment_def)
  ultimately show ?thesis
    by (simp add: segment.join_split Let_def seg_dpl_def drop_bit_eq_div TSS_SIZE_def) (simp add: init_gdt_def Let_def fill_segment)
qed

theorem init_gdt_segments_witness:
  "seg_base (gdt_entries (init_gdt 0x1000 0x2000 0xC0108000 0xC0200000
      \<lparr>gdt_entries = replicate 6 (mk_segment 0 0 0 0), gdt = \<lparr>tbl_limit = 0, tbl_base = 0\<rparr>, gdt_tss = zero_tss, gdtr = 0, task_loaded = False\<rparr>) ! 5) = 0xC0108000"
  using init_gdt_segments [of "\<lparr>gdt_entries = replicate 6 (mk_segment 0 0 0 0), gdt = \<lparr>tbl_limit = 0, tbl_base = 0\<rparr>, gdt_tss = zero_tss, gdtr = 0, task_loaded = False\<rparr>"
      "0x1000" "0x2000" "0xC0108000" "0xC0200000"] by (simp add: Let_def)

end
