(* ===== verification/Klist.thy ===== *)
theory Klist
  imports Mugo_Prelude
begin

text \<open>
  The intrusive doubly linked list of \<^verbatim>\<open>kern/list.h\<close>. A header is named by its address; the heap
  of headers keeps the two pointer fields apart (no two headers overlap partially), so that a
  store to one field of one header is an update of one function at one point.

  \<open>ring\<close> is the abstract reading of a list: from the list head the \<open>next\<close> pointers visit the
  nodes in order and return to the head, the \<open>prev\<close> pointers visit them backwards, and nothing is
  met twice. The locale \<open>fifo\<close> is the queue contract the scheduler relies on.
\<close>

section \<open>Definitions\<close>

record lheap =
  nxt :: "u32 \<Rightarrow> u32"
  prv :: "u32 \<Rightarrow> u32"

definition set_next :: "lheap \<Rightarrow> u32 \<Rightarrow> u32 \<Rightarrow> lheap" where
  "set_next h a v = h\<lparr>nxt := (nxt h)(a := v)\<rparr>"

definition set_prev :: "lheap \<Rightarrow> u32 \<Rightarrow> u32 \<Rightarrow> lheap" where
  "set_prev h a v = h\<lparr>prv := (prv h)(a := v)\<rparr>"

definition LIST_HEAD_INIT :: "lheap \<Rightarrow> u32 \<Rightarrow> lheap" where
  "LIST_HEAD_INIT h var = set_next (set_prev h var var) var var"

definition list_add :: "lheap \<Rightarrow> u32 \<Rightarrow> u32 \<Rightarrow> lheap" where
  "list_add h new head =
     (let head_next = nxt h head;
          h = set_prev h head_next new;
          h = set_next h head new;
          h = set_next h new head_next
      in set_prev h new head)"

definition list_remove :: "lheap \<Rightarrow> u32 \<Rightarrow> lheap" where
  "list_remove h hdr =
     (let h = set_prev h (nxt h hdr) (prv h hdr)
      in set_next h (prv h hdr) (nxt h hdr))"

definition list_is_empty :: "lheap \<Rightarrow> u32 \<Rightarrow> bool" where
  "list_is_empty h hdr \<longleftrightarrow> nxt h hdr = hdr \<and> prv h hdr = hdr"

definition list_next :: "lheap \<Rightarrow> u32 \<Rightarrow> u32 \<times> lheap" where
  "list_next h hdr = (let ret = nxt h hdr in (ret, list_remove h ret))"

section \<open>Rings\<close>

fun links :: "lheap \<Rightarrow> u32 \<Rightarrow> u32 list \<Rightarrow> u32 \<Rightarrow> bool" where
  "links h a [] b \<longleftrightarrow> nxt h a = b \<and> prv h b = a"
| "links h a (x # xs) b \<longleftrightarrow> nxt h a = x \<and> prv h x = a \<and> links h x xs b"

definition ring :: "lheap \<Rightarrow> u32 \<Rightarrow> u32 list \<Rightarrow> bool" where
  "ring h q xs \<longleftrightarrow> distinct (q # xs) \<and> links h q xs q"

lemmas lheap_defs = set_next_def set_prev_def

lemma links_append: "links h a (xs @ x # ys) b \<longleftrightarrow> links h a xs x \<and> links h x ys b"
  by (induction xs arbitrary: a) auto

lemma links_cong:
  assumes "\<And>x. x \<in> set (a # xs) \<Longrightarrow> nxt h' x = nxt h x"
    and "\<And>x. x \<in> set (xs @ [b]) \<Longrightarrow> prv h' x = prv h x"
  shows "links h' a xs b \<longleftrightarrow> links h a xs b"
  using assms by (induction xs arbitrary: a) auto

lemma links_last: "links h a xs b \<Longrightarrow> prv h b = last (a # xs)"
  by (induction xs arbitrary: a) auto

lemma ring_frame:
  assumes "\<And>x. x \<in> set (q # xs) \<Longrightarrow> nxt h' x = nxt h x \<and> prv h' x = prv h x"
  shows "ring h' q xs \<longleftrightarrow> ring h q xs"
  using assms unfolding ring_def by (subst links_cong [of q xs h' h q]) auto

lemma ring_init: "ring (LIST_HEAD_INIT h v) v []"
  by (simp add: ring_def LIST_HEAD_INIT_def lheap_defs)

lemma ring_empty: "ring h q xs \<Longrightarrow> list_is_empty h q \<longleftrightarrow> xs = []"
  by (cases xs) (auto simp: ring_def list_is_empty_def)

lemma ring_prev: "ring h q xs \<Longrightarrow> prv h q = last (q # xs)"
  by (auto simp: ring_def dest: links_last)

lemma list_add_fields:
  "nxt (list_add h n a) = (nxt h)(a := n, n := nxt h a)"
  "prv (list_add h n a) = (prv h)(nxt h a := n, n := a)"
  by (simp_all add: list_add_def lheap_defs Let_def)

lemma ring_add_tail:
  assumes r: "ring h q xs" and n: "n \<notin> set (q # xs)"
  shows "ring (list_add h n (prv h q)) q (xs @ [n])"
proof (cases xs rule: rev_cases)
  case Nil
  with r n show ?thesis by (auto simp: ring_def list_add_fields)
next
  case (snoc ys a)
  with r have l: "links h q ys a" "nxt h a = q" "prv h q = a" and d: "distinct (q # ys @ [a])"
    by (auto simp: ring_def links_append)
  have "links (list_add h n a) q ys a"
    using l(1) d n snoc by (subst links_cong [of _ _ _ h]) (auto simp: list_add_fields l)
  then show ?thesis
    using l d n snoc by (auto simp: ring_def links_append list_add_fields)
qed

lemma ring_add_front:
  assumes r: "ring h q xs" and n: "n \<notin> set (q # xs)"
  shows "ring (list_add h n q) q (n # xs)"
proof (cases xs)
  case Nil
  with r n show ?thesis by (auto simp: ring_def list_add_fields)
next
  case (Cons x ys)
  with r have l: "links h x ys q" "nxt h q = x" "prv h x = q" and d: "distinct (q # x # ys)"
    by (auto simp: ring_def)
  have "links (list_add h n q) x ys q"
    using l(1) d n Cons by (subst links_cong [of _ _ _ h]) (auto simp: list_add_fields l)
  then show ?thesis
    using l d n Cons by (auto simp: ring_def list_add_fields)
qed

lemma list_add_other:
  assumes "ring h q xs" "x \<notin> set (n # q # xs)"
  shows "nxt (list_add h n (prv h q)) x = nxt h x" "prv (list_add h n (prv h q)) x = prv h x"
  using assms ring_prev [OF assms(1)] links_last [of h q xs q]
  by (cases xs rule: rev_cases; auto simp: list_add_fields ring_def links_append)+

lemma ring_neighbours:
  assumes "ring h q (xs @ x # ys)"
  shows "prv h x = last (q # xs)" "nxt h x = List.hd (ys @ [q])"
  using assms links_last [of h q xs x] by (cases ys; auto simp: ring_def links_append)+

lemma list_remove_fields:
  assumes "ring h q (xs @ x # ys)"
  shows "nxt (list_remove h x) = (nxt h)(last (q # xs) := List.hd (ys @ [q]))"
    "prv (list_remove h x) = (prv h)(List.hd (ys @ [q]) := last (q # xs))"
  using ring_neighbours [OF assms] by (auto simp: list_remove_def lheap_defs Let_def)

lemma ring_remove:
  assumes r: "ring h q (xs @ x # ys)"
  shows "ring (list_remove h x) q (xs @ ys)"
proof -
  let ?h = "list_remove h x"
  from r have l: "links h q xs x" "links h x ys q" and d: "distinct (q # xs @ x # ys)"
    by (auto simp: ring_def links_append)
  have left: "links ?h q xs (List.hd (ys @ [q]))"
  proof (cases xs rule: rev_cases)
    case Nil
    then show ?thesis by (simp add: list_remove_fields [OF r])
  next
    case (snoc zs a)
    then have "links h q zs a" using l by (simp add: links_append)
    moreover have "List.hd (ys @ [q]) \<notin> set (zs @ [a])" using d snoc by (cases ys) auto
    ultimately have "links ?h q zs a"
      using d snoc by (subst links_cong [of _ _ _ h]) (auto simp: list_remove_fields [OF r])
    then show ?thesis using snoc by (simp add: links_append list_remove_fields [OF r])
  qed
  show ?thesis
  proof (cases ys)
    case Nil
    with left d show ?thesis by (simp add: ring_def)
  next
    case (Cons y zs)
    then have "links h y zs q" using l by simp
    moreover have "last (q # xs) \<notin> set (y # zs)"
      using d Cons last_in_set [of "q # xs"] by (auto simp del: last.simps)
    ultimately have "links ?h y zs q"
      using d Cons by (subst links_cong [of _ _ _ h]) (auto simp: list_remove_fields [OF r])
    with left d Cons show ?thesis by (auto simp: ring_def links_append)
  qed
qed

lemma list_remove_other:
  assumes "ring h q (xs @ x # ys)" "z \<notin> set (q # xs @ x # ys)"
  shows "nxt (list_remove h x) z = nxt h z" "prv (list_remove h x) z = prv h z"
  using assms(2) by (cases ys; auto simp: list_remove_fields [OF assms(1)])+

lemma ring_next:
  assumes "ring h q (x # xs)"
  shows "list_next h q = (x, list_remove h x)" "ring (list_remove h x) q xs"
  using assms ring_remove [of h q "[]" x xs] by (simp_all add: list_next_def ring_def)

section \<open>The queue contract\<close>

text \<open>
  A first-in first-out queue over a heap: \<open>rep\<close> says which sequence a heap represents, a node
  may be added when it is admissible and not yet queued. What the contract gives a round-robin
  client is rotation: taking the front and putting it back moves the sequence round by one, so
  that every element reaches the front within one turn of the queue.
\<close>

locale fifo =
  fixes rep :: "'h \<Rightarrow> 'n list \<Rightarrow> bool" and ok :: "'n \<Rightarrow> bool"
    and enq :: "'h \<Rightarrow> 'n \<Rightarrow> 'h" and deq :: "'h \<Rightarrow> 'n \<times> 'h" and is_empty :: "'h \<Rightarrow> bool"
  assumes rep_enq: "rep h xs \<Longrightarrow> ok n \<Longrightarrow> n \<notin> set xs \<Longrightarrow> rep (enq h n) (xs @ [n])"
    and rep_deq: "rep h (x # xs) \<Longrightarrow> fst (deq h) = x \<and> rep (snd (deq h)) xs"
    and rep_ok: "rep h xs \<Longrightarrow> x \<in> set xs \<Longrightarrow> ok x"
    and rep_distinct: "rep h xs \<Longrightarrow> distinct xs"
    and rep_empty: "rep h xs \<Longrightarrow> is_empty h \<longleftrightarrow> xs = []"
begin

lemma rep_turn: "rep h (x # xs) \<Longrightarrow> rep (enq (snd (deq h)) (fst (deq h))) (xs @ [x])"
  using rep_deq [of h x xs] rep_ok [of h "x # xs" x] rep_distinct [of h "x # xs"] rep_enq by auto

lemma rep_turns:
  "rep h xs \<Longrightarrow> xs \<noteq> [] \<Longrightarrow>
   rep (((\<lambda>h. enq (snd (deq h)) (fst (deq h))) ^^ k) h) (rotate k xs)"
proof (induction k)
  case (Suc k)
  then obtain y ys where "rotate k xs = y # ys" by (cases "rotate k xs") auto
  with Suc show ?case using rep_turn by (simp add: rotate1_def)
qed simp

lemma front_within_turn:
  assumes "rep h xs" "x \<in> set xs"
  shows "\<exists>k < length xs. fst (deq (((\<lambda>h. enq (snd (deq h)) (fst (deq h))) ^^ k) h)) = x"
proof -
  obtain k where k: "k < length xs" "xs ! k = x" using assms by (auto simp: in_set_conv_nth)
  then have "rotate k xs = x # tl (rotate k xs)"
    by (metis hd_Cons_tl hd_rotate_conv_nth length_0_conv length_rotate less_nat_zero_code mod_less)
  then show ?thesis using rep_turns [of h xs k] rep_deq assms k by (metis list.size(3) not_less0)
qed

end

interpretation ring_queue: fifo "\<lambda>h. ring h q" "\<lambda>n. n \<noteq> q" "\<lambda>h n. list_add h n (prv h q)"
    "\<lambda>h. list_next h q" "\<lambda>h. list_is_empty h q" for q
  by unfold_locales (auto simp: ring_add_tail ring_next ring_empty, auto simp: ring_def)

lemma add_remove_fields:
  assumes r: "ring h q xs" and n: "n \<notin> set (q # xs)"
  shows "nxt (list_remove (list_add h n (prv h q)) n) = (nxt h)(n := q)"
    and "prv (list_remove (list_add h n (prv h q)) n) = (prv h)(n := prv h q)"
proof -
  have p: "prv h q = last (q # xs)" by (rule ring_prev [OF r])
  then have a: "prv h q \<noteq> n" using n by (metis last_in_set list.distinct(1))
  have b: "nxt h (prv h q) = q"
    using r p by (cases xs rule: rev_cases) (auto simp: ring_def links_append)
  show "nxt (list_remove (list_add h n (prv h q)) n) = (nxt h)(n := q)"
    "prv (list_remove (list_add h n (prv h q)) n) = (prv h)(n := prv h q)"
    using a b n by (auto simp: list_remove_def lheap_defs Let_def list_add_fields fun_eq_iff)
qed

section \<open>Properties\<close>

text \<open>C18: the linked list implements a queue. Appending at the tail and taking from the front
  correspond to the sequence operations, and taking the front element and appending it again, \<open>k\<close>
  times over, leaves a list that represents the sequence rotated by \<open>k\<close>: a round-robin turn visits
  every element in order.\<close>

theorem list_turns_rotate:
  assumes "ring h q xs" "xs \<noteq> []"
  shows "ring (((\<lambda>h. let (n, h) = list_next h q in list_add h n (prv h q)) ^^ k) h) q (rotate k xs)"
  using ring_queue.rep_turns [OF assms, of k] by (simp add: case_prod_beta)

theorem list_turns_rotate_witness:
  "\<exists>h. ring h 1 [2, 3] \<and>
     ring (((\<lambda>h. let (n, h) = list_next h 1 in list_add h n (prv h 1)) ^^ 1) h) 1 [3, 2]"
proof -
  have "ring \<lparr>nxt = id(1 := 2, 2 := 3, 3 := 1), prv = id(1 := 3, 2 := 1, 3 := 2)\<rparr> 1 [2, 3]" (is "ring ?h _ _")
    by (simp add: ring_def)
  then show ?thesis using list_turns_rotate [of ?h 1 "[2, 3]" 1] by auto
qed

text \<open>Removal undoes insertion. Adding a node to the tail of a list and removing it again restores
  every pointer of every other header, in this list and in all others; removing a node from the
  middle of a list leaves the list of the other nodes in their order.\<close>

lemma list_remove_undoes_add:
  assumes "ring h q (xs @ x # ys)" "n \<notin> set (q # xs @ x # ys)"
  shows "ring (list_remove h x) q (xs @ ys)
    \<and> (\<forall>a. a = n \<or> (nxt (list_remove (list_add h n (prv h q)) n) a = nxt h a
                   \<and> prv (list_remove (list_add h n (prv h q)) n) a = prv h a))"
  using ring_remove [OF assms(1)] add_remove_fields [OF assms] by auto

end
