(* ===== verification/Kobjs.thy ===== *)
theory Kobjs
  imports Klist
begin

text \<open>
  The kernel objects of \<^verbatim>\<open>kern/kobjs.h\<close> with the i686 register frames they contain
  (\<^verbatim>\<open>arch_obj_defs.h\<close>, \<^verbatim>\<open>arch_interrupt.h\<close>), and the layout of \<^verbatim>\<open>tcb_t\<close> that the pointer
  arithmetic of \<^verbatim>\<open>list_data\<close> and \<^verbatim>\<open>ready_queue[i]\<close> depends on. The list header of a thread is
  not a field of the record: it lives in the heap of headers, at the address of the thread
  plus the offset of the member.
\<close>

section \<open>Register frames\<close>

text \<open>The general purpose registers, in the order in which the structure lays them out.\<close>

record arch_gp_regs =
  gp_edi :: reg_t
  gp_esi :: reg_t
  gp_ebp :: reg_t
  gp_esp :: reg_t
  gp_edx :: reg_t
  gp_ecx :: reg_t
  gp_ebx :: reg_t
  gp_eax :: reg_t

record arch_thread_context_t =
  tc_ds :: u32
  gp_regs_state :: arch_gp_regs
  tc_err :: u32
  tc_eip :: reg_t
  tc_cs :: reg_t
  tc_eflags :: reg_t
  tc_esp :: reg_t
  tc_ss :: reg_t

record irq_context =
  irq_ds :: u32
  irq_edi :: u32
  irq_esi :: u32
  irq_ebp :: u32
  irq_unused :: u32
  irq_ebx :: u32
  irq_edx :: u32
  irq_ecx :: u32
  irq_eax :: u32
  int_no :: u32
  err_code :: u32
  irq_eip :: u32
  irq_cs :: u32
  irq_eflags :: u32
  irq_esp :: u32
  irq_ss :: u32

section \<open>Threads and processes\<close>

record tcb_sched_ctx_t =
  priority :: size_t
  thread_state :: size_t
  quantum_nsec :: time_t

record tcb_t =
  tcb_id :: tid_t
  tcb_proc :: u32
  sched_ctx :: tcb_sched_ctx_t
  exec_ctx :: arch_thread_context_t
  utcb_ptr :: vaddr_t

record proc_t =
  proc_id :: pid_t
  page_dir :: paddr_t
  proc_priority :: size_t
  threads :: u32
  thread_count :: size_t

text \<open>
  Sizes and offsets on i686, where a 64-bit integer is aligned to four bytes: \<^verbatim>\<open>sched_ctx\<close> starts
  at 8 and takes 16 bytes, \<^verbatim>\<open>exec_ctx\<close> starts at 24 and takes 60, \<^verbatim>\<open>utcb_ptr\<close> is at 84 and the
  list header at 88.
\<close>

definition TCB_SIZE :: u32 where "TCB_SIZE = 96"
definition TCB_SCHED_CTX :: u32 where "TCB_SCHED_CTX = 8"
definition TCB_EXEC_CTX :: u32 where "TCB_EXEC_CTX = 24"
definition TCB_LIST :: u32 where "TCB_LIST = 88"
definition PROC_SIZE :: u32 where "PROC_SIZE = 28"

text \<open>\<^verbatim>\<open>&tcb->list\<close> and, back from a header to its thread, \<^verbatim>\<open>list_data(ptr, tcb_t, list)\<close>.\<close>

definition tcb_link :: "u32 \<Rightarrow> u32" where
  "tcb_link tcb = tcb + TCB_LIST"

definition list_data :: "u32 \<Rightarrow> u32" where
  "list_data ptr = ptr - TCB_LIST"

lemma list_data_link [simp]: "list_data (tcb_link t) = t" "tcb_link (list_data p) = p"
  by (simp_all add: list_data_def tcb_link_def)

lemma inj_tcb_link: "inj tcb_link"
  by (simp add: inj_def tcb_link_def)

lemma tcb_link_eq [simp]: "tcb_link a = tcb_link b \<longleftrightarrow> a = b"
  by (simp add: tcb_link_def)

end
