(* ===== verification/Thread.thy ===== *)
theory Thread
  imports Kobjs
begin

text \<open>
  The architecture part of threads: \<^verbatim>\<open>arch/i686/thread.c\<close> (creation, selection, saving of the
  interrupted context) and the return path of \<^verbatim>\<open>arch/i686/boot/interrupt.asm\<close> that reloads the
  registers from the selected context. The kernel state of scheduling lives here, because every
  one of these routines works on it.
\<close>

section \<open>State\<close>

text \<open>
  \<open>tcbs\<close> and \<open>procs\<close> are the thread and process objects by address, \<open>lh\<close> the heap of list
  headers, \<open>ready_queue\<close> the address of the static array of \<^verbatim>\<open>sched_rr.c\<close>. \<open>cur_exec_ctx\<close> is
  \<^verbatim>\<open>__current_thread_execution_ctx\<close>; zero is the null pointer.
\<close>

record kstate =
  lh :: lheap
  tcbs :: "u32 \<Rightarrow> tcb_t"
  procs :: "u32 \<Rightarrow> proc_t"
  ready_queue :: u32
  current_thread :: u32
  current_sched_ctx :: u32
  nsec_to_next_tick :: u32
  cur_exec_ctx :: u32
  current_proc :: u32
  cr3 :: u32

definition upd_tcb :: "u32 \<Rightarrow> (tcb_t \<Rightarrow> tcb_t) \<Rightarrow> kstate \<Rightarrow> kstate" where
  "upd_tcb t f s = s\<lparr>tcbs := (tcbs s)(t := f (tcbs s t))\<rparr>"

definition upd_sched_ctx :: "u32 \<Rightarrow> (tcb_sched_ctx_t \<Rightarrow> tcb_sched_ctx_t) \<Rightarrow> kstate \<Rightarrow> kstate" where
  "upd_sched_ctx t f = upd_tcb t (\<lambda>tcb. tcb\<lparr>sched_ctx := f (sched_ctx tcb)\<rparr>)"

section \<open>Operations\<close>

definition THREAD_DEFAULT_EFLAGS :: u32 where
  "THREAD_DEFAULT_EFLAGS = 0x2 OR push_bit 9 1"

definition zero_gp_regs :: arch_gp_regs where
  "zero_gp_regs = \<lparr>gp_edi = 0, gp_esi = 0, gp_ebp = 0, gp_esp = 0, gp_edx = 0, gp_ecx = 0,
     gp_ebx = 0, gp_eax = 0\<rparr>"

definition native_create_thread :: "u32 \<Rightarrow> vaddr_t \<Rightarrow> vaddr_t \<Rightarrow> vaddr_t \<Rightarrow> kstate \<Rightarrow> kstate" where
  "native_create_thread tcb entrypoint thread_stack_base k_stack_base =
     upd_tcb tcb (\<lambda>t. t\<lparr>exec_ctx := (exec_ctx t)
       \<lparr>tc_esp := thread_stack_base, tc_eip := entrypoint, tc_ss := 0x23, tc_ds := 0x23,
        tc_cs := 0x1B, tc_eflags := THREAD_DEFAULT_EFLAGS, gp_regs_state := zero_gp_regs\<rparr>\<rparr>)"

text \<open>Selecting the null thread reads \<^verbatim>\<open>tcb->proc\<close> through a null pointer, and changing to a thread without a process reads
  \<^verbatim>\<open>current_proc->page_dir\<close> through one.\<close>

definition native_select_thread :: "u32 \<Rightarrow> kstate \<Rightarrow> kstate outcome" where
  "native_select_thread tcb s =
     (if tcb = 0 then Inl Null_Deref
      else
        let s = (if tcb + TCB_EXEC_CTX \<noteq> cur_exec_ctx s then s\<lparr>cur_exec_ctx := tcb + TCB_EXEC_CTX\<rparr> else s)
        in if tcb_proc (tcbs s tcb) \<noteq> current_proc s
           then (let s = s\<lparr>current_proc := tcb_proc (tcbs s tcb)\<rparr>
                 in if current_proc s = 0 then Inl Null_Deref
                    else Inr (s\<lparr>cr3 := page_dir (procs s (current_proc s))\<rparr>))
           else Inr s)"

text \<open>The thread whose execution context \<^verbatim>\<open>__current_thread_execution_ctx\<close> points into.\<close>

definition exec_ctx_owner :: "kstate \<Rightarrow> u32" where
  "exec_ctx_owner s = cur_exec_ctx s - TCB_EXEC_CTX"

definition save_irq_context :: "irq_context \<Rightarrow> arch_thread_context_t \<Rightarrow> arch_thread_context_t" where
  "save_irq_context irq c = c
     \<lparr>tc_eip := irq_eip irq, tc_esp := irq_esp irq, tc_eflags := irq_eflags irq,
      gp_regs_state := (gp_regs_state c)
        \<lparr>gp_eax := irq_eax irq, gp_ebx := irq_ebx irq, gp_ecx := irq_ecx irq,
         gp_edx := irq_edx irq, gp_edi := irq_edi irq, gp_esi := irq_esi irq\<rparr>\<rparr>"

definition arch_update_exec_ctx :: "irq_context \<Rightarrow> kstate \<Rightarrow> kstate outcome" where
  "arch_update_exec_ctx irq s =
     (if cur_exec_ctx s = 0 then Inl Null_Deref
      else Inr (upd_tcb (exec_ctx_owner s) (\<lambda>t. t\<lparr>exec_ctx := save_irq_context irq (exec_ctx t)\<rparr>) s))"

text \<open>
  The registers the user thread sees after \<^verbatim>\<open>arch_return_to_user\<close>: the data segment is popped
  first, then \<^verbatim>\<open>popa\<close> takes eight words in the processor's order (\<open>edi\<close>, \<open>esi\<close>, \<open>ebp\<close>, one
  skipped, \<open>ebx\<close>, \<open>edx\<close>, \<open>ecx\<close>, \<open>eax\<close>), the error word is skipped and \<^verbatim>\<open>iret\<close> takes the rest.
\<close>

record cpu_regs =
  r_ds :: u32
  r_edi :: u32
  r_esi :: u32
  r_ebp :: u32
  r_ebx :: u32
  r_edx :: u32
  r_ecx :: u32
  r_eax :: u32
  r_eip :: u32
  r_cs :: u32
  r_eflags :: u32
  r_esp :: u32
  r_ss :: u32

definition ctx_words :: "arch_thread_context_t \<Rightarrow> u32 list" where
  "ctx_words c = (let g = gp_regs_state c in
     [tc_ds c, gp_edi g, gp_esi g, gp_ebp g, gp_esp g, gp_edx g, gp_ecx g, gp_ebx g, gp_eax g,
      tc_err c, tc_eip c, tc_cs c, tc_eflags c, tc_esp c, tc_ss c])"

definition arch_return_to_user :: "arch_thread_context_t \<Rightarrow> cpu_regs" where
  "arch_return_to_user c = (let w = ctx_words c in
     \<lparr>r_ds = w ! 0, r_edi = w ! 1, r_esi = w ! 2, r_ebp = w ! 3, r_ebx = w ! 5, r_edx = w ! 6,
      r_ecx = w ! 7, r_eax = w ! 8, r_eip = w ! 10, r_cs = w ! 11, r_eflags = w ! 12,
      r_esp = w ! 13, r_ss = w ! 14\<rparr>)"

section \<open>Lemmas\<close>

lemma upd_tcb_simps [simp]:
  "tcbs (upd_tcb t f s) = (tcbs s)(t := f (tcbs s t))"
  "lh (upd_tcb t f s) = lh s" "procs (upd_tcb t f s) = procs s"
  "ready_queue (upd_tcb t f s) = ready_queue s"
  "current_thread (upd_tcb t f s) = current_thread s"
  "current_sched_ctx (upd_tcb t f s) = current_sched_ctx s"
  "nsec_to_next_tick (upd_tcb t f s) = nsec_to_next_tick s"
  "cur_exec_ctx (upd_tcb t f s) = cur_exec_ctx s"
  "current_proc (upd_tcb t f s) = current_proc s" "cr3 (upd_tcb t f s) = cr3 s"
  by (simp_all add: upd_tcb_def)

lemma upd_sched_ctx_simps [simp]:
  "tcbs (upd_sched_ctx t f s) = (tcbs s)(t := (tcbs s t)\<lparr>sched_ctx := f (sched_ctx (tcbs s t))\<rparr>)"
  "lh (upd_sched_ctx t f s) = lh s" "procs (upd_sched_ctx t f s) = procs s"
  "ready_queue (upd_sched_ctx t f s) = ready_queue s"
  "current_thread (upd_sched_ctx t f s) = current_thread s"
  "nsec_to_next_tick (upd_sched_ctx t f s) = nsec_to_next_tick s"
  "cur_exec_ctx (upd_sched_ctx t f s) = cur_exec_ctx s"
  "current_proc (upd_sched_ctx t f s) = current_proc s" "cr3 (upd_sched_ctx t f s) = cr3 s"
  by (simp_all add: upd_sched_ctx_def)

text \<open>
  What selection leaves behind: the context pointer is that of the thread, the current process is
  that of the thread, and the page directory register follows the process.
\<close>

definition selected :: "kstate \<Rightarrow> u32 \<Rightarrow> bool" where
  "selected s t \<longleftrightarrow> cur_exec_ctx s = t + TCB_EXEC_CTX \<and> current_proc s = tcb_proc (tcbs s t)
     \<and> cr3 s = page_dir (procs s (current_proc s))"

lemma native_select_thread_eq:
  "t \<noteq> 0 \<Longrightarrow> tcb_proc (tcbs s t) \<noteq> 0 \<or> tcb_proc (tcbs s t) = current_proc s \<Longrightarrow> native_select_thread t s = Inr (s
     \<lparr>cur_exec_ctx := t + TCB_EXEC_CTX, current_proc := tcb_proc (tcbs s t),
      cr3 := (if tcb_proc (tcbs s t) = current_proc s then cr3 s
              else page_dir (procs s (tcb_proc (tcbs s t))))\<rparr>)"
  by (cases s) (auto simp: native_select_thread_def Let_def)

text \<open>A small concrete state for examples: a thread at any address \<open>t\<close> belongs to the process at
  \<open>t + 0x2000\<close>, whose page directory is \<open>0x6000\<close> further on.\<close>

definition sample_tcb :: "u32 \<Rightarrow> tcb_t" where
  "sample_tcb t = \<lparr>tcb_id = 0, tcb_proc = t + 0x2000,
     sched_ctx = \<lparr>priority = 0, thread_state = 0, quantum_nsec = 0\<rparr>,
     exec_ctx = \<lparr>tc_ds = 0, gp_regs_state = zero_gp_regs, tc_err = 0, tc_eip = 0, tc_cs = 0,
       tc_eflags = 0, tc_esp = 0, tc_ss = 0\<rparr>, utcb_ptr = 0\<rparr>"

definition sample_kstate :: kstate where
  "sample_kstate = \<lparr>lh = \<lparr>nxt = id, prv = id\<rparr>, tcbs = sample_tcb,
     procs = (\<lambda>p. \<lparr>proc_id = 1, page_dir = p + 0x6000, proc_priority = 0, threads = p - 0x2000,
       thread_count = 1\<rparr>),
     ready_queue = 0x8000, current_thread = 0, current_sched_ctx = 0, nsec_to_next_tick = 0,
     cur_exec_ctx = 0, current_proc = 0, cr3 = 0x6000\<rparr>"

section \<open>Properties\<close>

text \<open>C20: selecting a thread switches the address space. Selecting a thread that has a process makes its
  context and its process the current ones; if the page directory register holds the directory of the process
  current before (or the process changes), it then holds that of the thread's process. If the process
  does not change, the register is left as it was. No thread or process object changes. The null
  thread faults, and so does a thread without a process when another process is current.\<close>

theorem native_select_thread_switches:
  shows "native_select_thread 0 s = Inl Null_Deref
    \<and> (t \<noteq> 0 \<and> tcb_proc (tcbs s t) = 0 \<and> current_proc s \<noteq> 0 \<longrightarrow> native_select_thread t s = Inl Null_Deref)
    \<and> (t \<noteq> 0 \<and> (tcb_proc (tcbs s t) \<noteq> 0 \<or> current_proc s = 0) \<longrightarrow>
       (\<exists>s'. native_select_thread t s = Inr s' \<and> cur_exec_ctx s' = t + TCB_EXEC_CTX \<and> current_proc s' = tcb_proc (tcbs s t)
         \<and> (cr3 s = page_dir (procs s (current_proc s)) \<or> tcb_proc (tcbs s t) \<noteq> current_proc s \<longrightarrow> selected s' t)
         \<and> (tcb_proc (tcbs s t) = current_proc s \<longrightarrow> cr3 s' = cr3 s)
         \<and> tcbs s' = tcbs s \<and> procs s' = procs s \<and> lh s' = lh s \<and> current_thread s' = current_thread s))"
proof -
  have "native_select_thread 0 s = Inl Null_Deref" by (simp add: native_select_thread_def)
  moreover have "native_select_thread t s = Inl Null_Deref" if "t \<noteq> 0" "tcb_proc (tcbs s t) = 0" "current_proc s \<noteq> 0"
    using that by (auto simp: native_select_thread_def Let_def)
  moreover have "tcb_proc (tcbs s t) \<noteq> 0 \<or> tcb_proc (tcbs s t) = current_proc s" if "tcb_proc (tcbs s t) \<noteq> 0 \<or> current_proc s = 0"
    using that by auto
  ultimately show ?thesis by (auto simp: native_select_thread_eq selected_def)
qed

theorem native_select_thread_switches_witness:
  "(\<exists>s'. native_select_thread 0x1000 sample_kstate = Inr s' \<and> cr3 s' = 0x9000)
   \<and> native_select_thread (-0x2000) (sample_kstate\<lparr>current_proc := 0x3000\<rparr>) = Inl Null_Deref"
  using native_select_thread_switches [of sample_kstate "0x1000"]
    native_select_thread_switches [of "sample_kstate\<lparr>current_proc := 0x3000\<rparr>" "- 0x2000"]
  by (auto simp: selected_def sample_kstate_def sample_tcb_def)

text \<open>C17: saving an interrupted context and returning to it does not restore the interrupted
  registers. The saved frame omits \<open>ebp\<close>, which comes back with whatever the context held before,
  and because \<^verbatim>\<open>arch_gp_regs\<close> lists its registers in another order than \<^verbatim>\<open>popa\<close>, the values of
  \<open>ebx\<close>, \<open>edx\<close> and \<open>ecx\<close> come back permuted. Instruction pointer, stack pointer, flags and the
  other registers are restored.\<close>

theorem context_restore_permutes:
  "arch_return_to_user (save_irq_context irq c) =
    \<lparr>r_ds = tc_ds c, r_edi = irq_edi irq, r_esi = irq_esi irq, r_ebp = gp_ebp (gp_regs_state c),
     r_ebx = irq_edx irq, r_edx = irq_ecx irq, r_ecx = irq_ebx irq, r_eax = irq_eax irq,
     r_eip = irq_eip irq, r_cs = tc_cs c, r_eflags = irq_eflags irq, r_esp = irq_esp irq,
     r_ss = tc_ss c\<rparr>"
  by (simp add: arch_return_to_user_def ctx_words_def save_irq_context_def)

text \<open>A freshly created thread starts at its entry point on its own stack, in user mode (the
  selectors carry privilege level 3), with interrupts enabled and all general registers zero,
  whatever was in its context before; no other thread is touched.\<close>

lemma native_create_thread_starts:
  "arch_return_to_user (exec_ctx (tcbs (native_create_thread t entry stack kstack s) t)) =
    \<lparr>r_ds = 0x23, r_edi = 0, r_esi = 0, r_ebp = 0, r_ebx = 0, r_edx = 0, r_ecx = 0, r_eax = 0,
     r_eip = entry, r_cs = 0x1B, r_eflags = 0x202, r_esp = stack, r_ss = 0x23\<rparr>
   \<and> (\<forall>u. u = t \<or> tcbs (native_create_thread t entry stack kstack s) u = tcbs s u)
   \<and> sched_ctx (tcbs (native_create_thread t entry stack kstack s) t) = sched_ctx (tcbs s t)"
  by (simp add: arch_return_to_user_def ctx_words_def native_create_thread_def zero_gp_regs_def
      THREAD_DEFAULT_EFLAGS_def)

end
