(* ===== verification/Sched_RR.thy ===== *)
theory Sched_RR
  imports Thread "HOL-Library.Multiset"
begin

text \<open>
  The scheduler: the policy interface of \<^verbatim>\<open>kern/sched.h\<close> and \<^verbatim>\<open>kern/sched.c\<close>, the round-robin
  policy of \<^verbatim>\<open>kern/sched_rr.c\<close>, and the time helpers it uses. The abstract scheduler keeps
  sixteen sequences of threads and the running thread; the refinement lemmas say that the
  pointer code implements it, from which order preservation, strict priority and rotation
  follow.
\<close>

section \<open>Definitions\<close>

definition READY_QUEUE_LEN :: nat where "READY_QUEUE_LEN = 16"
definition THREAD_READY :: size_t where "THREAD_READY = 0x02"
definition SEC_NSEC :: u64 where "SEC_NSEC = 1000000000"
definition CONF_SCHED_TICK_FREQ_HZ :: u64 where "CONF_SCHED_TICK_FREQ_HZ = 100"

text \<open>
  \<^verbatim>\<open>sched_tick_nsec\<close> computes \<^verbatim>\<open>(1. / (float)100) * SEC_NSEC\<close> in double precision and truncates; the
  rounded product is the exact quotient ten million.
\<close>

definition sched_tick_nsec :: time_t where
  "sched_tick_nsec = SEC_NSEC div CONF_SCHED_TICK_FREQ_HZ"

definition time_sub_nsec :: "time_t \<Rightarrow> time_t \<Rightarrow> time_t" where
  "time_sub_nsec tv_nsec nsec = (if tv_nsec > nsec then tv_nsec - nsec else 0)"

text \<open>\<^verbatim>\<open>&ready_queue[i].list\<close>.\<close>

definition rq_head :: "kstate \<Rightarrow> nat \<Rightarrow> u32" where
  "rq_head s i = ready_queue s + of_nat i * TCB_SIZE + TCB_LIST"

definition rr_move_to_ready :: "u32 \<Rightarrow> kstate \<Rightarrow> kstate outcome" where
  "rr_move_to_ready tcb s =
     (let p = unat (priority (sched_ctx (tcbs s tcb)))
      in if tcb = 0 then Inl Null_Deref
         else if READY_QUEUE_LEN \<le> p then Inl Out_Of_Bounds
         else Inr (upd_sched_ctx tcb (\<lambda>c. c\<lparr>thread_state := THREAD_READY\<rparr>)
                (s\<lparr>lh := list_add (lh s) (tcb_link tcb) (prv (lh s) (rq_head s p))\<rparr>)))"

definition rr_quant_from_prio :: "size_t \<Rightarrow> time_t" where
  "rr_quant_from_prio prio = 10 * SEC_NSEC"

text \<open>The search of \<^verbatim>\<open>rr_get_next_ready\<close>, from queue \<open>i\<close> on; zero when every queue is empty.\<close>

function next_ready_loop :: "nat \<Rightarrow> kstate \<Rightarrow> u32 \<times> kstate" where
  "next_ready_loop i s =
     (if i < READY_QUEUE_LEN
      then if \<not> list_is_empty (lh s) (rq_head s i)
           then let (p, h) = list_next (lh s) (rq_head s i) in (list_data p, s\<lparr>lh := h\<rparr>)
           else next_ready_loop (i + 1) s
      else (0, s))"
  by pat_completeness auto
termination
  by (relation "measure (\<lambda>(i, s). READY_QUEUE_LEN - i)") auto

declare next_ready_loop.simps [simp del]

definition rr_get_next_ready :: "kstate \<Rightarrow> u32 \<times> kstate" where
  "rr_get_next_ready s = next_ready_loop 0 s"

definition rr_enqueue :: "u32 \<Rightarrow> kstate \<Rightarrow> kstate outcome" where
  "rr_enqueue thread s =
     (if thread = 0 then Inl Null_Deref
      else rr_move_to_ready thread
        (upd_sched_ctx thread (\<lambda>c. c\<lparr>quantum_nsec := rr_quant_from_prio (priority c)\<rparr>) s))"

definition rr_schedule :: "bool \<Rightarrow> kstate \<Rightarrow> kstate outcome" where
  "rr_schedule debug s =
     (if current_thread s = 0 then Inl Null_Deref
      else bindE
        (if quantum_nsec (sched_ctx (tcbs s (current_thread s))) = 0
         then bindE (rr_move_to_ready (current_thread s) s) (\<lambda>s. Inr (rr_get_next_ready s))
         else Inr (current_thread s, s))
        (\<lambda>(next, s).
          bindE (ASSERT debug (next \<noteq> 0)) (\<lambda>_.
            if next \<noteq> current_thread s
            then native_select_thread next
                   (s\<lparr>current_thread := next, current_sched_ctx := next + TCB_SCHED_CTX\<rparr>)
            else Inr s)))"

definition rr_tick_handler :: "bool \<Rightarrow> irq_context \<Rightarrow> kstate \<Rightarrow> kstate outcome" where
  "rr_tick_handler debug irq_ctx s =
     (if current_thread s \<noteq> 0
      then let nsec = (if nsec_to_next_tick s \<noteq> 0 then scast (nsec_to_next_tick s) else sched_tick_nsec);
               s = upd_sched_ctx (current_thread s)
                     (\<lambda>c. c\<lparr>quantum_nsec := time_sub_nsec (quantum_nsec c) nsec\<rparr>) s
           in bindE (arch_update_exec_ctx irq_ctx s) (rr_schedule debug)
      else Inr s)"

text \<open>The loops of \<^verbatim>\<open>rr_init\<close>: empty the sixteen queues, then enqueue the first thread of each task.\<close>

definition rr_init_queues :: "kstate \<Rightarrow> kstate" where
  "rr_init_queues s =
     s\<lparr>lh := fold (\<lambda>i h. LIST_HEAD_INIT h (rq_head s i)) [0..<READY_QUEUE_LEN] (lh s)\<rparr>"

fun rr_enqueue_all :: "u32 list \<Rightarrow> kstate \<Rightarrow> kstate outcome" where
  "rr_enqueue_all [] s = Inr s"
| "rr_enqueue_all (t # ts) s = bindE (rr_enqueue t s) (rr_enqueue_all ts)"

definition root_threads :: "kstate \<Rightarrow> u32 \<Rightarrow> nat \<Rightarrow> u32 list" where
  "root_threads s root_tasks no_tasks =
     map (\<lambda>i. threads (procs s (root_tasks + of_nat i * PROC_SIZE))) [0..<no_tasks]"

definition rr_init :: "u32 \<Rightarrow> nat \<Rightarrow> kstate \<Rightarrow> kstate outcome" where
  "rr_init root_tasks no_tasks s =
     bindE (rr_enqueue_all (root_threads s root_tasks no_tasks) (rr_init_queues s)) (\<lambda>s.
       let (t, s) = rr_get_next_ready s
       in native_select_thread t (s\<lparr>current_thread := t\<rparr>))"

definition rr_idle :: "kstate \<Rightarrow> kstate" where
  "rr_idle s = s"

definition rr_current_thread :: "kstate \<Rightarrow> u32" where
  "rr_current_thread s = current_thread s"

text \<open>
  \<^verbatim>\<open>sched_policy_t\<close> is a record of function pointers; \<^verbatim>\<open>sched_init\<close> checks that none is null, makes
  the policy the current one and runs its initialiser.
\<close>

record sched_policy =
  sp_init :: "(u32 \<Rightarrow> nat \<Rightarrow> kstate \<Rightarrow> kstate outcome) option"
  sp_interrupt_handler :: "(irq_context \<Rightarrow> kstate \<Rightarrow> kstate outcome) option"
  sp_schedule :: "(kstate \<Rightarrow> kstate outcome) option"
  sp_idle :: "(kstate \<Rightarrow> kstate) option"
  sp_current_thread :: "(kstate \<Rightarrow> u32) option"

definition sched_rr :: "bool \<Rightarrow> sched_policy" where
  "sched_rr debug = \<lparr>sp_init = Some rr_init, sp_interrupt_handler = Some (rr_tick_handler debug),
     sp_schedule = Some (rr_schedule debug), sp_idle = Some rr_idle,
     sp_current_thread = Some rr_current_thread\<rparr>"

definition sched_init ::
  "bool \<Rightarrow> sched_policy option \<Rightarrow> u32 \<Rightarrow> nat \<Rightarrow> kstate \<Rightarrow> (sched_policy \<times> kstate) outcome" where
  "sched_init debug sched initial_tasks no_tasks s =
     (case sched of
        None \<Rightarrow> if debug then Inl Assert_Halt else Inl Null_Deref
      | Some p \<Rightarrow>
          bindE (ASSERT debug (sp_init p \<noteq> None)) (\<lambda>_.
          bindE (ASSERT debug (sp_interrupt_handler p \<noteq> None)) (\<lambda>_.
          bindE (ASSERT debug (sp_schedule p \<noteq> None)) (\<lambda>_.
          bindE (ASSERT debug (sp_idle p \<noteq> None)) (\<lambda>_.
          bindE (ASSERT debug (sp_current_thread p \<noteq> None)) (\<lambda>_.
            case sp_init p of
              None \<Rightarrow> Inl Null_Deref
            | Some f \<Rightarrow> bindE (f initial_tasks no_tasks s) (\<lambda>s. Inr (p, s))))))))"

section \<open>The abstract scheduler\<close>

definition first_ready :: "u32 list list \<Rightarrow> nat option" where
  "first_ready qs = find (\<lambda>i. qs ! i \<noteq> []) [0..<length qs]"

definition requeue :: "nat \<Rightarrow> u32 \<Rightarrow> u32 list list \<Rightarrow> u32 list list" where
  "requeue p t qs = qs[p := qs ! p @ [t]]"

definition take_ready :: "nat \<Rightarrow> u32 list list \<Rightarrow> u32 list list" where
  "take_ready i qs = qs[i := tl (qs ! i)]"

fun a_schedule :: "nat \<Rightarrow> bool \<Rightarrow> u32 list list \<times> u32 \<Rightarrow> u32 list list \<times> u32" where
  "a_schedule p exhausted (qs, r) =
     (if exhausted
      then let qs' = requeue p r qs
           in case first_ready qs' of
                None \<Rightarrow> (qs', r)
              | Some i \<Rightarrow> (take_ready i qs', hd (qs' ! i))
      else (qs, r))"

definition nodes :: "(nat \<Rightarrow> u32) \<Rightarrow> u32 list list \<Rightarrow> nat \<Rightarrow> u32 set" where
  "nodes H qs i = insert (H i) (tcb_link ` set (qs ! i))"

definition queues_ok :: "lheap \<Rightarrow> (nat \<Rightarrow> u32) \<Rightarrow> u32 list list \<Rightarrow> bool" where
  "queues_ok h H qs \<longleftrightarrow> length qs = READY_QUEUE_LEN
     \<and> (\<forall>i < READY_QUEUE_LEN. ring h (H i) (map tcb_link (qs ! i)))
     \<and> (\<forall>i < READY_QUEUE_LEN. \<forall>j < READY_QUEUE_LEN. i \<noteq> j \<longrightarrow> nodes H qs i \<inter> nodes H qs j = {})"

lemma queues_okD:
  assumes "queues_ok h H qs" "i < READY_QUEUE_LEN"
  shows "length qs = READY_QUEUE_LEN" "ring h (H i) (map tcb_link (qs ! i))"
    "\<And>j. j < READY_QUEUE_LEN \<Longrightarrow> i \<noteq> j \<Longrightarrow> nodes H qs i \<inter> nodes H qs j = {}"
  using assms by (auto simp: queues_ok_def)

lemma queues_ok_update:
  assumes q: "queues_ok h H qs" and p: "p < READY_QUEUE_LEN"
    and r: "ring h' (H p) (map tcb_link xs)"
    and same: "\<And>x. x \<notin> nodes H qs p \<union> tcb_link ` set xs \<Longrightarrow> nxt h' x = nxt h x \<and> prv h' x = prv h x"
    and new: "\<And>i. i < READY_QUEUE_LEN \<Longrightarrow> i \<noteq> p \<Longrightarrow> tcb_link ` set xs \<inter> nodes H qs i = {}"
  shows "queues_ok h' H (qs[p := xs])"
proof -
  have n: "nodes H (qs[p := xs]) i = (if i = p then insert (H p) (tcb_link ` set xs) else nodes H qs i)"
    if "i < READY_QUEUE_LEN" for i
    using that queues_okD(1) [OF q p] by (auto simp: nodes_def)
  have "ring h' (H i) (map tcb_link (qs ! i))" if i: "i < READY_QUEUE_LEN" "i \<noteq> p" for i
  proof (subst ring_frame [of _ _ _ h])
    fix x assume "x \<in> set (H i # map tcb_link (qs ! i))"
    then have "x \<in> nodes H qs i" by (simp add: nodes_def)
    then have "x \<notin> nodes H qs p \<union> tcb_link ` set xs"
      using queues_okD(3) [OF q i(1) p i(2)] new [OF i] by auto
    then show "nxt h' x = nxt h x \<and> prv h' x = prv h x" by (rule same)
  qed (rule queues_okD(2) [OF q i(1)])
  moreover have "insert (H p) (tcb_link ` set xs) \<inter> nodes H qs i = {}" if "i < READY_QUEUE_LEN" "i \<noteq> p" for i
    using queues_okD(3) [OF q p that(1)] new [OF that] that(2) by (auto simp: nodes_def)
  moreover have "nodes H qs i \<inter> nodes H qs j = {}"
    if "i < READY_QUEUE_LEN" "j < READY_QUEUE_LEN" "i \<noteq> j" for i j
    using queues_okD(3) [OF q that(1)] that by simp
  ultimately show ?thesis
    using r p queues_okD(1) [OF q p] n
    by (simp add: queues_ok_def nth_list_update Int_commute)
qed

lemma queues_ok_enqueue:
  assumes q: "queues_ok h H qs" and p: "p < READY_QUEUE_LEN"
    and t: "\<And>i. i < READY_QUEUE_LEN \<Longrightarrow> tcb_link t \<notin> nodes H qs i"
  shows "queues_ok (list_add h (tcb_link t) (prv h (H p))) H (requeue p t qs)"
  unfolding requeue_def
proof (rule queues_ok_update [OF q p])
  have r: "ring h (H p) (map tcb_link (qs ! p))" by (rule queues_okD [OF q p])
  show "ring (list_add h (tcb_link t) (prv h (H p))) (H p) (map tcb_link (qs ! p @ [t]))"
    using ring_add_tail [OF r, of "tcb_link t"] t [OF p] by (auto simp: nodes_def)
  show "nxt (list_add h (tcb_link t) (prv h (H p))) x = nxt h x \<and>
    prv (list_add h (tcb_link t) (prv h (H p))) x = prv h x"
    if "x \<notin> nodes H qs p \<union> tcb_link ` set (qs ! p @ [t])" for x
    using that list_add_other [OF r, of x "tcb_link t"] by (auto simp: nodes_def)
  show "tcb_link ` set (qs ! p @ [t]) \<inter> nodes H qs i = {}" if "i < READY_QUEUE_LEN" "i \<noteq> p" for i
    using queues_okD(3) [OF q p that(1)] t [OF that(1)] that(2) by (auto simp: nodes_def)
qed

lemma queues_ok_dequeue:
  assumes q: "queues_ok h H qs" and p: "p < READY_QUEUE_LEN" and x: "qs ! p = x # xs"
  shows "list_next h (H p) = (tcb_link x, list_remove h (tcb_link x))"
    and "queues_ok (list_remove h (tcb_link x)) H (take_ready p qs)"
proof -
  have r: "ring h (H p) (tcb_link x # map tcb_link xs)"
    using queues_okD(2) [OF q p] x by simp
  show "list_next h (H p) = (tcb_link x, list_remove h (tcb_link x))"
    by (rule ring_next [OF r])
  show "queues_ok (list_remove h (tcb_link x)) H (take_ready p qs)"
    unfolding take_ready_def
  proof (rule queues_ok_update [OF q p])
    show "ring (list_remove h (tcb_link x)) (H p) (map tcb_link (tl (qs ! p)))"
      using ring_next(2) [OF r] x by simp
    show "nxt (list_remove h (tcb_link x)) z = nxt h z \<and> prv (list_remove h (tcb_link x)) z = prv h z"
      if "z \<notin> nodes H qs p \<union> tcb_link ` set (tl (qs ! p))" for z
      using that list_remove_other [of h "H p" "[]" "tcb_link x" "map tcb_link xs" z] r x
      by (auto simp: nodes_def)
    show "tcb_link ` set (tl (qs ! p)) \<inter> nodes H qs i = {}" if "i < READY_QUEUE_LEN" "i \<noteq> p" for i
      using queues_okD(3) [OF q p that(1)] that(2) x by (auto simp: nodes_def)
  qed
qed

lemma next_ready_loop_eq:
  assumes "queues_ok (lh s) (rq_head s) qs" "i \<le> READY_QUEUE_LEN"
  shows "next_ready_loop i s =
    (case find (\<lambda>k. qs ! k \<noteq> []) [i..<READY_QUEUE_LEN] of
       None \<Rightarrow> (0, s)
     | Some k \<Rightarrow> (hd (qs ! k), s\<lparr>lh := list_remove (lh s) (tcb_link (hd (qs ! k)))\<rparr>))"
  using assms
proof (induction i s rule: next_ready_loop.induct)
  case (1 i s)
  show ?case
  proof (cases "i < READY_QUEUE_LEN")
    case True
    have e: "list_is_empty (lh s) (rq_head s i) \<longleftrightarrow> qs ! i = []"
      using ring_empty [OF queues_okD(2) [OF 1(2) True]] by simp
    show ?thesis
    proof (cases "qs ! i")
      case Nil
      then show ?thesis
        using 1 True e by (simp add: next_ready_loop.simps [of i] upt_conv_Cons)
    next
      case (Cons x xs)
      then show ?thesis
        using True e queues_ok_dequeue(1) [OF 1(2) True Cons]
        by (simp add: next_ready_loop.simps [of i] upt_conv_Cons)
    qed
  qed (use 1 in \<open>simp add: next_ready_loop.simps\<close>)
qed

lemma find_upt_least:
  assumes "find P [a..<b] = Some k"
  shows "a \<le> k" "k < b" "P k" "\<And>i. a \<le> i \<Longrightarrow> i < k \<Longrightarrow> \<not> P i"
proof -
  from assms obtain d where d: "d < b - a" "P (a + d)" "k = a + d" "\<forall>j < d. \<not> P (a + j)"
    by (auto simp: find_Some_iff)
  then show "a \<le> k" "k < b" "P k" by auto
  show "\<not> P i" if "a \<le> i" "i < k" for i
    using d(3,4) that by (metis le_Suc_ex nat_add_left_cancel_less)
qed

lemma rr_get_next_ready_eq:
  assumes "queues_ok (lh s) (rq_head s) qs"
  shows "rr_get_next_ready s = (case first_ready qs of None \<Rightarrow> (0, s)
     | Some k \<Rightarrow> (hd (qs ! k), s\<lparr>lh := list_remove (lh s) (tcb_link (hd (qs ! k)))\<rparr>))"
  using next_ready_loop_eq [OF assms, of 0] assms
  by (simp add: rr_get_next_ready_def first_ready_def queues_ok_def)

lemma first_ready_requeue:
  assumes "p < length qs"
  obtains i where "first_ready (requeue p t qs) = Some i" "i \<le> p" "i < length qs"
    "requeue p t qs ! i \<noteq> []"
proof -
  have "requeue p t qs ! p \<noteq> []" using assms by (simp add: requeue_def)
  then have "first_ready (requeue p t qs) \<noteq> None"
    using assms by (auto simp: first_ready_def find_None_iff requeue_def)
  then obtain i where "first_ready (requeue p t qs) = Some i" by blast
  note k = find_upt_least [OF this [unfolded first_ready_def]]
  have "i \<le> p" using k(4) [of p] \<open>requeue p t qs ! p \<noteq> []\<close> by force
  then show ?thesis
    using that \<open>first_ready _ = Some i\<close> k(2,3) by (simp add: requeue_def)
qed

definition tcb_fits :: "u32 \<Rightarrow> bool" where
  "tcb_fits t \<longleftrightarrow> t \<noteq> 0 \<and> unat t + unat TCB_SIZE \<le> 2 ^ 32"

lemma tcb_fits_nonzero:
  assumes "tcb_fits t"
  shows "t \<noteq> 0" "t + TCB_EXEC_CTX \<noteq> 0"
proof -
  have "unat (t + TCB_EXEC_CTX) = unat t + 24"
    using assms by (simp add: tcb_fits_def TCB_SIZE_def TCB_EXEC_CTX_def unat_word_ariths)
  then show "t + TCB_EXEC_CTX \<noteq> 0" by (auto simp: word_unat_eq_iff)
  show "t \<noteq> 0" using assms by (simp add: tcb_fits_def)
qed

definition prio_of :: "kstate \<Rightarrow> u32 \<Rightarrow> nat" where
  "prio_of s t = unat (priority (sched_ctx (tcbs s t)))"

definition quantum_of :: "kstate \<Rightarrow> u32 \<Rightarrow> time_t" where
  "quantum_of s t = quantum_nsec (sched_ctx (tcbs s t))"

abbreviation exhausted :: "kstate \<Rightarrow> u32 \<Rightarrow> bool" where
  "exhausted s t \<equiv> quantum_of s t = 0"

definition has_proc :: "kstate \<Rightarrow> u32 \<Rightarrow> bool" where
  "has_proc s t \<longleftrightarrow> tcb_proc (tcbs s t) \<noteq> 0"

definition sched_rel :: "kstate \<Rightarrow> u32 list list \<times> u32 \<Rightarrow> bool" where
  "sched_rel s a \<longleftrightarrow> (case a of (qs, r) \<Rightarrow>
     queues_ok (lh s) (rq_head s) qs
     \<and> current_thread s = r \<and> tcb_fits r \<and> prio_of s r < READY_QUEUE_LEN \<and> has_proc s r
     \<and> (\<forall>i < READY_QUEUE_LEN. tcb_link r \<notin> nodes (rq_head s) qs i)
     \<and> (\<forall>i < READY_QUEUE_LEN. \<forall>t \<in> set (qs ! i). tcb_fits t \<and> prio_of s t = i \<and> has_proc s t)
     \<and> selected s r)"

lemma queues_ok_taken:
  assumes q: "queues_ok h H qs" and i: "i < READY_QUEUE_LEN" "qs ! i = x # xs" and j: "j < READY_QUEUE_LEN"
  shows "tcb_link x \<notin> nodes H (take_ready i qs) j"
proof (cases "j = i")
  case True
  then show ?thesis
    using queues_okD(1,2) [OF q i(1)] i by (auto simp: nodes_def take_ready_def ring_def)
next
  case False
  then show ?thesis
    using queues_okD(3) [OF q i(1) j] i by (auto simp: nodes_def take_ready_def)
qed

lemma set_take_ready: "t \<in> set (take_ready i qs ! j) \<Longrightarrow> t \<in> set (qs ! j)"
proof -
  have "set (tl xs) \<subseteq> set xs" for xs :: "u32 list" by (cases xs) auto
  then show "t \<in> set (take_ready i qs ! j) \<Longrightarrow> t \<in> set (qs ! j)"
    by (cases "i = j"; cases "i < length qs") (auto simp: take_ready_def list_update_beyond)
qed

lemma set_requeue: "p < length qs \<Longrightarrow> t \<in> set (requeue p r qs ! j) \<longleftrightarrow> t \<in> set (qs ! j) \<or> (t = r \<and> j = p)"
  by (cases "p = j") (auto simp: requeue_def)

lemma rr_schedule_refines_aux:
  assumes rel: "sched_rel s (qs, r)"
  shows "\<exists>s'. rr_schedule debug s = Inr s'
    \<and> sched_rel s' (a_schedule (prio_of s r) (exhausted s r) (qs, r))
    \<and> nsec_to_next_tick s' = nsec_to_next_tick s
    \<and> (\<forall>t. prio_of s' t = prio_of s t \<and> quantum_of s' t = quantum_of s t
          \<and> exec_ctx (tcbs s' t) = exec_ctx (tcbs s t))"
proof (cases "exhausted s r")
  case False
  with rel show ?thesis
    by (auto simp: sched_rel_def rr_schedule_def quantum_of_def tcb_fits_def)
next
  case True
  let ?p = "prio_of s r"
  let ?qs = "requeue ?p r qs"
  let ?h = "list_add (lh s) (tcb_link r) (prv (lh s) (rq_head s ?p))"
  let ?s1 = "upd_sched_ctx r (\<lambda>c. c\<lparr>thread_state := THREAD_READY\<rparr>) (s\<lparr>lh := ?h\<rparr>)"
  from rel have q: "queues_ok (lh s) (rq_head s) qs" and r: "current_thread s = r" "tcb_fits r"
    and p: "?p < READY_QUEUE_LEN" and fresh: "\<And>i. i < READY_QUEUE_LEN \<Longrightarrow> tcb_link r \<notin> nodes (rq_head s) qs i"
    and pr: "\<And>i t. i < READY_QUEUE_LEN \<Longrightarrow> t \<in> set (qs ! i) \<Longrightarrow> tcb_fits t \<and> prio_of s t = i \<and> has_proc s t"
    and sel: "selected s r" "has_proc s r"
    by (auto simp: sched_rel_def)
  have heads: "rq_head ?s1 = rq_head s" by (simp add: rq_head_def fun_eq_iff)
  have q1: "queues_ok (lh ?s1) (rq_head s) ?qs"
    using queues_ok_enqueue [OF q p fresh] by simp
  have len: "length qs = READY_QUEUE_LEN" by (rule queues_okD [OF q p])
  obtain i where i: "first_ready ?qs = Some i" "i < READY_QUEUE_LEN" "?qs ! i \<noteq> []"
    using first_ready_requeue [of ?p qs r] p len by metis
  let ?t = "hd (?qs ! i)"
  have x: "?qs ! i = ?t # tl (?qs ! i)" using i by simp
  let ?s2 = "?s1\<lparr>lh := list_remove ?h (tcb_link ?t)\<rparr>"
  have nxt_eq: "rr_get_next_ready ?s1 = (?t, ?s2)"
    using rr_get_next_ready_eq [of ?s1 ?qs] q1 i by (simp add: heads)
  have q2: "queues_ok (lh ?s2) (rq_head s) (take_ready i ?qs)"
    using queues_ok_dequeue(2) [OF q1 i(2) x] by simp
  have t: "?t \<in> set (?qs ! i)" using i by simp
  then have t0: "tcb_fits ?t" "prio_of s ?t < READY_QUEUE_LEN" "has_proc s ?t"
    using pr [of i ?t] r p i len sel(2) by (auto simp: set_requeue)
  have pr': "tcb_fits u \<and> prio_of s u = j \<and> has_proc s u" if "j < READY_QUEUE_LEN" "u \<in> set (take_ready i ?qs ! j)" for j u
    using set_take_ready [OF that(2)] pr [OF that(1), of u] p r len sel(2) by (auto simp: set_requeue)
  note taken = queues_ok_taken [OF q1 i(2) x]
  have abs: "a_schedule ?p (exhausted s r) (qs, r) = (take_ready i ?qs, ?t)"
    using True i by (simp add: Let_def)
  have prio: "prio_of ?s2 u = prio_of s u" "quantum_of ?s2 u = quantum_of s u"
    "exec_ctx (tcbs ?s2 u) = exec_ctx (tcbs s u)" "has_proc ?s2 u = has_proc s u" for u
    by (auto simp: prio_of_def quantum_of_def has_proc_def)
  define s3 where "s3 = (if ?t = r then ?s2 else ?s2
    \<lparr>current_thread := ?t, current_sched_ctx := ?t + TCB_SCHED_CTX,
     cur_exec_ctx := ?t + TCB_EXEC_CTX, current_proc := tcb_proc (tcbs ?s2 ?t),
     cr3 := (if tcb_proc (tcbs ?s2 ?t) = current_proc ?s2 then cr3 ?s2
             else page_dir (procs ?s2 (tcb_proc (tcbs ?s2 ?t))))\<rparr>)"
  have np: "tcb_proc (tcbs ?s2 ?t) \<noteq> 0" using t0(3) prio(4) [of ?t] unfolding has_proc_def by (rule iffD2 [rotated])
  have "rr_move_to_ready r s = Inr ?s1"
    using r p by (simp add: rr_move_to_ready_def prio_of_def Let_def tcb_fits_def)
  then have run: "rr_schedule debug s = Inr s3"
    using True r(1) tcb_fits_nonzero(1) [OF r(2)] tcb_fits_nonzero(1) [OF t0(1)] nxt_eq np
    by (simp add: rr_schedule_def quantum_of_def native_select_thread_eq s3_def
        del: upd_sched_ctx_simps(1))
  have f: "lh s3 = lh ?s2" "rq_head s3 = rq_head s" "current_thread s3 = ?t"
    "nsec_to_next_tick s3 = nsec_to_next_tick s" "tcbs s3 = tcbs ?s2"
    using r(1) by (simp_all add: s3_def rq_head_def fun_eq_iff)
  have g: "prio_of s3 u = prio_of s u" "quantum_of s3 u = quantum_of s u"
    "exec_ctx (tcbs s3 u) = exec_ctx (tcbs s u)" "has_proc s3 u = has_proc s u" for u
    using prio by (simp_all add: f prio_of_def quantum_of_def has_proc_def)
  have "selected s3 ?t"
    using sel(1) by (simp add: s3_def selected_def)
  then have "sched_rel s3 (take_ready i ?qs, ?t)"
    unfolding sched_rel_def prod.case f(1-3) g(1,4) using q2 t0 pr' taken by blast
  then have "sched_rel s3 (a_schedule ?p (exhausted s r) (qs, r))" unfolding abs .
  with run f(4) g(1-3) show ?thesis by blast
qed


definition tick_nsec :: "kstate \<Rightarrow> time_t" where
  "tick_nsec s = (if nsec_to_next_tick s \<noteq> 0 then scast (nsec_to_next_tick s) else sched_tick_nsec)"

lemma sched_rel_cong:
  assumes "lh s' = lh s" "ready_queue s' = ready_queue s" "current_thread s' = current_thread s"
    "cur_exec_ctx s' = cur_exec_ctx s" "current_proc s' = current_proc s" "cr3 s' = cr3 s" "procs s' = procs s"
    "\<And>t. prio_of s' t = prio_of s t" "\<And>t. tcb_proc (tcbs s' t) = tcb_proc (tcbs s t)"
  shows "sched_rel s' a \<longleftrightarrow> sched_rel s a"
proof -
  have "rq_head s' = rq_head s" using assms(2) by (simp add: rq_head_def fun_eq_iff)
  then show ?thesis
    by (simp only: sched_rel_def selected_def has_proc_def assms)
qed

lemma rr_tick_aux:
  assumes rel: "sched_rel s (qs, r)"
  shows "\<exists>s'. rr_tick_handler debug irq s = Inr s'
    \<and> sched_rel s' (a_schedule (prio_of s r) (quantum_of s r \<le> tick_nsec s) (qs, r))
    \<and> nsec_to_next_tick s' = nsec_to_next_tick s
    \<and> (\<forall>t. prio_of s' t = prio_of s t
          \<and> quantum_of s' t = (if t = r then time_sub_nsec (quantum_of s t) (tick_nsec s) else quantum_of s t)
          \<and> exec_ctx (tcbs s' t) = (if t = r then save_irq_context irq (exec_ctx (tcbs s t)) else exec_ctx (tcbs s t)))"
proof -
  from rel have r: "current_thread s = r" "tcb_fits r" and sel: "cur_exec_ctx s = r + TCB_EXEC_CTX"
    by (auto simp: sched_rel_def selected_def)
  have exec0: "cur_exec_ctx s \<noteq> 0" "r \<noteq> 0"
    using tcb_fits_nonzero [OF r(2)] sel by simp_all
  let ?s1 = "upd_sched_ctx r (\<lambda>c. c\<lparr>quantum_nsec := time_sub_nsec (quantum_nsec c) (tick_nsec s)\<rparr>) s"
  let ?s2 = "upd_tcb r (\<lambda>t. t\<lparr>exec_ctx := save_irq_context irq (exec_ctx t)\<rparr>) ?s1"
  have upd: "arch_update_exec_ctx irq ?s1 = Inr ?s2"
    using exec0 sel by (simp add: arch_update_exec_ctx_def exec_ctx_owner_def)
  have run: "rr_tick_handler debug irq s = rr_schedule debug ?s2"
    using upd r exec0(2) by (simp add: rr_tick_handler_def tick_nsec_def [symmetric] Let_def)
  have p: "prio_of ?s2 t = prio_of s t" for t by (simp add: prio_of_def)
  have qn: "quantum_of ?s2 t = (if t = r then time_sub_nsec (quantum_of s t) (tick_nsec s) else quantum_of s t)" for t
    by (simp add: quantum_of_def)
  have e: "exec_ctx (tcbs ?s2 t) = (if t = r then save_irq_context irq (exec_ctx (tcbs s t)) else exec_ctx (tcbs s t))" for t
    by simp
  have "sched_rel ?s2 (qs, r) \<longleftrightarrow> sched_rel s (qs, r)"
    by (rule sched_rel_cong) (simp_all add: prio_of_def)
  then obtain s' where s': "rr_schedule debug ?s2 = Inr s'"
    "sched_rel s' (a_schedule (prio_of ?s2 r) (exhausted ?s2 r) (qs, r))"
    "nsec_to_next_tick s' = nsec_to_next_tick ?s2"
    "\<And>t. prio_of s' t = prio_of ?s2 t \<and> quantum_of s' t = quantum_of ?s2 t \<and> exec_ctx (tcbs s' t) = exec_ctx (tcbs ?s2 t)"
    using rr_schedule_refines_aux [of ?s2 qs r debug] rel by blast
  have "exhausted ?s2 r \<longleftrightarrow> quantum_of s r \<le> tick_nsec s"
    unfolding qn by (auto simp: time_sub_nsec_def)
  then show ?thesis
    using s' run unfolding p qn e by auto
qed

section \<open>Initialisation\<close>

lemma rq_head_inj: "i < READY_QUEUE_LEN \<Longrightarrow> j < READY_QUEUE_LEN \<Longrightarrow> rq_head s i = rq_head s j \<longleftrightarrow> i = j"
proof
  assume i: "i < READY_QUEUE_LEN" "j < READY_QUEUE_LEN" and eq: "rq_head s i = rq_head s j"
  have "unat (of_nat k * TCB_SIZE) = k * 96" if "k < READY_QUEUE_LEN" for k
    using that by (simp add: TCB_SIZE_def READY_QUEUE_LEN_def unat_word_ariths unat_of_nat)
  moreover have "of_nat i * TCB_SIZE = of_nat j * TCB_SIZE" using eq by (simp add: rq_head_def)
  ultimately show "i = j" using i by (metis mult_right_cancel zero_neq_numeral)
qed simp

lemma fold_head_init:
  "nxt (fold (\<lambda>i h. LIST_HEAD_INIT h (H i)) is h) x = (if x \<in> H ` set is then x else nxt h x)"
  "prv (fold (\<lambda>i h. LIST_HEAD_INIT h (H i)) is h) x = (if x \<in> H ` set is then x else prv h x)"
  by (induction "is" arbitrary: h) (auto simp: LIST_HEAD_INIT_def lheap_defs)

lemma rr_init_queues_ok:
  "queues_ok (lh (rr_init_queues s)) (rq_head s) (replicate READY_QUEUE_LEN [])"
proof -
  have "ring (lh (rr_init_queues s)) (rq_head s i) []" if "i < READY_QUEUE_LEN" for i
    using that by (auto simp: ring_def rr_init_queues_def fold_head_init)
  then show ?thesis
    by (auto simp: queues_ok_def nodes_def rq_head_inj)
qed

text \<open>The queues after enqueuing the threads of the root tasks in turn.\<close>

definition enqueue_all :: "(u32 \<Rightarrow> nat) \<Rightarrow> u32 list \<Rightarrow> u32 list list \<Rightarrow> u32 list list" where
  "enqueue_all prio ts qs = fold (\<lambda>t qs. requeue (prio t) t qs) ts qs"

lemma rr_enqueue_eq:
  assumes "tcb_fits t" "prio_of s t < READY_QUEUE_LEN"
  shows "rr_enqueue t s = Inr (upd_sched_ctx t (\<lambda>c. c\<lparr>quantum_nsec := 10 * SEC_NSEC, thread_state := THREAD_READY\<rparr>)
    (s\<lparr>lh := list_add (lh s) (tcb_link t) (prv (lh s) (rq_head s (prio_of s t)))\<rparr>))"
  using assms
  by (simp add: rr_enqueue_def rr_move_to_ready_def prio_of_def tcb_fits_def Let_def rq_head_def
      upd_sched_ctx_def upd_tcb_def rr_quant_from_prio_def)

lemma rr_enqueue_all_ok:
  assumes "queues_ok (lh s) (rq_head s) qs"
    and "\<And>i t. i < READY_QUEUE_LEN \<Longrightarrow> t \<in> set (qs ! i) \<Longrightarrow> tcb_fits t \<and> prio_of s t = i \<and> quantum_of s t = 10 * SEC_NSEC"
    and "distinct ts" "\<forall>t \<in> set ts. tcb_fits t \<and> prio_of s t < READY_QUEUE_LEN"
    and "\<forall>t \<in> set ts. \<forall>i < READY_QUEUE_LEN. tcb_link t \<notin> nodes (rq_head s) qs i"
  shows "\<exists>s'. rr_enqueue_all ts s = Inr s' \<and> queues_ok (lh s') (rq_head s) (enqueue_all (prio_of s) ts qs)
    \<and> (\<forall>i < READY_QUEUE_LEN. \<forall>t \<in> set (enqueue_all (prio_of s) ts qs ! i).
         tcb_fits t \<and> prio_of s t = i \<and> quantum_of s' t = 10 * SEC_NSEC)
    \<and> ready_queue s' = ready_queue s \<and> procs s' = procs s \<and> current_proc s' = current_proc s
    \<and> cr3 s' = cr3 s \<and> (\<forall>t. prio_of s' t = prio_of s t \<and> tcb_proc (tcbs s' t) = tcb_proc (tcbs s t))"
  using assms
proof (induction ts arbitrary: s qs)
  case Nil
  then show ?case by (simp add: enqueue_all_def)
next
  case (Cons t ts)
  let ?s1 = "upd_sched_ctx t (\<lambda>c. c\<lparr>quantum_nsec := 10 * SEC_NSEC, thread_state := THREAD_READY\<rparr>)
    (s\<lparr>lh := list_add (lh s) (tcb_link t) (prv (lh s) (rq_head s (prio_of s t)))\<rparr>)"
  let ?qs = "requeue (prio_of s t) t qs"
  have t: "tcb_fits t" "prio_of s t < READY_QUEUE_LEN" using Cons.prems(4) by auto
  have run: "rr_enqueue t s = Inr ?s1" by (rule rr_enqueue_eq [OF t])
  have heads: "rq_head ?s1 = rq_head s" by (simp add: rq_head_def fun_eq_iff)
  have len: "length qs = READY_QUEUE_LEN" by (rule queues_okD [OF Cons.prems(1) t(2)])
  have p: "prio_of ?s1 u = prio_of s u" for u by (simp add: prio_of_def)
  have pf: "prio_of ?s1 = prio_of s" using p by blast
  have q: "quantum_of ?s1 u = (if u = t then 10 * SEC_NSEC else quantum_of s u)" for u by (simp add: quantum_of_def)
  have 1: "queues_ok (lh ?s1) (rq_head ?s1) ?qs"
    using queues_ok_enqueue [OF Cons.prems(1) t(2), of t] Cons.prems(5) by (simp add: heads)
  have 2: "tcb_fits u \<and> prio_of ?s1 u = i \<and> quantum_of ?s1 u = 10 * SEC_NSEC"
    if "i < READY_QUEUE_LEN" "u \<in> set (?qs ! i)" for i u
    using that Cons.prems(2) [OF that(1)] t len unfolding p q by (auto simp: set_requeue)
  have 4: "\<forall>u \<in> set ts. tcb_fits u \<and> prio_of ?s1 u < READY_QUEUE_LEN"
    using Cons.prems(4) unfolding p by simp
  have 5: "\<forall>u \<in> set ts. \<forall>i < READY_QUEUE_LEN. tcb_link u \<notin> nodes (rq_head ?s1) ?qs i"
    using Cons.prems(3,5) t len by (auto simp: heads nodes_def set_requeue inj_image_mem_iff [OF inj_tcb_link])
  obtain s' where s': "rr_enqueue_all ts ?s1 = Inr s'"
    "queues_ok (lh s') (rq_head ?s1) (enqueue_all (prio_of ?s1) ts ?qs)"
    "\<forall>i < READY_QUEUE_LEN. \<forall>t \<in> set (enqueue_all (prio_of ?s1) ts ?qs ! i).
         tcb_fits t \<and> prio_of ?s1 t = i \<and> quantum_of s' t = 10 * SEC_NSEC"
    "ready_queue s' = ready_queue ?s1" "procs s' = procs ?s1" "current_proc s' = current_proc ?s1"
    "cr3 s' = cr3 ?s1" "\<forall>t. prio_of s' t = prio_of ?s1 t \<and> tcb_proc (tcbs s' t) = tcb_proc (tcbs ?s1 t)"
    using Cons.IH [OF 1 2 _ 4 5] Cons.prems(3) by auto
  have e: "enqueue_all (prio_of s) (t # ts) qs = enqueue_all (prio_of s) ts ?qs"
    by (simp add: enqueue_all_def)
  show ?case
    using s' run unfolding heads pf e by (auto simp: run)
qed

lemma length_enqueue_all [simp]: "length (enqueue_all prio ts qs) = length qs"
  by (induction ts arbitrary: qs) (simp_all add: enqueue_all_def requeue_def)

lemma enqueue_all_nth:
  "i < length qs \<Longrightarrow> (\<forall>t \<in> set ts. prio t < length qs) \<Longrightarrow>
   enqueue_all prio ts qs ! i = qs ! i @ filter (\<lambda>t. prio t = i) ts"
proof (induction ts arbitrary: qs)
  case Nil
  then show ?case by (simp add: enqueue_all_def)
next
  case (Cons t ts)
  then have "enqueue_all prio ts (requeue (prio t) t qs) ! i =
    requeue (prio t) t qs ! i @ filter (\<lambda>t. prio t = i) ts"
    by (simp add: requeue_def)
  then show ?case using Cons.prems by (auto simp: enqueue_all_def requeue_def nth_list_update)
qed

lemma rr_init_aux:
  assumes ts: "ts = root_threads s root n" "ts \<noteq> []" "distinct ts"
    and fits: "\<forall>t \<in> set ts. tcb_fits t \<and> prio_of s t < READY_QUEUE_LEN"
    and apart: "\<forall>t \<in> set ts. \<forall>i < READY_QUEUE_LEN. tcb_link t \<noteq> rq_head s i"
    and fresh: "\<forall>t \<in> set ts. tcb_proc (tcbs s t) \<notin> {0, current_proc s}"
  defines "qs \<equiv> enqueue_all (prio_of s) ts (replicate READY_QUEUE_LEN [])"
  shows "\<exists>s' i. rr_init root n s = Inr s' \<and> first_ready qs = Some i
    \<and> sched_rel s' (take_ready i qs, hd (qs ! i))
    \<and> (\<forall>t \<in> set ts. quantum_of s' t = 10 * SEC_NSEC)"
proof -
  let ?s0 = "rr_init_queues s" and ?qs0 = "replicate READY_QUEUE_LEN [] :: u32 list list"
  have h: "rq_head ?s0 = rq_head s" "prio_of ?s0 = prio_of s" "tcbs ?s0 = tcbs s" "procs ?s0 = procs s"
    "current_proc ?s0 = current_proc s" "ready_queue ?s0 = ready_queue s"
    by (simp_all add: rr_init_queues_def rq_head_def prio_of_def fun_eq_iff)
  have 1: "queues_ok (lh ?s0) (rq_head ?s0) ?qs0" using rr_init_queues_ok by (simp add: h)
  have 2: "tcb_fits t \<and> prio_of ?s0 t = i \<and> quantum_of ?s0 t = 10 * SEC_NSEC"
    if "i < READY_QUEUE_LEN" "t \<in> set (?qs0 ! i)" for i t
    using that by simp
  have 4: "\<forall>t \<in> set ts. tcb_fits t \<and> prio_of ?s0 t < READY_QUEUE_LEN" using fits by (simp add: h)
  have 5: "\<forall>t \<in> set ts. \<forall>i < READY_QUEUE_LEN. tcb_link t \<notin> nodes (rq_head ?s0) ?qs0 i"
    using apart by (simp add: nodes_def h)
  obtain s1 where s1: "rr_enqueue_all ts ?s0 = Inr s1" "queues_ok (lh s1) (rq_head s) qs"
    and all: "\<And>i t. i < READY_QUEUE_LEN \<Longrightarrow> t \<in> set (qs ! i) \<Longrightarrow>
      tcb_fits t \<and> prio_of s t = i \<and> quantum_of s1 t = 10 * SEC_NSEC"
    and eqs: "ready_queue s1 = ready_queue s" "procs s1 = procs s" "current_proc s1 = current_proc s"
    and t1: "\<And>t. prio_of s1 t = prio_of s t \<and> tcb_proc (tcbs s1 t) = tcb_proc (tcbs s t)"
    using rr_enqueue_all_ok [OF 1 2 ts(3) 4 5] unfolding h qs_def by blast
  have heads: "rq_head s1 = rq_head s" using eqs by (simp add: rq_head_def fun_eq_iff)
  have mem: "t \<in> set (qs ! i) \<longleftrightarrow> t \<in> set ts \<and> prio_of s t = i" if "i < READY_QUEUE_LEN" for t i
    using that fits by (simp add: qs_def enqueue_all_nth)
  have len: "length qs = READY_QUEUE_LEN" by (simp add: qs_def)
  from ts(2) fits obtain u where u: "u \<in> set ts" "prio_of s u < READY_QUEUE_LEN" by (cases ts) auto
  then have "qs ! prio_of s u \<noteq> []" using mem [of "prio_of s u" u] by auto
  then have "first_ready qs \<noteq> None"
    using u len by (auto simp: first_ready_def find_None_iff)
  then obtain i where i: "first_ready qs = Some i" by blast
  note k = find_upt_least [OF this [unfolded first_ready_def], simplified len]
  then have x: "qs ! i = hd (qs ! i) # tl (qs ! i)" by simp
  let ?t = "hd (qs ! i)"
  let ?s2 = "s1\<lparr>lh := list_remove (lh s1) (tcb_link ?t)\<rparr>"
  have nxt_eq: "rr_get_next_ready s1 = (?t, ?s2)"
    using rr_get_next_ready_eq [of s1 qs] s1(2) i by (simp add: heads)
  have t: "?t \<in> set ts" "tcb_fits ?t" "prio_of s ?t = i"
    using k x mem [of i ?t] all [of i ?t] by (metis list.set_intros(1))+
  define s3 where "s3 = ?s2\<lparr>current_thread := ?t, cur_exec_ctx := ?t + TCB_EXEC_CTX,
     current_proc := tcb_proc (tcbs s ?t), cr3 := page_dir (procs s (tcb_proc (tcbs s ?t)))\<rparr>"
  have run: "rr_init root n s = Inr s3"
    using s1(1) nxt_eq t(2) fresh t(1) eqs t1 ts(1)
    by (simp add: rr_init_def native_select_thread_eq tcb_fits_def s3_def)
  have f: "lh s3 = lh ?s2" "rq_head s3 = rq_head s" "current_thread s3 = ?t" "tcbs s3 = tcbs s1"
    using heads by (simp_all add: s3_def rq_head_def fun_eq_iff)
  have g: "prio_of s3 u = prio_of s u" "quantum_of s3 u = quantum_of s1 u" "has_proc s3 u = has_proc s u" for u
    using t1 by (simp_all add: f prio_of_def quantum_of_def has_proc_def)
  have q2: "queues_ok (lh ?s2) (rq_head s) (take_ready i qs)"
    using queues_ok_dequeue(2) [OF s1(2) k(2) x] by simp
  have pr: "tcb_fits u \<and> prio_of s u = j \<and> has_proc s u" if "j < READY_QUEUE_LEN" "u \<in> set (take_ready i qs ! j)" for j u
    using all [OF that(1)] mem [OF that(1)] set_take_ready [OF that(2)] fresh by (auto simp: has_proc_def)
  have ht: "has_proc s ?t" using fresh t(1) by (simp add: has_proc_def)
  have pt: "prio_of s ?t < READY_QUEUE_LEN" using t(3) k(2) by simp
  have "selected s3 ?t" using t1 eqs by (simp add: selected_def s3_def)
  then have "sched_rel s3 (take_ready i qs, ?t)"
    unfolding sched_rel_def prod.case f(1-3) g(1,3)
    using q2 t(2) pt pr ht queues_ok_taken [OF s1(2) k(2) x] by blast
  moreover have "quantum_of s3 u = 10 * SEC_NSEC" if "u \<in> set ts" for u
    using that all [of "prio_of s u" u] mem [of "prio_of s u" u] fits by (simp add: g)
  ultimately show ?thesis using run i by blast
qed

section \<open>Runs of ticks\<close>

text \<open>The handler invoked by a sequence of timer interrupts.\<close>

fun rr_ticks :: "bool \<Rightarrow> irq_context list \<Rightarrow> kstate \<Rightarrow> kstate outcome" where
  "rr_ticks debug [] s = Inr s"
| "rr_ticks debug (irq # irqs) s = bindE (rr_tick_handler debug irq s) (rr_ticks debug irqs)"

text \<open>
  What a scheduling policy promises to the interrupt path: from a state that represents a
  collection of threads, a tick does not fault, and the threads it represents afterwards are the
  same, none lost and none duplicated.
\<close>

locale tick_policy =
  fixes tick :: "'i \<Rightarrow> 's \<Rightarrow> 's outcome"
    and ticks :: "'i list \<Rightarrow> 's \<Rightarrow> 's outcome"
    and rel :: "'s \<Rightarrow> 'a \<Rightarrow> bool"
    and running :: "'s \<Rightarrow> 't"
    and members :: "'a \<Rightarrow> 't multiset"
  assumes ticks_Nil: "ticks [] s = Inr s"
    and ticks_Cons: "ticks (i # is) s = bindE (tick i s) (ticks is)"
    and tick_keeps: "rel s a \<Longrightarrow> \<exists>s' a'. tick i s = Inr s' \<and> rel s' a' \<and> members a' = members a"
    and running_member: "rel s a \<Longrightarrow> running s \<in># members a"
begin

lemma ticks_keep:
  "rel s a \<Longrightarrow> \<exists>s' a'. ticks is s = Inr s' \<and> rel s' a' \<and> members a' = members a"
proof (induction "is" arbitrary: s a)
  case Nil
  then show ?case using ticks_Nil by blast
next
  case (Cons i "is")
  obtain s1 a1 where 1: "tick i s = Inr s1" "rel s1 a1" "members a1 = members a"
    using tick_keeps [OF Cons.prems] by blast
  then obtain s2 a2 where "ticks is s1 = Inr s2" "rel s2 a2" "members a2 = members a1"
    using Cons.IH by blast
  with 1 show ?case by (auto simp: ticks_Cons)
qed

lemma ticks_running:
  "rel s a \<Longrightarrow> \<exists>s'. ticks is s = Inr s' \<and> running s' \<in># members a"
  using ticks_keep [of s a "is"] running_member by metis

end

text \<open>All threads the scheduler knows, in no particular order.\<close>

fun all_threads :: "u32 list list \<times> u32 \<Rightarrow> u32 multiset" where
  "all_threads (qs, r) = add_mset r (mset (concat qs))"

lemma mset_concat_update:
  "i < length qs \<Longrightarrow> mset (concat (qs[i := xs])) + mset (qs ! i) = mset (concat qs) + mset xs"
proof (induction qs arbitrary: i)
  case (Cons q qs)
  then show ?case by (cases i) (auto simp: ac_simps)
qed simp

lemma mset_requeue: "p < length qs \<Longrightarrow> mset (concat (requeue p t qs)) = add_mset t (mset (concat qs))"
  using mset_concat_update [of p qs "qs ! p @ [t]"] by (simp add: requeue_def)

lemma mset_take_ready:
  assumes "i < length qs" "qs ! i \<noteq> []"
  shows "add_mset (hd (qs ! i)) (mset (concat (take_ready i qs))) = mset (concat qs)"
  using mset_concat_update [of i qs "tl (qs ! i)"] assms
  by (cases "qs ! i") (auto simp: take_ready_def)

lemma a_schedule_members:
  assumes "p < length qs"
  shows "all_threads (a_schedule p e (qs, r)) = all_threads (qs, r)"
proof (cases e)
  case True
  obtain i where i: "first_ready (requeue p r qs) = Some i" "i < length qs" "requeue p r qs ! i \<noteq> []"
    using first_ready_requeue [OF assms, of r] by metis
  then show ?thesis
    using True mset_take_ready [of i "requeue p r qs"] mset_requeue [OF assms]
    by (simp add: requeue_def Let_def)
qed simp

lemma sched_rel_facts:
  assumes "sched_rel s (qs, r)"
  shows "current_thread s = r" "prio_of s r < length qs" "length qs = READY_QUEUE_LEN"
    "\<And>i t. i < READY_QUEUE_LEN \<Longrightarrow> t \<in> set (qs ! i) \<Longrightarrow> prio_of s t = i"
  using assms by (auto simp: sched_rel_def queues_ok_def)

interpretation rr: tick_policy "rr_tick_handler debug" "rr_ticks debug" sched_rel rr_current_thread all_threads
  for debug
proof
  fix s :: kstate and a and irq
  assume rel: "sched_rel s a"
  obtain qs r where a: "a = (qs, r)" by (cases a)
  let ?a = "a_schedule (prio_of s r) (quantum_of s r \<le> tick_nsec s) (qs, r)"
  from rel a have "\<exists>s'. rr_tick_handler debug irq s = Inr s' \<and> sched_rel s' ?a"
    using rr_tick_aux [of s qs r debug irq] by blast
  moreover have "all_threads ?a = all_threads a"
    unfolding a by (rule a_schedule_members) (rule sched_rel_facts [OF rel [unfolded a]])
  ultimately show "\<exists>s' a'. rr_tick_handler debug irq s = Inr s' \<and> sched_rel s' a' \<and> all_threads a' = all_threads a"
    by blast
  show "rr_current_thread s \<in># all_threads a"
    using sched_rel_facts(1) [OF rel [unfolded a]] by (simp add: a rr_current_thread_def)
qed simp_all

text \<open>While its quantum lasts, a thread keeps the processor and nothing else changes hands.\<close>

lemma rr_ticks_within:
  assumes "sched_rel s (qs, r)" "length irqs * unat (tick_nsec s) < unat (quantum_of s r)"
  shows "\<exists>s'. rr_ticks debug irqs s = Inr s' \<and> sched_rel s' (qs, r) \<and> tick_nsec s' = tick_nsec s
    \<and> unat (quantum_of s' r) = unat (quantum_of s r) - length irqs * unat (tick_nsec s)"
  using assms
proof (induction irqs arbitrary: s)
  case Nil
  then show ?case by simp
next
  case (Cons irq irqs)
  let ?n = "unat (tick_nsec s)"
  from Cons.prems(2) have lt: "tick_nsec s < quantum_of s r" by (simp add: word_less_nat_alt)
  obtain s1 where 1: "rr_tick_handler debug irq s = Inr s1"
    "sched_rel s1 (a_schedule (prio_of s r) (quantum_of s r \<le> tick_nsec s) (qs, r))"
    "nsec_to_next_tick s1 = nsec_to_next_tick s"
    "quantum_of s1 r = time_sub_nsec (quantum_of s r) (tick_nsec s)"
    using rr_tick_aux [OF Cons.prems(1), of debug irq] by auto
  have q: "unat (quantum_of s1 r) = unat (quantum_of s r) - ?n"
    using lt 1(4) by (simp add: time_sub_nsec_def unat_sub)
  have t: "tick_nsec s1 = tick_nsec s" using 1(3) by (simp add: tick_nsec_def)
  have "sched_rel s1 (qs, r)" using 1(2) lt by (auto split: if_splits)
  moreover have "length irqs * unat (tick_nsec s1) < unat (quantum_of s1 r)"
    using Cons.prems(2) q t by simp
  ultimately obtain s2 where "rr_ticks debug irqs s1 = Inr s2" "sched_rel s2 (qs, r)"
    "tick_nsec s2 = tick_nsec s1" "unat (quantum_of s2 r) = unat (quantum_of s1 r) - length irqs * ?n"
    using Cons.IH [of s1] t by metis
  then show ?case using 1(1) q t by auto
qed

text \<open>
  Rotation. When the queues above the running thread's priority are empty and every thread of its
  queue has used up its quantum, a tick moves the running thread to the end of the queue and
  runs the first one.
\<close>

lemma first_ready_at:
  assumes "p < length qs" "qs ! p \<noteq> []" "\<And>i. i < p \<Longrightarrow> qs ! i = []"
  shows "first_ready qs = Some p"
proof -
  have "find (\<lambda>i. qs ! i \<noteq> []) [a..<length qs] = Some p" if "a \<le> p" for a
    using that
  proof (induction "p - a" arbitrary: a)
    case 0
    then show ?case using assms by (simp add: upt_conv_Cons)
  next
    case (Suc n)
    then show ?case using assms by (simp add: upt_conv_Cons)
  qed
  then show ?thesis by (simp add: first_ready_def)
qed

lemma a_schedule_rotate:
  assumes "p < length qs" "\<And>i. i < p \<Longrightarrow> qs ! i = []"
  shows "a_schedule p True (qs, r) = (qs[p := tl (qs ! p @ [r])], hd (qs ! p @ [r]))"
proof -
  have "first_ready (requeue p r qs) = Some p"
    using assms by (intro first_ready_at) (auto simp: requeue_def)
  then show ?thesis using assms(1) by (simp add: take_ready_def requeue_def)
qed

lemma rr_ticks_rotate:
  assumes "sched_rel s (qs, r)" "prio_of s r = p" "\<And>i. i < p \<Longrightarrow> qs ! i = []"
    and "\<And>t. t \<in> set (r # qs ! p) \<Longrightarrow> exhausted s t"
  shows "\<exists>s'. rr_ticks debug irqs s = Inr s'
    \<and> sched_rel s' (qs[p := tl (rotate (length irqs) (r # qs ! p))], hd (rotate (length irqs) (r # qs ! p)))
    \<and> (\<forall>t. quantum_of s' t = quantum_of s t)"
  using assms
proof (induction irqs arbitrary: s qs r)
  case Nil
  then show ?case by simp
next
  case (Cons irq irqs)
  note fs = sched_rel_facts [OF Cons.prems(1)]
  let ?q = "qs ! p @ [r]"
  have p: "p < length qs" using fs(2) Cons.prems(2) by simp
  have ex: "quantum_of s r = 0" using Cons.prems(4) by simp
  obtain s1 where 1: "rr_tick_handler debug irq s = Inr s1"
    "sched_rel s1 (a_schedule p True (qs, r))"
    and s1: "\<And>t. prio_of s1 t = prio_of s t"
      "\<And>t. quantum_of s1 t = (if t = r then time_sub_nsec (quantum_of s t) (tick_nsec s) else quantum_of s t)"
    using rr_tick_aux [OF Cons.prems(1), of debug irq] ex Cons.prems(2) by auto
  have qn: "quantum_of s1 t = quantum_of s t" for t
    using s1(2) ex by (simp add: time_sub_nsec_def)
  let ?qs = "qs[p := tl ?q]" and ?r = "hd ?q"
  have rel: "sched_rel s1 (?qs, ?r)"
    using 1(2) a_schedule_rotate [OF p Cons.prems(3)] by simp
  have mem: "?r # tl ?q = ?q" by simp
  have pr: "prio_of s1 ?r = p"
  proof (cases "qs ! p")
    case (Cons t ts)
    then show ?thesis using fs(4) [of p t] p fs(3) s1(1) by simp
  qed (use Cons.prems(2) s1(1) in simp)
  have e: "exhausted s1 t" if "t \<in> set (?r # ?qs ! p)" for t
  proof -
    have "?r # ?qs ! p = ?q" using p by simp
    then have "t \<in> set ?q" using that by metis
    then show ?thesis using Cons.prems(4) qn by auto
  qed
  have eq: "?r # ?qs ! p = rotate1 (r # qs ! p)" using p by simp
  have "?qs ! i = []" if "i < p" for i using that Cons.prems(3) by simp
  then obtain s2 where s2: "rr_ticks debug irqs s1 = Inr s2"
    "sched_rel s2 (?qs[p := tl (rotate (length irqs) (?r # ?qs ! p))], hd (rotate (length irqs) (?r # ?qs ! p)))"
    "\<forall>t. quantum_of s2 t = quantum_of s1 t"
    using Cons.IH [OF rel pr _ e] by metis
  have "rotate (length (irq # irqs)) (r # qs ! p) = rotate (length irqs) (?r # ?qs ! p)"
    unfolding eq by (simp add: rotate1_rotate_swap)
  then show ?case using 1(1) s2 qn by auto
qed


section \<open>An example state\<close>

text \<open>Two threads of the highest priority, the first running and the second ready, each with \<open>q\<close>
  nanoseconds left, and two tasks whose threads they are.\<close>

definition two_tasks :: "time_t \<Rightarrow> kstate" where
  "two_tasks q = sample_kstate
     \<lparr>tcbs := (\<lambda>t. (sample_tcb t)\<lparr>tcb_proc := if t = 0x1000 then 0x3000 else 0x301C,
        sched_ctx := \<lparr>priority = 0, thread_state = 0, quantum_nsec = q\<rparr>\<rparr>),
      procs := (\<lambda>p. \<lparr>proc_id = 1, page_dir = p + 0x6000, proc_priority = 0,
        threads = (if p = 0x3000 then 0x1000 else 0x1100), thread_count = 1\<rparr>)\<rparr>"

definition two_running :: "time_t \<Rightarrow> kstate" where
  "two_running q = (let s = two_tasks q in s
     \<lparr>lh := list_add (lh s) (tcb_link 0x1100) (prv (lh s) (rq_head s 0)), current_thread := 0x1000,
      cur_exec_ctx := 0x1000 + TCB_EXEC_CTX, current_proc := 0x3000, cr3 := 0x9000\<rparr>)"

definition two_queues :: "u32 list list" where
  "two_queues = [0x1100] # replicate 15 []"

lemma two_apart:
  assumes "i < READY_QUEUE_LEN"
  shows "tcb_link 0x1000 \<noteq> rq_head (two_tasks q) i \<and> tcb_link 0x1100 \<noteq> rq_head (two_tasks q) i"
proof -
  have "unat (rq_head (two_tasks q) i) = 0x8058 + i * 96"
    using assms by (simp add: rq_head_def two_tasks_def sample_kstate_def TCB_LIST_def TCB_SIZE_def
        READY_QUEUE_LEN_def unat_word_ariths unat_of_nat)
  moreover have "unat (tcb_link 0x1000) = 0x1058" "unat (tcb_link 0x1100) = 0x1158"
    by (simp_all add: tcb_link_def TCB_LIST_def)
  ultimately show ?thesis by (intro conjI notI) (simp_all add: word_unat_eq_iff)
qed

lemma two_running_rel: "sched_rel (two_running q) (two_queues, 0x1000)"
proof -
  let ?s = "two_tasks q"
  have heads: "rq_head (two_running q) = rq_head ?s" by (simp add: two_running_def Let_def rq_head_def fun_eq_iff)
  have "queues_ok (lh ?s) (rq_head ?s) (replicate READY_QUEUE_LEN [])"
    by (auto simp: queues_ok_def nodes_def rq_head_inj ring_def two_tasks_def sample_kstate_def)
  then have "queues_ok (lh (two_running q)) (rq_head ?s) (requeue 0 0x1100 (replicate READY_QUEUE_LEN []))"
    using queues_ok_enqueue [of "lh ?s" "rq_head ?s" "replicate READY_QUEUE_LEN []" 0 "0x1100"] two_apart [of _ q]
    by (auto simp: two_running_def Let_def nodes_def READY_QUEUE_LEN_def)
  moreover have "requeue 0 0x1100 (replicate READY_QUEUE_LEN []) = two_queues"
    by (simp add: requeue_def two_queues_def READY_QUEUE_LEN_def numeral_eq_Suc)
  ultimately have 1: "queues_ok (lh (two_running q)) (rq_head ?s) two_queues" by simp
  have n: "two_queues ! i = (if i = 0 then [0x1100] else [])" if "i < READY_QUEUE_LEN" for i
    using that by (cases i) (simp_all add: two_queues_def READY_QUEUE_LEN_def)
  have p: "prio_of (two_running q) t = 0" for t
    by (simp add: prio_of_def two_running_def two_tasks_def Let_def)
  have "\<forall>i < READY_QUEUE_LEN. tcb_link 0x1000 \<notin> nodes (rq_head ?s) two_queues i"
    using two_apart [of _ q] by (auto simp: nodes_def n)
  moreover have "\<forall>i < READY_QUEUE_LEN. \<forall>t \<in> set (two_queues ! i). tcb_fits t \<and> 0 = i \<and> has_proc (two_running q) t"
    by (auto simp: n tcb_fits_def TCB_SIZE_def has_proc_def two_running_def two_tasks_def Let_def)
  moreover have "selected (two_running q) 0x1000"
    by (simp add: selected_def two_running_def two_tasks_def Let_def)
  moreover have "current_thread (two_running q) = 0x1000" "tcb_fits 0x1000" "0 < READY_QUEUE_LEN" "has_proc (two_running q) 0x1000"
    by (simp_all add: two_running_def two_tasks_def Let_def tcb_fits_def TCB_SIZE_def READY_QUEUE_LEN_def has_proc_def)
  ultimately show ?thesis
    using 1 unfolding sched_rel_def prod.case heads p by blast
qed

lemma two_running_simps [simp]:
  "quantum_of (two_running q) t = q" "tick_nsec (two_running q) = 10000000" "prio_of (two_running q) t = 0"
  by (simp_all add: quantum_of_def tick_nsec_def prio_of_def two_running_def two_tasks_def Let_def
      sample_kstate_def sched_tick_nsec_def SEC_NSEC_def CONF_SCHED_TICK_FREQ_HZ_def)

definition zero_irq :: irq_context where
  "zero_irq = \<lparr>irq_ds = 0, irq_edi = 0, irq_esi = 0, irq_ebp = 0, irq_unused = 0, irq_ebx = 0,
     irq_edx = 0, irq_ecx = 0, irq_eax = 0, int_no = 32, err_code = 0, irq_eip = 0, irq_cs = 0,
     irq_eflags = 0, irq_esp = 0, irq_ss = 0\<rparr>"

section \<open>Properties\<close>

text \<open>C4: \<open>rr_schedule\<close> implements the abstract scheduler. If the sixteen linked ready queues hold the
  thread sequences \<open>qs\<close> and thread \<open>r\<close> runs, the code does not fault; the queues afterwards hold
  what the abstract step yields (with an exhausted quantum, \<open>r\<close> goes to the end of the queue of its
  priority and the first thread of the first non-empty queue is taken out and runs; otherwise
  nothing changes), and the thread that runs has been selected: its context, process and page
  directory are the current ones. No thread's priority, quantum or saved context is touched.\<close>

theorem rr_schedule_refines:
  assumes "sched_rel s (qs, r)"
  shows "\<exists>s'. rr_schedule debug s = Inr s'
    \<and> sched_rel s' (a_schedule (prio_of s r) (quantum_of s r = 0) (qs, r))
    \<and> (\<forall>t. prio_of s' t = prio_of s t \<and> quantum_of s' t = quantum_of s t
          \<and> exec_ctx (tcbs s' t) = exec_ctx (tcbs s t))"
  using rr_schedule_refines_aux [OF assms, of debug] by blast

theorem rr_schedule_refines_witness:
  "\<exists>s'. rr_schedule False (two_running 0) = Inr s' \<and> current_thread s' = 0x1100"
  using rr_schedule_refines [OF two_running_rel [of 0], of False]
  by (auto simp: two_queues_def requeue_def first_ready_def take_ready_def Let_def upt_rec sched_rel_def)

text \<open>C5: the timer handler charges one tick to the running thread, saves the interrupted registers
  in that thread's context and in no other, and then takes a scheduling step, which gives up the
  processor exactly when the tick used up the quantum. The charge is saturating: a quantum
  shorter than the tick becomes zero and never wraps.\<close>

theorem rr_tick_refines:
  assumes "sched_rel s (qs, r)"
  shows "\<exists>s'. rr_tick_handler debug irq s = Inr s'
    \<and> sched_rel s' (a_schedule (prio_of s r) (quantum_of s r \<le> tick_nsec s) (qs, r))
    \<and> (\<forall>t. unat (quantum_of s' t) =
          (if t = r then unat (quantum_of s t) - unat (tick_nsec s) else unat (quantum_of s t)))
    \<and> (\<forall>t. exec_ctx (tcbs s' t) =
          (if t = r then save_irq_context irq (exec_ctx (tcbs s t)) else exec_ctx (tcbs s t)))"
proof -
  have "unat (time_sub_nsec a b) = unat a - unat b" for a b
    by (auto simp: time_sub_nsec_def unat_sub word_less_nat_alt word_le_nat_alt)
  then show ?thesis using rr_tick_aux [OF assms, of debug irq] by auto
qed

theorem rr_tick_refines_witness:
  "\<exists>s'. rr_tick_handler False zero_irq (two_running 15000000) = Inr s' \<and> current_thread s' = 0x1000
     \<and> unat (quantum_of s' 0x1000) = 5000000"
  using rr_tick_refines [OF two_running_rel [of 15000000], of False zero_irq]
  by (auto simp: sched_rel_def)

text \<open>C8: initialisation establishes the scheduler's invariant. Given at least one root task, with
  distinct first threads that lie outside the queue heads, have a priority below sixteen and belong
  to a process (no null pointer) other than the current one, \<open>rr_init\<close> does not fault: afterwards each queue holds the
  threads of its priority in the order of the tasks, except that the first thread of the first
  non-empty queue has been taken out, selected and runs; every thread has a quantum of ten
  seconds.\<close>

theorem rr_init_establishes:
  assumes "ts = root_threads s root n" "ts \<noteq> []" "distinct ts"
    and "\<forall>t \<in> set ts. tcb_fits t \<and> prio_of s t < READY_QUEUE_LEN"
    and "\<forall>t \<in> set ts. \<forall>i < READY_QUEUE_LEN. tcb_link t \<noteq> rq_head s i"
    and "\<forall>t \<in> set ts. tcb_proc (tcbs s t) \<notin> {0, current_proc s}"
    and "qs = map (\<lambda>i. filter (\<lambda>t. prio_of s t = i) ts) [0..<READY_QUEUE_LEN]"
  shows "\<exists>s' i. rr_init root n s = Inr s' \<and> i < READY_QUEUE_LEN \<and> qs ! i \<noteq> [] \<and> (\<forall>j < i. qs ! j = [])
    \<and> sched_rel s' (qs[i := tl (qs ! i)], hd (qs ! i)) \<and> (\<forall>t \<in> set ts. quantum_of s' t = 10 * SEC_NSEC)"
proof -
  let ?q = "enqueue_all (prio_of s) ts (replicate READY_QUEUE_LEN [])"
  have e: "?q = qs"
    using assms(4) by (intro nth_equalityI) (simp_all add: assms(7) enqueue_all_nth)
  obtain s' i where si: "rr_init root n s = Inr s'" "first_ready qs = Some i"
    "sched_rel s' (take_ready i qs, hd (qs ! i))" "\<forall>t \<in> set ts. quantum_of s' t = 10 * SEC_NSEC"
    using rr_init_aux [OF assms(1-6)] unfolding e by blast
  have "length qs = READY_QUEUE_LEN" by (simp add: assms(7))
  then show ?thesis
    using si find_upt_least [OF si(2) [unfolded first_ready_def]] by (auto simp: take_ready_def)
qed

theorem rr_init_establishes_witness:
  "\<exists>s' i. rr_init 0x3000 2 (two_tasks 0) = Inr s' \<and> quantum_of s' 0x1100 = 10 * SEC_NSEC"
proof -
  have ts: "[0x1000, 0x1100] = root_threads (two_tasks 0) 0x3000 2"
    by (simp add: root_threads_def two_tasks_def PROC_SIZE_def upt_rec)
  show ?thesis
    using rr_init_establishes [OF ts _ _ _ _ _ refl] two_apart [of _ 0]
    by (auto simp: prio_of_def two_tasks_def sample_kstate_def tcb_fits_def TCB_SIZE_def READY_QUEUE_LEN_def)
qed

text \<open>C10: scheduling is by strict priority. When a tick uses up the running thread's quantum, the
  thread that runs afterwards has the smallest priority number of all threads the scheduler
  knows, and among those of that priority it is the one that has waited longest.\<close>

theorem rr_tick_strict_priority:
  assumes "sched_rel s (qs, r)" "quantum_of s r \<le> tick_nsec s"
  shows "\<exists>s'. rr_tick_handler debug irq s = Inr s'
    \<and> (\<forall>i < READY_QUEUE_LEN. \<forall>t \<in> set (r # qs ! i). prio_of s (current_thread s') \<le> prio_of s t)
    \<and> (qs ! prio_of s (current_thread s') \<noteq> [] \<longrightarrow> current_thread s' = hd (qs ! prio_of s (current_thread s')))"
proof -
  note fs = sched_rel_facts [OF assms(1)]
  let ?p = "prio_of s r"
  let ?qs = "requeue ?p r qs"
  obtain i where i: "first_ready ?qs = Some i" "i \<le> ?p" "i < length qs" "?qs ! i \<noteq> []"
    using first_ready_requeue [OF fs(2), of r] by metis
  obtain s' where s': "rr_tick_handler debug irq s = Inr s'"
    "sched_rel s' (a_schedule ?p True (qs, r))" "\<And>t. prio_of s' t = prio_of s t"
    using rr_tick_aux [OF assms(1), of debug irq] assms(2) by auto
  have cur: "current_thread s' = hd (?qs ! i)"
    using s'(2) i sched_rel_facts(1) [of s' "take_ready i ?qs" "hd (?qs ! i)"] by (simp add: Let_def)
  have p: "prio_of s (hd (?qs ! i)) = i"
    using hd_in_set [OF i(4)] fs(4) [of i] i(3) fs(2,3) by (auto simp: set_requeue)
  have least: "?qs ! j = []" if "j < i" for j
    using find_upt_least(4) [OF i(1) [unfolded first_ready_def], of j] that by simp
  have min: "i \<le> prio_of s t" if "k < READY_QUEUE_LEN" "t \<in> set (r # qs ! k)" for k t
  proof (cases "t = r")
    case False
    then have "t \<in> set (?qs ! k)" "prio_of s t = k" using that fs(4) [of k t] fs(2) by (auto simp: set_requeue)
    then show ?thesis using least [of k] by force
  qed (use i in simp)
  have "hd (?qs ! i) = hd (qs ! i)" if "qs ! i \<noteq> []"
    using that by (cases "?p = i") (simp_all add: requeue_def nth_list_update i(3))
  then show ?thesis using s'(1) cur p min by auto
qed

theorem rr_tick_strict_priority_witness:
  "\<exists>s'. rr_tick_handler False zero_irq (two_running 0) = Inr s' \<and> current_thread s' = 0x1100"
  using rr_tick_strict_priority [OF two_running_rel [of 0], of False zero_irq]
  by (auto simp: two_queues_def)

text \<open>C11: a thread keeps the processor for its whole quantum. For as many ticks as fit strictly
  within the remaining quantum, the thread goes on running and the queues do not change; the
  quantum has decreased by the ticks times the tick length.\<close>

theorem rr_quantum_lasts:
  assumes "sched_rel s (qs, r)" "length irqs * unat (tick_nsec s) < unat (quantum_of s r)"
  shows "\<exists>s'. rr_ticks debug irqs s = Inr s' \<and> sched_rel s' (qs, r)
    \<and> unat (quantum_of s' r) = unat (quantum_of s r) - length irqs * unat (tick_nsec s)"
  using rr_ticks_within [OF assms, of debug] by blast

theorem rr_quantum_lasts_witness:
  "\<exists>s'. rr_ticks False (replicate 999 zero_irq) (two_running (10 * SEC_NSEC)) = Inr s'
     \<and> current_thread s' = 0x1000"
  using rr_quantum_lasts [OF two_running_rel [of "10 * SEC_NSEC"], of "replicate 999 zero_irq" False]
  by (auto simp: SEC_NSEC_def sched_rel_def)

text \<open>C9: once quanta are used up they are never renewed, and the top priority level monopolises the
  processor in rotation. If the running thread and all threads of its queue are exhausted and no
  queue above is occupied, then after any number \<open>n\<close> of ticks the running thread and its queue are
  the rotation by \<open>n\<close>: every thread of the level runs within as many ticks as there are threads,
  for one tick at a time, while all other queues stay exactly as they are for ever.\<close>

theorem rr_rotation_starves_lower:
  assumes "sched_rel s (qs, r)" "prio_of s r = p" "\<forall>i < p. qs ! i = []"
    and "\<forall>t \<in> set (r # qs ! p). quantum_of s t = 0"
  shows "\<exists>s'. rr_ticks debug irqs s = Inr s' \<and> current_thread s' = (r # qs ! p) ! (length irqs mod Suc (length (qs ! p)))
    \<and> sched_rel s' (qs[p := tl (rotate (length irqs) (r # qs ! p))], current_thread s')
    \<and> (\<forall>t. quantum_of s' t = quantum_of s t)"
proof -
  let ?q = "rotate (length irqs) (r # qs ! p)"
  obtain s' where s': "rr_ticks debug irqs s = Inr s'" "sched_rel s' (qs[p := tl ?q], hd ?q)"
    "\<forall>t. quantum_of s' t = quantum_of s t"
    using rr_ticks_rotate [OF assms(1,2), of debug irqs] assms(3,4) by auto
  have "hd ?q = (r # qs ! p) ! (length irqs mod Suc (length (qs ! p)))"
    by (simp add: hd_rotate_conv_nth)
  then show ?thesis using s' sched_rel_facts(1) [OF s'(2)] by auto
qed

theorem rr_rotation_starves_lower_witness:
  "\<exists>s'. rr_ticks False (replicate 5 zero_irq) (two_running 0) = Inr s' \<and> current_thread s' = 0x1100"
  using rr_rotation_starves_lower [OF two_running_rel [of 0], of 0 False "replicate 5 zero_irq"]
  by (auto simp: two_queues_def simp flip: numeral_2_eq_2)

section \<open>Initialisation with one priority\<close>

lemma rr_enqueue_all_frame:
  "rr_enqueue_all ts s = Inr s' \<Longrightarrow> procs s' = procs s \<and> (\<forall>t. exec_ctx (tcbs s' t) = exec_ctx (tcbs s t) \<and> tcb_proc (tcbs s' t) = tcb_proc (tcbs s t))"
proof (induction ts arbitrary: s)
  case (Cons t ts)
  from Cons.prems obtain s1 where s1: "rr_enqueue t s = Inr s1" "rr_enqueue_all ts s1 = Inr s'" by (auto simp: bindE_Inr_iff)
  have "procs s1 = procs s \<and> (\<forall>u. exec_ctx (tcbs s1 u) = exec_ctx (tcbs s u) \<and> tcb_proc (tcbs s1 u) = tcb_proc (tcbs s u))"
    using s1(1) by (auto simp: rr_enqueue_def rr_move_to_ready_def Let_def split: if_splits)
  then show ?case using Cons.IH [OF s1(2)] by simp
qed simp

lemma next_ready_frame: "tcbs (snd (next_ready_loop i s)) = tcbs s \<and> procs (snd (next_ready_loop i s)) = procs s"
proof (induction i s rule: next_ready_loop.induct)
  case (1 i s)
  then show ?case by (subst (1 2) next_ready_loop.simps) (simp add: Let_def split_beta)
qed

lemma rr_init_frame:
  assumes "rr_init root n s = Inr s'"
  shows "procs s' = procs s" "exec_ctx (tcbs s' t) = exec_ctx (tcbs s t)" "tcb_proc (tcbs s' t) = tcb_proc (tcbs s t)"
proof -
  from assms obtain s1 where s1: "rr_enqueue_all (root_threads s root n) (rr_init_queues s) = Inr s1"
    and sel: "(let (t, s) = rr_get_next_ready s1 in native_select_thread t (s\<lparr>current_thread := t\<rparr>)) = Inr s'"
    by (auto simp: rr_init_def bindE_Inr_iff)
  have "tcbs s' = tcbs s1 \<and> procs s' = procs s1"
    using sel next_ready_frame [of 0 s1] by (auto simp: rr_get_next_ready_def native_select_thread_def Let_def split_beta split: if_splits)
  then show "procs s' = procs s" "exec_ctx (tcbs s' t) = exec_ctx (tcbs s t)" "tcb_proc (tcbs s' t) = tcb_proc (tcbs s t)"
    using rr_enqueue_all_frame [OF s1] by (simp_all add: rr_init_queues_def)
qed

lemma rr_tick_frame:
  assumes "rr_tick_handler debug irq s = Inr s'"
  shows "procs s' = procs s" "tcb_proc (tcbs s' t) = tcb_proc (tcbs s t)"
proof -
  have "procs s' = procs s \<and> (\<forall>t. tcb_proc (tcbs s' t) = tcb_proc (tcbs s t))"
    if "rr_schedule debug s = Inr s'" for s s'
    using that next_ready_frame [of 0]
    by (auto simp: rr_schedule_def rr_move_to_ready_def rr_get_next_ready_def native_select_thread_def ASSERT_def bindE_Inr_iff Let_def prod_eq_iff split: if_splits)
  then show "procs s' = procs s" "tcb_proc (tcbs s' t) = tcb_proc (tcbs s t)"
    using assms by (fastforce simp: rr_tick_handler_def arch_update_exec_ctx_def Let_def bindE_Inr_iff split: if_splits)+
qed

text \<open>Tasks that all have the highest priority: the first one runs, the others wait in their order.\<close>

lemma rr_init_single_priority:
  assumes "ts = root_threads s root n" "ts = t # us" "distinct ts" "\<forall>u \<in> set ts. tcb_fits u \<and> prio_of s u = 0"
    and "\<forall>u \<in> set ts. \<forall>i < READY_QUEUE_LEN. tcb_link u \<noteq> rq_head s i" "\<forall>u \<in> set ts. tcb_proc (tcbs s u) \<notin> {0, current_proc s}"
  shows "\<exists>s'. rr_init root n s = Inr s' \<and> sched_rel s' (us # replicate 15 [], t) \<and> (\<forall>u \<in> set ts. quantum_of s' u = 10 * SEC_NSEC)"
proof -
  let ?qs = "enqueue_all (prio_of s) ts (replicate READY_QUEUE_LEN [])"
  have p: "\<forall>u \<in> set ts. tcb_fits u \<and> prio_of s u < READY_QUEUE_LEN" using assms(4) by (simp add: READY_QUEUE_LEN_def)
  have ne: "ts \<noteq> []" using assms(2) by simp
  obtain s' i where r: "rr_init root n s = Inr s'" "first_ready ?qs = Some i" "sched_rel s' (take_ready i ?qs, hd (?qs ! i))"
    "\<forall>u \<in> set ts. quantum_of s' u = 10 * SEC_NSEC"
    using rr_init_aux [OF assms(1) ne assms(3) p assms(5,6)] by blast
  have l: "length ?qs = 16" by (simp add: READY_QUEUE_LEN_def)
  have nth: "?qs ! j = (if j = 0 then ts else [])" if "j < 16" for j
    using that assms(4) enqueue_all_nth [of j "replicate READY_QUEUE_LEN []" ts "prio_of s"] p by (auto simp: READY_QUEUE_LEN_def filter_empty_conv)
  have qs: "?qs = ts # replicate 15 []"
    by (rule nth_equalityI) (use l nth in \<open>auto simp: nth_Cons split: nat.split\<close>)
  have "i = 0"
    using r(2) ne by (simp add: qs first_ready_def upt_conv_Cons del: upt_Suc)
  then show ?thesis using r assms(2) unfolding qs by (auto simp: take_ready_def)
qed

end
