(* ===== verification/Interrupt.thy ===== *)
theory Interrupt
  imports Console Pic Descriptors Sched_RR
begin

text \<open>
  Interrupts and time: the dispatcher of \<^verbatim>\<open>arch/i686/interrupt.c\<close>, the clock driver
  \<^verbatim>\<open>arch/i686/drivers/timer.c\<close>, \<^verbatim>\<open>kern/time.c\<close> and the architecture's start-up \<^verbatim>\<open>arch/i686/init.c\<close>.
  The machine state puts together the devices behind the ports, the console, the state of threads
  and scheduling, the descriptor tables and the static variables of these files.
\<close>

section \<open>State\<close>

text \<open>\<open>tv_nsec\<close> is a signed \<^verbatim>\<open>long\<close> of 32 bits.\<close>

record timespec =
  tv_sec :: time_t
  tv_nsec :: u32

text \<open>The handlers that the kernel registers for interrupts, by name.\<close>

datatype irq_callback = Hwclock_irq_handler | Page_fault_handler

record 'd machine =
  m_dev :: 'd
  m_con :: console
  m_kst :: kstate
  m_callback :: "irq_callback option list"
  m_current_callback :: "(irq_context \<Rightarrow> kstate \<Rightarrow> kstate outcome) option"
  m_freq_hz :: size_t
  m_ctr_val :: size_t
  m_clock :: timespec
  m_gdt :: gdt_state
  m_idt :: idt_state
  m_msr :: "u32 \<Rightarrow> u64"
  m_cr2 :: vaddr_t

definition NO_INTERRUPTS :: nat where "NO_INTERRUPTS = 256"
definition NO_EXCEPTIONS :: nat where "NO_EXCEPTIONS = 32"
definition IRQ0 :: u8 where "IRQ0 = 32"

definition register_interrupt_callback :: "u8 \<Rightarrow> irq_callback \<Rightarrow> 'd machine \<Rightarrow> 'd machine" where
  "register_interrupt_callback num cb m = m\<lparr>m_callback := (m_callback m)[unat num := Some cb]\<rparr>"

section \<open>The clock\<close>

definition PIT_CMD :: u16 where "PIT_CMD = 0x43"
definition PIT_DATA_CHANNEL0 :: u16 where "PIT_DATA_CHANNEL0 = 0x40"
definition PIT_REPEAT_MODE :: u8 where "PIT_REPEAT_MODE = 0x36"
definition PIT_FREQ :: u32 where "PIT_FREQ = 1193180"
definition PIT_NSEC_PER_TICK :: u32 where "PIT_NSEC_PER_TICK = 838"

definition hwclock_get_tick_remaining :: "'d bus \<Rightarrow> 'd \<Rightarrow> time_t \<times> 'd" where
  "hwclock_get_tick_remaining bus d =
     (let d = outb bus PIT_CMD PIT_REPEAT_MODE d;
          (low, d) = inb bus PIT_DATA_CHANNEL0 d;
          (hi, d) = inb bus PIT_DATA_CHANNEL0 d
      in (scast (((ucast low :: u32) OR push_bit 8 (ucast hi)) * PIT_NSEC_PER_TICK), d))"

text \<open>A new count of nanoseconds, with the carry as the code does it.\<close>

definition carry_nsec :: "timespec \<Rightarrow> time_t \<Rightarrow> timespec" where
  "carry_nsec tv tmp_nsec =
     (if tmp_nsec > 1000000000 then \<lparr>tv_sec = tv_sec tv + 1, tv_nsec = ucast (tmp_nsec - 1000000000)\<rparr>
      else tv\<lparr>tv_nsec := ucast tmp_nsec\<rparr>)"

text \<open>The sum of a 32-bit \<^verbatim>\<open>long\<close> and an unsigned product is unsigned and has 32 bits; then it is widened.\<close>

definition hwclock_irq_handler :: "irq_context \<Rightarrow> 'd machine \<Rightarrow> 'd machine outcome" where
  "hwclock_irq_handler ctx m =
     (let tmp_nsec = ucast (tv_nsec (m_clock m) + m_ctr_val m * PIT_NSEC_PER_TICK);
          m = m\<lparr>m_clock := carry_nsec (m_clock m) tmp_nsec\<rparr>
      in case m_current_callback m of
           None \<Rightarrow> Inl Null_Deref
         | Some cb \<Rightarrow> bindE (cb ctx (m_kst m)) (\<lambda>k. Inr (m\<lparr>m_kst := k\<rparr>)))"

definition hwclock_register_callback :: "(irq_context \<Rightarrow> kstate \<Rightarrow> kstate outcome) option \<Rightarrow> 'd machine \<Rightarrow> 'd machine" where
  "hwclock_register_callback cb m = m\<lparr>m_current_callback := cb\<rparr>"

definition hwclock_init :: "'d bus \<Rightarrow> u32 \<Rightarrow> 'd machine \<Rightarrow> 'd machine outcome" where
  "hwclock_init bus frequency m =
     (let m = register_interrupt_callback IRQ0 Hwclock_irq_handler m
      in if frequency = 0 then Inl Divide_Error
         else let v = PIT_FREQ div frequency;
                  m = m\<lparr>m_freq_hz := frequency, m_ctr_val := v\<rparr>;
                  d = outb bus PIT_CMD PIT_REPEAT_MODE (m_dev m);
                  d = outb bus PIT_DATA_CHANNEL0 (ucast (v AND 0xFF)) d;
                  d = outb bus PIT_DATA_CHANNEL0 (ucast (drop_bit 8 v)) d
              in bindE (PIC_unmask_irq bus (ucast IRQ0) d) (\<lambda>d. Inr (m\<lparr>m_dev := d\<rparr>)))"

text \<open>Both take a pointer to a time; the result is what it points to afterwards.\<close>

definition hwclock_set_time :: "timespec \<Rightarrow> 'd machine \<Rightarrow> timespec \<times> 'd machine" where
  "hwclock_set_time tv m = (tv, m\<lparr>m_clock := tv\<rparr>)"

definition hwclock_get_time :: "'d bus \<Rightarrow> timespec \<Rightarrow> 'd machine \<Rightarrow> timespec \<times> 'd machine" where
  "hwclock_get_time bus tv m =
     (let tv = m_clock m; (remainder, d) = hwclock_get_tick_remaining bus (m_dev m)
      in (carry_nsec tv (scast (tv_nsec tv) + remainder), m\<lparr>m_dev := d\<rparr>))"

text \<open>The structure of operations; its fields are in the order of \<^verbatim>\<open>arch/time.h\<close>, its initialiser in that of \<^verbatim>\<open>timer.c\<close>.\<close>

record 'd hwclock_t =
  hw_register_callback :: "(irq_context \<Rightarrow> kstate \<Rightarrow> kstate outcome) option \<Rightarrow> 'd machine \<Rightarrow> 'd machine"
  hw_init :: "u32 \<Rightarrow> 'd machine \<Rightarrow> 'd machine outcome"
  hw_set_time :: "timespec \<Rightarrow> 'd machine \<Rightarrow> timespec \<times> 'd machine"
  hw_get_time :: "timespec \<Rightarrow> 'd machine \<Rightarrow> timespec \<times> 'd machine"

definition hwclock :: "'d bus \<Rightarrow> 'd hwclock_t" where
  "hwclock bus = \<lparr>hw_register_callback = hwclock_register_callback, hw_init = hwclock_init bus,
     hw_set_time = hwclock_get_time bus, hw_get_time = hwclock_set_time\<rparr>"

definition ktime_init :: "'d bus \<Rightarrow> (irq_context \<Rightarrow> kstate \<Rightarrow> kstate outcome) option \<Rightarrow> 'd machine \<Rightarrow> 'd machine outcome" where
  "ktime_init bus timer_callback m = hw_init (hwclock bus) (ucast CONF_SCHED_TICK_FREQ_HZ) (hw_register_callback (hwclock bus) timer_callback m)"

section \<open>Dispatch\<close>

text \<open>\<^verbatim>\<open>page_fault_handler\<close> of \<^verbatim>\<open>kern/kmem.c\<close>: two log messages, then the processor halts.\<close>

definition page_fault_handler :: "irq_context \<Rightarrow> 'd machine \<Rightarrow> 'd machine outcome" where
  "page_fault_handler registers m =
     (let faulting_address = m_cr2 m;
          present = (if err_code registers AND 0x1 \<noteq> 0 then 0 else 1);
          rw = err_code registers AND 0x2; us = err_code registers AND 0x4; id = err_code registers AND 0x10
      in bindE (klog ''ERROR'' ''kern/kmem.c'' 43 ''Page fault at 0x%08x!'' [VInt faulting_address] (m_con m)) (\<lambda>(_, con).
         bindE (klog ''ERROR'' ''kern/kmem.c'' 44
                 (''Page not present: %d'' @ [CHR 0x0A] @ ''RO: %d'' @ [CHR 0x0A] @ ''User-mode: %d'' @ [CHR 0x0A] @ ''Cause: %s'')
                 [VInt present, VInt rw, VInt us, VStr (Some (if id \<noteq> 0 then ''Instruction fetch'' else ''Direct access''))] con) (\<lambda>_.
           Inl (Page_Fault faulting_address))))"

definition call_irq :: "irq_callback \<Rightarrow> irq_context \<Rightarrow> 'd machine \<Rightarrow> 'd machine outcome" where
  "call_irq cb ctx m = (case cb of
     Hwclock_irq_handler \<Rightarrow> hwclock_irq_handler ctx m
   | Page_fault_handler \<Rightarrow> page_fault_handler ctx m)"

definition run_callback :: "irq_context \<Rightarrow> 'd machine \<Rightarrow> 'd machine outcome" where
  "run_callback ctx m =
     (let n = unat (int_no ctx)
      in if n < NO_INTERRUPTS
         then (case m_callback m ! n of None \<Rightarrow> Inr m | Some cb \<Rightarrow> call_irq cb ctx m)
         else Inr m)"

definition exception_string :: "string list" where
  "exception_string = [''Divide by zero'', ''Debug'', ''Non-maskable interrupt'', ''Breakpoint'', ''Overflow'',
     ''Bound range exceeded'', ''Invalid opcode'', ''Device not available'', ''Double fault'',
     ''Coprocessor Segment Overrun'', ''Invalid TSS'', ''Segment not present'', ''Stack-segment fault'',
     ''General protection fault'', ''Page fault'', ''Reserved'', ''Floating point exception'', ''Alignment check'',
     ''Machine check'', ''SIMD floating point exception'', ''Virtualization exception'', ''Reserved'',
     ''Security exception'', ''Reserved'', ''Triple fault'', ''FPU error interrupt'']"

text \<open>The array has \<^verbatim>\<open>NO_EXCEPTIONS\<close> elements; those without an initialiser are null pointers.\<close>

definition exception_name :: "nat \<Rightarrow> string option outcome" where
  "exception_name n =
     (if NO_EXCEPTIONS \<le> n then Inl Out_Of_Bounds
      else Inr (if n < length exception_string then Some (exception_string ! n) else None))"

definition exception_handler :: "'d bus \<Rightarrow> irq_context \<Rightarrow> 'd machine \<Rightarrow> 'd machine outcome" where
  "exception_handler bus context m =
     (let (spurious, d) = PIC_check_spurious bus (m_dev m); m = m\<lparr>m_dev := d\<rparr>
      in if spurious \<noteq> 0 then Inr m
         else bindE (run_callback context m) (\<lambda>m.
              bindE (exception_name (unat (int_no context))) (\<lambda>name.
              bindE (kprintf (''Received exception no. %d: %s '' @ [CHR 0x0A]) [VInt (int_no context), VStr name] (m_con m)) (\<lambda>(_, con).
                Inr (m\<lparr>m_con := con, m_dev := PIC_sendEOI bus (ucast (int_no context)) (m_dev m)\<rparr>)))))"

definition interrupt_handler :: "'d bus \<Rightarrow> irq_context \<Rightarrow> 'd machine \<Rightarrow> 'd machine outcome" where
  "interrupt_handler bus context m =
     (let (spurious, d) = PIC_check_spurious bus (m_dev m); m = m\<lparr>m_dev := d\<rparr>
      in if spurious \<noteq> 0 then Inr m
         else bindE (kprintf (''Received interrupt %d '' @ [CHR 0x0A]) [VInt (int_no context - 32)] (m_con m)) (\<lambda>(_, con).
              bindE (run_callback context (m\<lparr>m_con := con\<rparr>)) (\<lambda>m.
                Inr (m\<lparr>m_dev := PIC_sendEOI bus (ucast (int_no context)) (m_dev m)\<rparr>))))"

section \<open>Start-up\<close>

text \<open>Link-time addresses.\<close>

record arch_links =
  lk_gdt_entries :: u32
  lk_gdt :: u32
  lk_tss :: u32
  lk_kstack_top :: vaddr_t
  lk_idt_entries :: u32
  lk_idt :: u32
  lk_handler :: "nat \<Rightarrow> u32"
  lk_sysenter_stub :: u32

definition I386_SYSENTER_CS :: u32 where "I386_SYSENTER_CS = 0x174"
definition I386_SYSENTER_ESP :: u32 where "I386_SYSENTER_ESP = 0x175"
definition I386_SYSENTER_EIP :: u32 where "I386_SYSENTER_EIP = 0x176"

definition msr_write :: "u32 \<Rightarrow> u64 \<Rightarrow> 'd machine \<Rightarrow> 'd machine" where
  "msr_write reg val m = m\<lparr>m_msr := (m_msr m)(reg := val)\<rparr>"

definition arch_init :: "'d bus \<Rightarrow> arch_links \<Rightarrow> 'd machine \<Rightarrow> 'd machine" where
  "arch_init bus lk m =
     (let m = m\<lparr>m_gdt := init_gdt (lk_gdt_entries lk) (lk_gdt lk) (lk_tss lk) (lk_kstack_top lk) (m_gdt m)\<rparr>;
          m = m\<lparr>m_dev := PIC_init bus (m_dev m)\<rparr>;
          m = m\<lparr>m_idt := init_idt (lk_idt_entries lk) (lk_idt lk) (lk_handler lk) (m_idt m)\<rparr>;
          m = register_interrupt_callback 0xe Page_fault_handler m;
          m = msr_write I386_SYSENTER_CS 0x8 m;
          m = msr_write I386_SYSENTER_EIP (ucast (lk_sysenter_stub lk)) m
      in msr_write I386_SYSENTER_ESP (ucast (tss_sp0 (gdt_tss (m_gdt m)))) m)"

section \<open>Controllers\<close>

lemma read_irr:
  assumes "pic_on_bus bus mst slv"
  shows "\<exists>e. PIC_read_IRR bus d = (push_bit 8 (ucast (irr (slv d))) OR ucast (irr (mst d)), e)
    \<and> mst e = (mst d)\<lparr>sel_isr := False\<rparr> \<and> slv e = (slv d)\<lparr>sel_isr := False\<rparr>"
  unfolding PIC_read_IRR_def pic_read_register_def
  by (auto simp: Let_def split_beta bus_simps [OF assms] PIC_READ_IRR_def i8259_cmd_def i8259_status_def bit_simps)

lemma irr_bits:
  fixes m s :: u8
  shows "(push_bit 8 (ucast s) OR ucast m :: u16) AND push_bit 7 1 \<noteq> 0 \<longleftrightarrow> bit m 7"
    "(push_bit 8 (ucast s) OR ucast m :: u16) AND push_bit 15 1 \<noteq> 0 \<longleftrightarrow> bit s 7"
proof -
  have b: "w AND push_bit n 1 \<noteq> 0 \<longleftrightarrow> bit w n" for w :: u16 and n :: nat
    using and_exp_eq_0_iff_not_bit [of w n] by (simp add: push_bit_eq_mult)
  show "(push_bit 8 (ucast s) OR ucast m :: u16) AND push_bit 7 1 \<noteq> 0 \<longleftrightarrow> bit m 7"
    "(push_bit 8 (ucast s) OR ucast m :: u16) AND push_bit 15 1 \<noteq> 0 \<longleftrightarrow> bit s 7"
    unfolding b by (auto simp: bit_simps dest: bit_imp_le_length)
qed

lemma check_spurious:
  assumes bus: "pic_on_bus bus mst slv"
  shows "\<exists>e. PIC_check_spurious bus d = (if bit (irr (mst d)) 7 \<or> bit (irr (slv d)) 7 then 1 else 0, e)
    \<and> slv e = (slv d)\<lparr>sel_isr := False\<rparr>
    \<and> mst e = (if \<not> bit (irr (mst d)) 7 \<and> bit (irr (slv d)) 7
        then (mst d)\<lparr>sel_isr := False, isr := eoi (isr (mst d))\<rparr> else (mst d)\<lparr>sel_isr := False\<rparr>)"
proof -
  obtain e where e: "PIC_read_IRR bus d = (push_bit 8 (ucast (irr (slv d))) OR ucast (irr (mst d)), e)"
    "mst e = (mst d)\<lparr>sel_isr := False\<rparr>" "slv e = (slv d)\<lparr>sel_isr := False\<rparr>"
    using read_irr [OF bus] by blast
  show ?thesis
    unfolding PIC_check_spurious_def e(1) Let_def prod.case irr_bits
    using e(2,3) by (auto simp: bus_simps [OF bus] PIC_EOI_def i8259_cmd_def bit_simps)
qed

lemma send_eoi:
  assumes "pic_on_bus bus mst slv"
  shows "mst (PIC_sendEOI bus n d) = (mst d)\<lparr>isr := eoi (isr (mst d))\<rparr>"
    "slv (PIC_sendEOI bus n d) = (if 40 \<le> n then (slv d)\<lparr>isr := eoi (isr (slv d))\<rparr> else slv d)"
  by (simp_all add: PIC_sendEOI_def Let_def bus_simps [OF assms] PIC_EOI_def SLAVE_IRQNUM_BEGIN_def i8259_cmd_def bit_simps)

section \<open>Time\<close>

definition total_ns :: "timespec \<Rightarrow> nat" where
  "total_ns tv = unat (tv_sec tv) * 1000000000 + unat (tv_nsec tv)"

lemma carry_nsec_total:
  assumes t: "unat t = unat (tv_nsec tv) + n" and a: "unat (tv_nsec tv) \<le> 1000000000" "n \<le> 1000000000" "unat (tv_sec tv) < 2 ^ 64 - 1"
  shows "total_ns (carry_nsec tv t) = total_ns tv + n" "unat (tv_nsec (carry_nsec tv t)) \<le> 1000000000"
    "unat (tv_sec (carry_nsec tv t)) \<le> unat (tv_sec tv) + 1"
proof -
  have u: "unat (ucast x :: u32) = unat x" if "unat x \<le> 1000000000" for x :: u64
    using that by (simp add: unsigned_ucast_eq take_bit_nat_eq_self)
  have s1: "unat (tv_sec tv + 1) = unat (tv_sec tv) + 1" using a(3) by (simp add: unat_word_ariths)
  have "total_ns (carry_nsec tv t) = total_ns tv + n \<and> unat (tv_nsec (carry_nsec tv t)) \<le> 1000000000
    \<and> unat (tv_sec (carry_nsec tv t)) \<le> unat (tv_sec tv) + 1"
  proof (cases "t > 1000000000")
    case True
    then have "unat (t - 1000000000) = unat t - 1000000000" by (simp add: unat_sub word_less_nat_alt word_le_nat_alt)
    then have "unat (t - 1000000000) = unat (tv_nsec tv) + n - 1000000000" "1000000000 < unat (tv_nsec tv) + n"
      using t True by (simp_all add: word_less_nat_alt)
    moreover from this have "unat (ucast (t - 1000000000) :: u32) = unat (tv_nsec tv) + n - 1000000000"
      using u [of "t - 1000000000"] a(1,2) by simp
    ultimately show ?thesis using True a(1,2) s1 by (simp add: carry_nsec_def total_ns_def)
  next
    case False
    then have "unat t \<le> 1000000000" by (simp add: word_less_nat_alt)
    then show ?thesis using False t u [of t] by (simp add: carry_nsec_def total_ns_def)
  qed
  then show "total_ns (carry_nsec tv t) = total_ns tv + n" "unat (tv_nsec (carry_nsec tv t)) \<le> 1000000000"
    "unat (tv_sec (carry_nsec tv t)) \<le> unat (tv_sec tv) + 1" by simp_all
qed

section \<open>One timer interrupt\<close>

lemma kprintf_interrupt: "\<exists>k con'. kprintf (''Received interrupt %d '' @ [CHR 0x0A]) [VInt n] con = Inr (k, con')"
proof -
  let ?ts = "map Lit ''Received interrupt '' @ [Dec n] @ map Lit ('' '' @ [CHR 0x0A])"
  have "vsprintf_loop (concat (map tok_fmt ?ts)) (concat (map tok_arg ?ts) @ []) (CHR '' '') 0 KPRINT_BUFF_LEN 0 [] =
      Inr ([] @ toks_text (CHR '' '', 0) ?ts, 0 + of_nat (sum_list (map tok_count ?ts)))"
    by (rule vsprintf_toks) (simp_all add: KPRINT_BUFF_LEN_def)
  then show ?thesis
    using dec_text_length [of n] by (simp add: kprintf_def vsprintf_s_def KPRINT_BUFF_LEN_def)
qed

text \<open>The machine waits for timer interrupts: the dispatcher leads to the clock and from there to the
  scheduler, neither controller has a request on its last line, and the clock is within its range.\<close>

definition timer_ready :: "('d \<Rightarrow> i8259) \<Rightarrow> ('d \<Rightarrow> i8259) \<Rightarrow> (irq_context \<Rightarrow> kstate \<Rightarrow> kstate outcome) \<Rightarrow> 'd machine \<Rightarrow> bool" where
  "timer_ready mst slv cb m \<longleftrightarrow> \<not> bit (irr (mst (m_dev m))) 7 \<and> \<not> bit (irr (slv (m_dev m))) 7
     \<and> m_callback m ! 32 = Some Hwclock_irq_handler \<and> m_current_callback m = Some cb
     \<and> unat (m_ctr_val m) * 838 \<le> 1000000000 \<and> unat (tv_nsec (m_clock m)) \<le> 1000000000"

lemma timer_interrupt:
  assumes bus: "pic_on_bus bus mst slv" and r: "timer_ready mst slv cb m" and n: "int_no ctx = 32"
    and k: "cb ctx (m_kst m) = Inr k'" and sec: "unat (tv_sec (m_clock m)) < 2 ^ 64 - 1"
  shows "\<exists>m'. interrupt_handler bus ctx m = Inr m' \<and> timer_ready mst slv cb m' \<and> m_kst m' = k'
    \<and> total_ns (m_clock m') = total_ns (m_clock m) + unat (m_ctr_val m) * 838 \<and> m_ctr_val m' = m_ctr_val m
    \<and> unat (tv_sec (m_clock m')) \<le> unat (tv_sec (m_clock m)) + 1
    \<and> isr (mst (m_dev m')) = eoi (isr (mst (m_dev m))) \<and> isr (slv (m_dev m')) = isr (slv (m_dev m))"
proof -
  note R = r [unfolded timer_ready_def]
  obtain e where e: "PIC_check_spurious bus (m_dev m) = (0, e)" "mst e = (mst (m_dev m))\<lparr>sel_isr := False\<rparr>"
    "slv e = (slv (m_dev m))\<lparr>sel_isr := False\<rparr>"
    using check_spurious [OF bus, of "m_dev m"] R by auto
  obtain j con' where pr: "kprintf (''Received interrupt %d '' @ [CHR 0x0A]) [VInt (int_no ctx - 32)] (m_con m) = Inr (j, con')"
    using kprintf_interrupt by blast
  let ?t = "tv_nsec (m_clock m) + m_ctr_val m * PIT_NSEC_PER_TICK" and ?n = "unat (m_ctr_val m) * 838"
  have "unat (m_ctr_val m * PIT_NSEC_PER_TICK) = ?n"
    using R by (subst unat_mult_lem [THEN iffD1]) (simp_all add: PIT_NSEC_PER_TICK_def)
  then have "unat ?t = unat (tv_nsec (m_clock m)) + ?n"
    using R by (subst unat_add_lem [THEN iffD1]) simp_all
  then have n8: "unat (ucast ?t :: u64) = unat (tv_nsec (m_clock m)) + ?n"
    using R by (simp add: unsigned_ucast_eq take_bit_nat_eq_self)
  define m' where "m' = m\<lparr>m_dev := PIC_sendEOI bus 32 e, m_con := con', m_clock := carry_nsec (m_clock m) (ucast ?t), m_kst := k'\<rparr>"
  have "interrupt_handler bus ctx m = Inr m'"
    using e(1) pr R n k by (simp add: interrupt_handler_def run_callback_def call_irq_def hwclock_irq_handler_def NO_INTERRUPTS_def Let_def m'_def)
  then show ?thesis
    using R e carry_nsec_total [OF n8] sec send_eoi [OF bus, of 32 e]
    by (intro exI [of _ m']) (simp add: m'_def timer_ready_def)
qed

fun interrupts :: "'d bus \<Rightarrow> irq_context list \<Rightarrow> 'd machine \<Rightarrow> 'd machine outcome" where
  "interrupts bus [] m = Inr m"
| "interrupts bus (c # cs) m = bindE (interrupt_handler bus c m) (interrupts bus cs)"

text \<open>
  The same with the hardware's part of each interrupt written out: before the handler runs, the
  processor acknowledges the interrupt to the controllers (\<open>inta\<close>). For the timer this moves its
  request at the master, line 0, into service; the line is blocked until an end of interrupt.
\<close>

fun served :: "'d bus \<Rightarrow> ('d \<Rightarrow> 'd) \<Rightarrow> irq_context list \<Rightarrow> 'd machine \<Rightarrow> 'd machine outcome" where
  "served bus inta [] m = Inr m"
| "served bus inta (c # cs) m = bindE (interrupt_handler bus c (m\<lparr>m_dev := inta (m_dev m)\<rparr>)) (served bus inta cs)"

definition timer_inta :: "('d \<Rightarrow> i8259) \<Rightarrow> ('d \<Rightarrow> i8259) \<Rightarrow> ('d \<Rightarrow> 'd) \<Rightarrow> bool" where
  "timer_inta mst slv inta \<longleftrightarrow> (\<forall>d. mst (inta d) = (mst d)\<lparr>irr := unset_bit 0 (irr (mst d)), isr := set_bit 0 (isr (mst d))\<rparr>
     \<and> slv (inta d) = slv d)"

lemma interrupts_served: "interrupts bus cs m = served bus (\<lambda>d. d) cs m"
  by (induction cs arbitrary: m) (auto intro: arg_cong2 [where f = bindE])

lemma eoi_simps [simp]: "eoi 0 = 0" "eoi 1 = 0"
proof -
  have "filter (bit (1 :: u8)) [0..<8] = [0]" by (simp add: upt_rec bit_simps)
  moreover have "unset_bit 0 (1 :: u8) = 0" by (intro bit_word_eqI) (auto simp: bit_simps)
  ultimately show "eoi 1 = 0" by (simp add: eoi_def)
qed (simp add: eoi_def)

lemma timer_interrupts_served:
  assumes bus: "pic_on_bus bus mst slv" and slv: "\<And>d. slv (inta d) = slv d"
    and req: "\<And>d. bit (irr (mst (inta d))) 7 = bit (irr (mst d)) 7"
    and ack: "\<And>d. isr (mst d) = 0 \<Longrightarrow> eoi (isr (mst (inta d))) = 0"
  shows "timer_ready mst slv (rr_tick_handler debug) m \<Longrightarrow> \<forall>c \<in> set cs. int_no c = 32 \<Longrightarrow>
    rr_ticks debug cs (m_kst m) = Inr k' \<Longrightarrow> unat (tv_sec (m_clock m)) + length cs < 2 ^ 64 \<Longrightarrow>
    \<exists>m'. served bus inta cs m = Inr m' \<and> m_kst m' = k'
      \<and> total_ns (m_clock m') = total_ns (m_clock m) + length cs * (unat (m_ctr_val m) * 838)
      \<and> unat (tv_nsec (m_clock m')) \<le> 1000000000
      \<and> (isr (mst (m_dev m)) = 0 \<longrightarrow> isr (mst (m_dev m')) = 0) \<and> isr (slv (m_dev m')) = isr (slv (m_dev m))"
proof (induction cs arbitrary: m)
  case Nil
  then show ?case by (simp add: timer_ready_def)
next
  case (Cons c cs)
  let ?m = "m\<lparr>m_dev := inta (m_dev m)\<rparr>"
  obtain k1 where k1: "rr_tick_handler debug c (m_kst ?m) = Inr k1" "rr_ticks debug cs k1 = Inr k'"
    using Cons.prems(3) by (auto simp: bindE_Inr_iff)
  have c: "int_no c = 32" using Cons.prems(2) by simp
  have r: "timer_ready mst slv (rr_tick_handler debug) ?m" using Cons.prems(1) slv req by (simp add: timer_ready_def)
  obtain m1 where m1: "interrupt_handler bus c ?m = Inr m1" "timer_ready mst slv (rr_tick_handler debug) m1" "m_kst m1 = k1"
    "total_ns (m_clock m1) = total_ns (m_clock m) + unat (m_ctr_val m) * 838" "m_ctr_val m1 = m_ctr_val m"
    "unat (tv_sec (m_clock m1)) \<le> unat (tv_sec (m_clock m)) + 1"
    "isr (mst (m_dev m1)) = eoi (isr (mst (inta (m_dev m))))" "isr (slv (m_dev m1)) = isr (slv (m_dev m))"
    using timer_interrupt [OF bus r c k1(1)] Cons.prems(4) slv by auto
  show ?case using Cons.IH [OF m1(2)] Cons.prems(2,4) k1(2) m1 ack [of "m_dev m"] by auto
qed

lemma timer_interrupts:
  assumes bus: "pic_on_bus bus mst slv"
  shows "timer_ready mst slv (rr_tick_handler debug) m \<Longrightarrow> \<forall>c \<in> set cs. int_no c = 32 \<Longrightarrow>
    rr_ticks debug cs (m_kst m) = Inr k' \<Longrightarrow> unat (tv_sec (m_clock m)) + length cs < 2 ^ 64 \<Longrightarrow>
    \<exists>m'. interrupts bus cs m = Inr m' \<and> m_kst m' = k'
      \<and> total_ns (m_clock m') = total_ns (m_clock m) + length cs * (unat (m_ctr_val m) * 838)
      \<and> unat (tv_nsec (m_clock m')) \<le> 1000000000"
  using timer_interrupts_served [OF bus, of "\<lambda>d. d"] unfolding interrupts_served by fastforce

section \<open>Starting the clock\<close>

lemma pit_ports:
  assumes "pic_on_bus bus mst slv"
  shows "mst (outb bus PIT_CMD v d) = mst d" "slv (outb bus PIT_CMD v d) = slv d"
    "mst (outb bus PIT_DATA_CHANNEL0 v d) = mst d" "slv (outb bus PIT_DATA_CHANNEL0 v d) = slv d"
  using assms by (simp_all add: pic_on_bus_def outb_def PIT_CMD_def PIT_DATA_CHANNEL0_def)

lemma PIC_keeps_irr:
  assumes "pic_on_bus bus mst slv"
  shows "irr (mst (PIC_init bus d)) = irr (mst d)" "irr (slv (PIC_init bus d)) = irr (slv d)"
    "isr (mst (PIC_init bus d)) = 0" "isr (slv (PIC_init bus d)) = 0"
    "PIC_unmask_irq bus 32 d = Inr d' \<Longrightarrow> irr (mst d') = irr (mst d) \<and> irr (slv d') = irr (slv d)
       \<and> isr (mst d') = isr (mst d) \<and> isr (slv d') = isr (slv d)"
proof -
  have data: "irr (i8259_data v c) = irr c" "irr (i8259_cmd v c) = irr c" "isr (i8259_data v c) = isr c" for v c
    by (simp_all add: i8259_data_def i8259_cmd_def)
  then show "irr (mst (PIC_init bus d)) = irr (mst d)" "irr (slv (PIC_init bus d)) = irr (slv d)"
    "isr (mst (PIC_init bus d)) = 0" "isr (slv (PIC_init bus d)) = 0"
    by (simp_all add: PIC_init_def Let_def bus_simps [OF assms])
      (simp_all add: i8259_cmd_def ICW1_INIT_def ICW1_ICW4_def bit_simps)
  show "PIC_unmask_irq bus 32 d = Inr d' \<Longrightarrow> irr (mst d') = irr (mst d) \<and> irr (slv d') = irr (slv d)
       \<and> isr (mst d') = isr (mst d) \<and> isr (slv d') = isr (slv d)"
    using pic_line_master [of 32] by (auto simp: PIC_unmask_irq_def Let_def split_beta bus_simps [OF assms] data)
qed

lemma arch_init_simps [simp]:
  "m_callback (arch_init bus lk m) = (m_callback m)[14 := Some Page_fault_handler]"
  "m_dev (arch_init bus lk m) = PIC_init bus (m_dev m)" "m_kst (arch_init bus lk m) = m_kst m"
  "m_clock (arch_init bus lk m) = m_clock m" "m_con (arch_init bus lk m) = m_con m"
  by (simp_all add: arch_init_def Let_def register_interrupt_callback_def msr_write_def)

lemma start_clock:
  assumes bus: "pic_on_bus bus mst slv" and cb: "length (m_callback m) = 256"
    and irr: "\<not> bit (irr (mst (m_dev m))) 7" "\<not> bit (irr (slv (m_dev m))) 7" and ns: "unat (tv_nsec (m_clock m)) \<le> 1000000000"
  shows "\<exists>m1. ktime_init bus (Some tick) (arch_init bus lk m) = Inr m1 \<and> timer_ready mst slv tick m1
    \<and> lines (mst (m_dev m1)) (slv (m_dev m1)) = {0, 2} \<and> m_kst m1 = m_kst m \<and> m_clock m1 = m_clock m \<and> m_ctr_val m1 = 11931
    \<and> m_callback m1 = (m_callback m)[14 := Some Page_fault_handler, 32 := Some Hwclock_irq_handler]
    \<and> isr (mst (m_dev m1)) = 0 \<and> isr (slv (m_dev m1)) = 0"
proof -
  let ?d = "outb bus PIT_DATA_CHANNEL0 46 (outb bus PIT_DATA_CHANNEL0 155 (outb bus PIT_CMD PIT_REPEAT_MODE (PIC_init bus (m_dev m))))"
  have d: "mst ?d = mst (PIC_init bus (m_dev m))" "slv ?d = slv (PIC_init bus (m_dev m))" by (simp_all add: pit_ports [OF bus])
  obtain d' where d': "PIC_unmask_irq bus 32 ?d = Inr d'" "pic_ready (mst d') (slv d')" "lines (mst d') (slv d') = {0, 2}"
    using pic_switch_ok [OF bus, of ?d 32 True] PIC_init_ready [OF bus, of "m_dev m"] d
    by (auto simp: pic_switch_def switch_line_def)
  have i: "irr (mst d') = irr (mst (m_dev m))" "irr (slv d') = irr (slv (m_dev m))" "isr (mst d') = 0" "isr (slv d') = 0"
    using PIC_keeps_irr(5) [OF bus d'(1)] PIC_keeps_irr(1-4) [OF bus] d by simp_all
  define m1 where "m1 = (arch_init bus lk m)\<lparr>m_callback := (m_callback m)[14 := Some Page_fault_handler, 32 := Some Hwclock_irq_handler],
    m_current_callback := Some tick, m_freq_hz := 100, m_ctr_val := 11931, m_dev := d'\<rparr>"
  have "ktime_init bus (Some tick) (arch_init bus lk m) = Inr m1"
    using d'(1) by (simp add: ktime_init_def hwclock_def hwclock_register_callback_def hwclock_init_def
        register_interrupt_callback_def CONF_SCHED_TICK_FREQ_HZ_def PIT_FREQ_def IRQ0_def Let_def m1_def drop_bit_eq_div)
  moreover have "timer_ready mst slv tick m1" using i irr cb ns by (simp add: timer_ready_def m1_def)
  ultimately show ?thesis using d'(3) i by (auto simp: m1_def)
qed

section \<open>Properties\<close>

text \<open>C12: from start-up to scheduling: after \<^verbatim>\<open>arch_init\<close> and \<^verbatim>\<open>ktime_init\<close> with the scheduler's handler, exactly the
  timer line and the cascade line are enabled and nothing is in service; then any sequence of timer
  interrupts, each put into service by the processor's acknowledge cycle, runs the
  handler chain from the dispatcher through the clock to the scheduler without a fault: the
  scheduler takes exactly one tick for each, its queues stay well-formed and keep their threads, the
  clock advances by 9998178 nanoseconds for each, with the seconds carried, and afterwards no line is
  in service, so each of them has been ended and the next one can be delivered.\<close>

theorem timer_interrupts_run:
  assumes "pic_on_bus bus mst slv" "timer_inta mst slv inta" "length (m_callback m) = 256"
    and "\<not> bit (irr (mst (m_dev m))) 7" "\<not> bit (irr (slv (m_dev m))) 7" "unat (tv_nsec (m_clock m)) \<le> 1000000000"
    and "sched_rel (m_kst m) (qs, r)" "\<forall>c \<in> set cs. int_no c = 32" "unat (tv_sec (m_clock m)) + length cs < 2 ^ 64"
  shows "\<exists>m1 m'. ktime_init bus (sp_interrupt_handler (sched_rr debug)) (arch_init bus lk m) = Inr m1
    \<and> lines (mst (m_dev m1)) (slv (m_dev m1)) = {0, 2} \<and> isr (mst (m_dev m1)) = 0 \<and> isr (slv (m_dev m1)) = 0
    \<and> served bus inta cs m1 = Inr m' \<and> rr_ticks debug cs (m_kst m) = Inr (m_kst m')
    \<and> (\<exists>qs' r'. sched_rel (m_kst m') (qs', r') \<and> add_mset r' (mset (concat qs')) = add_mset r (mset (concat qs)))
    \<and> total_ns (m_clock m') = total_ns (m_clock m) + length cs * 9998178 \<and> unat (tv_nsec (m_clock m')) \<le> 1000000000
    \<and> isr (mst (m_dev m')) = 0 \<and> isr (slv (m_dev m')) = 0"
proof -
  obtain k' a' where k: "rr_ticks debug cs (m_kst m) = Inr k'" "sched_rel k' a'" "all_threads a' = all_threads (qs, r)"
    using rr.ticks_keep [OF assms(7)] by blast
  obtain m1 where m1: "ktime_init bus (Some (rr_tick_handler debug)) (arch_init bus lk m) = Inr m1"
    "timer_ready mst slv (rr_tick_handler debug) m1" "lines (mst (m_dev m1)) (slv (m_dev m1)) = {0, 2}"
    "m_kst m1 = m_kst m" "m_clock m1 = m_clock m" "m_ctr_val m1 = 11931" "isr (mst (m_dev m1)) = 0" "isr (slv (m_dev m1)) = 0"
    using start_clock [OF assms(1,3-6), of "rr_tick_handler debug" lk] by blast
  have ia: "slv (inta d) = slv d" "bit (irr (mst (inta d))) 7 = bit (irr (mst d)) 7"
    "isr (mst d) = 0 \<Longrightarrow> eoi (isr (mst (inta d))) = 0" for d
    using assms(2) by (simp_all add: timer_inta_def bit_simps set_bit_eq)
  obtain m' where m': "served bus inta cs m1 = Inr m'" "m_kst m' = k'"
    "total_ns (m_clock m') = total_ns (m_clock m) + length cs * 9998178" "unat (tv_nsec (m_clock m')) \<le> 1000000000"
    "isr (mst (m_dev m')) = 0" "isr (slv (m_dev m')) = 0"
    using timer_interrupts_served [OF assms(1) ia m1(2) assms(8), of k'] k(1) m1(4-8) assms(9) by auto
  have "\<exists>qs' r'. sched_rel k' (qs', r') \<and> add_mset r' (mset (concat qs')) = add_mset r (mset (concat qs))"
    using k(2,3) by (cases a') auto
  then show ?thesis using m1(1,3,7,8) m' k(1) by (auto simp: sched_rr_def)
qed

definition sample_machine :: "(i8259 \<times> i8259) machine" where
  "sample_machine = \<lparr>m_dev = (i8259_reset, i8259_reset), m_con = blank_console, m_kst = two_running 0,
     m_callback = replicate 256 None, m_current_callback = None, m_freq_hz = 0, m_ctr_val = 0,
     m_clock = \<lparr>tv_sec = 0, tv_nsec = 0\<rparr>,
     m_gdt = \<lparr>gdt_entries = replicate 6 (mk_segment 0 0 0 0), gdt = \<lparr>tbl_limit = 0, tbl_base = 0\<rparr>, gdt_tss = zero_tss, gdtr = 0, task_loaded = False\<rparr>,
     m_idt = \<lparr>idt_entries = replicate 256 (mk_gate 0 0 0), idt = \<lparr>tbl_limit = 0, tbl_base = 0\<rparr>, idtr = 0\<rparr>, m_msr = (\<lambda>_. 0), m_cr2 = 0\<rparr>"

definition sample_links :: arch_links where
  "sample_links = \<lparr>lk_gdt_entries = 0xC0110000, lk_gdt = 0xC0111000, lk_tss = 0xC0112000, lk_kstack_top = 0xC0120000,
     lk_idt_entries = 0xC0113000, lk_idt = 0xC0114000, lk_handler = (\<lambda>n. 0xC0100000 + 16 * of_nat n), lk_sysenter_stub = 0xC0105000\<rparr>"

definition pc_inta :: "i8259 \<times> i8259 \<Rightarrow> i8259 \<times> i8259" where
  "pc_inta = (\<lambda>(m, s). (m\<lparr>irr := unset_bit 0 (irr m), isr := set_bit 0 (isr m)\<rparr>, s))"

theorem timer_interrupts_run_witness:
  "\<exists>m1 m'. ktime_init pc_bus (sp_interrupt_handler (sched_rr False)) (arch_init pc_bus sample_links sample_machine) = Inr m1
    \<and> served pc_bus pc_inta (replicate 3 zero_irq) m1 = Inr m' \<and> total_ns (m_clock m') = 29994534 \<and> isr (fst (m_dev m')) = 0"
proof -
  have "timer_inta fst snd pc_inta" by (auto simp: timer_inta_def pc_inta_def)
  from timer_interrupts_run [OF pc_bus_ok this, of sample_machine two_queues "0x1000" "replicate 3 zero_irq" False sample_links]
  show ?thesis using two_running_rel [of 0] by (auto simp: sample_machine_def i8259_reset_def zero_irq_def total_ns_def)
qed

text \<open>C38: the test for spurious interrupts looks at the request registers, not at the in-service ones: while
  a device on the last line of either controller has a request pending, every interrupt and every
  exception is taken for spurious: no callback runs and nothing is printed. When it is the
  master's line, no end of interrupt is sent, so the line being served stays blocked. When it is only the
  slave's, one is sent to the master, whichever of its lines is in service, and none to the slave.\<close>

theorem pending_line_drops_interrupts:
  assumes "pic_on_bus bus mst slv" "bit (irr (mst (m_dev m))) 7 \<or> bit (irr (slv (m_dev m))) 7"
  shows "\<exists>d. interrupt_handler bus ctx m = Inr (m\<lparr>m_dev := d\<rparr>) \<and> exception_handler bus ctx m = Inr (m\<lparr>m_dev := d\<rparr>)
    \<and> isr (slv d) = isr (slv (m_dev m))
    \<and> isr (mst d) = (if bit (irr (mst (m_dev m))) 7 then isr (mst (m_dev m)) else eoi (isr (mst (m_dev m))))"
proof -
  obtain e where e: "PIC_check_spurious bus (m_dev m) = (1, e)" "isr (slv e) = isr (slv (m_dev m))"
    "isr (mst e) = (if bit (irr (mst (m_dev m))) 7 then isr (mst (m_dev m)) else eoi (isr (mst (m_dev m))))"
    using check_spurious [OF assms(1), of "m_dev m"] assms(2) by (auto split: if_splits)
  then show ?thesis by (intro exI [of _ e]) (simp add: interrupt_handler_def exception_handler_def Let_def)
qed

theorem pending_line_drops_interrupts_witness:
  "(\<exists>d. interrupt_handler pc_bus zero_irq (sample_machine\<lparr>m_dev := (i8259_reset\<lparr>irr := 0x80, isr := 1\<rparr>, i8259_reset)\<rparr>) =
       Inr (sample_machine\<lparr>m_dev := d\<rparr>) \<and> isr (fst d) = 1)
   \<and> (\<exists>d. interrupt_handler pc_bus zero_irq (sample_machine\<lparr>m_dev := (i8259_reset\<lparr>isr := 1\<rparr>, i8259_reset\<lparr>irr := 0x80\<rparr>)\<rparr>) =
       Inr (sample_machine\<lparr>m_dev := d\<rparr>) \<and> isr (fst d) = 0)"
  using pending_line_drops_interrupts [OF pc_bus_ok, of "sample_machine\<lparr>m_dev := (i8259_reset\<lparr>irr := 0x80, isr := 1\<rparr>, i8259_reset)\<rparr>" zero_irq]
    pending_line_drops_interrupts [OF pc_bus_ok, of "sample_machine\<lparr>m_dev := (i8259_reset\<lparr>isr := 1\<rparr>, i8259_reset\<lparr>irr := 0x80\<rparr>)\<rparr>" zero_irq]
  by (auto simp: bit_numeral_rec i8259_reset_def)

end
