(* ===== verification/Boot.thy ===== *)
theory Boot
  imports Kmem Elf Interrupt
begin

text \<open>
  Bringing the system up, \<^verbatim>\<open>kern/main.c\<close>: \<^verbatim>\<open>bootstrap\<close> initialises the console and the kernel's memory,
  loads every boot module into an address space of its own with one thread, starts interrupts,
  scheduler and timer, and leaves to the first user thread. The static arrays of processes and
  threads are given by their addresses. Physical memory is accessed directly wherever the code
  uses an address it has mapped to itself.
\<close>

section \<open>Definitions\<close>

definition CONF_MAX_BOOT_MODULES :: u32 where "CONF_MAX_BOOT_MODULES = 8"

record boot_links =
  bl_boot_processes :: u32
  bl_boot_threads :: u32
  bl_kstack_top :: vaddr_t

record boot_state =
  bs_km :: kmem
  bs_kst :: kstate

definition boot_proc :: "boot_links \<Rightarrow> nat \<Rightarrow> u32" where
  "boot_proc bl i = bl_boot_processes bl + of_nat i * PROC_SIZE"

definition boot_thread :: "boot_links \<Rightarrow> nat \<Rightarrow> u32" where
  "boot_thread bl i = bl_boot_threads bl + of_nat i * TCB_SIZE"

definition name_text :: "u8 list \<Rightarrow> string" where
  "name_text bs = map (\<lambda>b. char_of (unat b)) (takeWhile (\<lambda>b. b \<noteq> 0) bs)"

text \<open>The address space of a module: a page directory of its own that starts as a copy of the boot directory.\<close>

definition module_pagedir :: "bool \<Rightarrow> ktables \<Rightarrow> pgstate \<Rightarrow> (paddr_t \<times> pgstate) outcome" where
  "module_pagedir debug kt pg =
     bindE (bootstrap_create_page_dir debug pg) (\<lambda>(pd_addr, pg).
       if pd_addr = 0 then Inl (Panic ''Unable to create page directory for module'')
       else let m = memset (pmem pg) pd_addr 0 4096;
                m = memcpy m pd_addr (kphys pg (kt_boot_page_directory kt)) 4096
            in Inr (pd_addr, pg\<lparr>pmem := m, pd_reg := pd_addr\<rparr>))"

text \<open>The process and its thread, once the image is loaded.\<close>

definition module_process :: "u32 \<Rightarrow> u32 \<Rightarrow> pid_t \<Rightarrow> paddr_t \<Rightarrow> vaddr_t \<Rightarrow> vaddr_t \<Rightarrow> vaddr_t \<Rightarrow> kstate \<Rightarrow> kstate" where
  "module_process proc thread pid pd_addr entrypoint stack_top kstack_top s =
     (let s = s\<lparr>procs := (procs s)(proc := (procs s proc)
            \<lparr>page_dir := pd_addr, proc_priority := 0, proc_id := pid, threads := thread, thread_count := 1\<rparr>)\<rparr>;
          s = upd_tcb thread (\<lambda>t. t\<lparr>tcb_proc := proc, sched_ctx := (sched_ctx t)\<lparr>priority := 0\<rparr>, tcb_id := 0\<rparr>) s
      in native_create_thread thread entrypoint stack_top kstack_top s)"

definition load_failed :: "u32 \<Rightarrow> string \<Rightarrow> ElfError \<Rightarrow> console \<Rightarrow> 'a outcome" where
  "load_failed line name err con =
     bindE (klog ''ERR'' ''kern/main.c'' line ''Failed to load module %s: %s'' [VStr (Some name), VStr (Some (elf_strerror err))] con)
       (\<lambda>_. Inl (Panic ''Unable to load boot modules!''))"

definition load_boot_module ::
  "bool \<Rightarrow> ktables \<Rightarrow> boot_links \<Rightarrow> nat \<Rightarrow> pid_t \<Rightarrow> exec_info \<Rightarrow> boot_state \<Rightarrow> (exec_info \<times> boot_state) outcome" where
  "load_boot_module debug kt bl i pid info s =
     (let km = bs_km s; mods = modules (kn_info km); name = name_text (mod_name (mods ! i))
      in if length mods \<le> i then Inl Out_Of_Bounds
         else bindE (module_pagedir debug kt (kn_pg km)) (\<lambda>(pd_addr, pg).
           let info = info\<lparr>ei_page_directory := pd_addr\<rparr>
           in bindE (klog ''INFO'' ''kern/main.c'' 70 ''Loading module %s...'' [VStr (Some name)] (kn_con km)) (\<lambda>(_, con).
                case elf_ctx_create elf_ctx_zero (start_paddr (mods ! i)) (end_paddr (mods ! i) - start_paddr (mods ! i)) (pmem pg) of
                  (err, ctx) \<Rightarrow>
                    if err \<noteq> ELF_OK then load_failed 73 name err con
                    else bindE (elf_ctx_load ctx (Some info) pg) (\<lambda>(err, info', pg).
                      if err \<noteq> ELF_OK then load_failed 78 name err con
                      else let info = the info'
                           in Inr (info, s\<lparr>bs_km := km\<lparr>kn_pg := pg, kn_con := con\<rparr>,
                                bs_kst := module_process (boot_proc bl i) (boot_thread bl i) pid pd_addr
                                  (e_entry (read_hdr (pmem pg) (elf_hdr ctx))) (ei_main_thread_stack_top info) (bl_kstack_top bl) (bs_kst s)\<rparr>)))))"

fun load_modules :: "bool \<Rightarrow> ktables \<Rightarrow> boot_links \<Rightarrow> nat \<Rightarrow> nat \<Rightarrow> pid_t \<Rightarrow> exec_info \<Rightarrow> boot_state \<Rightarrow> boot_state outcome" where
  "load_modules debug kt bl 0 i pid info s = Inr s"
| "load_modules debug kt bl (Suc n) i pid info s =
     bindE (load_boot_module debug kt bl i pid info s) (\<lambda>(info, s). load_modules debug kt bl n (i + 1) (pid + 1) info s)"

definition boot_exec_info :: "bool \<Rightarrow> exec_info" where
  "boot_exec_info debug = \<lparr>ei_page_directory = 0, ei_main_thread_stack_top = 0,
     ei_mmap = Some (bootstrap_elf_mmap debug), ei_on_load = Some bootstrap_elf_on_load\<rparr>"

definition load_boot_modules :: "bool \<Rightarrow> ktables \<Rightarrow> boot_links \<Rightarrow> boot_state \<Rightarrow> boot_state outcome" where
  "load_boot_modules debug kt bl s =
     (let n = no_modules (kn_info (bs_km s))
      in bindE (ASSERT debug (n < CONF_MAX_BOOT_MODULES)) (\<lambda>_.
           load_modules debug kt bl (unat n) 0 1 (boot_exec_info debug) s))"

text \<open>
  The whole start. The first memory map of the boot information becomes the source of frames; the
  page directory register, the console and the kernel objects pass from the memory part of the
  state to the machine part when interrupts are set up.
\<close>

record 'd boot =
  bo_km :: kmem
  bo_m :: "'d machine"

definition boot_info :: "kernel_info_t \<Rightarrow> kmem \<Rightarrow> kmem" where
  "boot_info info km = km\<lparr>kn_info := info,
     kn_pg := (kn_pg km)\<lparr>mm_addr := map_addr (memmaps info ! 0), mm_len := map_len (memmaps info ! 0)\<rparr>\<rparr>"

definition boot_memory :: "bool \<Rightarrow> ktables \<Rightarrow> kmem_links \<Rightarrow> kernel_info_t \<Rightarrow> kmem \<Rightarrow> kmem outcome" where
  "boot_memory debug kt lk info km =
     (let km = boot_info info km; con = console_init (kl_console_debug lk) (kn_con km)
      in bindE (klog ''INFO'' ''kern/main.c'' 107 ''Bootstrap started'' [] con) (\<lambda>(_, con).
         bindE (klog ''INFO'' ''kern/main.c'' 108 ''Initializing kernel memory'' [] con) (\<lambda>(_, con).
         bindE (kmem_init debug kt lk (km\<lparr>kn_con := con\<rparr>)) (\<lambda>km.
         bindE (bootstrap_identity_map_init_mem debug kt (module_ranges (kn_info km)) (kn_pg km)) (\<lambda>pg.
           Inr (km\<lparr>kn_pg := pg, kn_info := (kn_info km)\<lparr>bootstrap_memory_phys_range :=
             \<lparr>range_start = boot_mem_start pg, range_end = boot_mem_end pg\<rparr>\<rparr>\<rparr>))))))"

text \<open>From the loading of the modules to the first user thread.\<close>

definition boot_tasks ::
  "bool \<Rightarrow> 'd bus \<Rightarrow> ktables \<Rightarrow> boot_links \<Rightarrow> arch_links \<Rightarrow> kmem \<Rightarrow> 'd machine \<Rightarrow> (cpu_regs \<times> 'd boot) outcome" where
  "boot_tasks debug bus kt bl al km m =
     bindE (load_boot_modules debug kt bl \<lparr>bs_km = km, bs_kst = m_kst m\<rparr>) (\<lambda>s.
       let km = kmem_init_cleanup kt (bs_km s);
           m = arch_init bus al (m\<lparr>m_con := kn_con km, m_kst := (bs_kst s)\<lparr>cr3 := pd_reg (kn_pg km)\<rparr>\<rparr>)
       in bindE (sched_init debug (Some (sched_rr debug)) (bl_boot_processes bl) (unat (no_modules (kn_info km))) (m_kst m)) (\<lambda>(_, kst).
          bindE (ktime_init bus (sp_interrupt_handler (sched_rr debug)) (m\<lparr>m_kst := kst\<rparr>)) (\<lambda>m.
            Inr (arch_return_to_user (exec_ctx (tcbs (m_kst m) (exec_ctx_owner (m_kst m)))), \<lparr>bo_km = km, bo_m = m\<rparr>))))"

definition bootstrap ::
  "bool \<Rightarrow> 'd bus \<Rightarrow> ktables \<Rightarrow> kmem_links \<Rightarrow> boot_links \<Rightarrow> arch_links \<Rightarrow> kernel_info_t \<Rightarrow> 'd boot \<Rightarrow> (cpu_regs \<times> 'd boot) outcome" where
  "bootstrap debug bus kt lk bl al info b =
     bindE (boot_memory debug kt lk info (bo_km b)) (\<lambda>km. boot_tasks debug bus kt bl al km (bo_m b))"

section \<open>Pages from a limit on\<close>

definition above :: "nat \<Rightarrow> u32 set" where
  "above lo = {q. pg_ok q \<and> lo \<le> unat q}"

lemma above_mono: "lo \<le> lo' \<Longrightarrow> above lo' \<subseteq> above lo"
  by (auto simp: above_def)

lemma only_above_trans: "only_in (above lo) m m1 \<Longrightarrow> only_in (above lo') m1 m2 \<Longrightarrow> lo \<le> lo' \<Longrightarrow> only_in (above lo) m m2"
  using only_in_trans only_in_mono above_mono by blast

lemma above_walk:
  assumes "only_in (above lim) m m'" "pd_ok m pd lim"
  shows "\<And>i. i < 1024 \<Longrightarrow> pde m' pd i = pde m pd i" "pd_ok m' pd lim" "pte_at m' pd = pte_at m pd"
    "page_walk m' pd = page_walk m pd" "\<And>q. other_page m' pd q = other_page m pd q"
proof -
  have W: "other_page m pd q" if "q \<in> above lim" for q
    using that pd_okD(2,3) [OF assms(2)] by (fastforce simp: above_def other_page_def)
  note K = only_in_walk [OF assms W]
  show "\<And>i. i < 1024 \<Longrightarrow> pde m' pd i = pde m pd i" "pd_ok m' pd lim" "pte_at m' pd = pte_at m pd"
    "page_walk m' pd = page_walk m pd" "\<And>q. other_page m' pd q = other_page m pd q" using K by auto
qed

lemma above_image:
  assumes "only_in (above lo) m m'" "pd_ok m pd lo" "image_at m pd lo a len"
  shows "image_at m' pd lo a len" "k < len \<Longrightarrow> m' (a + of_nat k) = m (a + of_nat k)"
proof -
  show "image_at m' pd lo a len" using assms(3) above_walk(5) [OF assms(1,2)] by (simp add: image_at_def)
  show "m' (a + of_nat k) = m (a + of_nat k)" if "k < len"
    using assms(3) that by (intro only_in_byte [OF assms(1)]) (auto simp: image_at_def other_page_def above_def)
qed

section \<open>The directory of a module\<close>

lemma memcpy_page:
  assumes p: "pg_ok d" "pg_ok q" "d \<noteq> q"
  shows "x < 4096 \<Longrightarrow> memcpy m d q 4096 (cell d x) = m (cell q x)" "only_in {d} m (memcpy m d q 4096)"
proof -
  obtain a b where ab: "unat d = 4096 * a" "unat q = 4096 * b" using p(1,2) by (auto simp: pg_ok_def elim!: dvdE [OF mod_0_imp_dvd])
  have "a \<noteq> b" using p(3) ab by (auto simp: word_unat_eq_iff)
  have "4096 \<le> unat (d - q)"
  proof (cases "q \<le> d")
    case True
    then have "unat (d - q) = 4096 * (a - b)" "b \<le> a" using ab by (simp_all add: unat_sub word_le_nat_alt diff_mult_distrib2)
    then show ?thesis using \<open>a \<noteq> b\<close> by simp
  next
    case False
    then have lt: "unat d < unat q" by (simp add: word_le_nat_alt)
    then have "unat (d - q) = 2 ^ 32 - (unat q - unat d)" by (simp add: unat_sub_if')
    moreover have "unat q < 4294963200" using p(2) by (simp add: pg_ok_def)
    ultimately show ?thesis using diff_le_mono2 [of "unat q - unat d" 4294963200 4294967296] by simp
  qed
  then have byte: "memcpy m d q 4096 x = (if unat (x - d) < 4096 then m (q + (x - d)) else m x)" for x
    by (intro memcpy_apply [THEN trans]) simp_all
  show "x < 4096 \<Longrightarrow> memcpy m d q 4096 (cell d x) = m (cell q x)"
    using unat_of_nat_u32 [of x] by (simp add: byte cell_def)
  have "memcpy m d q 4096 (cell r y) = m (cell r y)" if "pg_ok r" "r \<noteq> d" "y < 4096" for r y
  proof -
    have "\<not> unat (cell r y - d) < 4096"
    proof
      assume "unat (cell r y - d) < 4096"
      moreover have "cell r y = cell d (unat (cell r y - d))" by (simp add: cell_def)
      ultimately show False using cell_eq_iff [OF that(1) p(1) that(3), of "unat (cell r y - d)"] that(2) by simp
    qed
    then show ?thesis by (simp add: byte)
  qed
  then show "only_in {d} m (memcpy m d q 4096)" by (simp add: only_in_def same_page_bytes)
qed

lemma memcpy_entry:
  assumes "pg_ok d" "pg_ok q" "d \<noteq> q" "i < 1024"
  shows "entry (memcpy m d q 4096) d i = entry m q i"
proof -
  have "memcpy m d q 4096 (cell d (4 * i) + of_nat k) = m (cell q (4 * i) + of_nat k)" if "k < 4" for k
    using memcpy_page(1) [OF assms(1-3), of "4 * i + k"] that assms(4) by (simp add: cell_def add.assoc)
  from this [of 0] this [of 1] this [of 2] this [of 3] show ?thesis by (simp add: load32_def)
qed

lemma module_pagedir_ok:
  fixes pg :: pgstate and kt :: ktables
  defines "BD \<equiv> kphys pg (kt_boot_page_directory kt)" and "lo \<equiv> unat (mm_addr pg)"
  assumes ok: "pd_ok (pmem pg) BD lo" and fr: "frames pg (Suc N)"
  shows "\<exists>p pg'. module_pagedir debug kt pg = Inr (p, pg') \<and> unat p = lo \<and> pd_reg pg' = p \<and> unat (mm_addr pg') = lo + 4096
    \<and> high_vma pg' = high_vma pg \<and> frames pg' N \<and> only_in (above lo) (pmem pg) (pmem pg')
    \<and> (\<forall>i < 1024. pde (pmem pg') p i = pde (pmem pg) BD i) \<and> pd_ok (pmem pg') p (lo + 4096)
    \<and> pte_at (pmem pg') p = pte_at (pmem pg) BD \<and> (\<forall>q. other_page (pmem pg) BD q \<longrightarrow> unat q < lo \<longrightarrow> other_page (pmem pg') p q)"
proof -
  let ?p = "ucast (mm_addr pg) :: u32"
  obtain s0 where s0: "bootstrap_fetch_page debug pg = Inr (?p, s0)" "frames s0 N" "unat (mm_addr s0) = lo + 4096" "pmem s0 = pmem pg" "high_vma s0 = high_vma pg"
    and p: "unat ?p = lo" "pg_ok ?p"
    using fetch_page_ok(1) [OF fr, of debug] fetch_page_ok(2,3) [OF fr] lo_def by auto
  note D = pd_okD [OF ok]
  have bd: "BD \<noteq> ?p" using D(2) p(1) by auto
  let ?m1 = "memset (pmem pg) ?p 0 4096" let ?m = "memcpy ?m1 ?p BD 4096"
  have kp: "kphys s0 (kt_boot_page_directory kt) = BD" using s0(5) by (simp add: BD_def kphys_def)
  have o1: "only_in {?p} (pmem pg) ?m1" using memset_page(2) [OF p(2)] by (simp add: only_in_def)
  note C = memcpy_page [OF p(2) D(1) bd [symmetric], where m = ?m1]
  have o: "only_in {?p} (pmem pg) ?m" by (rule only_in_trans [OF o1 C(2)])
  then have oa: "only_in (above lo) (pmem pg) ?m" by (rule only_in_mono) (use p in \<open>auto simp: above_def\<close>)
  have e: "pde ?m ?p i = pde (pmem pg) BD i" if "i < 1024" for i
  proof -
    have "load32 ?m (cell ?p (4 * i)) = load32 ?m1 (cell BD (4 * i))" by (rule memcpy_entry [OF p(2) D(1) bd [symmetric] that])
    also have "\<dots> = load32 (pmem pg) (cell BD (4 * i))" using only_in_entry [OF o1 D(1) _ that] bd by simp
    finally show ?thesis by (simp add: pde_def)
  qed
  have t: "table ?m ?p i \<noteq> ?p" "unat (table (pmem pg) BD i) \<le> lo" if "i < 1024" "pde (pmem pg) BD i \<noteq> 0" for i
    using D(3) [OF that] e [OF that(1)] p(1) by auto
  have ok': "pd_ok ?m ?p (lo + 4096)"
    using D p e t unfolding pd_ok_def by (auto simp: e)
  have "pte_at ?m ?p u = pte_at (pmem pg) BD u" for u
  proof (cases "u div 1024 < 1024 \<and> pde (pmem pg) BD (u div 1024) \<noteq> 0")
    case True
    then have "table (pmem pg) BD (u div 1024) \<noteq> ?p" "pg_ok (table (pmem pg) BD (u div 1024))" using D(3) t e by auto
    then show ?thesis using only_in_entry [OF o, of "table (pmem pg) BD (u div 1024)" "u mod 1024"] True e by (simp add: pte_at_def)
  qed (use e in \<open>auto simp: pte_at_def\<close>)
  moreover have "other_page ?m ?p q" if "other_page (pmem pg) BD q" "unat q < lo" for q
    using that p(1) by (auto simp: other_page_def e)
  ultimately show ?thesis
    using s0 p e ok' oa pg_ok_nonzero [OF p(2)]
    by (intro exI [of _ ?p] exI [of _ "s0\<lparr>pmem := ?m, pd_reg := ?p\<rparr>"])
      (auto simp: module_pagedir_def bootstrap_create_page_dir_def kp Let_def frames_def)
qed


section \<open>The loader and the end of the memory map\<close>

lemma load_segment_end: "load_segment (bootstrap_elf_mmap debug) pd hdr a s = Inr r \<Longrightarrow> mm_end (case r of Inl (e, s') \<Rightarrow> s' | Inr s' \<Rightarrow> s') = mm_end s"
  by (auto simp: load_segment_def Let_def bindE_def bootstrap_elf_mmap_def split: sum.splits if_splits dest!: bootstrap_mmap_end)

lemma load_segments_end: "load_segments (bootstrap_elf_mmap debug) pd hdr a n s = Inr r \<Longrightarrow> mm_end (case r of Inl (e, s') \<Rightarrow> s' | Inr s' \<Rightarrow> s') = mm_end s"
proof (induction n arbitrary: a s)
  case (Suc n)
  obtain r1 where r1: "load_segment (bootstrap_elf_mmap debug) pd hdr a s = Inr r1" using Suc.prems by (cases "load_segment (bootstrap_elf_mmap debug) pd hdr a s") auto
  then show ?case using Suc load_segment_end [OF r1] by (cases r1) auto
qed auto

lemma elf_ctx_load_end:
  assumes "elf_ctx_load ctx (Some info) s = Inr (e, i, s')" "ei_mmap info = Some (bootstrap_elf_mmap debug)" "ei_on_load info = Some bootstrap_elf_on_load"
  shows "mm_end s' = mm_end s"
  using assms
  by (auto simp: elf_ctx_load_def Let_def bootstrap_elf_on_load_def bindE_def bootstrap_elf_mmap_def split: sum.splits prod.splits
      dest!: bootstrap_mmap_end load_segments_end)

section \<open>Boot modules\<close>

definition module_hdr :: "mem \<Rightarrow> boot_module \<Rightarrow> Elf_Hdr" where
  "module_hdr m md = read_hdr m (start_paddr md)"

definition module_phdrs :: "mem \<Rightarrow> boot_module \<Rightarrow> Elf_Phdr list" where
  "module_phdrs m md = phdrs m (start_paddr md + e_phoff (module_hdr m md)) (unat (e_phnum (module_hdr m md)))"

abbreviation private_pages :: "mem \<Rightarrow> boot_module \<Rightarrow> nat set" where
  "private_pages m md \<equiv> loaded_pages (module_phdrs m md) \<union> stack_pages"

text \<open>
  A module the kernel can load: an accepted image below \<open>lo\<close> and outside the paging structures, whose
  segments can be loaded and use no page table of the boot directory.
\<close>

definition module_ok :: "mem \<Rightarrow> paddr_t \<Rightarrow> nat \<Rightarrow> boot_module \<Rightarrow> bool" where
  "module_ok m bd lo md \<longleftrightarrow> elf_check_hdr (module_hdr m md) = ELF_OK \<and> elf_check_arch_supported (module_hdr m md) = ELF_OK
     \<and> image_at m bd lo (start_paddr md) 52
     \<and> image_at m bd lo (start_paddr md + e_phoff (module_hdr m md)) (32 * unat (e_phnum (module_hdr m md)))
     \<and> segs_ok m bd lo (start_paddr md) (module_phdrs m md) \<and> loaded_pages (module_phdrs m md) \<inter> stack_pages = {}
     \<and> (\<forall>ph \<in> set (loadable (module_phdrs m md)). pde m bd (seg_vpn ph div 1024) = 0 \<and> seg_vpn ph div 1024 \<noteq> 511)"

text \<open>What is true of a loaded module: its address space uses the frames between \<open>lo\<close> and \<open>hi\<close> for its own pages and
  shares the rest with the boot directory.\<close>

definition module_loaded :: "mem \<Rightarrow> mem \<Rightarrow> paddr_t \<Rightarrow> paddr_t \<Rightarrow> nat \<Rightarrow> nat \<Rightarrow> boot_module \<Rightarrow> bool" where
  "module_loaded m0 m bd pd lo hi md \<longleftrightarrow> pd_ok m pd hi \<and> unat pd = lo \<and> owned m pd lo hi (private_pages m0 md)
     \<and> (\<forall>ph \<in> set (loadable (module_phdrs m0 md)). seg_loaded m0 m pd (start_paddr md) ph)
     \<and> (\<forall>u \<in> stack_pages. pte_at m pd u AND 0xFFF = 7)
     \<and> (\<forall>u. u \<notin> private_pages m0 md \<longrightarrow> pte_at m pd u = pte_at m0 bd u)
     \<and> (\<forall>i < 1024. pde m0 bd i \<noteq> 0 \<longrightarrow> pde m pd i = pde m0 bd i)
     \<and> (\<forall>q. other_page m0 bd q \<longrightarrow> unat q < lo \<longrightarrow> other_page m pd q)"

lemma read_hdr_cong:
  assumes "\<And>k. k < 52 \<Longrightarrow> m' (a + of_nat k) = m (a + of_nat k)"
  shows "read_hdr m' a = read_hdr m a"
proof -
  have b: "m' (a + of_nat d + of_nat i) = m (a + of_nat d + of_nat i)" if "d + i < 52" for d i
    using assms [OF that] by (simp add: add.assoc)
  have w: "load32 m' (a + of_nat d) = load32 m (a + of_nat d)" if "d \<le> 48" for d
    using that by (intro load32_cong b) simp
  have h: "load16 m' (a + of_nat d) = load16 m (a + of_nat d)" if "d \<le> 50" for d
    using that b [of d 0] b [of d 1] by (simp add: load16_def)
  show ?thesis
    using w [of 20] w [of 24] w [of 28] w [of 32] w [of 36] h [of 16] h [of 18] h [of 40] h [of 42] h [of 44] h [of 46] h [of 48] h [of 50] assms
    by (simp add: read_hdr_def)
qed

lemma phdrs_cong:
  assumes "\<And>k. k < 32 * n \<Longrightarrow> m' (a + of_nat k) = m (a + of_nat k)"
  shows "phdrs m' a n = phdrs m a n"
  unfolding phdrs_def
proof (rule map_cong [OF refl], rule read_phdr_cong)
  fix i k :: nat assume "i \<in> set [0..<n]" "k < 32"
  then have "32 * i + k < 32 * n" by simp
  then show "m' (a + of_nat i * PHDR_SIZE + of_nat k) = m (a + of_nat i * PHDR_SIZE + of_nat k)"
    using assms [of "32 * i + k"] by (simp add: PHDR_SIZE_def ac_simps)
qed

text \<open>The headers of a module stay what they are while memory changes only above \<open>lo\<close>.\<close>

lemma module_keep:
  assumes o: "only_in (above lo) m m'" and bd: "pd_ok m bd lo" and md: "module_ok m bd lo md"
  shows "module_hdr m' md = module_hdr m md" "module_phdrs m' md = module_phdrs m md"
    "\<And>ph k. ph \<in> set (loadable (module_phdrs m md)) \<Longrightarrow> k < unat (p_filesz ph) \<Longrightarrow>
       m' (start_paddr md + p_offset ph + of_nat k) = m (start_paddr md + p_offset ph + of_nat k)"
proof -
  show h: "module_hdr m' md = module_hdr m md"
    unfolding module_hdr_def using md above_image(2) [OF o bd, of "start_paddr md" 52] by (intro read_hdr_cong) (auto simp: module_ok_def)
  show "module_phdrs m' md = module_phdrs m md"
    unfolding module_phdrs_def h using md by (intro phdrs_cong above_image(2) [OF o bd]) (auto simp: module_ok_def)
  show "m' (start_paddr md + p_offset ph + of_nat k) = m (start_paddr md + p_offset ph + of_nat k)"
    if "ph \<in> set (loadable (module_phdrs m md))" "k < unat (p_filesz ph)" for ph k
    using md that by (intro above_image(2) [OF o bd]) (auto simp: module_ok_def segs_ok_def loadable_def seg_loads_def)
qed

text \<open>The conditions on an image carry over to another directory that looks the same.\<close>

lemma image_transfer:
  assumes "image_at m pd lo a len" "lo \<le> lo'" "\<And>q. other_page m pd q \<Longrightarrow> unat q < lo \<Longrightarrow> other_page m' pd' q"
  shows "image_at m' pd' lo' a len"
  using assms unfolding image_at_def by (meson order_less_le_trans)

lemma segs_transfer:
  assumes "segs_ok m pd lo hdr phs" "lo \<le> lo'" "\<And>q. other_page m pd q \<Longrightarrow> unat q < lo \<Longrightarrow> other_page m' pd' q" "pte_at m' pd' = pte_at m pd"
    and "\<forall>i < 1024. pde m' pd' i = pde m pd i"
  shows "segs_ok m' pd' lo' hdr phs"
proof -
  have "seg_vpn ph div 1024 < 1024" for ph using unat_u32_lt [of "p_vaddr ph"] by (simp add: less_mult_imp_div_less div_mult2_eq [symmetric])
  then show ?thesis using assms(1,4,5) image_transfer [OF _ assms(2,3)] by (auto simp: segs_ok_def)
qed

lemma module_ok_keep:
  assumes o: "only_in (above lo) m m'" and bd: "pd_ok m bd lo" and md: "module_ok m bd lo md" and le: "lo \<le> lo'"
  shows "module_ok m' bd lo' md"
proof -
  note K = module_keep [OF assms(1-3)] and W = above_walk [OF o bd]
  have op: "other_page m' bd q" if "other_page m bd q" for q using W(5) that by simp
  have I: "image_at m' bd lo' a len" if "image_at m bd lo a len" for a len by (rule image_transfer [OF that le op])
  have S: "segs_ok m' bd lo' hdr phs" if "segs_ok m bd lo hdr phs" for hdr phs by (rule segs_transfer [OF that le op W(3)]) (simp_all add: W(1))
  have "pde m' bd (seg_vpn ph div 1024) = pde m bd (seg_vpn ph div 1024)" for ph
    using W(1) [OF vpn_offsets(4)] unat_u32_lt [of "p_vaddr ph"] by (simp add: less_mult_imp_div_less)
  then show ?thesis using md I S unfolding module_ok_def K(1,2) by simp
qed

lemma module_loaded_keep:
  assumes "module_loaded m0 m bd pd lo hi md" "only_in (above hi) m m'"
    and ok: "\<And>ph. ph \<in> set (loadable (module_phdrs m0 md)) \<Longrightarrow> seg_ok ph \<and> p_filesz ph \<noteq> 0"
  shows "module_loaded m0 m' bd pd lo hi md"
proof -
  have pd: "pd_ok m pd hi" and own: "owned m pd lo hi (private_pages m0 md)" using assms(1) by (simp_all add: module_loaded_def)
  note W = above_walk [OF assms(2) pd]
  have "user_byte m' pd va = user_byte m pd va" if "vpn va \<in> private_pages m0 md" for va
  proof (rule user_byte_same [OF pd W(2)])
    have "other_page m pd (frame m pd (vpn va)) \<and> unat (frame m pd (vpn va)) + 4096 \<le> hi" using own that unfolding owned_def by blast
    then have "pg_ok (frame m pd (vpn va))" "frame m pd (vpn va) \<notin> above hi" by (auto simp: other_page_def above_def)
    then show "same_page m m' (frame m pd (vpn va))" using assms(2) by (simp add: only_in_def)
  qed (use W in auto)
  note ub = this
  have "seg_loaded m0 m' pd (start_paddr md) ph" if ph: "ph \<in> set (loadable (module_phdrs m0 md))" for ph
  proof -
    have "user_byte m' pd (p_vaddr ph + of_nat k) = user_byte m pd (p_vaddr ph + of_nat k)" if "k < unat (p_filesz ph)" for k
      using seg_pages_vpn [OF _ _ that] ok [OF ph] ph by (intro ub) blast
    then show ?thesis using assms(1) ph W(3) by (simp add: module_loaded_def seg_loaded_def)
  qed
  then show ?thesis using assms(1) W unfolding module_loaded_def owned_def by simp
qed


section \<open>Loading one module\<close>

lemma elf_ctx_create_hdrs:
  assumes "elf_check_hdr (read_hdr m a) = ELF_OK" "elf_check_arch_supported (read_hdr m a) = ELF_OK"
  shows "\<exists>c. elf_ctx_create c0 a sz m = (ELF_OK, c) \<and> elf_hdr c = a \<and> program_headers c = a + e_phoff (read_hdr m a)"
  using assms find_symtab_last [of m "unat (e_shnum (read_hdr m a))"] by (simp add: elf_ctx_create_def Let_def)

lemma stack_ptes:
  assumes "pde m bd 511 = 0" "pde m bd 512 = 0" "u \<in> stack_pages"
  shows "pte_at m bd u = 0" "u div 1024 = 511 \<or> u div 1024 = 512"
proof -
  have "u = 0x7FFFC \<or> u = 0x7FFFD \<or> u = 0x7FFFE \<or> u = 0x7FFFF \<or> u = 0x80000" using assms(3) by (auto simp: stack_pages_def)
  then show "u div 1024 = 511 \<or> u div 1024 = 512" by auto
  then show "pte_at m bd u = 0" using assms(1,2) by (auto simp: pte_at_def)
qed

lemma owned_mono: "owned m pd lo hi U \<Longrightarrow> lo' \<le> lo \<Longrightarrow> owned m pd lo' hi U"
  unfolding owned_def by (meson order_trans)

lemma module_pagedir_end: "module_pagedir debug kt pg = Inr (p, pg') \<Longrightarrow> mm_end pg' = mm_end pg"
  by (auto simp: module_pagedir_def bootstrap_create_page_dir_def Let_def bindE_def split: sum.splits if_splits prod.splits dest!: fetch_page_end)

text \<open>A table in which no entry changes is a page that does not change.\<close>

lemma same_table:
  assumes "i < 1024" "pde m pd i \<noteq> 0" "pde m' pd i = pde m pd i" "\<And>u. u div 1024 = i \<Longrightarrow> pte_at m' pd u = pte_at m pd u"
  shows "same_page m m' (table m pd i)"
  unfolding same_page_def
proof (intro allI impI)
  fix d assume d: "offset_ok d"
  then obtain j where j: "d = 4 * j" "j < 1024" by (auto elim!: dvdE [OF mod_0_imp_dvd])
  have "(1024 * i + j) div 1024 = i" "(1024 * i + j) mod 1024 = j" using j(2) by simp_all
  then show "load32 m' (cell (table m pd i) d) = load32 m (cell (table m pd i) d)"
    using assms(1-3) assms(4) [of "1024 * i + j"] j(1) by (simp add: pte_at_def)
qed

lemma seg_range_dir: "seg_ok ph \<Longrightarrow> u \<in> seg_range ph \<Longrightarrow> u div 1024 = seg_vpn ph div 1024"
  using one_table_pages(1) [of "seg_vpn ph" "seg_pages ph" u] by (auto simp: seg_ok_def seg_range_def)

lemma private_dir:
  assumes "module_ok m bd lo md" "pde m bd 511 = 0" "pde m bd 512 = 0" "u \<in> private_pages m md"
  shows "pde m bd (u div 1024) = 0"
proof (cases "u \<in> stack_pages")
  case True
  then show ?thesis using stack_ptes(2) [OF assms(2,3) True] assms(2,3) by auto
next
  case False
  then obtain ph where ph: "ph \<in> set (loadable (module_phdrs m md))" "u \<in> seg_range ph" using assms(4) by blast
  then have "seg_ok ph" using assms(1) by (auto simp: module_ok_def segs_ok_def loadable_def seg_loads_def)
  then show ?thesis using seg_range_dir ph assms(1) by (auto simp: module_ok_def)
qed


text \<open>Loading leaves the pages below the new directory as they were, shared page tables included.\<close>

lemma directory_kept:
  assumes lo: "unat p = lo" and keep: "\<And>q. other_page m p q \<Longrightarrow> unat q < lo \<Longrightarrow> same_page m m' q"
    and dirs: "\<And>j. j < 1024 \<Longrightarrow> pde m p j \<noteq> 0 \<Longrightarrow> pde m' p j = pde m p j"
    and ptes: "\<And>u. u div 1024 < 1024 \<Longrightarrow> pde m p (u div 1024) \<noteq> 0 \<Longrightarrow> pte_at m' p u = pte_at m p u"
  shows "only_in (above lo) m m'"
  unfolding only_in_def
proof (intro allI impI)
  fix q assume q: "pg_ok q" "q \<notin> above lo"
  then have lt: "unat q < lo" by (simp add: above_def)
  show "same_page m m' q"
  proof (cases "other_page m p q")
    case True
    then show ?thesis using keep lt by blast
  next
    case False
    then obtain j where j: "j < 1024" "pde m p j \<noteq> 0" "table m p j = q" using q(1) lt lo by (auto simp: other_page_def)
    then show ?thesis using same_table [OF j(1,2), of m'] dirs [OF j(1,2)] ptes by auto
  qed
qed

lemma module_image_ok:
  fixes pg :: pgstate and kt :: ktables and md :: boot_module
  defines "lo \<equiv> unat (mm_addr pg)" and "m \<equiv> pmem pg" and "bd \<equiv> kphys pg (kt_boot_page_directory kt)"
  assumes bd: "pd_ok m bd lo" "pde m bd 511 = 0" "pde m bd 512 = 0" and md: "module_ok m bd lo md"
    and info: "ei_mmap info = Some (bootstrap_elf_mmap debug)" "ei_on_load info = Some bootstrap_elf_on_load"
    and dbg: "asserted_sizes debug (module_phdrs m md)"
    and hv: "unat (mm_end pg) \<le> unat (high_vma pg)" and fr: "frames pg (Suc (frames_needed (module_phdrs m md) + (7 + N)))"
  shows "\<exists>p pg1 c pg'. module_pagedir debug kt pg = Inr (p, pg1)
    \<and> elf_ctx_create elf_ctx_zero (start_paddr md) (end_paddr md - start_paddr md) (pmem pg1) = (ELF_OK, c) \<and> elf_hdr c = start_paddr md
    \<and> elf_ctx_load c (Some (info\<lparr>ei_page_directory := p\<rparr>)) pg1 = Inr (ELF_OK, Some (info\<lparr>ei_page_directory := p, ei_main_thread_stack_top := 0x80000000\<rparr>), pg')
    \<and> module_loaded m (pmem pg') bd p lo (unat (mm_addr pg')) md \<and> only_in (above lo) m (pmem pg') \<and> lo \<le> unat (mm_addr pg')
    \<and> frames pg' N \<and> high_vma pg' = high_vma pg \<and> mm_end pg' = mm_end pg"
proof -
  obtain p pg1 where p: "module_pagedir debug kt pg = Inr (p, pg1)" "unat p = lo" "pd_reg pg1 = p" "unat (mm_addr pg1) = lo + 4096"
    "high_vma pg1 = high_vma pg" "frames pg1 (frames_needed (module_phdrs m md) + (7 + N))" and o1: "only_in (above lo) m (pmem pg1)"
    and pde1: "\<forall>i < 1024. pde (pmem pg1) p i = pde m bd i" and ok1: "pd_ok (pmem pg1) p (lo + 4096)" and pte1: "pte_at (pmem pg1) p = pte_at m bd"
    and op1: "\<And>q. other_page m bd q \<Longrightarrow> unat q < lo \<Longrightarrow> other_page (pmem pg1) p q"
    using module_pagedir_ok [of pg kt "frames_needed (module_phdrs m md) + (7 + N)" debug] bd(1) fr
    unfolding m_def [symmetric] bd_def [symmetric] lo_def [symmetric] by blast
  note K = module_keep [OF o1 bd(1) md]
  have hdr: "read_hdr (pmem pg1) (start_paddr md) = module_hdr m md" using K(1) by (simp add: module_hdr_def)
  have acc: "elf_check_hdr (module_hdr m md) = ELF_OK" "elf_check_arch_supported (module_hdr m md) = ELF_OK" using md by (simp_all add: module_ok_def)
  obtain c where c: "elf_ctx_create elf_ctx_zero (start_paddr md) (end_paddr md - start_paddr md) (pmem pg1) = (ELF_OK, c)" "elf_hdr c = start_paddr md"
    "program_headers c = start_paddr md + e_phoff (module_hdr m md)"
    using elf_ctx_create_hdrs [of "pmem pg1" "start_paddr md"] acc unfolding hdr by blast
  have phs: "phdrs (pmem pg1) (program_headers c) (unat (e_phnum (read_hdr (pmem pg1) (elf_hdr c)))) = module_phdrs m md"
    using K(2) unfolding module_phdrs_def K(1) c(2,3) hdr .
  let ?info = "info\<lparr>ei_page_directory := p\<rparr>" and ?P = "private_pages m md"
  have "lo < unat (high_vma pg)" using frames_end(1) [OF fr] hv unfolding lo_def by linarith
  then have hp: "p < high_vma pg1" using p(2,5) by (simp add: word_less_nat_alt)
  note md' = md [unfolded module_ok_def]
  have le: "lo \<le> lo + 4096" by simp
  have im: "image_at (pmem pg1) p (lo + 4096) (start_paddr md + e_phoff (module_hdr m md)) (32 * unat (e_phnum (module_hdr m md)))"
    using md' by (intro image_transfer [OF _ le op1]) blast+
  have sg: "segs_ok (pmem pg1) p (lo + 4096) (start_paddr md) (module_phdrs m md)"
    using md' by (intro segs_transfer [OF _ le op1 pte1 pde1]) blast+
  have dj: "loaded_pages (module_phdrs m md) \<inter> stack_pages = {}" and n511: "\<forall>ph \<in> set (loadable (module_phdrs m md)). seg_vpn ph div 1024 \<noteq> 511"
    using md' by blast+
  have st: "\<forall>u \<in> stack_pages. pte_at (pmem pg1) p u = 0" unfolding pte1 using stack_ptes(1) [OF bd(2,3)] by blast
  have p511: "pde (pmem pg1) p 511 = 0" using pde1 bd(2) by simp
  note L = elf_ctx_load_ok [where s = pg1 and ctx = c and info = ?info and N = N, unfolded p(3,4) phs, unfolded c(2,3) hdr,
      OF ok1 hp _ _ _ im sg dj st p511 n511 p(6) dbg]
  obtain s' where run: "elf_ctx_load c (Some ?info) pg1 = Inr (ELF_OK, Some (?info\<lparr>ei_main_thread_stack_top := 0x80000000\<rparr>), s')"
    and inv: "linv s' p (lo + 4096) ?P" and keep: "lkeeps pg1 s' p (lo + 4096) {}" and fr': "frames s' N"
    and ld: "\<forall>ph \<in> set (loadable (module_phdrs m md)). seg_loaded (pmem pg1) (pmem s') p (start_paddr md) ph"
    and stk: "\<forall>u \<in> stack_pages. pte_at (pmem s') p u AND 0xFFF = 7"
    and out: "\<forall>u. u \<notin> ?P \<longrightarrow> pte_at (pmem s') p u = pte_at m bd u"
    and pdes: "\<forall>i < 1024. pde (pmem pg1) p i \<noteq> 0 \<longrightarrow> (\<forall>ph \<in> set (loadable (module_phdrs m md)). seg_vpn ph div 1024 \<noteq> i) \<longrightarrow> pde (pmem s') p i = pde (pmem pg1) p i"
    using L info unfolding pte1 by auto
  have pd': "pde (pmem s') p j = pde m bd j" if "j < 1024" "pde m bd j \<noteq> 0" for j
  proof -
    have "\<forall>ph \<in> set (loadable (module_phdrs m md)). seg_vpn ph div 1024 \<noteq> j" using md' that(2) by metis
    then show ?thesis using pdes pde1 that by simp
  qed
  have "u \<notin> ?P" if "u div 1024 < 1024" "pde m bd (u div 1024) \<noteq> 0" for u using private_dir [OF md bd(2,3), of u] that by blast
  then have "only_in (above lo) (pmem pg1) (pmem s')"
    using pd' pde1 out pte1 keep p(2) by (intro directory_kept) (auto simp: lkeeps_def)
  then have o: "only_in (above lo) m (pmem s')" by (rule only_in_trans [OF o1])
  have "owned (pmem s') p lo (unat (mm_addr s')) ?P" and ok': "pd_ok (pmem s') p (unat (mm_addr s'))"
    using inv owned_mono [OF _ le] by (auto simp: linv_def)
  moreover have "seg_loaded m (pmem s') p (start_paddr md) ph" if "ph \<in> set (loadable (module_phdrs m md))" for ph
    using ld K(3) [OF that] that by (simp add: seg_loaded_def)
  moreover have tabs: "other_page (pmem s') p q" if "other_page m bd q" "unat q < lo" for q
    using op1 [OF that] keep that(2) by (simp add: lkeeps_def)
  ultimately have ml: "module_loaded m (pmem s') bd p lo (unat (mm_addr s')) md"
    using p(2) stk out pd' tabs by (simp add: module_loaded_def)
  have "mm_end s' = mm_end pg" using elf_ctx_load_end [OF run, of debug] module_pagedir_end [OF p(1)] info by simp
  moreover have "lo \<le> unat (mm_addr s')" "high_vma s' = high_vma pg" using keep p(4,5) by (simp_all add: lkeeps_def)
  ultimately show ?thesis using p(1) c(1,2) run ml o fr' by (intro exI [of _ p] exI [of _ pg1] exI [of _ c] exI [of _ s']) simp
qed

lemma load_boot_module_ok:
  fixes s :: boot_state and kt :: ktables and i :: nat
  defines "pg \<equiv> kn_pg (bs_km s)" and "md \<equiv> modules (kn_info (bs_km s)) ! i"
  defines "lo \<equiv> unat (mm_addr (kn_pg (bs_km s)))" and "m \<equiv> pmem (kn_pg (bs_km s))" and "bd \<equiv> kphys (kn_pg (bs_km s)) (kt_boot_page_directory kt)"
  assumes bd: "pd_ok m bd lo" "pde m bd 511 = 0" "pde m bd 512 = 0" and i: "i < length (modules (kn_info (bs_km s)))" and md: "module_ok m bd lo md"
    and info: "ei_mmap info = Some (bootstrap_elf_mmap debug)" "ei_on_load info = Some bootstrap_elf_on_load"
    and dbg: "asserted_sizes debug (module_phdrs m md)"
    and hv: "unat (mm_end pg) \<le> unat (high_vma pg)" and fr: "frames pg (Suc (frames_needed (module_phdrs m md) + (7 + N)))"
  shows "\<exists>info' pg' con pd. load_boot_module debug kt bl i pid info s = Inr (info', s\<lparr>bs_km := (bs_km s)\<lparr>kn_pg := pg', kn_con := con\<rparr>,
      bs_kst := module_process (boot_proc bl i) (boot_thread bl i) pid pd (e_entry (module_hdr m md)) 0x80000000 (bl_kstack_top bl) (bs_kst s)\<rparr>)
    \<and> ei_mmap info' = Some (bootstrap_elf_mmap debug) \<and> ei_on_load info' = Some bootstrap_elf_on_load
    \<and> module_loaded m (pmem pg') bd pd lo (unat (mm_addr pg')) md \<and> only_in (above lo) m (pmem pg') \<and> lo \<le> unat (mm_addr pg')
    \<and> frames pg' N \<and> high_vma pg' = high_vma pg \<and> mm_end pg' = mm_end pg"
proof -
  obtain p pg1 c s' where p: "module_pagedir debug kt pg = Inr (p, pg1)"
    and c: "elf_ctx_create elf_ctx_zero (start_paddr md) (end_paddr md - start_paddr md) (pmem pg1) = (ELF_OK, c)" "elf_hdr c = start_paddr md"
    and run: "elf_ctx_load c (Some (info\<lparr>ei_page_directory := p\<rparr>)) pg1 = Inr (ELF_OK, Some (info\<lparr>ei_page_directory := p, ei_main_thread_stack_top := 0x80000000\<rparr>), s')"
    and ml: "module_loaded m (pmem s') bd p lo (unat (mm_addr s')) md" and o: "only_in (above lo) m (pmem s')"
    and rest: "lo \<le> unat (mm_addr s')" "frames s' N" "high_vma s' = high_vma pg" "mm_end s' = mm_end pg"
    using module_image_ok [of pg kt md info debug N] bd md info dbg hv fr unfolding pg_def m_def [symmetric] bd_def [symmetric] lo_def [symmetric] by blast
  have hdr': "read_hdr (pmem s') (start_paddr md) = module_hdr m md" using module_keep(1) [OF o bd(1) md] by (simp add: module_hdr_def)
  have "CHR ''%'' \<notin> set ''INFO''" "CHR 0x00 \<notin> set ''INFO'' \<union> set ''kern/main.c'' \<union> set ''Loading module %s...''" by simp_all
  then obtain r con where con: "\<And>as. klog ''INFO'' ''kern/main.c'' 70 ''Loading module %s...'' as (kn_con (bs_km s)) = Inr (r, con)"
    using klog_line [of "''INFO''" "''kern/main.c''" "''Loading module %s...''" 70 _ "kn_con (bs_km s)"] by auto
  let ?info = "info\<lparr>ei_page_directory := p, ei_main_thread_stack_top := 0x80000000\<rparr>"
  have "load_boot_module debug kt bl i pid info s = Inr (?info, s\<lparr>bs_km := (bs_km s)\<lparr>kn_pg := s', kn_con := con\<rparr>,
      bs_kst := module_process (boot_proc bl i) (boot_thread bl i) pid p (e_entry (module_hdr m md)) 0x80000000 (bl_kstack_top bl) (bs_kst s)\<rparr>)"
    using i p c run con hdr' unfolding load_boot_module_def Let_def md_def pg_def by simp
  then show ?thesis using info ml o rest by (intro exI [of _ ?info] exI [of _ s'] exI [of _ con] exI [of _ p]) simp
qed

section \<open>Loading all modules\<close>

lemma module_segs: "module_ok m bd lo md \<Longrightarrow> ph \<in> set (loadable (module_phdrs m md)) \<Longrightarrow> seg_ok ph \<and> p_filesz ph \<noteq> 0"
  by (auto simp: module_ok_def segs_ok_def loadable_def seg_loads_def)

lemma module_loaded_src:
  assumes "module_loaded m1 m' bd pd lo hi md" "only_in (above lim) m m1" "pd_ok m bd lim" "module_ok m bd lim md"
  shows "module_loaded m m' bd pd lo hi md"
proof -
  note K = module_keep [OF assms(2-4)] and W = above_walk [OF assms(2,3)]
  have "seg_loaded m m' pd (start_paddr md) ph" if "ph \<in> set (loadable (module_phdrs m md))" for ph
    using assms(1) K(3) [OF that] that by (simp add: module_loaded_def seg_loaded_def K(2))
  then show ?thesis using assms(1) W(1,3,5) by (simp add: module_loaded_def K(2))
qed

definition frames_of :: "mem \<Rightarrow> boot_module list \<Rightarrow> nat" where
  "frames_of m mds = sum_list (map (\<lambda>md. frames_needed (module_phdrs m md) + 8) mds)"

fun boot_kst :: "boot_links \<Rightarrow> (paddr_t \<times> vaddr_t) list \<Rightarrow> nat \<Rightarrow> pid_t \<Rightarrow> kstate \<Rightarrow> kstate" where
  "boot_kst bl [] i pid k = k"
| "boot_kst bl ((pd, e) # ps) i pid k =
     boot_kst bl ps (i + 1) (pid + 1) (module_process (boot_proc bl i) (boot_thread bl i) pid pd e 0x80000000 (bl_kstack_top bl) k)"

lemma load_modules_ok:
  fixes s :: boot_state and kt :: ktables
  defines "lo \<equiv> unat (mm_addr (kn_pg (bs_km s)))" and "m \<equiv> pmem (kn_pg (bs_km s))" and "bd \<equiv> kphys (kn_pg (bs_km s)) (kt_boot_page_directory kt)"
  assumes "pd_ok m bd lo" "pde m bd 511 = 0" "pde m bd 512 = 0" "drop i (modules (kn_info (bs_km s))) = mds @ rest" "n = length mds"
    and "\<forall>md \<in> set mds. module_ok m bd lo md" "ei_mmap info = Some (bootstrap_elf_mmap debug)" "ei_on_load info = Some bootstrap_elf_on_load"
    and "unat (mm_end (kn_pg (bs_km s))) \<le> unat (high_vma (kn_pg (bs_km s)))" "frames (kn_pg (bs_km s)) (frames_of m mds + N)"
    and "\<forall>md \<in> set mds. asserted_sizes debug (module_phdrs m md)"
  shows "\<exists>pg con pds lim. load_modules debug kt bl n i pid info s = Inr (s\<lparr>bs_km := (bs_km s)\<lparr>kn_pg := pg, kn_con := con\<rparr>,
        bs_kst := boot_kst bl (zip pds (map (\<lambda>md. e_entry (module_hdr m md)) mds)) i pid (bs_kst s)\<rparr>)
    \<and> length pds = n \<and> lim 0 = lo \<and> lim n = unat (mm_addr pg) \<and> (\<forall>j < n. lim j \<le> lim (Suc j))
    \<and> (\<forall>j < n. module_loaded m (pmem pg) bd (pds ! j) (lim j) (lim (Suc j)) (mds ! j))
    \<and> only_in (above lo) m (pmem pg) \<and> frames pg N \<and> high_vma pg = high_vma (kn_pg (bs_km s)) \<and> mm_end pg = mm_end (kn_pg (bs_km s))"
  using assms(4-) unfolding lo_def m_def bd_def
proof (induction n arbitrary: mds i pid info s)
  case 0
  then show ?case by (intro exI [of _ "kn_pg (bs_km s)"] exI [of _ "kn_con (bs_km s)"] exI [of _ "[]"] exI [of _ "\<lambda>_. unat (mm_addr (kn_pg (bs_km s)))"])
      (simp add: frames_of_def)
next
  case (Suc n)
  obtain md mds' where mds: "mds = md # mds'" "n = length mds'" using Suc.prems(5) by (cases mds) auto
  let ?pg = "kn_pg (bs_km s)" let ?m = "pmem ?pg" and ?lo = "unat (mm_addr ?pg)" and ?bd = "kphys ?pg (kt_boot_page_directory kt)"
  have i: "i < length (modules (kn_info (bs_km s)))" using Suc.prems(4) mds(1) by (cases "i < length (modules (kn_info (bs_km s)))") auto
  have md: "modules (kn_info (bs_km s)) ! i = md" "drop (i + 1) (modules (kn_info (bs_km s))) = mds' @ rest"
    using Suc.prems(4) mds(1) i by (metis Cons_nth_drop_Suc append_Cons list.inject, metis Cons_nth_drop_Suc Suc_eq_plus1 append_Cons list.inject)
  have mok: "module_ok ?m ?bd ?lo md" using Suc.prems(6) mds(1) by simp
  have dbg: "asserted_sizes debug (module_phdrs ?m md)" using Suc.prems(11) mds(1) by simp
  have fr: "frames ?pg (Suc (frames_needed (module_phdrs ?m md) + (7 + (frames_of ?m mds' + N))))"
    using Suc.prems(10) mds(1) by (simp add: frames_of_def ac_simps)
  obtain info1 pg1 con1 pd where st: "load_boot_module debug kt bl i pid info s = Inr (info1, s\<lparr>bs_km := (bs_km s)\<lparr>kn_pg := pg1, kn_con := con1\<rparr>,
      bs_kst := module_process (boot_proc bl i) (boot_thread bl i) pid pd (e_entry (module_hdr ?m md)) 0x80000000 (bl_kstack_top bl) (bs_kst s)\<rparr>)"
    and info1: "ei_mmap info1 = Some (bootstrap_elf_mmap debug)" "ei_on_load info1 = Some bootstrap_elf_on_load"
    and ml: "module_loaded ?m (pmem pg1) ?bd pd ?lo (unat (mm_addr pg1)) md" and o: "only_in (above ?lo) ?m (pmem pg1)" and le: "?lo \<le> unat (mm_addr pg1)"
    and fr1: "frames pg1 (frames_of ?m mds' + N)" and hv: "high_vma pg1 = high_vma ?pg" and me: "mm_end pg1 = mm_end ?pg"
    using load_boot_module_ok [where s = s and kt = kt and i = i and bl = bl and pid = pid and info = info, unfolded md(1), OF Suc.prems(1-3) i mok Suc.prems(7,8) dbg Suc.prems(9) fr] by blast
  define s1 where "s1 = s\<lparr>bs_km := (bs_km s)\<lparr>kn_pg := pg1, kn_con := con1\<rparr>,
      bs_kst := module_process (boot_proc bl i) (boot_thread bl i) pid pd (e_entry (module_hdr ?m md)) 0x80000000 (bl_kstack_top bl) (bs_kst s)\<rparr>"
  have kp: "kphys pg1 (kt_boot_page_directory kt) = ?bd" unfolding kphys_def hv by simp
  note W = above_walk [OF o Suc.prems(1)]
  have all: "module_ok ?m ?bd ?lo x" if "x \<in> set mds'" for x using Suc.prems(6) mds(1) that by simp
  have fo: "frames_of (pmem pg1) mds' = frames_of ?m mds'"
    unfolding frames_of_def using module_keep(2) [OF o Suc.prems(1) all] by (intro arg_cong [of _ _ sum_list] map_cong) simp_all
  have he: "map (\<lambda>md. e_entry (module_hdr (pmem pg1) md)) mds' = map (\<lambda>md. e_entry (module_hdr ?m md)) mds'"
    using module_keep(1) [OF o Suc.prems(1) all] by (intro map_cong) simp_all
  have s1: "kn_pg (bs_km s1) = pg1" "kn_info (bs_km s1) = kn_info (bs_km s)" by (simp_all add: s1_def)
  have "\<exists>pg con pds lim. load_modules debug kt bl n (i + 1) (pid + 1) info1 s1 = Inr (s1\<lparr>bs_km := (bs_km s1)\<lparr>kn_pg := pg, kn_con := con\<rparr>,
        bs_kst := boot_kst bl (zip pds (map (\<lambda>md. e_entry (module_hdr (pmem pg1) md)) mds')) (i + 1) (pid + 1) (bs_kst s1)\<rparr>)
    \<and> length pds = n \<and> lim 0 = unat (mm_addr pg1) \<and> lim n = unat (mm_addr pg) \<and> (\<forall>j < n. lim j \<le> lim (Suc j))
    \<and> (\<forall>j < n. module_loaded (pmem pg1) (pmem pg) ?bd (pds ! j) (lim j) (lim (Suc j)) (mds' ! j))
    \<and> only_in (above (unat (mm_addr pg1))) (pmem pg1) (pmem pg) \<and> frames pg N \<and> high_vma pg = high_vma pg1 \<and> mm_end pg = mm_end pg1"
  proof (rule Suc.IH [where s = s1 and i = "i + 1" and mds = mds' and info = info1 and pid = "pid + 1", unfolded s1 kp])
    show "pd_ok (pmem pg1) ?bd (unat (mm_addr pg1))" by (rule pd_ok_mono [OF W(2) le])
    show "pde (pmem pg1) ?bd 511 = 0" "pde (pmem pg1) ?bd 512 = 0" using W(1) Suc.prems(2,3) by simp_all
    show "drop (i + 1) (modules (kn_info (bs_km s))) = mds' @ rest" "n = length mds'" by (rule md(2), rule mds(2))
    show "\<forall>x \<in> set mds'. module_ok (pmem pg1) ?bd (unat (mm_addr pg1)) x" using module_ok_keep [OF o Suc.prems(1) all le] by blast
    show "unat (mm_end pg1) \<le> unat (high_vma pg1)" using Suc.prems(9) me hv by simp
    show "frames pg1 (frames_of (pmem pg1) mds' + N)" using fr1 fo by simp
    show "\<forall>x \<in> set mds'. asserted_sizes debug (module_phdrs (pmem pg1) x)"
      using Suc.prems(11) mds(1) module_keep(2) [OF o Suc.prems(1) all] by simp
  qed (rule info1)+
  then obtain pg con pds lim where r: "load_modules debug kt bl n (i + 1) (pid + 1) info1 s1 = Inr (s1\<lparr>bs_km := (bs_km s1)\<lparr>kn_pg := pg, kn_con := con\<rparr>,
        bs_kst := boot_kst bl (zip pds (map (\<lambda>md. e_entry (module_hdr ?m md)) mds')) (i + 1) (pid + 1) (bs_kst s1)\<rparr>)"
    and pds: "length pds = n" and lim: "lim 0 = unat (mm_addr pg1)" "lim n = unat (mm_addr pg)" "\<forall>j < n. lim j \<le> lim (Suc j)"
    and ml': "\<forall>j < n. module_loaded (pmem pg1) (pmem pg) ?bd (pds ! j) (lim j) (lim (Suc j)) (mds' ! j)"
    and o': "only_in (above (unat (mm_addr pg1))) (pmem pg1) (pmem pg)" and rest: "frames pg N" "high_vma pg = high_vma pg1" "mm_end pg = mm_end pg1"
    unfolding he by blast
  have first: "module_loaded ?m (pmem pg) ?bd pd ?lo (lim 0) md"
    unfolding lim(1) using module_loaded_keep [OF ml o' module_segs [OF mok]] .
  have later: "module_loaded ?m (pmem pg) ?bd (pds ! j) (lim j) (lim (Suc j)) (mds' ! j)" if "j < n" for j
    using ml' that mds(2) by (intro module_loaded_src [OF _ o Suc.prems(1) all]) auto
  let ?lim = "case_nat ?lo lim"
  have "\<forall>j < Suc n. module_loaded ?m (pmem pg) ?bd ((pd # pds) ! j) (?lim j) (?lim (Suc j)) (mds ! j)"
    using first later mds(1) by (auto simp: less_Suc_eq_0_disj)
  moreover have "\<forall>j < Suc n. ?lim j \<le> ?lim (Suc j)" using lim le by (auto simp: less_Suc_eq_0_disj)
  moreover have "only_in (above ?lo) ?m (pmem pg)" by (rule only_above_trans [OF o o' le])
  moreover have "load_modules debug kt bl (Suc n) i pid info s = Inr (s\<lparr>bs_km := (bs_km s)\<lparr>kn_pg := pg, kn_con := con\<rparr>,
        bs_kst := boot_kst bl (zip (pd # pds) (map (\<lambda>md. e_entry (module_hdr ?m md)) mds)) i pid (bs_kst s)\<rparr>)"
    using st r mds(1) by (simp add: s1_def)
  ultimately show ?case
    using pds lim(2) rest hv me by (intro exI [of _ pg] exI [of _ con] exI [of _ "pd # pds"] exI [of _ ?lim]) simp
qed

section \<open>The kernel objects of the modules\<close>

lemma boot_objs_inj:
  assumes "i < 8" "j < 8"
  shows "boot_proc bl i = boot_proc bl j \<longleftrightarrow> i = j" "boot_thread bl i = boot_thread bl j \<longleftrightarrow> i = j"
proof -
  have u: "unat (of_nat n * c :: u32) = n * unat c" if "n < 8" "unat c < 100" for n c
  proof -
    have "n * unat c < 8 * 100" using that by (intro mult_strict_mono) auto
    then show ?thesis using that by (simp add: unat_word_ariths unat_of_nat)
  qed
  have e: "of_nat i * c = (of_nat j * c :: u32) \<longleftrightarrow> i = j" if "unat c < 100" "0 < unat c" for c
  proof
    assume "of_nat i * c = (of_nat j * c :: u32)"
    then have "i * unat c = j * unat c" using u [OF assms(1) that(1)] u [OF assms(2) that(1)] by metis
    then show "i = j" using that(2) by simp
  qed simp
  show "boot_proc bl i = boot_proc bl j \<longleftrightarrow> i = j" using e [of PROC_SIZE] by (simp add: boot_proc_def PROC_SIZE_def)
  show "boot_thread bl i = boot_thread bl j \<longleftrightarrow> i = j" using e [of TCB_SIZE] by (simp add: boot_thread_def TCB_SIZE_def)
qed

lemma module_process_at:
  "procs (module_process p t pid pd e sp ks k) = (procs k)(p := (procs k p)\<lparr>page_dir := pd, proc_priority := 0, proc_id := pid, threads := t, thread_count := 1\<rparr>)"
    "tcbs (module_process p t pid pd e sp ks k) = (tcbs k)(t := (tcbs k t)\<lparr>tcb_proc := p, sched_ctx := (sched_ctx (tcbs k t))\<lparr>priority := 0\<rparr>, tcb_id := 0,
       exec_ctx := (exec_ctx (tcbs k t))\<lparr>tc_esp := sp, tc_eip := e, tc_ss := 0x23, tc_ds := 0x23, tc_cs := 0x1B, tc_eflags := THREAD_DEFAULT_EFLAGS,
         gp_regs_state := zero_gp_regs\<rparr>\<rparr>)"
    "lh (module_process p t pid pd e sp ks k) = lh k" "ready_queue (module_process p t pid pd e sp ks k) = ready_queue k" "current_proc (module_process p t pid pd e sp ks k) = current_proc k" "cur_exec_ctx (module_process p t pid pd e sp ks k) = cur_exec_ctx k"
  by (simp_all add: module_process_def Let_def native_create_thread_def upd_tcb_def)

lemma boot_kst_keep:
  "lh (boot_kst bl ps i pid k) = lh k" "ready_queue (boot_kst bl ps i pid k) = ready_queue k"
  "current_proc (boot_kst bl ps i pid k) = current_proc k" "cur_exec_ctx (boot_kst bl ps i pid k) = cur_exec_ctx k"
  "x \<notin> boot_proc bl ` {i..<i + length ps} \<Longrightarrow> procs (boot_kst bl ps i pid k) x = procs k x"
  "y \<notin> boot_thread bl ` {i..<i + length ps} \<Longrightarrow> tcbs (boot_kst bl ps i pid k) y = tcbs k y"
  by (induction bl ps i pid k rule: boot_kst.induct) (auto simp: module_process_at image_iff)

text \<open>Process and thread of module \<open>j\<close>.\<close>

definition started :: "kstate \<Rightarrow> boot_links \<Rightarrow> nat \<Rightarrow> paddr_t \<Rightarrow> vaddr_t \<Rightarrow> bool" where
  "started k bl j pd e \<longleftrightarrow>
     (let p = procs k (boot_proc bl j); t = tcbs k (boot_thread bl j); c = exec_ctx t
      in page_dir p = pd \<and> proc_id p = of_nat j + 1 \<and> threads p = boot_thread bl j \<and> thread_count p = 1
       \<and> tcb_proc t = boot_proc bl j \<and> tcb_id t = 0 \<and> priority (sched_ctx t) = 0
       \<and> tc_eip c = e \<and> tc_esp c = 0x80000000 \<and> tc_cs c = 0x1B \<and> tc_ss c = 0x23 \<and> tc_ds c = 0x23 \<and> tc_eflags c = THREAD_DEFAULT_EFLAGS
       \<and> gp_regs_state c = zero_gp_regs)"

lemma boot_kst_at:
  assumes "i + length ps \<le> 8" "j < length ps" "pid = of_nat i + 1"
  shows "started (boot_kst bl ps i pid k) bl (i + j) (fst (ps ! j)) (snd (ps ! j))"
  using assms
proof (induction ps arbitrary: i j pid k)
  case (Cons x ps)
  obtain pd e where x: "x = (pd, e)" by (cases x)
  let ?k = "module_process (boot_proc bl i) (boot_thread bl i) pid pd e 0x80000000 (bl_kstack_top bl) k"
  show ?case
  proof (cases j)
    case 0
    have "boot_proc bl i \<notin> boot_proc bl ` {i + 1..<i + 1 + length ps}" "boot_thread bl i \<notin> boot_thread bl ` {i + 1..<i + 1 + length ps}"
      using boot_objs_inj Cons.prems(1) by fastforce+
    then show ?thesis using 0 x Cons.prems(3) boot_kst_keep(5,6) [of _ bl "i + 1" ps "pid + 1" ?k] by (simp add: started_def Let_def module_process_at)
  next
    case (Suc l)
    then show ?thesis using Cons.IH [of "i + 1" l "pid + 1" ?k] Cons.prems x by (simp add: ac_simps)
  qed
qed simp


section \<open>Isolation\<close>

lemma walk_same_entries:
  assumes ok: "pd_ok m pd lim" "pd_ok m' pd' lim'" and p: "pte_at m' pd' (vpn va) = pte_at m pd (vpn va)"
    and d: "\<forall>i < 1024. pde m pd i \<noteq> 0 \<longrightarrow> pde m' pd' i = pde m pd i"
  shows "page_walk m' pd' va = page_walk m pd va"
proof (cases "pte_at m pd (vpn va) = 0")
  case True
  then show ?thesis using p by (simp add: page_walk_pte [OF ok(1)] page_walk_pte [OF ok(2)])
next
  case False
  then have "vpn va div 1024 < 1024" "pde m pd (vpn va div 1024) \<noteq> 0" by (auto simp: pte_at_def split: if_splits)
  then have e: "pde m' pd' (vpn va div 1024) = pde m pd (vpn va div 1024)" using d by blast
  show ?thesis unfolding page_walk_pte [OF ok(1)] page_walk_pte [OF ok(2)] p e ..
qed

lemma limits_mono:
  fixes lim :: "nat \<Rightarrow> nat"
  assumes "\<forall>j < n. lim j \<le> lim (Suc j)" "a \<le> b" "b \<le> n"
  shows "lim a \<le> lim b"
  using assms(2,3)
proof (induction b)
  case (Suc b)
  then show ?case using assms(1) by (cases "a = Suc b") (auto intro: order_trans)
qed simp

lemma module_frames_apart:
  assumes "module_loaded m m' bd pd lo hi md" "module_loaded m m' bd pd' lo' hi' md'" "hi \<le> lo'"
  shows "pd \<noteq> pd'" "frame m' pd ` private_pages m md \<inter> frame m' pd' ` private_pages m md' = {}"
proof -
  have a: "unat (frame m' pd u) + 4096 \<le> hi" if "u \<in> private_pages m md" for u
    using assms(1) that unfolding module_loaded_def owned_def by blast
  have b: "lo' \<le> unat (frame m' pd' u)" if "u \<in> private_pages m md'" for u
    using assms(2) that unfolding module_loaded_def owned_def by blast
  have "unat pd + 4096 \<le> hi" "unat pd' = lo'" using assms(1,2) by (auto simp: module_loaded_def pd_ok_def)
  then show "pd \<noteq> pd'" using assms(3) by auto
  have "frame m' pd u \<noteq> frame m' pd' v" if "u \<in> private_pages m md" "v \<in> private_pages m md'" for u v
    using a [OF that(1)] b [OF that(2)] assms(3) by auto
  then show "frame m' pd ` private_pages m md \<inter> frame m' pd' ` private_pages m md' = {}" by blast
qed

lemma module_view:
  assumes "module_loaded m m' bd pd lo hi md" "pd_ok m bd lim"
  shows "\<forall>ph \<in> set (loadable (module_phdrs m md)). \<forall>k < unat (p_filesz ph).
              user_byte m' pd (p_vaddr ph + of_nat k) = Some (m (start_paddr md + p_offset ph + of_nat k))"
    "\<forall>u \<in> stack_pages. pte_at m' pd u AND 0xFFF = 7"
    "\<forall>va. vpn va \<notin> private_pages m md \<longrightarrow> page_walk m' pd va = page_walk m bd va"
    "\<forall>u \<in> private_pages m md. lo \<le> unat (frame m' pd u)"
proof -
  note L = assms(1) [unfolded module_loaded_def]
  show "\<forall>ph \<in> set (loadable (module_phdrs m md)). \<forall>k < unat (p_filesz ph).
              user_byte m' pd (p_vaddr ph + of_nat k) = Some (m (start_paddr md + p_offset ph + of_nat k))"
    using L unfolding seg_loaded_def by blast
  show "\<forall>u \<in> stack_pages. pte_at m' pd u AND 0xFFF = 7" using L by blast
  show "\<forall>va. vpn va \<notin> private_pages m md \<longrightarrow> page_walk m' pd va = page_walk m bd va"
    using L walk_same_entries [OF assms(2), of m' pd hi] by blast
  show "\<forall>u \<in> private_pages m md. lo \<le> unat (frame m' pd u)" using L unfolding owned_def by blast
qed

text \<open>
  What a kernel built with assertions asks of the modules beyond that: fewer than \<^verbatim>\<open>CONF_MAX_BOOT_MODULES\<close> of
  them, and segments whose size in memory is a multiple of the page size. Without assertions it is no condition.
\<close>

definition build_ok :: "bool \<Rightarrow> mem \<Rightarrow> boot_module list \<Rightarrow> nat \<Rightarrow> bool" where
  "build_ok debug m mods n \<longleftrightarrow>
     (debug \<longrightarrow> n < 8 \<and> (\<forall>i < n. \<forall>ph \<in> set (loadable (module_phdrs m (mods ! i))). p_memsz ph mod 4096 = 0))"

lemma load_boot_modules_ok:
  fixes s :: boot_state and kt :: ktables and bl :: boot_links
  defines "m \<equiv> pmem (kn_pg (bs_km s))" and "lo \<equiv> unat (mm_addr (kn_pg (bs_km s)))" and "bd \<equiv> kphys (kn_pg (bs_km s)) (kt_boot_page_directory kt)"
    and "n \<equiv> unat (no_modules (kn_info (bs_km s)))" and "mods \<equiv> modules (kn_info (bs_km s))"
  assumes a: "pd_ok m bd lo" "pde m bd 511 = 0" "pde m bd 512 = 0" "n \<le> length mods" "n \<le> 8" "\<forall>i < n. module_ok m bd lo (mods ! i)"
    "unat (mm_end (kn_pg (bs_km s))) \<le> unat (high_vma (kn_pg (bs_km s)))" "frames (kn_pg (bs_km s)) (frames_of m (take n mods) + N)" "build_ok debug m mods n"
  shows "\<exists>pg con pd lim k. load_boot_modules debug kt bl s = Inr (s\<lparr>bs_km := (bs_km s)\<lparr>kn_pg := pg, kn_con := con\<rparr>, bs_kst := k\<rparr>)
    \<and> lim 0 = lo \<and> (\<forall>j < n. lim j \<le> lim (Suc j)) \<and> (\<forall>j < n. module_loaded m (pmem pg) bd (pd j) (lim j) (lim (Suc j)) (mods ! j))
    \<and> only_in (above lo) m (pmem pg) \<and> (\<forall>j < n. started k bl j (pd j) (e_entry (module_hdr m (mods ! j))))
    \<and> lh k = lh (bs_kst s) \<and> ready_queue k = ready_queue (bs_kst s) \<and> current_proc k = current_proc (bs_kst s)
    \<and> frames pg N \<and> high_vma pg = high_vma (kn_pg (bs_km s)) \<and> mm_end pg = mm_end (kn_pg (bs_km s))"
proof -
  let ?mds = "take n mods" and ?info = "boot_exec_info debug"
  have mds: "drop 0 mods = ?mds @ drop n mods" "n = length ?mds" using a(4) by simp_all
  have ok: "\<forall>md \<in> set ?mds. module_ok m bd lo md" using a(4,6) by (auto simp: in_set_conv_nth)
  have "asserted_sizes debug (module_phdrs m (mods ! i))" if "i < n" for i using a(9) that by (simp add: build_ok_def asserted_sizes_def)
  then have as: "\<forall>md \<in> set ?mds. asserted_sizes debug (module_phdrs m md)" using a(4) by (auto simp: in_set_conv_nth)
  have info: "ei_mmap ?info = Some (bootstrap_elf_mmap debug)" "ei_on_load ?info = Some bootstrap_elf_on_load" by (simp_all add: boot_exec_info_def)
  obtain pg con pds lim where r: "load_modules debug kt bl n 0 1 ?info s = Inr (s\<lparr>bs_km := (bs_km s)\<lparr>kn_pg := pg, kn_con := con\<rparr>,
        bs_kst := boot_kst bl (zip pds (map (\<lambda>md. e_entry (module_hdr m md)) ?mds)) 0 1 (bs_kst s)\<rparr>)"
    and len: "length pds = n" and lim: "lim 0 = lo" "\<forall>j < n. lim j \<le> lim (Suc j)"
    and ml: "\<forall>j < n. module_loaded m (pmem pg) bd (pds ! j) (lim j) (lim (Suc j)) (?mds ! j)" and o: "only_in (above lo) m (pmem pg)"
    and rest: "frames pg N" "high_vma pg = high_vma (kn_pg (bs_km s))" "mm_end pg = mm_end (kn_pg (bs_km s))"
    using load_modules_ok [where s = s and kt = kt and bl = bl and i = 0 and pid = 1 and mds = ?mds and rest = "drop n mods" and n = n and info = ?info and N = N and debug = debug]
      a(1-3,7,8) mds ok info as unfolding m_def lo_def bd_def mods_def by auto
  let ?k = "boot_kst bl (zip pds (map (\<lambda>md. e_entry (module_hdr m md)) ?mds)) 0 1 (bs_kst s)"
  have st: "started ?k bl j (pds ! j) (e_entry (module_hdr m (mods ! j)))" if "j < n" for j
    using boot_kst_at [of 0 "zip pds (map (\<lambda>md. e_entry (module_hdr m md)) ?mds)" j 1 bl "bs_kst s"] that len a(4,5) by simp
  have run: "load_boot_modules debug kt bl s = Inr (s\<lparr>bs_km := (bs_km s)\<lparr>kn_pg := pg, kn_con := con\<rparr>, bs_kst := ?k\<rparr>)"
    using r a(9) by (auto simp: load_boot_modules_def Let_def n_def build_ok_def ASSERT_def word_less_nat_alt CONF_MAX_BOOT_MODULES_def)
  show ?thesis
    by (rule exI [of _ pg], rule exI [of _ con], rule exI [of _ "\<lambda>j. pds ! j"], rule exI [of _ lim], rule exI [of _ ?k])
      (use run st ml lim o rest in \<open>simp add: boot_kst_keep\<close>)
qed

text \<open>C7: the boot modules become isolated processes. When the boot directory is well formed and every
  module is an acceptable executable with segments outside the kernel's page tables,
  \<^verbatim>\<open>load_boot_modules\<close> gives module \<open>i\<close> a process with the identifier \<open>i + 1\<close> and one thread that will
  start at the entry point of the image in user mode, on a stack below \<open>0x80000000\<close>; in its own
  directory the bytes of all its segments can be read at their addresses; every other page is mapped
  as in the boot directory; its pages have frames from the free memory; different processes have
  different directories and share none of these frames; and memory below the free memory, with
  the kernel and the images, is not changed. This is so for both builds; with assertions, the modules
  have to meet them (\<open>build_ok\<close>: fewer than eight, and sizes in memory that are multiples of the page size).\<close>

theorem load_boot_modules_isolates:
  fixes s :: boot_state and kt :: ktables and bl :: boot_links
  defines "m \<equiv> pmem (kn_pg (bs_km s))" and "lo \<equiv> unat (mm_addr (kn_pg (bs_km s)))" and "bd \<equiv> kphys (kn_pg (bs_km s)) (kt_boot_page_directory kt)"
    and "n \<equiv> unat (no_modules (kn_info (bs_km s)))" and "mods \<equiv> modules (kn_info (bs_km s))"
  assumes "pd_ok m bd lo" "pde m bd 511 = 0" "pde m bd 512 = 0" "n \<le> length mods" "n \<le> 8" "\<forall>i < n. module_ok m bd lo (mods ! i)"
    and "unat (mm_end (kn_pg (bs_km s))) \<le> unat (high_vma (kn_pg (bs_km s)))" "frames (kn_pg (bs_km s)) (frames_of m (take n mods))"
    and "build_ok debug m mods n"
  shows "\<exists>s' pd. load_boot_modules debug kt bl s = Inr s'
    \<and> (\<forall>i < n. started (bs_kst s') bl i (pd i) (e_entry (module_hdr m (mods ! i)))
         \<and> (\<forall>ph \<in> set (loadable (module_phdrs m (mods ! i))). \<forall>k < unat (p_filesz ph).
              user_byte (pmem (kn_pg (bs_km s'))) (pd i) (p_vaddr ph + of_nat k) = Some (m (start_paddr (mods ! i) + p_offset ph + of_nat k)))
         \<and> (\<forall>u \<in> stack_pages. pte_at (pmem (kn_pg (bs_km s'))) (pd i) u AND 0xFFF = 7)
         \<and> (\<forall>va. vpn va \<notin> private_pages m (mods ! i) \<longrightarrow> page_walk (pmem (kn_pg (bs_km s'))) (pd i) va = page_walk m bd va)
         \<and> (\<forall>u \<in> private_pages m (mods ! i). lo \<le> unat (frame (pmem (kn_pg (bs_km s'))) (pd i) u)))
    \<and> (\<forall>i < n. \<forall>j < n. i \<noteq> j \<longrightarrow> pd i \<noteq> pd j
         \<and> frame (pmem (kn_pg (bs_km s'))) (pd i) ` private_pages m (mods ! i) \<inter> frame (pmem (kn_pg (bs_km s'))) (pd j) ` private_pages m (mods ! j) = {})
    \<and> only_in (above lo) m (pmem (kn_pg (bs_km s')))"
proof -
  note a = assms(6-)
  obtain pg con pd lim k where run: "load_boot_modules debug kt bl s = Inr (s\<lparr>bs_km := (bs_km s)\<lparr>kn_pg := pg, kn_con := con\<rparr>, bs_kst := k\<rparr>)"
    and lim: "lim 0 = lo" "\<forall>j < n. lim j \<le> lim (Suc j)"
    and ml: "\<forall>j < n. module_loaded m (pmem pg) bd (pd j) (lim j) (lim (Suc j)) (mods ! j)" and o: "only_in (above lo) m (pmem pg)"
    and st: "\<forall>j < n. started k bl j (pd j) (e_entry (module_hdr m (mods ! j)))"
    using load_boot_modules_ok [where s = s and kt = kt and bl = bl and N = 0 and debug = debug] a unfolding m_def lo_def bd_def n_def mods_def by auto
  note ml' = ml [rule_format]
  have view: "(\<forall>ph \<in> set (loadable (module_phdrs m (mods ! j))). \<forall>k < unat (p_filesz ph).
              user_byte (pmem pg) (pd j) (p_vaddr ph + of_nat k) = Some (m (start_paddr (mods ! j) + p_offset ph + of_nat k)))
         \<and> (\<forall>u \<in> stack_pages. pte_at (pmem pg) (pd j) u AND 0xFFF = 7)
         \<and> (\<forall>va. vpn va \<notin> private_pages m (mods ! j) \<longrightarrow> page_walk (pmem pg) (pd j) va = page_walk m bd va)
         \<and> (\<forall>u \<in> private_pages m (mods ! j). lo \<le> unat (frame (pmem pg) (pd j) u))" if j: "j < n" for j
  proof -
    have "lo \<le> lim j" using limits_mono [OF lim(2), of 0 j] j lim(1) by simp
    then have "\<forall>u \<in> private_pages m (mods ! j). lo \<le> unat (frame (pmem pg) (pd j) u)"
      using module_view(4) [OF ml' [OF j] a(1)] order_trans by blast
    then show ?thesis using module_view(1-3) [OF ml' [OF j] a(1)] by blast
  qed
  have apart: "pd i \<noteq> pd j \<and> frame (pmem pg) (pd i) ` private_pages m (mods ! i) \<inter> frame (pmem pg) (pd j) ` private_pages m (mods ! j) = {}"
    if ij: "i < n" "j < n" "i \<noteq> j" for i j
  proof (cases "i < j")
    case True
    then show ?thesis using module_frames_apart [OF ml' [OF ij(1)] ml' [OF ij(2)]] limits_mono [OF lim(2), of "Suc i" j] ij by simp
  next
    case False
    then show ?thesis using module_frames_apart [OF ml' [OF ij(2)] ml' [OF ij(1)]] limits_mono [OF lim(2), of "Suc j" i] ij by (simp add: Int_commute)
  qed
  show ?thesis
    by (rule exI [of _ "s\<lparr>bs_km := (bs_km s)\<lparr>kn_pg := pg, kn_con := con\<rparr>, bs_kst := k\<rparr>"], rule exI [of _ pd])
      (use run st view apart o in \<open>simp del: Un_iff\<close>)
qed

definition sample_modules :: "boot_module list" where
  "sample_modules = replicate 2 \<lparr>start_paddr = 0x3000, end_paddr = 0x4000, start_vaddr = 0, mod_name = [0x6D, 0]\<rparr>"

definition sample_bs :: boot_state where
  "sample_bs = \<lparr>bs_km = sample_kmem\<lparr>kn_pg := sample_exec, kn_info := zero_kinfo\<lparr>no_modules := 2, modules := sample_modules\<rparr>\<rparr>, bs_kst = sample_kstate\<rparr>"

definition sample_bl :: boot_links where
  "sample_bl = \<lparr>bl_boot_processes = 0xC0010000, bl_boot_threads = 0xC0011000, bl_kstack_top = 0xC0020000\<rparr>"

lemma sample_module_ok:
  fixes md :: boot_module
  assumes "start_paddr md = 0x3000"
  shows "module_ok sample_mem 0x1000 0x100000 md" "frames_needed (module_phdrs sample_mem md) = 2" "module_hdr sample_mem md = read_hdr sample_mem 0x3000"
    "\<exists>ph \<in> set (loadable (module_phdrs sample_mem md)). p_vaddr ph = 0x400000 \<and> p_filesz ph = 4 \<and> p_offset ph = 0x54 \<and> seg_range ph = {0x400}"
    "ph \<in> set (loadable (module_phdrs sample_mem md)) \<Longrightarrow> p_memsz ph mod 4096 = 0"
proof -
  let ?ph = "\<lparr>p_type = 1, p_offset = 0x54, p_vaddr = 0x400000, p_paddr = 0x400000, p_filesz = 4, p_memsz = 0x1000, p_flags = 5, p_align = 0x1000\<rparr> :: Elf_Phdr"
  have h: "module_hdr sample_mem md = read_hdr sample_mem 0x3000" using assms by (simp add: module_hdr_def)
  have phs: "module_phdrs sample_mem md = [?ph]" using assms by (simp add: module_phdrs_def h sample_hdr phdrs_def sample_phdr)
  have ph: "loadable [?ph] = [?ph]" "seg_pages ?ph = 1" "seg_range ?ph = {0x400}"
    by (auto simp: loadable_def seg_loads_def PT_LOAD_def seg_pages_def seg_range_def)
  have "seg_ok ?ph" by (simp add: seg_ok_def ph(2))
  then have sg: "segs_ok sample_mem 0x1000 0x100000 0x3000 [?ph]" by (simp add: segs_ok_def ph sample_directory sample_image_at)
  have acc: "elf_check_hdr (read_hdr sample_mem 0x3000) = ELF_OK" "elf_check_arch_supported (read_hdr sample_mem 0x3000) = ELF_OK"
    unfolding sample_hdr by (simp_all add: elf_check_hdr_def elf_magic_def elf_check_arch_supported_def EIDX_CLASS_def EIDX_BYTE_ORDER_def EIDX_VERSION_def ARCH_ELF_CLASS_def
      ARCH_ELF_BYTE_ORDER_def ARCH_ELF_MACHINE_def ARCH_ELF_TARGET_VERSION_def ET_REL_def ET_EXEC_def nth_Cons' upt_rec)
  show "module_ok sample_mem 0x1000 0x100000 md"
    using acc sg assms unfolding module_ok_def h phs by (simp add: sample_hdr ph sample_image_at sample_directory stack_pages_def)
  show "frames_needed (module_phdrs sample_mem md) = 2" unfolding phs by (simp add: frames_needed_def ph)
  show "module_hdr sample_mem md = read_hdr sample_mem 0x3000" by (rule h)
  show "\<exists>ph \<in> set (loadable (module_phdrs sample_mem md)). p_vaddr ph = 0x400000 \<and> p_filesz ph = 4 \<and> p_offset ph = 0x54 \<and> seg_range ph = {0x400}"
    unfolding phs by (simp add: ph)
  show "ph \<in> set (loadable (module_phdrs sample_mem md)) \<Longrightarrow> p_memsz ph mod 4096 = 0" unfolding phs by (simp add: ph)
qed

theorem load_boot_modules_isolates_witness:
  "\<exists>s' pd. load_boot_modules True (sample_tables\<lparr>kt_boot_page_directory := 0x1000\<rparr>) sample_bl sample_bs = Inr s'
     \<and> user_byte (pmem (kn_pg (bs_km s'))) (pd 0) 0x400003 = Some 0xEF \<and> user_byte (pmem (kn_pg (bs_km s'))) (pd 1) 0x400003 = Some 0xEF
     \<and> frame (pmem (kn_pg (bs_km s'))) (pd 0) 0x400 \<noteq> frame (pmem (kn_pg (bs_km s'))) (pd 1) 0x400
     \<and> started (bs_kst s') sample_bl 1 (pd (1 :: nat)) 0x400000"
proof -
  let ?kt = "sample_tables\<lparr>kt_boot_page_directory := 0x1000\<rparr>"
  have f: "kn_pg (bs_km sample_bs) = sample_exec" "kn_info (bs_km sample_bs) = zero_kinfo\<lparr>no_modules := 2, modules := sample_modules\<rparr>" by (simp_all add: sample_bs_def)
  have g: "pmem sample_exec = sample_mem" "unat (mm_addr sample_exec) = 0x100000" "kphys sample_exec 0x1000 = 0x1000" "unat (mm_end sample_exec) \<le> unat (high_vma sample_exec)"
    "frames sample_exec 20" "length sample_modules = 2" "unat (no_modules (zero_kinfo\<lparr>no_modules := 2, modules := sample_modules\<rparr>)) = 2"
    by (simp_all add: sample_exec_def sample_pg_def frames_def kphys_def mm_end_def sample_modules_def)
  have md: "start_paddr (sample_modules ! i) = 0x3000" if "i < 2" for i using that by (simp add: sample_modules_def)
  note M = sample_module_ok [OF md]
  have fo: "frames_of sample_mem (take 2 sample_modules) = 20"
    using M(2) [of 0] M(2) [of 1] by (simp add: frames_of_def sample_modules_def numeral_2_eq_2)
  have B: "build_ok True sample_mem sample_modules 2" using M(5) by (auto simp: build_ok_def)
  have ok: "pd_ok sample_mem 0x1000 0x100000" by (simp add: pd_ok_def pg_ok_def sample_directory)
  obtain s' pd where s': "load_boot_modules True ?kt sample_bl sample_bs = Inr s'"
    and V: "\<forall>i < 2. started (bs_kst s') sample_bl i (pd i) (e_entry (module_hdr sample_mem (sample_modules ! i)))
       \<and> (\<forall>ph \<in> set (loadable (module_phdrs sample_mem (sample_modules ! i))). \<forall>k < unat (p_filesz ph).
              user_byte (pmem (kn_pg (bs_km s'))) (pd i) (p_vaddr ph + of_nat k) = Some (sample_mem (start_paddr (sample_modules ! i) + p_offset ph + of_nat k)))
       \<and> (\<forall>u \<in> stack_pages. pte_at (pmem (kn_pg (bs_km s'))) (pd i) u AND 0xFFF = 7)
       \<and> (\<forall>va. vpn va \<notin> private_pages sample_mem (sample_modules ! i) \<longrightarrow> page_walk (pmem (kn_pg (bs_km s'))) (pd i) va = page_walk sample_mem 0x1000 va)
       \<and> (\<forall>u \<in> private_pages sample_mem (sample_modules ! i). 0x100000 \<le> unat (frame (pmem (kn_pg (bs_km s'))) (pd i) u))"
    and D: "\<forall>i < 2. \<forall>j < 2. i \<noteq> j \<longrightarrow> pd i \<noteq> pd j
       \<and> frame (pmem (kn_pg (bs_km s'))) (pd i) ` private_pages sample_mem (sample_modules ! i) \<inter> frame (pmem (kn_pg (bs_km s'))) (pd j) ` private_pages sample_mem (sample_modules ! j) = {}"
    using load_boot_modules_isolates [where s = sample_bs and kt = ?kt and bl = sample_bl and debug = True, unfolded f] ok B sample_directory(1) M(1) g fo by (auto simp del: Un_iff)
  have d: "frame (pmem (kn_pg (bs_km s'))) (pd 0) ` private_pages sample_mem (sample_modules ! 0) \<inter> frame (pmem (kn_pg (bs_km s'))) (pd 1) ` private_pages sample_mem (sample_modules ! 1) = {}"
    using D [rule_format, of 0 1] by simp
  note v = V [rule_format]
  have byte: "user_byte (pmem (kn_pg (bs_km s'))) (pd i) 0x400003 = Some 0xEF" "0x400 \<in> private_pages sample_mem (sample_modules ! i)" if i: "i < 2" for i
  proof -
    obtain ph where ph: "ph \<in> set (loadable (module_phdrs sample_mem (sample_modules ! i)))" "p_vaddr ph = 0x400000" "p_filesz ph = 4" "p_offset ph = 0x54" "seg_range ph = {0x400}"
      using M(4) [OF i] by blast
    have "user_byte (pmem (kn_pg (bs_km s'))) (pd i) (p_vaddr ph + of_nat 3) = Some (sample_mem (start_paddr (sample_modules ! i) + p_offset ph + of_nat 3))"
      by (rule conjunct1 [OF conjunct2 [OF v [OF i]], rule_format, OF ph(1)]) (simp add: ph(3))
    then show "user_byte (pmem (kn_pg (bs_km s'))) (pd i) 0x400003 = Some 0xEF" using ph md [OF i] by (simp add: sample_mem_def sample_image_def)
    show "0x400 \<in> private_pages sample_mem (sample_modules ! i)" using ph by blast
  qed
  have "started (bs_kst s') sample_bl 1 (pd 1) 0x400000" using conjunct1 [OF v [of 1]] M(3) [of 1] by (simp add: sample_hdr)
  moreover have "frame (pmem (kn_pg (bs_km s'))) (pd 0) 0x400 \<in> frame (pmem (kn_pg (bs_km s'))) (pd 0) ` private_pages sample_mem (sample_modules ! 0)"
    "frame (pmem (kn_pg (bs_km s'))) (pd 1) 0x400 \<in> frame (pmem (kn_pg (bs_km s'))) (pd 1) ` private_pages sample_mem (sample_modules ! 1)"
    by (rule imageI [OF byte(2)], simp)+
  then have "frame (pmem (kn_pg (bs_km s'))) (pd 0) 0x400 \<noteq> frame (pmem (kn_pg (bs_km s'))) (pd 1) 0x400" using d by (metis IntI empty_iff)
  ultimately show ?thesis using s' byte(1) [of 0] byte(1) [of 1] by (intro exI [of _ s'] exI [of _ pd]) simp
qed

section \<open>The first user thread\<close>

lemma started_facts:
  assumes "started k bl j pd e"
  shows "threads (procs k (boot_proc bl j)) = boot_thread bl j" "prio_of k (boot_thread bl j) = 0"
    "tcb_proc (tcbs k (boot_thread bl j)) = boot_proc bl j" "page_dir (procs k (boot_proc bl j)) = pd"
    "arch_return_to_user (exec_ctx (tcbs k (boot_thread bl j))) =
       \<lparr>r_ds = 0x23, r_edi = 0, r_esi = 0, r_ebp = 0, r_ebx = 0, r_edx = 0, r_ecx = 0, r_eax = 0, r_eip = e, r_cs = 0x1B,
        r_eflags = THREAD_DEFAULT_EFLAGS, r_esp = 0x80000000, r_ss = 0x23\<rparr>"
  using assms by (simp_all add: started_def Let_def prio_of_def arch_return_to_user_def ctx_words_def zero_gp_regs_def)

lemma arch_init_kst: "(arch_init bus al m)\<lparr>m_kst := k\<rparr> = arch_init bus al (m\<lparr>m_kst := k\<rparr>)"
  by (simp add: arch_init_def Let_def register_interrupt_callback_def msr_write_def)

definition tasks_apart :: "kstate \<Rightarrow> boot_links \<Rightarrow> nat \<Rightarrow> bool" where
  "tasks_apart k bl n \<longleftrightarrow> (\<forall>i < n. tcb_fits (boot_thread bl i) \<and> boot_proc bl i \<notin> {0, current_proc k}
     \<and> (\<forall>j < READY_QUEUE_LEN. tcb_link (boot_thread bl i) \<noteq> rq_head k j))"

lemma sched_init_tasks:
  assumes st: "\<forall>j < n. started k bl j (pd j) (e j)" and n: "0 < n" "n \<le> 8" and ap: "tasks_apart k bl n"
  shows "\<exists>k'. sched_init debug (Some (sched_rr debug)) (bl_boot_processes bl) n k = Inr (sched_rr debug, k')
    \<and> sched_rel k' (map (boot_thread bl) [1..<n] # replicate 15 [], boot_thread bl 0)
    \<and> (\<forall>i < n. quantum_of k' (boot_thread bl i) = 10 * SEC_NSEC)
    \<and> procs k' = procs k \<and> (\<forall>t. exec_ctx (tcbs k' t) = exec_ctx (tcbs k t) \<and> tcb_proc (tcbs k' t) = tcb_proc (tcbs k t))"
proof -
  have "map (\<lambda>i. threads (procs k (boot_proc bl i))) [0..<n] = map (boot_thread bl) [0..<n]"
    using st started_facts(1) by (intro map_cong) auto
  then have ts: "map (boot_thread bl) [0..<n] = root_threads k (bl_boot_processes bl) n" by (simp add: root_threads_def boot_proc_def)
  have up: "map (boot_thread bl) [0..<n] = boot_thread bl 0 # map (boot_thread bl) [1..<n]" using n(1) by (simp add: upt_conv_Cons)
  have di: "distinct (map (boot_thread bl) [0..<n])" using n(2) boot_objs_inj(2) [of _ _ bl] by (auto simp: distinct_map intro!: inj_onI)
  obtain k' where k': "rr_init (bl_boot_processes bl) n k = Inr k'"
    "sched_rel k' (map (boot_thread bl) [1..<n] # replicate 15 [], boot_thread bl 0)"
    "\<forall>u \<in> set (map (boot_thread bl) [0..<n]). quantum_of k' u = 10 * SEC_NSEC"
    using rr_init_single_priority [OF ts up di] ap st started_facts(2,3) unfolding tasks_apart_def by fastforce
  then show ?thesis using rr_init_frame [OF k'(1)] by (auto simp: sched_init_def sched_rr_def ASSERT_def)
qed

text \<open>The start ends in the first boot module. From a state in which the modules can be loaded, the rest of
  \<^verbatim>\<open>bootstrap\<close> loads them, sets up the processor and the interrupt controller, starts scheduler and clock, and leaves
  to user mode: the instruction pointer is the entry point of the first module, the stack is the user stack, the other
  registers are zero, and the page directory in force is that of the module, in which the bytes of all its segments
  can be read. The threads of the other modules wait in their order, all with a full quantum, and any sequence of timer interrupts that
  follows runs without a fault and loses no thread.\<close>

text \<open>Where the processes of the modules are: each in its own range of frames, known to the scheduler by its directory.\<close>

definition modules_placed :: "mem \<Rightarrow> mem \<Rightarrow> paddr_t \<Rightarrow> nat \<Rightarrow> boot_module list \<Rightarrow> nat \<Rightarrow> boot_links \<Rightarrow> kstate \<Rightarrow> bool" where
  "modules_placed m0 m bd lo mods n bl k \<longleftrightarrow> (\<exists>pd lim. lim 0 = lo \<and> (\<forall>j < n. lim j \<le> lim (Suc j))
     \<and> (\<forall>j < n. module_loaded m0 m bd (pd j) (lim j) (lim (Suc j)) (mods ! j)
          \<and> (let p = procs k (tcb_proc (tcbs k (boot_thread bl j))) in page_dir p = pd j \<and> proc_id p = of_nat j + 1)))"

lemma boot_tasks_ok:
  fixes km :: kmem and kt :: ktables and bl :: boot_links and mach :: "'d machine"
  defines "m \<equiv> pmem (kn_pg km)" and "lo \<equiv> unat (mm_addr (kn_pg km))" and "bd \<equiv> kphys (kn_pg km) (kt_boot_page_directory kt)"
    and "n \<equiv> unat (no_modules (kn_info km))" and "mods \<equiv> modules (kn_info km)"
  assumes "pd_ok m bd lo" "pde m bd 511 = 0" "pde m bd 512 = 0" "n \<le> length mods" "n \<le> 8" "\<forall>i < n. module_ok m bd lo (mods ! i)"
    and "unat (mm_end (kn_pg km)) \<le> unat (high_vma (kn_pg km))" "frames (kn_pg km) (frames_of m (take n mods) + N)" "build_ok debug m mods n"
    and "0 < n" "tasks_apart (m_kst mach) bl n"
    and "pic_on_bus bus mst slv" "length (m_callback mach) = 256" "\<not> bit (irr (mst (m_dev mach))) 7" "\<not> bit (irr (slv (m_dev mach))) 7"
    and "unat (tv_nsec (m_clock mach)) \<le> 1000000000" "\<forall>c \<in> set cs. int_no c = 32" "unat (tv_sec (m_clock mach)) + length cs < 2 ^ 64"
  shows "\<exists>b m'. boot_tasks debug bus kt bl al km mach = Inr (\<lparr>r_ds = 0x23, r_edi = 0, r_esi = 0, r_ebp = 0, r_ebx = 0, r_edx = 0, r_ecx = 0, r_eax = 0,
        r_eip = e_entry (module_hdr m (mods ! 0)), r_cs = 0x1B, r_eflags = THREAD_DEFAULT_EFLAGS, r_esp = 0x80000000, r_ss = 0x23\<rparr>, b)
    \<and> (\<forall>ph \<in> set (loadable (module_phdrs m (mods ! 0))). \<forall>k < unat (p_filesz ph).
         user_byte (pmem (kn_pg (bo_km b))) (cr3 (m_kst (bo_m b))) (p_vaddr ph + of_nat k) = Some (m (start_paddr (mods ! 0) + p_offset ph + of_nat k)))
    \<and> sched_rel (m_kst (bo_m b)) (map (boot_thread bl) [1..<n] # replicate 15 [], boot_thread bl 0)
    \<and> (\<forall>i < n. quantum_of (m_kst (bo_m b)) (boot_thread bl i) = 10 * SEC_NSEC)
    \<and> lines (mst (m_dev (bo_m b))) (slv (m_dev (bo_m b))) = {0, 2}
    \<and> interrupts bus cs (bo_m b) = Inr m'
    \<and> (\<exists>qs r. sched_rel (m_kst m') (qs, r) \<and> add_mset r (mset (concat qs)) = mset (map (boot_thread bl) [0..<n]))
    \<and> only_in (above lo) m (pmem (kn_pg (bo_km b))) \<and> frames (kn_pg (bo_km b)) N \<and> mm_end (kn_pg (bo_km b)) = mm_end (kn_pg km)
    \<and> kn_info (bo_km b) = kn_info km \<and> kn_heap (bo_km b) = kn_heap km
    \<and> modules_placed m (pmem (kn_pg (bo_km b))) bd lo mods n bl (m_kst (bo_m b))
    \<and> timer_ready mst slv (rr_tick_handler debug) (bo_m b)
    \<and> m_callback (bo_m b) = (m_callback mach)[14 := Some Page_fault_handler, 32 := Some Hwclock_irq_handler]"
proof -
  note a = assms(6-)
  let ?s = "\<lparr>bs_km = km, bs_kst = m_kst mach\<rparr>"
  obtain pg con pd lim k where run: "load_boot_modules debug kt bl ?s = Inr (?s\<lparr>bs_km := km\<lparr>kn_pg := pg, kn_con := con\<rparr>, bs_kst := k\<rparr>)"
    and lim: "lim 0 = lo" "\<forall>j < n. lim j \<le> lim (Suc j)"
    and ml: "\<forall>j < n. module_loaded m (pmem pg) bd (pd j) (lim j) (lim (Suc j)) (mods ! j)"
    and st: "\<forall>j < n. started k bl j (pd j) (e_entry (module_hdr m (mods ! j)))"
    and rest: "only_in (above lo) m (pmem pg)" "frames pg N" "mm_end pg = mm_end (kn_pg km)"
    and kk: "lh k = lh (m_kst mach)" "ready_queue k = ready_queue (m_kst mach)" "current_proc k = current_proc (m_kst mach)"
    using load_boot_modules_ok [where s = ?s and kt = kt and bl = bl and N = N and debug = debug] a(1-9) unfolding m_def lo_def bd_def n_def mods_def by auto
  define k0 where "k0 = k\<lparr>cr3 := kt_boot_page_directory kt - high_vma pg\<rparr>"
  define m0 where "m0 = mach\<lparr>m_con := con, m_kst := k0\<rparr>"
  have ap: "tasks_apart k0 bl n" using a(11) kk by (simp add: tasks_apart_def rq_head_def k0_def)
  have st0: "\<forall>j < n. started k0 bl j (pd j) (e_entry (module_hdr m (mods ! j)))" using st by (simp add: started_def k0_def)
  obtain k' where k': "sched_init debug (Some (sched_rr debug)) (bl_boot_processes bl) n k0 = Inr (sched_rr debug, k')"
    and rel: "sched_rel k' (map (boot_thread bl) [1..<n] # replicate 15 [], boot_thread bl 0)"
    and q: "\<forall>i < n. quantum_of k' (boot_thread bl i) = 10 * SEC_NSEC"
    and fr: "procs k' = procs k0" "\<forall>t. exec_ctx (tcbs k' t) = exec_ctx (tcbs k0 t) \<and> tcb_proc (tcbs k' t) = tcb_proc (tcbs k0 t)"
    using sched_init_tasks [OF st0 a(10,5) ap] by blast
  obtain m1 where m1: "ktime_init bus (Some (rr_tick_handler debug)) (arch_init bus al (m0\<lparr>m_kst := k'\<rparr>)) = Inr m1"
    "timer_ready mst slv (rr_tick_handler debug) m1" "lines (mst (m_dev m1)) (slv (m_dev m1)) = {0, 2}" "m_kst m1 = k'" "m_clock m1 = m_clock mach"
    "m_callback m1 = (m_callback mach)[14 := Some Page_fault_handler, 32 := Some Hwclock_irq_handler]"
    using start_clock [OF a(12), where m = "m0\<lparr>m_kst := k'\<rparr>" and tick = "rr_tick_handler debug" and lk = al] a(13-16) by (auto simp: m0_def)
  let ?b = "\<lparr>bo_km = km\<lparr>kn_pg := pg\<lparr>pd_reg := kt_boot_page_directory kt - high_vma pg\<rparr>, kn_con := con\<rparr>, bo_m = m1\<rparr>"
  note s0 = started_facts [OF st0 [rule_format, OF a(10)]]
  have own: "exec_ctx_owner k' = boot_thread bl 0" "cr3 k' = pd 0"
    using rel s0(3,4) fr by (simp_all add: sched_rel_def selected_def exec_ctx_owner_def)
  have boot: "boot_tasks debug bus kt bl al km mach = Inr (\<lparr>r_ds = 0x23, r_edi = 0, r_esi = 0, r_ebp = 0, r_ebx = 0, r_edx = 0, r_ecx = 0, r_eax = 0,
        r_eip = e_entry (module_hdr m (mods ! 0)), r_cs = 0x1B, r_eflags = THREAD_DEFAULT_EFLAGS, r_esp = 0x80000000, r_ss = 0x23\<rparr>, ?b)"
    using run k' m1(1,4) own(1) s0(5) fr(2)
    by (simp add: boot_tasks_def kmem_init_cleanup_def bootstrap_load_boot_mappings_def Let_def arch_init_kst k0_def m0_def n_def sched_rr_def)
  obtain k2 a2 where k2: "rr_ticks debug cs k' = Inr k2" "sched_rel k2 a2" "all_threads a2 = all_threads (map (boot_thread bl) [1..<n] # replicate 15 [], boot_thread bl 0)"
    using rr.ticks_keep [OF rel] by blast
  obtain m' where m': "interrupts bus cs m1 = Inr m'" "m_kst m' = k2"
    using timer_interrupts [OF a(12) m1(2) a(17), of k2] k2(1) m1(4,5) a(18) by auto
  have "\<exists>qs r. sched_rel (m_kst m') (qs, r) \<and> add_mset r (mset (concat qs)) = mset (map (boot_thread bl) [0..<n])"
    using k2(2,3) m'(2) a(10) by (cases a2) (auto simp: upt_conv_Cons)
  moreover have "modules_placed m (pmem pg) bd lo mods n bl k'"
    unfolding modules_placed_def using lim ml st0 fr by (intro exI [of _ pd] exI [of _ lim]) (auto simp: started_def Let_def)
  ultimately show ?thesis
    using boot m'(1) rel q m1(2-4,6) own(2) module_view(1) [OF ml [rule_format, OF a(10)] a(1)] rest
    by (intro exI [of _ ?b] exI [of _ m']) (simp add: frames_def mm_end_def)
qed

lemma sample_tasks_apart: "tasks_apart sample_kstate sample_bl 2"
proof -
  have h: "unat (rq_head sample_kstate j) < 0x9000" if "j < READY_QUEUE_LEN" for j
    using that by (simp add: rq_head_def sample_kstate_def TCB_LIST_def TCB_SIZE_def READY_QUEUE_LEN_def unat_word_ariths unat_of_nat)
  have o: "boot_thread sample_bl 0 = 0xC0011000" "boot_thread sample_bl 1 = 0xC0011060" "boot_proc sample_bl 0 = 0xC0010000" "boot_proc sample_bl 1 \<noteq> 0"
    by (simp_all add: boot_thread_def boot_proc_def sample_bl_def TCB_SIZE_def PROC_SIZE_def)
  have l: "unat (tcb_link 0xC0011000) \<ge> 0x9000" "unat (tcb_link 0xC0011060) \<ge> 0x9000" by (simp_all add: tcb_link_def TCB_LIST_def)
  have "tcb_link 0xC0011000 \<noteq> rq_head sample_kstate j" "tcb_link 0xC0011060 \<noteq> rq_head sample_kstate j" if "j < READY_QUEUE_LEN" for j
    using h [OF that] l by auto
  moreover have "tcb_fits 0xC0011000" "tcb_fits 0xC0011060" "current_proc sample_kstate = 0" by (simp_all add: tcb_fits_def TCB_SIZE_def sample_kstate_def)
  ultimately show ?thesis using o unfolding tasks_apart_def by (auto dest!: less_2_cases)
qed

end
