(* ===== verification/Startup.thy ===== *)
theory Startup
  imports Boot
begin

text \<open>
  The whole start, from the entry of \<^verbatim>\<open>bootstrap\<close> (\<^verbatim>\<open>kern/main.c\<close>) to the first user thread: the kernel's memory
  (\<open>Kmem\<close>), the window of identity-mapped boot memory (\<^verbatim>\<open>bootstrap_identity_map_init_mem\<close>), the modules and the
  tasks (\<open>Boot\<close>), put together under conditions on the state the early boot code leaves.
\<close>

section \<open>The boot memory\<close>

text \<open>The pages the kernel reserves for the modules: nine for each and those of its file.\<close>

definition boot_pages :: "(paddr_t \<times> paddr_t) list \<Rightarrow> nat" where
  "boot_pages rs = sum_list (map (\<lambda>(st, en). 9 + unat (en - st) div 4096) rs)"

lemma boot_mem_limit_pages: "boot_mem_limit p rs = p + of_nat (4096 * boot_pages rs)"
proof (induction rs arbitrary: p)
  case (Cons r rs)
  obtain st en where r: "r = (st, en)" by (cases r)
  have "(en - st) AND ARCH_PAGE_MASK = of_nat (4096 * (unat (en - st) div 4096))" using page_of_addr [of "en - st"] by (simp add: page_masks)
  then have "boot_mem_limit p (r # rs) = boot_mem_limit (p + of_nat (4096 * (9 + unat (en - st) div 4096))) rs"
    by (simp add: boot_mem_limit_def r ac_simps)
  then show ?case unfolding Cons.IH by (simp add: boot_pages_def r algebra_simps)
qed (simp add: boot_mem_limit_def boot_pages_def)

lemma pages_up_pages: "pages_up (4096 * n) = n"
  unfolding pages_up_def by (rule div_nat_eqI) simp_all

text \<open>A copy of a directory with one more table.\<close>

lemma window_directory:
  assumes ok: "pd_ok m PD lim" and other: "other_page m PD BD" "other_page m PD MP" "BD \<noteq> MP" "unat BD + 4096 \<le> lim" "unat MP + 4096 \<le> lim"
    and o: "only_in {BD, MP} m m'" and P: "\<And>j. j < 1024 \<Longrightarrow> pde m' BD j = (if j = i then MP OR 3 else pde m PD j)"
  shows "pd_ok m' BD lim" "u div 1024 \<noteq> i \<Longrightarrow> pte_at m' BD u = pte_at m PD u"
    "other_page m PD q \<Longrightarrow> q \<notin> {BD, MP} \<Longrightarrow> other_page m' BD q"
proof -
  note D = pd_okD [OF ok]
  have pg: "pg_ok BD" "pg_ok MP" using other by (auto simp: other_page_def)
  note t = table_entry [OF pg(2)]
  have T: "table m PD j \<noteq> BD" "table m PD j \<noteq> MP" if "j < 1024" "pde m PD j \<noteq> 0" for j
    using other(1,2) that by (auto simp: other_page_def)
  show "pd_ok m' BD lim"
    unfolding pd_ok_def using pg other(3-5) D(3,4) T T(2) [symmetric] t by (auto simp: P)
  show "pte_at m' BD u = pte_at m PD u" if u: "u div 1024 \<noteq> i"
  proof (cases "u div 1024 < 1024 \<and> pde m PD (u div 1024) \<noteq> 0")
    case True
    then show ?thesis
      using only_in_entry [OF o, of "table m PD (u div 1024)" "u mod 1024"] T [of "u div 1024"] D(3) P u by (simp add: pte_at_def)
  qed (use P u in \<open>auto simp: pte_at_def\<close>)
  show "other_page m' BD q" if "other_page m PD q" "q \<notin> {BD, MP}"
    using that t(1) by (auto simp: other_page_def P)
qed

lemma identity_map_ok:
  fixes s :: pgstate and kt :: ktables and rs :: "(paddr_t \<times> paddr_t) list"
  defines "m \<equiv> pmem s" and "PD \<equiv> kphys s (kt_page_directory kt)" and "BD \<equiv> kphys s (kt_boot_page_directory kt)"
    and "MP \<equiv> kphys s (kt_module_bootstrap_pt kt)" and "np \<equiv> boot_pages rs"
  assumes ok: "pd_ok m PD (4096 * v)" and v: "unat (mm_addr s) = 4096 * v" "v mod 1024 + np \<le> 1024" "v + np < 1048575"
    and other: "other_page m PD BD" "other_page m PD MP" "BD \<noteq> MP" "unat BD + 4096 \<le> 4096 * v" "unat MP + 4096 \<le> 4096 * v"
    and hv: "high_vma s \<le> kt_boot_page_directory kt" "high_vma s \<le> kt_module_bootstrap_pt kt"
  shows "\<exists>m'. bootstrap_identity_map_init_mem debug kt rs s
      = Inr (s\<lparr>boot_mem_start := of_nat (4096 * v), boot_mem_end := of_nat (4096 * (v + np)), pmem := m', pd_reg := BD\<rparr>)
    \<and> pd_ok m' BD (4096 * v) \<and> only_in {BD, MP} m m'
    \<and> (\<forall>i < 1024. pde m' BD i = (if i = v div 1024 then MP OR 3 else pde m PD i))
    \<and> (\<forall>u. u div 1024 \<noteq> v div 1024 \<longrightarrow> pte_at m' BD u = pte_at m PD u)
    \<and> (\<forall>u. v \<le> u \<and> u < v + np \<longrightarrow> pte_at m' BD u = of_nat (4096 * u) OR 3)
    \<and> (\<forall>q. other_page m PD q \<longrightarrow> q \<notin> {BD, MP} \<longrightarrow> other_page m' BD q)"
proof -
  note D = pd_okD [OF ok]
  have pg: "pg_ok BD" "pg_ok MP" "PD \<noteq> BD" "PD \<noteq> MP" using other by (auto simp: other_page_def)
  have v': "v < 1048576" using v(3) by simp
  let ?a = "of_nat (4096 * v) :: u32" and ?e = "of_nat (4096 * (v + np)) :: u32"
  have a: "ucast (mm_addr s) = ?a" by (simp add: word_unat_eq_iff unsigned_ucast_eq take_bit_eq_mod v(1) unat_of_nat del: of_nat_mult)
  have ua: "unat ?a = 4096 * v" "unat ?e = 4096 * (v + np)" using v(3) by (intro unat_of_nat_u32; simp)+
  have lim: "boot_mem_limit ?a rs = ?e" by (simp add: boot_mem_limit_pages np_def algebra_simps)
  have al: "?a mod 4096 = 0" using ua(1) by (simp add: word_unat_eq_iff unat_mod)
  have off: "unat (drop_bit ARCH_VADDR_PT_OFFSET (?a AND ARCH_VADDR_PT_OFFSET_MASK)) = v mod 1024"
    using vpn_offsets(3) [OF v'] by simp
  have bk: "kt_boot_page_directory kt - high_vma s = BD" "kt_module_bootstrap_pt kt - high_vma s = MP"
    using hv by (auto simp: BD_def MP_def kphys_def)
  let ?m1 = "memcpy m BD PD 4096" let ?m2 = "memset ?m1 MP 0 4096"
  have c1: "only_in {BD} m ?m1" by (rule memcpy_page(2) [OF pg(1) D(1) pg(3) [symmetric]])
  have c2: "only_in {MP} ?m1 ?m2" using memset_page(2) [OF pg(2)] by (auto simp: only_in_def)
  have pu: "pages_up (unat ?e - unat ?a) = np" unfolding ua using pages_up_pages [of np] by (simp only: add_mult_distrib2 diff_add_inverse)
  have el: "unat ?e \<le> 2 ^ 32 - 4096" unfolding ua using v(3) by simp
  have fuel: "np < 2 ^ 20" using v(3) by simp
  obtain m3 where m3: "identity_loop (2 ^ 20) MP ?a ?e (drop_bit ARCH_VADDR_PT_OFFSET (?a AND ARCH_VADDR_PT_OFFSET_MASK)) ?m2 = Inr m3"
    "only_in {MP} ?m2 m3" "\<forall>j < 1024. entry m3 MP j = (if v mod 1024 \<le> j \<and> j < v mod 1024 + np
       then ((?a + of_nat (4096 * (j - v mod 1024))) AND PAGE_MASK) OR 3 else entry ?m2 MP j)"
    using fill_entries_ok [OF pg(2) el, where base = 0 and i = ?a and n = "2 ^ 20" and m = ?m2
        and off = "drop_bit ARCH_VADDR_PT_OFFSET (?a AND ARCH_VADDR_PT_OFFSET_MASK)", unfolded pu off add_0, OF v(2) fuel]
    unfolding identity_loop_fill by blast
  let ?i = "v div 1024" let ?m4 = "store32 m3 (cell BD (4 * ?i)) (MP OR 3)"
  have i: "?i < 1024" using vpn_offsets(4) [OF v'] .
  note S = store_entry [OF pg(1) i, where m = m3 and v = "MP OR 3"]
  have run: "bootstrap_identity_map_init_mem debug kt rs s
      = Inr (s\<lparr>boot_mem_start := ?a, boot_mem_end := ?e, pmem := ?m4, pd_reg := BD\<rparr>)"
    unfolding bootstrap_identity_map_init_mem_def Let_def a lim bk BD_def [symmetric] PD_def [symmetric] MP_def [symmetric] m_def [symmetric]
      entry_cell vpn_offsets(2) [OF v'] page_masks pg_ok_mask [OF pg(2)]
    using al m3(1) by (simp add: ARCH_PD_ENTRY_PRESENT_def ARCH_PD_ENTRY_RW_def)
  have o3: "only_in {MP} ?m1 m3" by (rule only_in_trans [OF c2 m3(2)])
  have P: "pde ?m4 BD j = (if j = ?i then MP OR 3 else pde m PD j)" if "j < 1024" for j
    using S(2) [OF pg(1) that] only_in_entry [OF o3 pg(1) _ that] other(3) memcpy_entry [OF pg(1) D(1) pg(3) [symmetric] that, of m]
    by (simp add: pde_def)
  have o4: "only_in {BD, MP} m ?m4"
    using only_in_trans [OF only_in_trans [OF only_in_mono [OF c1] only_in_mono [OF o3]] only_in_mono [OF S(1)], of "{BD, MP}"] by auto
  note t = table_entry [OF pg(2)] and W = window_directory [OF ok other o4 P]
  have "pte_at ?m4 BD u = of_nat (4096 * u) OR 3" if u: "v \<le> u" "u < v + np" for u
  proof -
    have e: "v = 1024 * ?i + v mod 1024" by simp
    have "1024 * ?i \<le> u" "u < 1024 * ?i + 1024" using u v(2) e by linarith+
    then have d: "u div 1024 = ?i" by (intro div_nat_eqI) simp_all
    then have k: "u mod 1024 = v mod 1024 + (u - v)" using u(1) e mult_div_mod_eq [of 1024 u] by linarith
    have "?a + of_nat (4096 * (u - v)) = of_nat (4096 * v + 4096 * (u - v))" by (simp only: of_nat_add)
    also have "4096 * v + 4096 * (u - v) = 4096 * u" using u(1) by (simp flip: add_mult_distrib2)
    finally have a: "(?a + of_nat (4096 * (u - v))) AND PAGE_MASK = of_nat (4096 * u)"
      using page_of_addr [of "of_nat (4096 * u)"] vpn_offsets(1) [of u] u(2) v(3) by simp
    have "entry ?m4 MP (u mod 1024) = of_nat (4096 * u) OR 3"
    proof -
      have j: "u mod 1024 < 1024" "v mod 1024 \<le> u mod 1024" "u mod 1024 < v mod 1024 + np" "u mod 1024 - v mod 1024 = u - v" using k u by simp_all
      have "entry ?m4 MP (u mod 1024) = entry m3 MP (u mod 1024)" using S(2) [OF pg(2) j(1)] other(3) by simp
      also have "\<dots> = ((?a + of_nat (4096 * (u - v))) AND PAGE_MASK) OR 3" using m3(3) j by simp
      finally show ?thesis unfolding a .
    qed
    then show ?thesis unfolding pte_at_def d using i P t by simp
  qed
  then show ?thesis using run P o4 W by blast
qed

section \<open>Frames used\<close>

lemma frames_most:
  assumes "frames s n"
  shows "\<exists>k. frames s (n + k) \<and> \<not> frames s (Suc (n + k))"
proof -
  let ?t = "(unat (mm_len s) - 1) div 4096"
  have l: "n * 4096 < unat (mm_len s)" using assms by (simp add: frames_def)
  have iff: "j * 4096 < unat (mm_len s) \<longleftrightarrow> j \<le> ?t" for j
    using less_eq_div_iff_mult_less_eq [of 4096 j "unat (mm_len s) - 1"] l by auto
  then have "n \<le> ?t" using l by blast
  then show ?thesis using assms iff by (intro exI [of _ "?t - n"]) (auto simp: frames_def)
qed

lemma frames_used:
  assumes "frames s (k + N)" "\<not> frames s (Suc (k + N))" "frames s' N" "mm_end s' = mm_end s"
  shows "unat (mm_addr s') \<le> unat (mm_addr s) + 4096 * k"
proof -
  have "unat (mm_end s) = unat (mm_addr s) + unat (mm_len s)"
    using assms(1) unfolding mm_end_def frames_def by (intro unat_add_lem [THEN iffD1]) simp
  moreover have "unat (mm_len s) \<le> Suc (k + N) * 4096" using assms(1,2) by (auto simp: frames_def)
  ultimately have "unat (mm_addr s') < unat (mm_addr s) + (k + 1) * 4096"
    using frames_end(1) [OF assms(3)] assms(4) by simp
  moreover obtain a b where ab: "unat (mm_addr s) = 4096 * a" "unat (mm_addr s') = 4096 * b"
    using assms(1,3) by (auto simp: frames_def elim!: dvdE [OF mod_0_imp_dvd])
  ultimately have "4096 * b < 4096 * (a + k + 1)" by (simp add: algebra_simps)
  then have "b \<le> a + k" by simp
  then show ?thesis unfolding ab using mult_le_mono2 [of b "a + k" 4096] by (simp add: add_mult_distrib2)
qed

section \<open>Modules before the kernel's memory is set up\<close>

text \<open>
  A module the kernel will be able to load: an accepted image in pages below \<open>lo\<close> that are none of the pages \<open>T\<close> of the
  kernel's static tables, with segments in the range of none of the page tables \<open>U\<close>.
\<close>

definition image_free :: "paddr_t set \<Rightarrow> nat \<Rightarrow> u32 \<Rightarrow> nat \<Rightarrow> bool" where
  "image_free T lo a len \<longleftrightarrow> (\<forall>k < len. let q = (a + of_nat k) AND PAGE_MASK in pg_ok q \<and> q \<notin> T \<and> unat q < lo)"

definition boot_module_ok :: "mem \<Rightarrow> paddr_t set \<Rightarrow> nat \<Rightarrow> nat set \<Rightarrow> boot_module \<Rightarrow> bool" where
  "boot_module_ok m T lo U md \<longleftrightarrow> elf_check_hdr (module_hdr m md) = ELF_OK \<and> elf_check_arch_supported (module_hdr m md) = ELF_OK
     \<and> image_free T lo (start_paddr md) 52
     \<and> image_free T lo (start_paddr md + e_phoff (module_hdr m md)) (32 * unat (e_phnum (module_hdr m md)))
     \<and> (\<forall>ph \<in> set (module_phdrs m md). p_type ph = PT_LOAD \<longrightarrow> seg_ok ph \<and> image_free T lo (start_paddr md + p_offset ph) (unat (p_filesz ph)))
     \<and> sorted_wrt (\<lambda>x y. seg_range x \<inter> seg_range y = {}) (loadable (module_phdrs m md))
     \<and> loaded_pages (module_phdrs m md) \<inter> stack_pages = {}
     \<and> (\<forall>ph \<in> set (loadable (module_phdrs m md)). seg_vpn ph div 1024 \<notin> U \<and> seg_vpn ph div 1024 \<noteq> 511)"

lemma image_free_bytes:
  assumes "image_free T lo a len" "\<And>q. pg_ok q \<Longrightarrow> q \<notin> T \<Longrightarrow> unat q < lo \<Longrightarrow> same_page m m' q" "k < len"
  shows "m' (a + of_nat k) = m (a + of_nat k)"
proof -
  let ?q = "(a + of_nat k) AND PAGE_MASK"
  have "same_page m m' ?q" using assms by (auto simp: image_free_def Let_def)
  then have "m' (cell ?q (unat (a + of_nat k) mod 4096)) = m (cell ?q (unat (a + of_nat k) mod 4096))" by (simp add: same_page_bytes)
  then show ?thesis by (simp flip: addr_cell)
qed

lemma boot_module_transfer:
  assumes md: "boot_module_ok m T lo U md" and le: "lo \<le> lo'"
    and kept: "\<And>q. pg_ok q \<Longrightarrow> q \<notin> T \<Longrightarrow> unat q < lo \<Longrightarrow> same_page m m' q \<and> other_page m' bd q"
    and dirs: "\<And>i. i < 1024 \<Longrightarrow> pde m' bd i \<noteq> 0 \<Longrightarrow> i \<in> U"
  shows "module_ok m' bd lo' md" "module_hdr m' md = module_hdr m md" "module_phdrs m' md = module_phdrs m md"
    "\<And>ph k. ph \<in> set (loadable (module_phdrs m md)) \<Longrightarrow> k < unat (p_filesz ph) \<Longrightarrow>
       m' (start_paddr md + p_offset ph + of_nat k) = m (start_paddr md + p_offset ph + of_nat k)"
proof -
  note M = md [unfolded boot_module_ok_def]
  have f1: "image_free T lo (start_paddr md) 52"
    and f2: "image_free T lo (start_paddr md + e_phoff (module_hdr m md)) (32 * unat (e_phnum (module_hdr m md)))" using M by blast+
  have sp: "same_page m m' q" if "pg_ok q" "q \<notin> T" "unat q < lo" for q using kept [OF that] by blast
  have B: "m' (a + of_nat k) = m (a + of_nat k)" if "image_free T lo a len" "k < len" for a len k
    by (rule image_free_bytes [OF that(1) sp that(2)])
  show h: "module_hdr m' md = module_hdr m md" unfolding module_hdr_def by (rule read_hdr_cong) (rule B [OF f1])
  show p: "module_phdrs m' md = module_phdrs m md" unfolding module_phdrs_def h by (rule phdrs_cong) (rule B [OF f2])
  show "m' (start_paddr md + p_offset ph + of_nat k) = m (start_paddr md + p_offset ph + of_nat k)"
    if "ph \<in> set (loadable (module_phdrs m md))" "k < unat (p_filesz ph)" for ph k
  proof -
    have "image_free T lo (start_paddr md + p_offset ph) (unat (p_filesz ph))" using M that(1) by (auto simp: loadable_def seg_loads_def)
    then show ?thesis using B that(2) by blast
  qed
  have I: "image_at m' bd lo' a len" if "image_free T lo a len" for a len
    unfolding image_at_def
  proof (intro allI impI)
    fix k assume "k < len"
    then have "pg_ok ((a + of_nat k) AND PAGE_MASK)" "(a + of_nat k) AND PAGE_MASK \<notin> T" "unat ((a + of_nat k) AND PAGE_MASK) < lo"
      using that by (auto simp: image_free_def Let_def)
    then show "other_page m' bd ((a + of_nat k) AND PAGE_MASK) \<and> unat ((a + of_nat k) AND PAGE_MASK) < lo'" using kept le by simp
  qed
  have z: "pde m' bd (seg_vpn ph div 1024) = 0 \<and> (\<forall>u \<in> seg_range ph. pte_at m' bd u = 0)" if ph: "ph \<in> set (loadable (module_phdrs m md))" for ph
  proof -
    have s: "seg_ok ph" "p_filesz ph \<noteq> 0" "seg_vpn ph div 1024 \<notin> U" using M ph by (auto simp: loadable_def seg_loads_def)
    let ?i = "seg_vpn ph div 1024"
    have "?i < 1024" using vpn_offsets(4) [OF seg_okD(2) [OF s(1,2)]] .
    then have d: "pde m' bd ?i = 0" using dirs s(3) by blast
    have e: "seg_vpn ph = 1024 * ?i + seg_vpn ph mod 1024" by simp
    have "u div 1024 = ?i" if u: "u \<in> seg_range ph" for u
    proof -
      have "1024 * ?i \<le> u" "u < 1024 * ?i + 1024" using u s(1) e unfolding seg_range_def seg_ok_def atLeastLessThan_iff by linarith+
      then show ?thesis by (intro div_nat_eqI) simp_all
    qed
    then show ?thesis using d by (simp add: pte_at_def)
  qed
  show "module_ok m' bd lo' md" unfolding module_ok_def h p segs_ok_def using M I z by auto
qed

section \<open>The kernel's memory\<close>

lemma klog_runs:
  assumes "CHR ''%'' \<notin> set level" "CHR 0x00 \<notin> set level \<union> set file \<union> set fmt" "length level + length file + length fmt < 1000"
  shows "\<exists>n con'. klog level file line fmt args con = Inr (n, con')"
  using klog_line [OF assms] by blast

lemma kmem_init_ok:
  fixes s :: kmem and kt :: ktables and lk :: kmem_links
  defines "hv \<equiv> high_vma (kn_pg s)" and "PD \<equiv> kt_page_directory kt - high_vma (kn_pg s)"
  assumes lay: "kernel_layout lk hv" and kt: "ktables_ok kt (kn_pg s)" and mods: "\<forall>r \<in> set (module_ranges (kn_info s)). module_range_ok r"
    and fr: "frames (kn_pg s) (4102 + N)" and bags: "bags (kn_heap s) = empty_bags"
  shows "\<exists>pg hp con. kmem_init debug kt lk s = Inr (s\<lparr>kn_pg := pg\<lparr>pd_reg := PD\<rparr>,
        kn_info := (kn_info s)\<lparr>kheap_range := (kheap_range (kn_info s))\<lparr>range_start := kl_console_debug lk + 4096\<rparr>\<rparr>, kn_con := con, kn_heap := hp\<rparr>)
    \<and> heap_rel hp (pool_pages (kl_console_debug lk + 4096) 4096, \<lambda>_. None)
    \<and> pd_ok (pmem pg) PD (unat (mm_addr pg)) \<and> high_vma pg = hv \<and> frames pg N \<and> mm_end pg = mm_end (kn_pg s)
    \<and> unat (mm_addr (kn_pg s)) + 4096 * 4096 \<le> unat (mm_addr pg)
    \<and> pde (pmem pg) PD 0 = (kt_bootstrap_pt kt - hv) OR 3 \<and> (\<forall>u < 1024. pte_at (pmem pg) PD u = low_entry (module_ranges (kn_info s)) u)
    \<and> (\<forall>i < 1024. pde (pmem pg) PD i \<noteq> 0 \<longrightarrow> i = 0 \<or> unat hv div 4194304 \<le> i \<and> i < unat hv div 4194304 + 5)
    \<and> (\<forall>i < 1024. \<not> bit (pde (pmem pg) PD i) 2)
    \<and> (\<forall>q. pg_ok q \<and> q \<notin> {PD, kt_kernel_pt kt - hv, kt_bootstrap_pt kt - hv} \<and> unat q < unat (mm_addr (kn_pg s)) \<longrightarrow>
         same_page (pmem (kn_pg s)) (pmem pg) q \<and> other_page (pmem pg) PD q)"
proof -
  let ?c = "kl_console_debug lk + 4096"
  obtain n1 con1 where c1: "klog ''INFO'' ''kern/kmem.c'' 60 ''Remapping kernel'' [] (kn_con s) = Inr (n1, con1)"
    using klog_runs [of "''INFO''" "''kern/kmem.c''" "''Remapping kernel''" 60 "[]" "kn_con s"] by auto
  obtain n2 con2 where c2: "klog ''INFO'' ''kern/kmem.c'' 64 ''Initializing kheap'' [] con1 = Inr (n2, con2)"
    using klog_runs [of "''INFO''" "''kern/kmem.c''" "''Initializing kheap''" 64 "[]" con1] by auto
  obtain pg f where run: "kmem_map_kernel_memory debug kt lk (s\<lparr>kn_con := con1\<rparr>) = Inr (s\<lparr>kn_con := con1, kn_pg := pg,
        kn_info := (kn_info s)\<lparr>kheap_range := (kheap_range (kn_info s))\<lparr>range_start := ?c\<rparr>\<rparr>\<rparr>)"
    and pg: "pd_ok (pmem pg) PD (unat (mm_addr pg))" "high_vma pg = hv" "frames pg N" "mm_end pg = mm_end (kn_pg s)"
      "unat (mm_addr (kn_pg s)) \<le> f" "unat (mm_addr pg) = f + 4096 * 4096"
      "pde (pmem pg) PD 0 = (kt_bootstrap_pt kt - hv) OR 3" "\<forall>u < 1024. pte_at (pmem pg) PD u = low_entry (module_ranges (kn_info s)) u"
      "\<forall>i < 1024. pde (pmem pg) PD i \<noteq> 0 \<longrightarrow> i = 0 \<or> unat hv div 4194304 \<le> i \<and> i < unat hv div 4194304 + 5"
      "\<forall>q. pg_ok q \<and> q \<notin> {PD, kt_kernel_pt kt - hv, kt_bootstrap_pt kt - hv} \<and> unat q < unat (mm_addr (kn_pg s)) \<longrightarrow>
         same_page (pmem (kn_pg s)) (pmem pg) q \<and> other_page (pmem pg) PD q"
      "\<forall>i < 1024. \<not> bit (pde (pmem pg) PD i) 2"
    using kernel_entries [where s = "s\<lparr>kn_con := con1\<rparr>" and kt = kt and lk = lk and N = N and debug = debug] lay kt mods fr
    unfolding hv_def PD_def by auto
  have c: "?c \<noteq> 0" "unat ?c mod 4096 = 0" "unat ?c + 4096 * 4096 < 2 ^ 32"
  proof -
    have d: "unat (kl_console_debug lk) mod 4096 = 0" "unat (kl_console_debug lk) + 4096 < unat hv + 4194304" "unat hv \<le> 0xFE800000"
      using lay section_bounds(5) [OF lay, of "kl_stack_start lk" "kl_stack_end lk" "KMAP_PROT_READ OR KMAP_PROT_WRITE"]
      by (auto simp: kernel_layout_def kernel_sections_def word_le_nat_alt)
    have u: "unat ?c = unat (kl_console_debug lk) + 4096" using d(2,3) by (simp add: unat_word_ariths)
    show "unat ?c mod 4096 = 0" "unat ?c + 4096 * 4096 < 2 ^ 32" using d unfolding u by simp_all
    show "?c \<noteq> 0" using u by auto
  qed
  obtain hp where hp: "kmalloc_init debug ?c CONF_KHEAP_SIZE (kn_heap s) = Inr hp" "heap_rel hp (pool_pages ?c 4096, \<lambda>_. None)"
    using kmalloc_init_ok [OF c _ bags, of debug] by (auto simp: CONF_KHEAP_SIZE_def)
  have "kmem_init debug kt lk s = Inr (s\<lparr>kn_pg := pg\<lparr>pd_reg := PD\<rparr>,
        kn_info := (kn_info s)\<lparr>kheap_range := (kheap_range (kn_info s))\<lparr>range_start := ?c\<rparr>\<rparr>, kn_con := con2, kn_heap := hp\<rparr>)"
    using c1 run c2 hp(1) pg(2) by (simp add: kmem_init_def Let_def bootstrap_load_kernel_mappings_def PD_def hv_def)
  then show ?thesis using hp(2) pg by (intro exI [of _ pg] exI [of _ hp] exI [of _ con2]) simp
qed

section \<open>The state the early boot code leaves\<close>

definition static_tables :: "ktables \<Rightarrow> vaddr_t \<Rightarrow> paddr_t set" where
  "static_tables kt hv = (\<lambda>t. t - hv) ` {kt_page_directory kt, kt_kernel_pt kt, kt_bootstrap_pt kt, kt_boot_page_directory kt, kt_module_bootstrap_pt kt}"

text \<open>The first page table, those of the kernel and its heap, and that of the boot memory.\<close>

definition boot_dirs :: "vaddr_t \<Rightarrow> nat \<Rightarrow> nat set" where
  "boot_dirs hv w = insert 0 (insert w {unat hv div 4194304..<unat hv div 4194304 + 5})"

definition boot_window :: "pgstate \<Rightarrow> nat" where
  "boot_window pg = (unat (mm_addr pg) + 4096 * 4096) div 4194304"

definition start_ok :: "ktables \<Rightarrow> kmem_links \<Rightarrow> kernel_info_t \<Rightarrow> kmem \<Rightarrow> bool" where
  "start_ok kt lk info km \<longleftrightarrow>
     (let pg = kn_pg (boot_info info km); hv = high_vma pg; lo = unat (mm_addr pg); rs = module_ranges info;
          mds = take (unat (no_modules info)) (modules info); U = boot_dirs hv (boot_window pg)
      in kernel_layout lk hv \<and> ktables_ok kt pg
       \<and> (\<forall>t \<in> {kt_boot_page_directory kt, kt_module_bootstrap_pt kt}. hv \<le> t \<and> pg_ok (t - hv) \<and> unat (t - hv) + 4096 \<le> lo)
       \<and> distinct [kt_page_directory kt, kt_kernel_pt kt, kt_bootstrap_pt kt, kt_boot_page_directory kt, kt_module_bootstrap_pt kt]
       \<and> bags (kn_heap km) = empty_bags
       \<and> (\<forall>r \<in> set rs. module_range_ok r) \<and> unat (no_modules info) \<le> length (modules info) \<and> unat (no_modules info) \<le> 8
       \<and> frames pg (4102 + boot_pages rs) \<and> unat (mm_end pg) \<le> unat hv
       \<and> lo + 4096 * (4102 + boot_pages rs) < 4194304 * (boot_window pg + 1)
       \<and> 511 \<notin> U \<and> 512 \<notin> U
       \<and> (\<forall>md \<in> set mds. boot_module_ok (pmem pg) (static_tables kt hv) lo U md) \<and> frames_of (pmem pg) mds \<le> boot_pages rs)"

text \<open>
  The state after the memory is set up: the free memory has moved past the heap and its tables, the boot
  directory maps the boot memory and the images of the modules to themselves, and every module can be loaded.
\<close>

definition memory_ready :: "ktables \<Rightarrow> kernel_info_t \<Rightarrow> kmem \<Rightarrow> kmem \<Rightarrow> bool" where
  "memory_ready kt info km km' \<longleftrightarrow>
     (let pg = kn_pg (boot_info info km); hv = high_vma pg; m = pmem pg; pg' = kn_pg km'; m' = pmem pg'; bd = kphys pg' (kt_boot_page_directory kt);
          rs = module_ranges info; mds = take (unat (no_modules info)) (modules info)
      in pd_ok m' bd (unat (mm_addr pg')) \<and> pde m' bd 511 = 0 \<and> pde m' bd 512 = 0 \<and> (\<forall>i < 1024. \<not> bit (pde m' bd i) 2)
       \<and> modules (kn_info km') = modules info \<and> no_modules (kn_info km') = no_modules info \<and> no_mmaps (kn_info km') = no_mmaps info
       \<and> bootstrap_memory_phys_range (kn_info km') = \<lparr>range_start = boot_mem_start pg', range_end = boot_mem_end pg'\<rparr>
       \<and> (\<forall>md \<in> set mds. module_ok m' bd (unat (mm_addr pg')) md \<and> module_hdr m' md = module_hdr m md \<and> module_phdrs m' md = module_phdrs m md
            \<and> (\<forall>ph \<in> set (loadable (module_phdrs m md)). \<forall>k < unat (p_filesz ph).
                 m' (start_paddr md + p_offset ph + of_nat k) = m (start_paddr md + p_offset ph + of_nat k)))
       \<and> high_vma pg' = hv \<and> mm_end pg' = mm_end pg \<and> frames pg' (boot_pages rs) \<and> unat (mm_addr pg) + 4096 * 4096 \<le> unat (mm_addr pg')
       \<and> boot_mem_start pg' = ucast (mm_addr pg') \<and> unat (boot_mem_end pg') = unat (mm_addr pg') + 4096 * boot_pages rs
       \<and> (\<forall>va. boot_mem_start pg' \<le> va \<and> va < boot_mem_end pg' \<longrightarrow> page_walk m' bd va = Some (va, 2))
       \<and> (\<forall>(st, en) \<in> set rs. \<forall>va. st \<le> va \<and> va < en \<longrightarrow> page_walk m' bd va = Some (va, 2)))"

lemma identity_walk:
  assumes "pd_ok m pd lim" "pde m pd (vpn va div 1024) AND 6 = 2" "pte_at m pd (vpn va) = of_nat (4096 * vpn va) OR 3"
  shows "page_walk m pd va = Some (va, 2)"
proof -
  let ?u = "vpn va"
  have u: "?u < 1048576" using unat_u32_lt [of va] by (simp add: less_mult_imp_div_less)
  have "of_nat (4096 * ?u) AND PAGE_MASK = (of_nat (4096 * ?u) :: u32)" using page_of_addr [of "of_nat (4096 * ?u)"] vpn_offsets(1) [OF u] by simp
  then have "page_walk m pd (of_nat (4096 * ?u + unat va mod 4096)) = Some (of_nat (4096 * ?u + unat va mod 4096), 2)"
    using assms(3) by (intro walk_page [OF assms(1) u _ u assms(2)]) simp_all
  moreover have "of_nat (4096 * ?u + unat va mod 4096) = va" by (simp only: mult_div_mod_eq) simp
  ultimately show ?thesis by simp
qed

lemma start_okD:
  fixes kt :: ktables and lk :: kmem_links and info :: kernel_info_t and km :: kmem
  defines "pg \<equiv> kn_pg (boot_info info km)" and "rs \<equiv> module_ranges info"
  defines "hv \<equiv> high_vma pg" and "lo \<equiv> unat (mm_addr pg)"
  assumes "start_ok kt lk info km"
  shows "kernel_layout lk hv" "ktables_ok kt pg" "\<forall>r \<in> set rs. module_range_ok r" "bags (kn_heap km) = empty_bags"
    "hv \<le> kt_boot_page_directory kt" "pg_ok (kt_boot_page_directory kt - hv)" "unat (kt_boot_page_directory kt - hv) + 4096 \<le> lo"
    "hv \<le> kt_module_bootstrap_pt kt" "pg_ok (kt_module_bootstrap_pt kt - hv)" "unat (kt_module_bootstrap_pt kt - hv) + 4096 \<le> lo"
    "frames pg (4102 + boot_pages rs)" "unat (mm_end pg) \<le> unat hv" "lo + 4096 * (4102 + boot_pages rs) < 4194304 * (boot_window pg + 1)"
    "511 \<notin> boot_dirs hv (boot_window pg)" "512 \<notin> boot_dirs hv (boot_window pg)"
    "\<forall>md \<in> set (take (unat (no_modules info)) (modules info)). boot_module_ok (pmem pg) (static_tables kt hv) lo (boot_dirs hv (boot_window pg)) md"
    "distinct [kt_page_directory kt, kt_kernel_pt kt, kt_bootstrap_pt kt, kt_boot_page_directory kt, kt_module_bootstrap_pt kt]"
    "unat (no_modules info) \<le> length (modules info)" "unat (no_modules info) \<le> 8"
    "frames_of (pmem pg) (take (unat (no_modules info)) (modules info)) \<le> boot_pages rs"
  using assms(5) unfolding start_ok_def Let_def pg_def [symmetric] rs_def [symmetric] hv_def [symmetric] lo_def [symmetric] by simp_all

text \<open>Where the free memory starts when the kernel has its heap.\<close>

lemma window_pages:
  fixes lo v np w :: nat
  assumes "lo + 4096 * 4096 \<le> 4096 * v" "4096 * v \<le> lo + 4096 * 4102" "lo + 4096 * (4102 + np) < 4194304 * (w + 1)" "w = (lo + 4096 * 4096) div 4194304"
  shows "v div 1024 = w" "v mod 1024 + np \<le> 1024" "4 \<le> w"
proof -
  have "4194304 * w \<le> lo + 4096 * 4096" unfolding assms(4) by simp
  then have "4096 * (1024 * w) \<le> 4096 * v" using assms(1) by linarith
  then have a: "1024 * w \<le> v" by simp
  have "4096 * (v + np) < 4096 * (1024 * (w + 1))" using assms(2,3) by (simp add: algebra_simps)
  then have b: "v + np < 1024 * w + 1024" by simp
  show d: "v div 1024 = w" using a b by (intro div_nat_eqI) simp_all
  show "v mod 1024 + np \<le> 1024" using b mult_div_mod_eq [of 1024 v] unfolding d by linarith
  have "4096 * 4096 div 4194304 \<le> w" unfolding assms(4) by (intro div_le_mono) simp
  then show "4 \<le> w" by simp
qed

lemma boot_memory_run:
  fixes kt :: ktables and lk :: kmem_links and info :: kernel_info_t and km :: kmem
  defines "pg \<equiv> kn_pg (boot_info info km)" and "rs \<equiv> module_ranges info"
  defines "hv \<equiv> high_vma pg" and "lo \<equiv> unat (mm_addr pg)" and "np \<equiv> boot_pages rs" and "w \<equiv> boot_window pg"
  defines "PD \<equiv> kt_page_directory kt - hv" and "BD \<equiv> kt_boot_page_directory kt - hv" and "MP \<equiv> kt_module_bootstrap_pt kt - hv"
    and "BP \<equiv> kt_bootstrap_pt kt - hv"
  assumes ok: "start_ok kt lk info km"
  shows "\<exists>km' m1 v. boot_memory debug kt lk info km = Inr km' \<and> heap_rel (kn_heap km') (pool_pages (kl_console_debug lk + 4096) 4096, \<lambda>_. None)
    \<and> kn_info km' = info\<lparr>kheap_range := (kheap_range info)\<lparr>range_start := kl_console_debug lk + 4096\<rparr>,
        bootstrap_memory_phys_range := \<lparr>range_start = boot_mem_start (kn_pg km'), range_end = boot_mem_end (kn_pg km')\<rparr>\<rparr>
    \<and> high_vma (kn_pg km') = hv \<and> mm_end (kn_pg km') = mm_end pg \<and> frames (kn_pg km') np
    \<and> unat (mm_addr (kn_pg km')) = 4096 * v \<and> lo + 4096 * 4096 \<le> 4096 * v \<and> v div 1024 = w \<and> v mod 1024 + np \<le> 1024 \<and> v + np < 1048575
    \<and> boot_mem_start (kn_pg km') = of_nat (4096 * v) \<and> boot_mem_end (kn_pg km') = of_nat (4096 * (v + np))
    \<and> pd_ok (pmem (kn_pg km')) BD (4096 * v) \<and> only_in {BD, MP} m1 (pmem (kn_pg km'))
    \<and> (\<forall>i < 1024. pde (pmem (kn_pg km')) BD i = (if i = w then MP OR 3 else pde m1 PD i))
    \<and> (\<forall>u. u div 1024 \<noteq> w \<longrightarrow> pte_at (pmem (kn_pg km')) BD u = pte_at m1 PD u)
    \<and> (\<forall>u. v \<le> u \<and> u < v + np \<longrightarrow> pte_at (pmem (kn_pg km')) BD u = of_nat (4096 * u) OR 3)
    \<and> (\<forall>q. other_page m1 PD q \<longrightarrow> q \<notin> {BD, MP} \<longrightarrow> other_page (pmem (kn_pg km')) BD q)
    \<and> pde m1 PD 0 = BP OR 3 \<and> (\<forall>u < 1024. pte_at m1 PD u = low_entry rs u)
    \<and> (\<forall>i < 1024. pde m1 PD i \<noteq> 0 \<longrightarrow> i = 0 \<or> unat hv div 4194304 \<le> i \<and> i < unat hv div 4194304 + 5)
    \<and> (\<forall>i < 1024. \<not> bit (pde m1 PD i) 2)
    \<and> (\<forall>q. pg_ok q \<and> q \<notin> {PD, kt_kernel_pt kt - hv, BP} \<and> unat q < lo \<longrightarrow> same_page (pmem pg) m1 q \<and> other_page m1 PD q)"
proof -
  note S = start_okD [OF ok, folded pg_def rs_def, folded hv_def lo_def np_def w_def, folded PD_def BD_def MP_def BP_def]
  let ?km = "boot_info info km" let ?con = "console_init (kl_console_debug lk) (kn_con ?km)"
  obtain n1 con1 where c1: "klog ''INFO'' ''kern/main.c'' 107 ''Bootstrap started'' [] ?con = Inr (n1, con1)"
    using klog_runs [of "''INFO''" "''kern/main.c''" "''Bootstrap started''" 107 "[]" ?con] by auto
  obtain n2 con2 where c2: "klog ''INFO'' ''kern/main.c'' 108 ''Initializing kernel memory'' [] con1 = Inr (n2, con2)"
    using klog_runs [of "''INFO''" "''kern/main.c''" "''Initializing kernel memory''" 108 "[]" con1] by auto
  define s where "s = ?km\<lparr>kn_con := con2\<rparr>"
  have s: "kn_pg s = pg" "kn_info s = info" "kn_heap s = kn_heap km" by (simp_all add: s_def pg_def boot_info_def)
  obtain k where k: "frames pg (4102 + np + k)" "\<not> frames pg (Suc (4102 + np + k))" using frames_most [OF S(11)] by blast
  obtain pg1 hp con3 where k1: "kmem_init debug kt lk s = Inr (s\<lparr>kn_pg := pg1\<lparr>pd_reg := PD\<rparr>,
        kn_info := info\<lparr>kheap_range := (kheap_range info)\<lparr>range_start := kl_console_debug lk + 4096\<rparr>\<rparr>, kn_con := con3, kn_heap := hp\<rparr>)"
    "heap_rel hp (pool_pages (kl_console_debug lk + 4096) 4096, \<lambda>_. None)"
    and p1: "pd_ok (pmem pg1) PD (unat (mm_addr pg1))" "high_vma pg1 = hv" "frames pg1 (np + k)" "mm_end pg1 = mm_end pg"
      "lo + 4096 * 4096 \<le> unat (mm_addr pg1)" "pde (pmem pg1) PD 0 = BP OR 3" "\<forall>u < 1024. pte_at (pmem pg1) PD u = low_entry rs u"
      "\<forall>i < 1024. pde (pmem pg1) PD i \<noteq> 0 \<longrightarrow> i = 0 \<or> unat hv div 4194304 \<le> i \<and> i < unat hv div 4194304 + 5"
      "\<forall>i < 1024. \<not> bit (pde (pmem pg1) PD i) 2"
    and kept: "\<forall>q. pg_ok q \<and> q \<notin> {PD, kt_kernel_pt kt - hv, BP} \<and> unat q < lo \<longrightarrow> same_page (pmem pg) (pmem pg1) q \<and> other_page (pmem pg1) PD q"
    using kmem_init_ok [where s = s and kt = kt and lk = lk and N = "np + k" and debug = debug, unfolded s, folded hv_def, folded PD_def BP_def lo_def rs_def]
      S(1-4) k(1) by (auto simp: add.assoc)
  obtain v where v: "unat (mm_addr pg1) = 4096 * v" using p1(3) by (auto simp: frames_def elim!: dvdE [OF mod_0_imp_dvd])
  have le: "4096 * v \<le> lo + 4096 * 4102"
    using frames_used [of pg 4102 "np + k" pg1] k p1(3,4) v unfolding lo_def by (simp add: add.assoc)
  have w: "w = (lo + 4096 * 4096) div 4194304" unfolding w_def boot_window_def lo_def ..
  note W = window_pages [OF p1(5) [unfolded v] le S(13) w]
  have fr1: "frames pg1 np" by (rule frames_less [OF p1(3)]) simp
  have "hv \<le> 0xFE800000" using S(1) by (simp add: kernel_layout_def)
  then have top: "v + np < 1048575" using frames_end(1) [OF fr1] S(12) v p1(4) by (simp add: word_le_nat_alt)
  let ?s1 = "pg1\<lparr>pd_reg := PD\<rparr>"
  have kp: "kphys ?s1 (kt_page_directory kt) = PD" "kphys ?s1 (kt_boot_page_directory kt) = BD" "kphys ?s1 (kt_module_bootstrap_pt kt) = MP"
    using S(2,5,8) p1(2) by (auto simp: kphys_def ktables_ok_def PD_def BD_def MP_def hv_def)
  have ne: "BD \<notin> {PD, kt_kernel_pt kt - hv, BP}" "MP \<notin> {PD, kt_kernel_pt kt - hv, BP}" "BD \<noteq> MP"
    using S(17) by (auto simp: PD_def BD_def MP_def BP_def)
  have bo: "other_page (pmem pg1) PD BD" "other_page (pmem pg1) PD MP" using kept ne S(6,7,9,10) by auto
  have bl: "unat BD + 4096 \<le> 4096 * v" "unat MP + 4096 \<le> 4096 * v" using S(7,10) p1(5) v by linarith+
  obtain m' where m': "bootstrap_identity_map_init_mem debug kt rs ?s1
      = Inr (?s1\<lparr>boot_mem_start := of_nat (4096 * v), boot_mem_end := of_nat (4096 * (v + np)), pmem := m', pd_reg := BD\<rparr>)"
    and f: "pd_ok m' BD (4096 * v)" "only_in {BD, MP} (pmem pg1) m'"
      "\<forall>i < 1024. pde m' BD i = (if i = w then MP OR 3 else pde (pmem pg1) PD i)"
      "\<forall>u. u div 1024 \<noteq> w \<longrightarrow> pte_at m' BD u = pte_at (pmem pg1) PD u"
      "\<forall>u. v \<le> u \<and> u < v + np \<longrightarrow> pte_at m' BD u = of_nat (4096 * u) OR 3"
      "\<forall>q. other_page (pmem pg1) PD q \<longrightarrow> q \<notin> {BD, MP} \<longrightarrow> other_page m' BD q"
    using identity_map_ok [where s = ?s1 and kt = kt and rs = rs and v = v and debug = debug, unfolded kp, folded np_def, unfolded W(1)]
      p1(1,2) v W(2) top bo ne(3) bl S(5,8) by auto
  let ?pg' = "?s1\<lparr>boot_mem_start := of_nat (4096 * v), boot_mem_end := of_nat (4096 * (v + np)), pmem := m', pd_reg := BD\<rparr>"
  let ?info = "info\<lparr>kheap_range := (kheap_range info)\<lparr>range_start := kl_console_debug lk + 4096\<rparr>\<rparr>"
  let ?km' = "s\<lparr>kn_pg := ?pg', kn_con := con3, kn_heap := hp,
    kn_info := ?info\<lparr>bootstrap_memory_phys_range := \<lparr>range_start = of_nat (4096 * v), range_end = of_nat (4096 * (v + np))\<rparr>\<rparr>\<rparr>"
  have mr: "module_ranges ?info = rs" by (simp add: module_ranges_def rs_def)
  have run: "boot_memory debug kt lk info km = Inr ?km'"
    using c1 c2 k1(1) m' mr unfolding boot_memory_def Let_def s_def by simp
  have "mm_end ?pg' = mm_end pg" "frames ?pg' np" using p1(4) fr1 by (simp_all add: mm_end_def frames_def)
  then show ?thesis
    using run k1(2) p1(2,5-9) v W(1,2) top f kept by (intro exI [of _ ?km'] exI [of _ "pmem pg1"] exI [of _ v]) simp
qed

text \<open>What the boot directory maps to itself: the boot memory, by the table \<open>MP\<close>, and the module images, by \<open>BP\<close>.\<close>

lemma boot_identity:
  assumes ok: "pd_ok m bd lim" and pg: "pg_ok MP" "pg_ok BP" and w: "v div 1024 = w" "v mod 1024 + np \<le> 1024" "0 < w" "w < 1024"
    and dirs: "pde m bd w = MP OR 3" "pde m bd 0 = BP OR 3"
    and mem: "\<forall>u. v \<le> u \<and> u < v + np \<longrightarrow> pte_at m bd u = of_nat (4096 * u) OR 3" and low: "\<forall>u < 1024. pte_at m bd u = low_entry rs u"
  shows "4096 * v \<le> unat va \<Longrightarrow> unat va < 4096 * (v + np) \<Longrightarrow> page_walk m bd va = Some (va, 2)"
    and "(a, e) \<in> set rs \<Longrightarrow> module_range_ok (a, e) \<Longrightarrow> a \<le> va \<Longrightarrow> va < e \<Longrightarrow> page_walk m bd va = Some (va, 2)"
proof -
  show "page_walk m bd va = Some (va, 2)" if b: "4096 * v \<le> unat va" "unat va < 4096 * (v + np)"
  proof -
    have "v \<le> vpn va" using div_le_mono [OF b(1), of 4096] by simp
    moreover have c: "vpn va < v + np" using b(2) by (simp add: less_mult_imp_div_less mult.commute)
    ultimately have p: "pte_at m bd (vpn va) = of_nat (4096 * vpn va) OR 3" using mem by blast
    have "1024 * w \<le> vpn va" "vpn va < 1024 * w + 1024"
      using \<open>v \<le> vpn va\<close> c w(2) mult_div_mod_eq [of 1024 v] unfolding w(1) by linarith+
    then have "vpn va div 1024 = w" by (intro div_nat_eqI) simp_all
    then have "pde m bd (vpn va div 1024) AND 6 = 2" using dirs(1) table_entry(2) [OF pg(1)] by simp
    then show ?thesis by (rule identity_walk [OF ok _ p])
  qed
  show "page_walk m bd va = Some (va, 2)" if r: "(a, e) \<in> set rs" "module_range_ok (a, e)" and va: "a \<le> va" "va < e"
  proof -
    have ae: "unat a mod 4096 = 0" "unat e \<le> 4194304" using r(2) by (auto simp: module_range_ok_def)
    have b: "unat a \<le> unat va" "unat va < unat e" using va by (simp_all add: word_le_nat_alt word_less_nat_alt)
    have "unat a \<le> 4096 * vpn va" using div_le_mono [OF b(1), of 4096] ae(1) by (auto elim!: dvdE [OF mod_0_imp_dvd])
    moreover have "4096 * vpn va < unat e" using b(2) le_less_trans [OF times_div_less_eq_dividend] by blast
    ultimately have l: "low_entry rs (vpn va) = of_nat (4096 * vpn va) OR 3" using r(1) by (auto simp: low_entry_def in_ranges_def)
    have v: "vpn va < 1024" using b(2) ae(2) by (simp add: less_mult_imp_div_less)
    then have "pde m bd (vpn va div 1024) AND 6 = 2" using dirs(2) table_entry(2) [OF pg(2)] by simp
    then show ?thesis using low v l by (intro identity_walk [OF ok]) simp_all
  qed
qed

lemma boot_memory_ok:
  assumes ok: "start_ok kt lk info km"
  shows "\<exists>km'. boot_memory debug kt lk info km = Inr km' \<and> memory_ready kt info km km'
    \<and> heap_rel (kn_heap km') (pool_pages (kl_console_debug lk + 4096) 4096, \<lambda>_. None)"
proof -
  define pg where "pg = kn_pg (boot_info info km)"
  define rs where "rs = module_ranges info"
  define hv where "hv = high_vma pg"
  define lo where "lo = unat (mm_addr pg)"
  define np where "np = boot_pages rs"
  define w where "w = boot_window pg"
  let ?PD = "kt_page_directory kt - hv" and ?BD = "kt_boot_page_directory kt - hv" and ?MP = "kt_module_bootstrap_pt kt - hv" and ?BP = "kt_bootstrap_pt kt - hv"
  note S = start_okD [OF ok, folded pg_def rs_def, folded hv_def lo_def np_def w_def]
  obtain km' m1 v where run: "boot_memory debug kt lk info km = Inr km'" "heap_rel (kn_heap km') (pool_pages (kl_console_debug lk + 4096) 4096, \<lambda>_. None)"
    "kn_info km' = info\<lparr>kheap_range := (kheap_range info)\<lparr>range_start := kl_console_debug lk + 4096\<rparr>,
        bootstrap_memory_phys_range := \<lparr>range_start = boot_mem_start (kn_pg km'), range_end = boot_mem_end (kn_pg km')\<rparr>\<rparr>"
    and k: "high_vma (kn_pg km') = hv" "mm_end (kn_pg km') = mm_end pg" "frames (kn_pg km') np"
      "unat (mm_addr (kn_pg km')) = 4096 * v" "lo + 4096 * 4096 \<le> 4096 * v" "v div 1024 = w" and fit: "v mod 1024 + np \<le> 1024" and top: "v + np < 1048575" and k':
      "boot_mem_start (kn_pg km') = of_nat (4096 * v)" "boot_mem_end (kn_pg km') = of_nat (4096 * (v + np))"
      "pd_ok (pmem (kn_pg km')) ?BD (4096 * v)" "only_in {?BD, ?MP} m1 (pmem (kn_pg km'))"
      "\<forall>i < 1024. pde (pmem (kn_pg km')) ?BD i = (if i = w then ?MP OR 3 else pde m1 ?PD i)"
      "\<forall>u. u div 1024 \<noteq> w \<longrightarrow> pte_at (pmem (kn_pg km')) ?BD u = pte_at m1 ?PD u"
      "\<forall>u. v \<le> u \<and> u < v + np \<longrightarrow> pte_at (pmem (kn_pg km')) ?BD u = of_nat (4096 * u) OR 3"
      "\<forall>q. other_page m1 ?PD q \<longrightarrow> q \<notin> {?BD, ?MP} \<longrightarrow> other_page (pmem (kn_pg km')) ?BD q"
      "pde m1 ?PD 0 = ?BP OR 3" "\<forall>u < 1024. pte_at m1 ?PD u = low_entry rs u"
      "\<forall>i < 1024. pde m1 ?PD i \<noteq> 0 \<longrightarrow> i = 0 \<or> unat hv div 4194304 \<le> i \<and> i < unat hv div 4194304 + 5"
      "\<forall>i < 1024. \<not> bit (pde m1 ?PD i) 2"
      "\<forall>q. pg_ok q \<and> q \<notin> {?PD, kt_kernel_pt kt - hv, ?BP} \<and> unat q < lo \<longrightarrow> same_page (pmem pg) m1 q \<and> other_page m1 ?PD q"
    using boot_memory_run [OF ok, of debug, folded pg_def rs_def, folded hv_def lo_def np_def w_def] by (elim exE conjE) (rule that)
  let ?m' = "pmem (kn_pg km')"
  have bd: "kphys (kn_pg km') (kt_boot_page_directory kt) = ?BD" using S(5) k(1) by (auto simp: kphys_def)
  have dirs: "i \<in> boot_dirs hv w" if "i < 1024" "pde ?m' ?BD i \<noteq> 0" for i
    using k'(5,11) that by (cases "i = w") (auto simp: boot_dirs_def)
  have kept: "same_page (pmem pg) ?m' q \<and> other_page ?m' ?BD q" if q: "pg_ok q" "q \<notin> static_tables kt hv" "unat q < lo" for q
  proof -
    have n: "q \<notin> {?PD, kt_kernel_pt kt - hv, ?BP}" "q \<notin> {?BD, ?MP}" using q(2) by (auto simp: static_tables_def)
    then have "same_page (pmem pg) m1 q" "other_page m1 ?PD q" using k'(13) q by blast+
    moreover have "same_page m1 ?m' q" using k'(4) n(2) q(1) by (simp add: only_in_def)
    ultimately show ?thesis using k'(8) n(2) same_page_trans by blast
  qed
  have lo: "lo \<le> 4096 * v" using k(5) by simp
  have mods: "module_ok ?m' ?BD (4096 * v) md \<and> module_hdr ?m' md = module_hdr (pmem pg) md \<and> module_phdrs ?m' md = module_phdrs (pmem pg) md
      \<and> (\<forall>ph \<in> set (loadable (module_phdrs (pmem pg) md)). \<forall>k < unat (p_filesz ph).
           ?m' (start_paddr md + p_offset ph + of_nat k) = pmem pg (start_paddr md + p_offset ph + of_nat k))"
    if "md \<in> set (take (unat (no_modules info)) (modules info))" for md
    using boot_module_transfer [OF S(16) [rule_format, OF that] lo kept dirs] by blast
  have u: "unat (of_nat (4096 * v) :: u32) = 4096 * v" "unat (of_nat (4096 * (v + np)) :: u32) = 4096 * (v + np)"
    using top by (intro unat_of_nat_u32; simp)+
  have st: "boot_mem_start (kn_pg km') = ucast (mm_addr (kn_pg km'))"
    unfolding k'(1) using fetch_page_ok(2) [of "kn_pg km'"] k(4,3) by (simp add: word_unat_eq_iff unsigned_ucast_eq take_bit_eq_mod unat_of_nat del: of_nat_mult)
  have pg: "pg_ok ?MP" "pg_ok ?BP" using S(2,9) by (auto simp: ktables_ok_def hv_def)
  have w: "0 < w" "w < 1024" using k(5,6) top by (auto simp: div_greater_zero_iff less_mult_imp_div_less)
  have low: "\<forall>u < 1024. pte_at ?m' ?BD u = low_entry rs u" using k'(6,10) w(1) by simp
  have d: "pde ?m' ?BD w = ?MP OR 3" "pde ?m' ?BD 0 = ?BP OR 3" using k'(5,9) w by simp_all
  note I = boot_identity [OF k'(3) pg k(6) fit w d k'(7) low]
  have idm: "page_walk ?m' ?BD va = Some (va, 2)" if "boot_mem_start (kn_pg km') \<le> va" "va < boot_mem_end (kn_pg km')" for va
    using that k'(1,2) u by (intro I(1)) (simp_all add: word_le_nat_alt word_less_nat_alt)
  have img': "\<forall>(a, e) \<in> set rs. \<forall>va. a \<le> va \<and> va < e \<longrightarrow> page_walk ?m' ?BD va = Some (va, 2)" using I(2) S(3) by blast
  have pdes: "pde ?m' ?BD 511 = 0" "pde ?m' ?BD 512 = 0" using dirs [of 511] dirs [of 512] S(14,15) by auto
  have usr: "\<not> bit (pde ?m' ?BD i) 2" if "i < 1024" for i
    using k'(5,12) that supervisor_entry(1) [OF table_entry(2) [OF pg(1)]] by simp
  have "memory_ready kt info km km'"
    unfolding memory_ready_def Let_def pg_def [symmetric] rs_def [symmetric] hv_def [symmetric] np_def [symmetric] bd k(4)
    using k(1-5) k'(2,3) pdes usr mods run(3) st u idm img' unfolding lo_def
    by (intro conjI) simp_all
  then show ?thesis using run by blast
qed

section \<open>The whole start\<close>

lemma bootstrap_run:
  fixes bt :: "'d boot" and kt :: ktables and bl :: boot_links and info :: kernel_info_t
  defines "m \<equiv> pmem (kn_pg (bo_km bt))" and "n \<equiv> unat (no_modules info)" and "mods \<equiv> modules info"
    and "bd \<equiv> kt_boot_page_directory kt - high_vma (kn_pg (bo_km bt))"
  assumes "start_ok kt lk info (bo_km bt)" "build_ok debug m mods n" "0 < n" "tasks_apart (m_kst (bo_m bt)) bl n"
    and "pic_on_bus bus mst slv" "length (m_callback (bo_m bt)) = 256"
    and "\<not> bit (irr (mst (m_dev (bo_m bt)))) 7" "\<not> bit (irr (slv (m_dev (bo_m bt)))) 7"
    and "unat (tv_nsec (m_clock (bo_m bt))) \<le> 1000000000" "\<forall>c \<in> set cs. int_no c = 32" "unat (tv_sec (m_clock (bo_m bt))) + length cs < 2 ^ 64"
  shows "\<exists>b m'. bootstrap debug bus kt lk bl al info bt = Inr (\<lparr>r_ds = 0x23, r_edi = 0, r_esi = 0, r_ebp = 0, r_ebx = 0, r_edx = 0, r_ecx = 0, r_eax = 0,
        r_eip = e_entry (module_hdr m (mods ! 0)), r_cs = 0x1B, r_eflags = THREAD_DEFAULT_EFLAGS, r_esp = 0x80000000, r_ss = 0x23\<rparr>, b)
    \<and> (\<forall>ph \<in> set (loadable (module_phdrs m (mods ! 0))). \<forall>k < unat (p_filesz ph).
         user_byte (pmem (kn_pg (bo_km b))) (cr3 (m_kst (bo_m b))) (p_vaddr ph + of_nat k) = Some (m (start_paddr (mods ! 0) + p_offset ph + of_nat k)))
    \<and> (\<forall>va. range_start (bootstrap_memory_phys_range (kn_info (bo_km b))) \<le> va \<and> va < range_end (bootstrap_memory_phys_range (kn_info (bo_km b)))
         \<longrightarrow> page_walk (pmem (kn_pg (bo_km b))) bd va = Some (va, 2))
    \<and> unat (mm_addr (kn_pg (bo_km b))) \<le> unat (range_end (bootstrap_memory_phys_range (kn_info (bo_km b))))
    \<and> heap_rel (kn_heap (bo_km b)) (pool_pages (kl_console_debug lk + 4096) 4096, \<lambda>_. None)
    \<and> sched_rel (m_kst (bo_m b)) (map (boot_thread bl) [1..<n] # replicate 15 [], boot_thread bl 0)
    \<and> (\<forall>i < n. quantum_of (m_kst (bo_m b)) (boot_thread bl i) = 10 * SEC_NSEC)
    \<and> lines (mst (m_dev (bo_m b))) (slv (m_dev (bo_m b))) = {0, 2}
    \<and> interrupts bus cs (bo_m b) = Inr m'
    \<and> (\<exists>qs r. sched_rel (m_kst m') (qs, r) \<and> add_mset r (mset (concat qs)) = mset (map (boot_thread bl) [0..<n]))
    \<and> (\<exists>m0 lo. pd_ok m0 bd lo \<and> (\<forall>i < 1024. \<not> bit (pde m0 bd i) 2)
         \<and> modules_placed m0 (pmem (kn_pg (bo_km b))) bd lo mods n bl (m_kst (bo_m b)))
    \<and> timer_ready mst slv (rr_tick_handler debug) (bo_m b)
    \<and> m_callback (bo_m b) = (m_callback (bo_m bt))[14 := Some Page_fault_handler, 32 := Some Hwclock_irq_handler]
    \<and> no_mmaps (kn_info (bo_km b)) = no_mmaps info"
proof -
  note a = assms(5-)
  let ?km = "bo_km bt" let ?pg = "kn_pg (boot_info info ?km)"
  have i: "pmem ?pg = m" "high_vma ?pg = high_vma (kn_pg ?km)" by (simp_all add: boot_info_def m_def)
  note S = start_okD [OF a(1)]
  obtain km' where run: "boot_memory debug kt lk info ?km = Inr km'" and rdy: "memory_ready kt info ?km km'"
    and hp: "heap_rel (kn_heap km') (pool_pages (kl_console_debug lk + 4096) 4096, \<lambda>_. None)"
    using boot_memory_ok [OF a(1)] by blast
  let ?pg' = "kn_pg km'" and ?mds = "take n mods"
  have bd: "kphys ?pg' (kt_boot_page_directory kt) = bd"
    using rdy S(5) unfolding bd_def i(2) by (auto simp: memory_ready_def Let_def kphys_def i(2))
  note R = rdy [unfolded memory_ready_def Let_def i bd, folded n_def mods_def]
  have info: "unat (no_modules (kn_info km')) = n" "modules (kn_info km') = mods" using R by (simp_all add: n_def mods_def)
  have nl: "n \<le> length mods" "n \<le> 8" using S(18,19) by (simp_all add: n_def mods_def)
  have md: "mods ! j \<in> set ?mds" if "j < n" for j using that nl(1) by (auto simp: in_set_conv_nth)
  have fo: "frames_of (pmem ?pg') ?mds = frames_of m ?mds"
    unfolding frames_of_def using R by (intro arg_cong [of _ _ sum_list] map_cong) auto
  have le: "frames_of m ?mds \<le> boot_pages (module_ranges info)" using S(20) by (simp add: i n_def mods_def)
  have "frames ?pg' (frames_of m ?mds)" using R le frames_less by blast
  then obtain N where N: "frames ?pg' (frames_of m ?mds + N)" "\<not> frames ?pg' (Suc (frames_of m ?mds + N))" using frames_most by blast
  have bo: "build_ok debug (pmem ?pg') mods n"
  proof -
    have "module_phdrs (pmem ?pg') (mods ! j) = module_phdrs m (mods ! j)" if "j < n" for j using R md [OF that] by blast
    then show ?thesis using a(2) by (simp add: build_ok_def)
  qed
  have "unat (mm_end ?pg') \<le> unat (high_vma ?pg')" using R S(12) by (simp add: i)
  then obtain b m' where boot: "boot_tasks debug bus kt bl al km' (bo_m bt) = Inr (\<lparr>r_ds = 0x23, r_edi = 0, r_esi = 0, r_ebp = 0, r_ebx = 0, r_edx = 0, r_ecx = 0, r_eax = 0,
        r_eip = e_entry (module_hdr (pmem ?pg') (mods ! 0)), r_cs = 0x1B, r_eflags = THREAD_DEFAULT_EFLAGS, r_esp = 0x80000000, r_ss = 0x23\<rparr>, b)"
    and img: "\<forall>ph \<in> set (loadable (module_phdrs (pmem ?pg') (mods ! 0))). \<forall>k < unat (p_filesz ph).
         user_byte (pmem (kn_pg (bo_km b))) (cr3 (m_kst (bo_m b))) (p_vaddr ph + of_nat k) = Some (pmem ?pg' (start_paddr (mods ! 0) + p_offset ph + of_nat k))"
    and tasks: "sched_rel (m_kst (bo_m b)) (map (boot_thread bl) [1..<n] # replicate 15 [], boot_thread bl 0)"
      "\<forall>i < n. quantum_of (m_kst (bo_m b)) (boot_thread bl i) = 10 * SEC_NSEC" "lines (mst (m_dev (bo_m b))) (slv (m_dev (bo_m b))) = {0, 2}"
      "interrupts bus cs (bo_m b) = Inr m'"
      "\<exists>qs r. sched_rel (m_kst m') (qs, r) \<and> add_mset r (mset (concat qs)) = mset (map (boot_thread bl) [0..<n])"
    and o: "only_in (above (unat (mm_addr ?pg'))) (pmem ?pg') (pmem (kn_pg (bo_km b)))" and fr: "frames (kn_pg (bo_km b)) N" "mm_end (kn_pg (bo_km b)) = mm_end ?pg'"
    and kn: "kn_info (bo_km b) = kn_info km'" "kn_heap (bo_km b) = kn_heap km'"
    and mp: "modules_placed (pmem ?pg') (pmem (kn_pg (bo_km b))) bd (unat (mm_addr ?pg')) mods n bl (m_kst (bo_m b))"
    and tr: "timer_ready mst slv (rr_tick_handler debug) (bo_m b)"
      "m_callback (bo_m b) = (m_callback (bo_m bt))[14 := Some Page_fault_handler, 32 := Some Hwclock_irq_handler]"
    using boot_tasks_ok [where debug = debug and km = km' and kt = kt and bl = bl and mach = "bo_m bt" and bus = bus and mst = mst and slv = slv and cs = cs and al = al and N = N,
        unfolded bd info fo] R N(1) a(3-) bo nl md by auto
  have m0: "module_hdr (pmem ?pg') (mods ! 0) = module_hdr m (mods ! 0)" "module_phdrs (pmem ?pg') (mods ! 0) = module_phdrs m (mods ! 0)"
    "\<forall>ph \<in> set (loadable (module_phdrs m (mods ! 0))). \<forall>k < unat (p_filesz ph).
       pmem ?pg' (start_paddr (mods ! 0) + p_offset ph + of_nat k) = m (start_paddr (mods ! 0) + p_offset ph + of_nat k)"
    using R md [OF a(3)] by blast+
  have "bootstrap debug bus kt lk bl al info bt = Inr (\<lparr>r_ds = 0x23, r_edi = 0, r_esi = 0, r_ebp = 0, r_ebx = 0, r_edx = 0, r_ecx = 0, r_eax = 0,
        r_eip = e_entry (module_hdr m (mods ! 0)), r_cs = 0x1B, r_eflags = THREAD_DEFAULT_EFLAGS, r_esp = 0x80000000, r_ss = 0x23\<rparr>, b)"
    using run boot m0(1) by (simp add: bootstrap_def)
  moreover have "page_walk (pmem (kn_pg (bo_km b))) bd = page_walk (pmem ?pg') bd" using above_walk(4) [OF o] R by blast
  moreover have "unat (mm_addr (kn_pg (bo_km b))) \<le> unat (boot_mem_end ?pg')"
    using frames_used [OF N fr] R le by simp
  moreover have "\<exists>m0 lo. pd_ok m0 bd lo \<and> (\<forall>i < 1024. \<not> bit (pde m0 bd i) 2)
      \<and> modules_placed m0 (pmem (kn_pg (bo_km b))) bd lo mods n bl (m_kst (bo_m b))"
    using mp R by blast
  ultimately show ?thesis
    using img m0(2,3) tasks hp kn R tr by (intro exI [of _ b] exI [of _ m']) simp
qed

section \<open>Properties\<close>

text \<open>C2: the kernel starts. Let the early boot code have left the kernel's sections and static tables as the linker
  script lays them out, enough free memory behind them, at most eight acceptable boot modules in the first four megabytes and a
  machine with the interrupt controller on its bus; and, in a kernel built with assertions, let the modules meet them
  (\<open>build_ok\<close>: fewer than eight, and sizes in memory that are multiples of the page size). Then \<^verbatim>\<open>bootstrap\<close> runs to its end without a panic or a fault. It
  leaves to user mode at the entry point of the first module, on the user stack, all other registers zero, in an address
  space in which the bytes of all segments of the module are those of its image. Everything the module loader was
  given to build page directories, tables and pages with lies in the recorded boot memory, which the boot directory maps to itself. The heap is
  initialised with its 4096 pages; the threads of the other modules wait in order with full quanta; and any sequence of
  timer interrupts that follows runs without a fault and loses no thread.\<close>

theorem bootstrap_starts_first_module:
  fixes bt :: "'d boot" and kt :: ktables and bl :: boot_links and info :: kernel_info_t
  defines "m \<equiv> pmem (kn_pg (bo_km bt))" and "n \<equiv> unat (no_modules info)" and "mods \<equiv> modules info"
    and "bd \<equiv> kt_boot_page_directory kt - high_vma (kn_pg (bo_km bt))"
  assumes "start_ok kt lk info (bo_km bt)" "build_ok debug m mods n" "0 < n" "tasks_apart (m_kst (bo_m bt)) bl n"
    and "pic_on_bus bus mst slv" "length (m_callback (bo_m bt)) = 256"
    and "\<not> bit (irr (mst (m_dev (bo_m bt)))) 7" "\<not> bit (irr (slv (m_dev (bo_m bt)))) 7"
    and "unat (tv_nsec (m_clock (bo_m bt))) \<le> 1000000000" "\<forall>c \<in> set cs. int_no c = 32" "unat (tv_sec (m_clock (bo_m bt))) + length cs < 2 ^ 64"
  shows "\<exists>b m'. bootstrap debug bus kt lk bl al info bt = Inr (\<lparr>r_ds = 0x23, r_edi = 0, r_esi = 0, r_ebp = 0, r_ebx = 0, r_edx = 0, r_ecx = 0, r_eax = 0,
        r_eip = e_entry (module_hdr m (mods ! 0)), r_cs = 0x1B, r_eflags = THREAD_DEFAULT_EFLAGS, r_esp = 0x80000000, r_ss = 0x23\<rparr>, b)
    \<and> (\<forall>ph \<in> set (loadable (module_phdrs m (mods ! 0))). \<forall>k < unat (p_filesz ph).
         user_byte (pmem (kn_pg (bo_km b))) (cr3 (m_kst (bo_m b))) (p_vaddr ph + of_nat k) = Some (m (start_paddr (mods ! 0) + p_offset ph + of_nat k)))
    \<and> (\<forall>va. range_start (bootstrap_memory_phys_range (kn_info (bo_km b))) \<le> va \<and> va < range_end (bootstrap_memory_phys_range (kn_info (bo_km b)))
         \<longrightarrow> page_walk (pmem (kn_pg (bo_km b))) bd va = Some (va, 2))
    \<and> unat (mm_addr (kn_pg (bo_km b))) \<le> unat (range_end (bootstrap_memory_phys_range (kn_info (bo_km b))))
    \<and> heap_rel (kn_heap (bo_km b)) (pool_pages (kl_console_debug lk + 4096) 4096, \<lambda>_. None)
    \<and> sched_rel (m_kst (bo_m b)) (map (boot_thread bl) [1..<n] # replicate 15 [], boot_thread bl 0)
    \<and> (\<forall>i < n. quantum_of (m_kst (bo_m b)) (boot_thread bl i) = 10 * SEC_NSEC)
    \<and> lines (mst (m_dev (bo_m b))) (slv (m_dev (bo_m b))) = {0, 2}
    \<and> interrupts bus cs (bo_m b) = Inr m'
    \<and> (\<exists>qs r. sched_rel (m_kst m') (qs, r) \<and> add_mset r (mset (concat qs)) = mset (map (boot_thread bl) [0..<n]))"
  using bootstrap_run [OF assms(5) assms(6-8) [unfolded m_def n_def mods_def] assms(9-), of al] unfolding m_def n_def mods_def bd_def by blast

section \<open>Witnesses\<close>

definition sample_boot_info :: kernel_info_t where
  "sample_boot_info = zero_kinfo\<lparr>no_modules := 2, modules := sample_modules,
     memmaps := [\<lparr>map_addr = 0x200000, map_len = 0x7000000, map_type = 1, map_zero = 0\<rparr>]\<rparr>"

definition sample_boot :: "(i8259 \<times> i8259) boot" where
  "sample_boot = \<lparr>bo_km = sample_kmem\<lparr>kn_pg := (kn_pg sample_kmem)\<lparr>pmem := sample_mem\<rparr>, kn_heap := (kn_heap sample_kmem)\<lparr>bags := empty_bags\<rparr>\<rparr>,
     bo_m = sample_machine\<lparr>m_kst := sample_kstate\<rparr>\<rparr>"

lemma sample_mem_zero:
  assumes "pg_ok p" "0x4000 \<le> unat p" "j < 1024"
  shows "entry sample_mem p j = 0"
proof -
  have "sample_mem (cell p (4 * j) + of_nat k) = 0" if "k < 4" for k
  proof -
    have "cell p (4 * j) + of_nat k = cell p (4 * j + k)" by (simp add: cell_def add.assoc)
    then have "0x4000 \<le> unat (cell p (4 * j) + of_nat k)" using unat_cell [OF assms(1), of "4 * j + k"] assms(2,3) that by simp
    then show ?thesis by (simp add: sample_mem_def sample_image_def)
  qed
  then have "load32 sample_mem (cell p (4 * j)) = load32 (\<lambda>_. 0) (cell p (4 * j))" by (intro load32_cong) simp
  then show ?thesis by (simp add: load32_zero)
qed

lemma sample_boot_module:
  fixes md :: boot_module
  assumes "start_paddr md = 0x3000" "0x3000 \<notin> T" "1 \<notin> U"
  shows "boot_module_ok sample_mem T 0x200000 U md"
proof -
  note M = sample_module_ok [OF assms(1)]
  have one: "module_phdrs sample_mem md = [\<lparr>p_type = 1, p_offset = 0x54, p_vaddr = 0x400000, p_paddr = 0x400000, p_filesz = 4, p_memsz = 0x1000, p_flags = 5, p_align = 0x1000\<rparr>]"
    using assms by (simp add: module_phdrs_def module_hdr_def sample_hdr phdrs_def sample_phdr)
  have free: "image_free T 0x200000 a n" if "0x3000 \<le> unat a" "unat a + n \<le> 0x4000" for a n
    unfolding image_free_def Let_def
  proof (intro allI impI)
    fix k assume "k < n"
    then show "pg_ok ((a + of_nat k) AND PAGE_MASK) \<and> (a + of_nat k) AND PAGE_MASK \<notin> T \<and> unat ((a + of_nat k) AND PAGE_MASK) < 0x200000"
      using sample_image_page [OF that] assms(2) by (simp add: pg_ok_def)
  qed
  show ?thesis
    using M(1) assms free [of "0x3000" 52] free [of "0x3034" 32] free [of "0x3054" 4]
    unfolding boot_module_ok_def module_ok_def segs_ok_def one M(3) sample_hdr by (auto simp: loadable_def)
qed

lemma sample_start: "start_ok sample_tables sample_kmem_links sample_boot_info (bo_km sample_boot)"
proof -
  define pg where "pg = kn_pg (boot_info sample_boot_info (bo_km sample_boot))"
  have f: "pmem pg = sample_mem" "high_vma pg = 0xFE800000" "mm_addr pg = 0x200000" "mm_len pg = 0x7000000"
    by (simp_all add: pg_def boot_info_def sample_boot_def sample_boot_info_def sample_kmem_def)
  have rs: "module_ranges sample_boot_info = replicate 2 (0x3000, 0x4000)"
    by (simp add: module_ranges_def sample_boot_info_def sample_modules_def)
  then have np: "boot_pages (module_ranges sample_boot_info) = 20" by (simp add: boot_pages_def sum_list_replicate)
  have w: "boot_window pg = 4" by (simp add: boot_window_def f)
  have U: "boot_dirs 0xFE800000 4 = {0, 4} \<union> {1018..<1023}" by (auto simp: boot_dirs_def)
  have T: "static_tables sample_tables 0xFE800000 = {0x105000, 0x106000, 0x107000, 0x108000, 0x109000}"
    by (auto simp: static_tables_def sample_tables_def)
  have lay: "kernel_layout sample_kmem_links 0xFE800000" by (simp add: kernel_layout_def kernel_sections_def sample_kmem_links_def)
  have kt: "ktables_ok sample_tables pg"
    using sample_mem_zero [of "0x106000"] sample_mem_zero [of "0x107000"] by (simp add: ktables_ok_def sample_tables_def f pg_ok_def)
  have md: "boot_module_ok sample_mem (static_tables sample_tables 0xFE800000) 0x200000 (boot_dirs 0xFE800000 4) md" if "md \<in> set sample_modules" for md
    using sample_boot_module [of md] that unfolding T U by (simp add: sample_modules_def)
  have i: "take 2 sample_modules = sample_modules" "length sample_modules = 2" "unat (no_modules sample_boot_info) = 2" "modules sample_boot_info = sample_modules"
    by (simp_all add: sample_modules_def sample_boot_info_def)
  have fo: "frames_of sample_mem sample_modules = 20"
    using sample_module_ok(2) [of "sample_modules ! 0"] by (simp add: frames_of_def sample_modules_def numeral_2_eq_2)
  have fr: "frames pg 4122" "mm_end pg = 0x7200000" by (simp_all add: frames_def mm_end_def f)
  have "bags (kn_heap (bo_km sample_boot)) = empty_bags" by (simp add: sample_boot_def)
  moreover have "\<forall>r \<in> set (module_ranges sample_boot_info). module_range_ok r" by (simp add: rs module_range_ok_def)
  ultimately show ?thesis
    unfolding start_ok_def Let_def pg_def [symmetric] f w np i fo
    using lay kt md fr fo U by (simp add: sample_tables_def pg_ok_def f)
qed

lemma sample_build: "build_ok True sample_mem sample_modules 2"
proof -
  have md: "start_paddr (sample_modules ! i) = 0x3000" if "i < 2" for i using that by (simp add: sample_modules_def)
  show ?thesis using sample_module_ok(5) [OF md] by (auto simp: build_ok_def)
qed

theorem bootstrap_starts_first_module_witness:
  "\<exists>b m'. bootstrap True pc_bus sample_tables sample_kmem_links sample_bl sample_links sample_boot_info sample_boot
      = Inr (\<lparr>r_ds = 0x23, r_edi = 0, r_esi = 0, r_ebp = 0, r_ebx = 0, r_edx = 0, r_ecx = 0, r_eax = 0,
        r_eip = 0x400000, r_cs = 0x1B, r_eflags = THREAD_DEFAULT_EFLAGS, r_esp = 0x80000000, r_ss = 0x23\<rparr>, b)
    \<and> user_byte (pmem (kn_pg (bo_km b))) (cr3 (m_kst (bo_m b))) 0x400003 = Some 0xEF
    \<and> interrupts pc_bus (replicate 3 zero_irq) (bo_m b) = Inr m'"
proof -
  have md: "start_paddr (sample_modules ! 0) = 0x3000" by (simp add: sample_modules_def)
  note M = sample_module_ok [OF md]
  have f: "pmem (kn_pg (bo_km sample_boot)) = sample_mem" "modules sample_boot_info = sample_modules" "unat (no_modules sample_boot_info) = 2"
    "m_kst (bo_m sample_boot) = sample_kstate" "m_clock (bo_m sample_boot) = \<lparr>tv_sec = 0, tv_nsec = 0\<rparr>"
    by (simp_all add: sample_boot_def sample_boot_info_def sample_machine_def)
  have mc: "length (m_callback (bo_m sample_boot)) = 256" "\<not> bit (irr (fst (m_dev (bo_m sample_boot)))) 7" "\<not> bit (irr (snd (m_dev (bo_m sample_boot)))) 7"
    "\<forall>c \<in> set (replicate 3 zero_irq). int_no c = 32"
    by (simp_all add: sample_boot_def sample_machine_def i8259_reset_def zero_irq_def)
  have e: "e_entry (module_hdr sample_mem (sample_modules ! 0)) = 0x400000" using M(3) by (simp add: sample_hdr)
  have byte: "sample_mem (0x3054 + 3) = 0xEF" by (simp add: sample_mem_def sample_image_def)
  obtain ph where ph: "ph \<in> set (loadable (module_phdrs sample_mem (sample_modules ! 0)))" "p_vaddr ph = 0x400000" "p_filesz ph = 4" "p_offset ph = 0x54"
    using M(4) by blast
  have z: "0 < (2 :: nat)" "unat (tv_nsec \<lparr>tv_sec = 0, tv_nsec = 0\<rparr>) \<le> 1000000000" "unat (tv_sec \<lparr>tv_sec = 0, tv_nsec = 0\<rparr>) + length (replicate 3 zero_irq) < 2 ^ 64"
    by simp_all
  obtain b m' where b: "bootstrap True pc_bus sample_tables sample_kmem_links sample_bl sample_links sample_boot_info sample_boot
      = Inr (\<lparr>r_ds = 0x23, r_edi = 0, r_esi = 0, r_ebp = 0, r_ebx = 0, r_edx = 0, r_ecx = 0, r_eax = 0,
        r_eip = e_entry (module_hdr sample_mem (sample_modules ! 0)), r_cs = 0x1B, r_eflags = THREAD_DEFAULT_EFLAGS, r_esp = 0x80000000, r_ss = 0x23\<rparr>, b)"
    "\<forall>ph \<in> set (loadable (module_phdrs sample_mem (sample_modules ! 0))). \<forall>k < unat (p_filesz ph).
      user_byte (pmem (kn_pg (bo_km b))) (cr3 (m_kst (bo_m b))) (p_vaddr ph + of_nat k) = Some (sample_mem (start_paddr (sample_modules ! 0) + p_offset ph + of_nat k))"
    "interrupts pc_bus (replicate 3 zero_irq) (bo_m b) = Inr m'"
    using bootstrap_starts_first_module [where debug = True and bt = sample_boot and kt = sample_tables and lk = sample_kmem_links and info = sample_boot_info and bl = sample_bl
        and al = sample_links, unfolded f, OF sample_start sample_build z(1) sample_tasks_apart pc_bus_ok mc(1-3) z(2) mc(4) z(3)]
    by blast
  have "user_byte (pmem (kn_pg (bo_km b))) (cr3 (m_kst (bo_m b))) 0x400003 = Some 0xEF"
    using b(2) [rule_format, OF ph(1), of 3] ph(2-4) md byte by simp
  then show ?thesis using b(1,3) e by auto
qed

end
