(* ===== verification/Kcall.thy ===== *)
theory Kcall
  imports Elf Console Kinfo Thread
begin

text \<open>
  The kernel calls of \<^verbatim>\<open>kern/kcall.c\<close>. A call runs in the address space of the caller, so the user's
  pointers are followed through the page tables that \<^verbatim>\<open>cr3\<close> names, byte by byte; an address that
  is not mapped is a page fault, and so is a store to a page that is not writable, in the kernel too:
  \<^verbatim>\<open>boot.asm\<close> sets the write-protect bit of \<^verbatim>\<open>cr0\<close>.
\<close>

section \<open>Definitions\<close>

definition NO_KCALLS :: u32 where "NO_KCALLS = 1"
definition PROC_MMAN_PID :: u32 where "PROC_MMAN_PID = 1"

record kcall_frame_t =
  kcall_number :: size_t
  kcall_args :: "word_t list"

record kcall_state =
  kc_pg :: pgstate
  kc_kst :: kstate
  kc_con :: console
  kc_info :: kernel_info_t

text \<open>Stores through the page tables, and the string at a user address. \<open>acc\<close> are the permission bits of the
  translation that an access needs: the write bit (2) for a store of the kernel, the write and the user bit (6) for one
  of user mode, the user bit (4) for a read of user mode; a read of the kernel needs none.\<close>

fun user_stores :: "u32 \<Rightarrow> paddr_t \<Rightarrow> (vaddr_t \<times> u8) list \<Rightarrow> mem \<Rightarrow> mem outcome" where
  "user_stores acc pd [] m = Inr m"
| "user_stores acc pd ((va, b) # ws) m =
     (case page_walk m pd va of
        None \<Rightarrow> Inl (Page_Fault va)
      | Some (pa, fl) \<Rightarrow> if permits acc fl then user_stores acc pd ws (m(pa := b)) else Inl (Page_Fault va))"

definition bytes32 :: "vaddr_t \<Rightarrow> u32 \<Rightarrow> (vaddr_t \<times> u8) list" where
  "bytes32 va v = [(va, ucast v), (va + 1, ucast (drop_bit 8 v)), (va + 2, ucast (drop_bit 16 v)), (va + 3, ucast (drop_bit 24 v))]"

fun user_string :: "nat \<Rightarrow> paddr_t \<Rightarrow> vaddr_t \<Rightarrow> mem \<Rightarrow> string outcome" where
  "user_string 0 pd va m = Inl No_Return"
| "user_string (Suc n) pd va m =
     (case page_walk m pd va of
        None \<Rightarrow> Inl (Page_Fault va)
      | Some (pa, _) \<Rightarrow> if m pa = 0 then Inr [] else bindE (user_string n pd (va + 1) m) (\<lambda>s. Inr (char_of (unat (m pa)) # s)))"

text \<open>\<^verbatim>\<open>VALIDATE_USR_PTR\<close> lets exactly the pointers below the kernel pass.\<close>

definition validate :: "vaddr_t \<Rightarrow> kcall_state \<Rightarrow> bool" where
  "validate usr_ptr s \<longleftrightarrow> usr_ptr < high_vma (kc_pg s)"

definition kcall_debug :: "u32 \<Rightarrow> word_t list \<Rightarrow> kcall_state \<Rightarrow> (u32 \<times> kcall_state) outcome" where
  "kcall_debug td args s =
     (let msg = args ! 0
      in if \<not> validate msg s then Inr (-1, s)
         else bindE (user_string (2 ^ 32) (pd_reg (kc_pg s)) msg (pmem (kc_pg s))) (\<lambda>str.
              bindE (klog ''DEBUG'' ''kern/kcall.c'' 43 str [] (kc_con s)) (\<lambda>(n, con).
                Inr (n, s\<lparr>kc_con := con\<rparr>))))"

text \<open>The layout of \<^verbatim>\<open>struct sys_meminfo\<close>: twenty regions of two words, then their number.\<close>

definition NO_MEM_REGIONS :: nat where "NO_MEM_REGIONS = 20"

definition region_addr :: "vaddr_t \<Rightarrow> nat \<Rightarrow> vaddr_t" where
  "region_addr p i = p + 8 * of_nat i"

definition no_mem_regions_addr :: "vaddr_t \<Rightarrow> vaddr_t" where
  "no_mem_regions_addr p = p + 160"

fun meminfo_loop :: "nat \<Rightarrow> nat \<Rightarrow> vaddr_t \<Rightarrow> multiboot_memory_map_t list \<Rightarrow> paddr_t \<Rightarrow> mem \<Rightarrow> mem outcome" where
  "meminfo_loop 0 i p maps pd m = Inr m"
| "meminfo_loop (Suc n) i p maps pd m =
     (if length maps \<le> i then Inl Out_Of_Bounds
      else bindE (user_stores 2 pd (bytes32 (region_addr p i) (ucast (map_addr (maps ! i)))) m) (\<lambda>m.
           bindE (user_stores 2 pd (bytes32 (region_addr p i + 4) (ucast (map_len (maps ! i)))) m) (\<lambda>m.
             meminfo_loop n (Suc i) p maps pd m)))"

definition kcall_meminfo :: "u32 \<Rightarrow> word_t list \<Rightarrow> kcall_state \<Rightarrow> (u32 \<times> kcall_state) outcome" where
  "kcall_meminfo td args s =
     (let p = args ! 0; pd = pd_reg (kc_pg s)
      in if \<not> validate p s then Inr (-1, s)
         else if td = 0 then Inl Null_Deref
         else if proc_id (procs (kc_kst s) (tcb_proc (tcbs (kc_kst s) td))) \<noteq> PROC_MMAN_PID then Inr (-1, s)
         else bindE (user_stores 2 pd (bytes32 (no_mem_regions_addr p) (no_mmaps (kc_info s))) (pmem (kc_pg s))) (\<lambda>m.
              bindE (meminfo_loop (unat (no_mmaps (kc_info s))) 0 p (memmaps (kc_info s)) pd m) (\<lambda>m.
                Inr (0, s\<lparr>kc_pg := (kc_pg s)\<lparr>pmem := m\<rparr>\<rparr>))))"

definition kcall_table :: "(u32 \<Rightarrow> word_t list \<Rightarrow> kcall_state \<Rightarrow> (u32 \<times> kcall_state) outcome) list" where
  "kcall_table = [kcall_debug, kcall_meminfo]"

definition kcall_handler :: "bool \<Rightarrow> kcall_frame_t \<Rightarrow> kcall_state \<Rightarrow> (u32 \<times> kcall_state) outcome" where
  "kcall_handler debug frm s =
     (if kcall_number frm > NO_KCALLS then Inr (-1, s)
      else let kcall = kcall_table ! unat (kcall_number frm);
               td = current_thread (kc_kst s)
           in bindE (ASSERT debug (td \<noteq> 0)) (\<lambda>_. kcall td (kcall_args frm) s))"

section \<open>Stores through the page tables\<close>

lemma user_stores_append: "user_stores acc pd (xs @ ys) m = bindE (user_stores acc pd xs m) (user_stores acc pd ys)"
proof (induction xs arbitrary: m)
  case (Cons x xs)
  then show ?case by (cases x) (simp add: fun_upd_def split: option.split)
qed simp

text \<open>Stores at distinct offsets of a mapped region, whose frames lie outside the paging structures.\<close>

lemma user_stores_ok:
  assumes ok: "pd_ok m pd lim" and W: "\<And>q. q \<in> W \<Longrightarrow> other_page m pd q"
    and pa: "\<And>k. k < n \<Longrightarrow> \<exists>fl. page_walk m pd (p + of_nat k) = Some (pa k, fl) \<and> permits acc fl"
    and inW: "\<And>k. k < n \<Longrightarrow> pa k AND PAGE_MASK \<in> W" and inj: "inj_on pa {..<n}"
    and dist: "distinct (map fst ws)" and lt: "\<And>k b. (k, b) \<in> set ws \<Longrightarrow> k < n"
  shows "\<exists>m'. user_stores acc pd (map (\<lambda>(k, b). (p + of_nat k, b)) ws) m = Inr m' \<and> only_in W m m'
    \<and> (\<forall>(k, b) \<in> set ws. m' (pa k) = b) \<and> (\<forall>x. x \<notin> pa ` fst ` set ws \<longrightarrow> m' x = m x)"
  using ok W pa dist lt
proof (induction ws arbitrary: m)
  case (Cons kb ws)
  obtain k b where kb: "kb = (k, b)" by (cases kb)
  have k: "k < n" using Cons.prems(5) by (auto simp: kb)
  obtain fl where w: "page_walk m pd (p + of_nat k) = Some (pa k, fl)" "permits acc fl" using Cons.prems(3) [OF k] by blast
  let ?m = "m(pa k := b)"
  have pg: "pg_ok (pa k AND PAGE_MASK)" using Cons.prems(2) [OF inW [OF k]] by (simp add: other_page_def)
  have "only_in W m (m(cell (pa k AND PAGE_MASK) (unat (pa k) mod 4096) := b))"
    by (rule only_in_upd [OF pg inW [OF k]]) simp
  then have o: "only_in W m ?m" by (simp flip: addr_cell)
  note K = only_in_walk [OF o Cons.prems(1,2)]
  have "\<exists>m'. user_stores acc pd (map (\<lambda>(k, b). (p + of_nat k, b)) ws) ?m = Inr m' \<and> only_in W ?m m'
    \<and> (\<forall>(k, b) \<in> set ws. m' (pa k) = b) \<and> (\<forall>x. x \<notin> pa ` fst ` set ws \<longrightarrow> m' x = ?m x)"
  proof (rule Cons.IH [OF K(2)])
    show "other_page ?m pd q" if "q \<in> W" for q using K(5) Cons.prems(2) that by simp
    show "\<exists>fl. page_walk ?m pd (p + of_nat j) = Some (pa j, fl) \<and> permits acc fl" if "j < n" for j using Cons.prems(3) [OF that] K(4) by simp
    show "distinct (map fst ws)" using Cons.prems(4) by simp
    show "(j, c) \<in> set ws \<Longrightarrow> j < n" for j c using Cons.prems(5) [of j c] by simp
  qed
  then obtain m' where m': "user_stores acc pd (map (\<lambda>(k, b). (p + of_nat k, b)) ws) ?m = Inr m'" "only_in W ?m m'"
    "\<forall>(k, b) \<in> set ws. m' (pa k) = b" "\<And>x. x \<notin> pa ` fst ` set ws \<Longrightarrow> m' x = ?m x"
    by blast
  have "pa k \<notin> pa ` fst ` set ws"
  proof
    assume "pa k \<in> pa ` fst ` set ws"
    then obtain j c where j: "(j, c) \<in> set ws" "pa k = pa j" by force
    then have "k = j" using inj_onD [OF inj j(2)] k Cons.prems(5) [of j c] by simp
    then show False using j(1) Cons.prems(4) by (force simp: kb)
  qed
  then have "m' (pa k) = b" using m'(4) by simp
  moreover have "m' x = m x" if "x \<notin> pa ` fst ` set (kb # ws)" for x
    using that m'(4) [of x] by (auto simp: kb)
  ultimately show ?case
    using w m'(1,3) only_in_trans [OF o m'(2)] by (intro exI [of _ m']) (auto simp: kb)
qed auto

section \<open>What the memory manager is told\<close>

definition word_bytes :: "nat \<Rightarrow> u32 \<Rightarrow> (nat \<times> u8) list" where
  "word_bytes k v = [(k, ucast v), (k + 1, ucast (drop_bit 8 v)), (k + 2, ucast (drop_bit 16 v)), (k + 3, ucast (drop_bit 24 v))]"

lemma bytes32_offsets: "bytes32 (p + of_nat k) v = map (\<lambda>(k, b). (p + of_nat k, b)) (word_bytes k v)"
  by (simp add: bytes32_def word_bytes_def ac_simps)

fun region_bytes :: "nat \<Rightarrow> nat \<Rightarrow> multiboot_memory_map_t list \<Rightarrow> (nat \<times> u8) list" where
  "region_bytes 0 i maps = []"
| "region_bytes (Suc n) i maps = word_bytes (8 * i) (ucast (map_addr (maps ! i))) @ word_bytes (8 * i + 4) (ucast (map_len (maps ! i)))
     @ region_bytes n (Suc i) maps"

lemma meminfo_loop_stores:
  "i + n \<le> length maps \<Longrightarrow> meminfo_loop n i p maps pd m = user_stores 2 pd (map (\<lambda>(k, b). (p + of_nat k, b)) (region_bytes n i maps)) m"
proof (induction n arbitrary: i m)
  case (Suc n)
  have e: "bytes32 (region_addr p i) v = map (\<lambda>(k, b). (p + of_nat k, b)) (word_bytes (8 * i) v)"
    "bytes32 (region_addr p i + 4) v = map (\<lambda>(k, b). (p + of_nat k, b)) (word_bytes (8 * i + 4) v)" for v
    using bytes32_offsets [of p "8 * i" v] bytes32_offsets [of p "8 * i + 4" v] by (simp_all add: region_addr_def ac_simps)
  have IH: "meminfo_loop n (Suc i) p maps pd m = user_stores 2 pd (map (\<lambda>(k, b). (p + of_nat k, b)) (region_bytes n (Suc i) maps)) m" for m
    using Suc.prems by (intro Suc.IH) simp
  show ?case
    using Suc.prems unfolding meminfo_loop.simps region_bytes.simps map_append user_stores_append e IH by simp
qed simp

lemma region_bytes_bounds: "(k, b) \<in> set (region_bytes n i maps) \<Longrightarrow> 8 * i \<le> k \<and> k < 8 * (i + n)"
  by (induction n arbitrary: i) (fastforce simp: word_bytes_def)+

lemma region_bytes_distinct: "distinct (map fst (region_bytes n i maps))"
proof (induction n arbitrary: i)
  case (Suc n)
  have "k \<notin> fst ` set (region_bytes n (Suc i) maps)" if "k < 8 * Suc i" for k
    using region_bytes_bounds [of k _ n "Suc i" maps] that by force
  then show ?case using Suc.IH by (auto simp: word_bytes_def)
qed simp

lemma region_bytes_word:
  "i \<le> j \<Longrightarrow> j < i + n \<Longrightarrow> set (word_bytes (8 * j) (ucast (map_addr (maps ! j)))) \<subseteq> set (region_bytes n i maps)
    \<and> set (word_bytes (8 * j + 4) (ucast (map_len (maps ! j)))) \<subseteq> set (region_bytes n i maps)"
proof (induction n arbitrary: i)
  case (Suc n)
  show ?case
  proof (cases "i = j")
    case False
    then show ?thesis using Suc.IH [of "Suc i"] Suc.prems by auto
  qed auto
qed simp

lemma load32_word_bytes:
  assumes "\<forall>(k, b) \<in> set (word_bytes k v). f k = b"
  shows "ucast (f k) OR push_bit 8 (ucast (f (k + 1))) OR push_bit 16 (ucast (f (k + 2))) OR push_bit 24 (ucast (f (k + 3))) = v"
  using assms by (simp add: word_bytes_def bytes_join32)


text \<open>A user buffer: mapped with the permission, each byte to a place of its own outside the paging structures.\<close>

definition user_pa :: "mem \<Rightarrow> paddr_t \<Rightarrow> vaddr_t \<Rightarrow> nat \<Rightarrow> paddr_t" where
  "user_pa m pd p k = fst (the (page_walk m pd (p + of_nat k)))"

definition user_buffer :: "u32 \<Rightarrow> mem \<Rightarrow> paddr_t \<Rightarrow> vaddr_t \<Rightarrow> nat \<Rightarrow> bool" where
  "user_buffer acc m pd p n \<longleftrightarrow> (\<forall>k < n. (\<exists>pa fl. page_walk m pd (p + of_nat k) = Some (pa, fl) \<and> permits acc fl)
       \<and> other_page m pd (user_pa m pd p k AND PAGE_MASK))
     \<and> inj_on (user_pa m pd p) {..<n}"

definition user_word :: "mem \<Rightarrow> paddr_t \<Rightarrow> vaddr_t \<Rightarrow> u32 option" where
  "user_word m pd va = (case (user_byte m pd va, user_byte m pd (va + 1), user_byte m pd (va + 2), user_byte m pd (va + 3)) of
     (Some a, Some b, Some c, Some d) \<Rightarrow> Some (ucast a OR push_bit 8 (ucast b) OR push_bit 16 (ucast c) OR push_bit 24 (ucast d))
   | _ \<Rightarrow> None)"

lemma user_buffer_stores:
  assumes ok: "pd_ok m pd lim" and buf: "user_buffer acc m pd p n"
    and dist: "distinct (map fst ws)" and sub: "fst ` set ws \<subseteq> {..<n}"
  shows "\<exists>m'. user_stores acc pd (map (\<lambda>(k, b). (p + of_nat k, b)) ws) m = Inr m' \<and> page_walk m' pd = page_walk m pd
    \<and> (\<forall>k v. set (word_bytes k v) \<subseteq> set ws \<longrightarrow> user_word m' pd (p + of_nat k) = Some v)
    \<and> (\<forall>x. x \<notin> user_pa m pd p ` {..<n} \<longrightarrow> m' x = m x) \<and> pd_ok m' pd lim \<and> other_page m' pd = other_page m pd"
proof -
  have lt: "k < n" if "(k, b) \<in> set ws" for k b using sub that by force
  let ?pa = "user_pa m pd p" and ?W = "(\<lambda>k. user_pa m pd p k AND PAGE_MASK) ` {..<n}"
  have W: "other_page m pd q" if "q \<in> ?W" for q using buf that by (auto simp: user_buffer_def)
  have walk: "\<exists>fl. page_walk m pd (p + of_nat k) = Some (?pa k, fl) \<and> permits acc fl" if "k < n" for k
    using buf that by (auto simp: user_buffer_def user_pa_def)
  obtain m' where m': "user_stores acc pd (map (\<lambda>(k, b). (p + of_nat k, b)) ws) m = Inr m'" "only_in ?W m m'"
    "\<forall>(k, b) \<in> set ws. m' (?pa k) = b" "\<forall>x. x \<notin> ?pa ` fst ` set ws \<longrightarrow> m' x = m x"
    using user_stores_ok [where m = m and pd = pd and lim = lim and W = ?W and n = n and p = p and pa = ?pa and ws = ws and acc = acc] ok W walk dist lt buf
    unfolding user_buffer_def by blast
  note K = only_in_walk [OF m'(2) ok W]
  have byte: "user_byte m' pd (p + of_nat k) = Some b" if kb: "(k, b) \<in> set ws" for k b
  proof -
    obtain fl where "page_walk m pd (p + of_nat k) = Some (?pa k, fl)" using walk [OF lt [OF kb]] by blast
    then show ?thesis using m'(3) kb by (auto simp: user_byte_def K(4))
  qed
  have "user_word m' pd (p + of_nat k) = Some v" if "set (word_bytes k v) \<subseteq> set ws" for k v
  proof -
    have w: "(k, ucast v) \<in> set ws" "(k + 1, ucast (drop_bit 8 v)) \<in> set ws" "(k + 2, ucast (drop_bit 16 v)) \<in> set ws" "(k + 3, ucast (drop_bit 24 v)) \<in> set ws"
      using that by (simp_all add: word_bytes_def)
    show ?thesis using byte [OF w(1)] byte [OF w(2)] byte [OF w(3)] byte [OF w(4)] bytes_join32 [of v]
      by (simp add: user_word_def ac_simps)
  qed
  moreover have "m' x = m x" if "x \<notin> ?pa ` {..<n}" for x
  proof -
    have "x \<notin> ?pa ` fst ` set ws" using that sub by blast
    then show ?thesis using m'(4) by blast
  qed
  ultimately show ?thesis using m'(1) K(2,4,5) by (auto simp: fun_eq_iff)
qed


text \<open>The call of the memory manager.\<close>

lemma meminfo_call:
  assumes "kcall_number frm = 1" "kcall_args frm ! 0 = p" "p < high_vma (kc_pg s)"
    and "current_thread (kc_kst s) \<noteq> 0"
    and "proc_id (procs (kc_kst s) (tcb_proc (tcbs (kc_kst s) (current_thread (kc_kst s))))) = PROC_MMAN_PID"
    and "unat (no_mmaps (kc_info s)) \<le> NO_MEM_REGIONS" "unat (no_mmaps (kc_info s)) \<le> length (memmaps (kc_info s))"
    and "pd_ok (pmem (kc_pg s)) (pd_reg (kc_pg s)) lim" "user_buffer 2 (pmem (kc_pg s)) (pd_reg (kc_pg s)) p 164"
  shows "\<exists>m'. kcall_handler debug frm s = Inr (0, s\<lparr>kc_pg := (kc_pg s)\<lparr>pmem := m'\<rparr>\<rparr>)
    \<and> user_word m' (pd_reg (kc_pg s)) (p + 160) = Some (no_mmaps (kc_info s))
    \<and> (\<forall>i < unat (no_mmaps (kc_info s)).
         user_word m' (pd_reg (kc_pg s)) (p + 8 * of_nat i) = Some (ucast (map_addr (memmaps (kc_info s) ! i)))
       \<and> user_word m' (pd_reg (kc_pg s)) (p + 8 * of_nat i + 4) = Some (ucast (map_len (memmaps (kc_info s) ! i))))
    \<and> page_walk m' (pd_reg (kc_pg s)) = page_walk (pmem (kc_pg s)) (pd_reg (kc_pg s))
    \<and> (\<forall>x. x \<notin> user_pa (pmem (kc_pg s)) (pd_reg (kc_pg s)) p ` {..<164} \<longrightarrow> m' x = pmem (kc_pg s) x)
    \<and> pd_ok m' (pd_reg (kc_pg s)) lim \<and> other_page m' (pd_reg (kc_pg s)) = other_page (pmem (kc_pg s)) (pd_reg (kc_pg s))"
proof -
  let ?m = "pmem (kc_pg s)" and ?pd = "pd_reg (kc_pg s)" and ?n = "unat (no_mmaps (kc_info s))" and ?maps = "memmaps (kc_info s)"
  let ?ws = "word_bytes 160 (no_mmaps (kc_info s)) @ region_bytes ?n 0 ?maps"
  have n: "?n \<le> 20" using assms(6) by (simp add: NO_MEM_REGIONS_def)
  have lt: "fst ` set ?ws \<subseteq> {..<164}"
    using region_bytes_bounds [of _ _ ?n 0 ?maps] n by (force simp: word_bytes_def)
  have "k \<notin> fst ` set (region_bytes ?n 0 ?maps)" if "160 \<le> k" for k
    using region_bytes_bounds [of k _ ?n 0 ?maps] n that by force
  then have dist: "distinct (map fst ?ws)" using region_bytes_distinct [of ?n 0 ?maps] by (auto simp: word_bytes_def)
  obtain m' where m': "user_stores 2 ?pd (map (\<lambda>(k, b). (p + of_nat k, b)) ?ws) ?m = Inr m'" "page_walk m' ?pd = page_walk ?m ?pd"
    "\<forall>k v. set (word_bytes k v) \<subseteq> set ?ws \<longrightarrow> user_word m' ?pd (p + of_nat k) = Some v"
    "\<forall>x. x \<notin> user_pa ?m ?pd p ` {..<164} \<longrightarrow> m' x = ?m x" "pd_ok m' ?pd lim" "other_page m' ?pd = other_page ?m ?pd"
    using user_buffer_stores [OF assms(8,9) dist lt] by (elim exE conjE) (rule that)
  have call: "kcall_handler debug frm s = Inr (0, s\<lparr>kc_pg := (kc_pg s)\<lparr>pmem := m'\<rparr>\<rparr>)"
    using m'(1) assms(1-5) meminfo_loop_stores [of 0 ?n ?maps p ?pd] assms(7) bytes32_offsets [of p 160]
    by (cases "user_stores 2 ?pd (map (\<lambda>(k, b). (p + of_nat k, b)) (word_bytes 160 (no_mmaps (kc_info s)))) ?m")
      (auto simp: kcall_handler_def NO_KCALLS_def kcall_table_def kcall_meminfo_def validate_def ASSERT_def Let_def
        no_mem_regions_addr_def user_stores_append)
  have regs: "user_word m' ?pd (p + 8 * of_nat i) = Some (ucast (map_addr (?maps ! i)))
      \<and> user_word m' ?pd (p + 8 * of_nat i + 4) = Some (ucast (map_len (?maps ! i)))" if "i < ?n" for i
    using region_bytes_word [of 0 i ?n ?maps] that m'(3) [rule_format, of "8 * i" "ucast (map_addr (?maps ! i))"]
      m'(3) [rule_format, of "8 * i + 4" "ucast (map_len (?maps ! i))"] by (auto simp: ac_simps)
  show ?thesis using call regs m'(2,4-6) m'(3) [rule_format, of 160 "no_mmaps (kc_info s)"] by auto
qed

section \<open>Properties\<close>

text \<open>C33: the kernel refuses what it must. A kernel call with a number past the table, one whose pointer
  argument does not lie below the kernel, and a request for the memory map by a process other
  than the memory manager all return -1 and leave the whole machine state as it was. (A build with
  assertions checks first, for a number of the table, that there is a current thread.)\<close>

theorem kcall_rejects:
  assumes "2 \<le> kcall_number frm
    \<or> (kcall_number frm = 0 \<and> (debug \<longrightarrow> current_thread (kc_kst s) \<noteq> 0) \<and> high_vma (kc_pg s) \<le> kcall_args frm ! 0)
    \<or> (kcall_number frm = 1 \<and> (debug \<longrightarrow> current_thread (kc_kst s) \<noteq> 0) \<and> (high_vma (kc_pg s) \<le> kcall_args frm ! 0
        \<or> (current_thread (kc_kst s) \<noteq> 0 \<and> proc_id (procs (kc_kst s) (tcb_proc (tcbs (kc_kst s) (current_thread (kc_kst s))))) \<noteq> PROC_MMAN_PID)))"
  shows "kcall_handler debug frm s = Inr (-1, s)"
proof -
  have "2 \<le> n \<Longrightarrow> 1 < n" for n :: u32 by (simp add: word_le_nat_alt word_less_nat_alt)
  then show ?thesis
    using assms unfolding kcall_handler_def NO_KCALLS_def
    by (auto simp: kcall_table_def kcall_debug_def kcall_meminfo_def validate_def ASSERT_def Let_def)
qed

text \<open>C32: the memory manager learns the memory map. When the current thread belongs to the process with
  the memory manager's identifier and its buffer of 164 bytes is mapped writable, each byte to a place of
  its own outside the paging structures, the call returns 0; the buffer then holds the number of
  regions and, for every region, the low 32 bits of its address and of its length; the address
  translation is the same as before and no byte outside the buffer changes.\<close>

theorem kcall_meminfo_reports:
  assumes "kcall_number frm = 1" "kcall_args frm ! 0 = p" "p < high_vma (kc_pg s)"
    and "current_thread (kc_kst s) \<noteq> 0"
    and "proc_id (procs (kc_kst s) (tcb_proc (tcbs (kc_kst s) (current_thread (kc_kst s))))) = PROC_MMAN_PID"
    and "unat (no_mmaps (kc_info s)) \<le> NO_MEM_REGIONS" "unat (no_mmaps (kc_info s)) \<le> length (memmaps (kc_info s))"
    and "pd_ok (pmem (kc_pg s)) (pd_reg (kc_pg s)) lim" "user_buffer 2 (pmem (kc_pg s)) (pd_reg (kc_pg s)) p 164"
  shows "\<exists>m'. kcall_handler debug frm s = Inr (0, s\<lparr>kc_pg := (kc_pg s)\<lparr>pmem := m'\<rparr>\<rparr>)
    \<and> user_word m' (pd_reg (kc_pg s)) (p + 160) = Some (no_mmaps (kc_info s))
    \<and> (\<forall>i < unat (no_mmaps (kc_info s)).
         user_word m' (pd_reg (kc_pg s)) (p + 8 * of_nat i) = Some (ucast (map_addr (memmaps (kc_info s) ! i)))
       \<and> user_word m' (pd_reg (kc_pg s)) (p + 8 * of_nat i + 4) = Some (ucast (map_len (memmaps (kc_info s) ! i))))
    \<and> page_walk m' (pd_reg (kc_pg s)) = page_walk (pmem (kc_pg s)) (pd_reg (kc_pg s))
    \<and> (\<forall>x. x \<notin> user_pa (pmem (kc_pg s)) (pd_reg (kc_pg s)) p ` {..<164} \<longrightarrow> m' x = pmem (kc_pg s) x)"
  using meminfo_call [OF assms, of debug] by blast

section \<open>Witnesses\<close>

definition sample_kc :: "pid_t \<Rightarrow> kcall_state" where
  "sample_kc pid = \<lparr>kc_pg = sample_pg\<lparr>pmem := store32 (store32 (\<lambda>_. 0) (cell 0x1000 4) 0x2007) (cell 0x2000 0) 0x5007, pd_reg := 0x1000\<rparr>,
     kc_kst = undefined\<lparr>current_thread := 8, procs := (\<lambda>_. undefined\<lparr>proc_id := pid\<rparr>)\<rparr>,
     kc_con = undefined,
     kc_info = zero_kinfo\<lparr>no_mmaps := 1, memmaps := [\<lparr>map_addr = 0x700100000, map_len = 0x3000000, map_type = 1, map_zero = 0\<rparr>]\<rparr>\<rparr>"

definition sample_call :: "u32 \<Rightarrow> vaddr_t \<Rightarrow> kcall_frame_t" where
  "sample_call n p = \<lparr>kcall_number = n, kcall_args = [p]\<rparr>"

lemma sample_kc_pages:
  shows "i < 1024 \<Longrightarrow> pde (pmem (kc_pg (sample_kc pid))) 0x1000 i = (if i = 1 then 0x2007 else 0)"
    and "pte_at (pmem (kc_pg (sample_kc pid))) 0x1000 0x400 = 0x5007"
    and "pd_ok (pmem (kc_pg (sample_kc pid))) 0x1000 0x100000"
proof -
  have p: "pg_ok 0x1000" "pg_ok 0x2000" by (simp_all add: pg_ok_def)
  show e: "pde (pmem (kc_pg (sample_kc pid))) 0x1000 i = (if i = 1 then 0x2007 else 0)" if "i < 1024" for i
    using load_store_cell [OF p(2,1) _ entry_offset_ok [OF that]] load_store_cell [OF p(1,1) _ entry_offset_ok [OF that]]
    by (simp add: sample_kc_def pde_def load32_zero)
  show "pte_at (pmem (kc_pg (sample_kc pid))) 0x1000 0x400 = 0x5007"
    using load_store_cell [OF p(2,2), of 0 0] e [of 1] by (simp add: pte_at_def PAGE_MASK_def) (simp add: sample_kc_def)
  show "pd_ok (pmem (kc_pg (sample_kc pid))) 0x1000 0x100000"
    unfolding pd_ok_def using p e by (auto simp: PAGE_MASK_def split: if_splits)
qed

lemma sample_kc_walk:
  assumes "k < 4096"
  shows "page_walk (pmem (kc_pg (sample_kc pid))) 0x1000 (0x400000 + of_nat k) = Some (cell 0x5000 k, 6)"
proof -
  have a: "(0x400000 + of_nat k :: u32) = of_nat (4096 * 0x400 + k)" by simp
  have "unat (of_nat (4096 * 0x400 + k) :: u32) mod 4096 = k"
    using assms mod_mult_self4 [of 4096 "0x400" k] by (subst unat_of_nat_u32) simp_all
  then show ?thesis
    unfolding a using page_low(1) [of "0x400" k] assms walk_flags [OF sample_kc_pages(3), of pid "of_nat (4096 * 0x400 + k)"]
    by (simp add: sample_kc_pages(1,2) PAGE_MASK_def del: of_nat_add)
qed

lemma sample_kc_other: "other_page (pmem (kc_pg (sample_kc pid))) 0x1000 0x5000"
  by (auto simp: other_page_def pg_ok_def sample_kc_pages(1) PAGE_MASK_def)

lemma sample_kc_buffer:
  assumes "d + n \<le> 4096"
  shows "k < n \<Longrightarrow> user_pa (pmem (kc_pg (sample_kc pid))) 0x1000 (0x400000 + of_nat d) k = cell 0x5000 (d + k)"
    and "permits acc 6 \<Longrightarrow> user_buffer acc (pmem (kc_pg (sample_kc pid))) 0x1000 (0x400000 + of_nat d) n"
proof -
  let ?m = "pmem (kc_pg (sample_kc pid))"
  have w: "page_walk ?m 0x1000 (0x400000 + of_nat d + of_nat k) = Some (cell 0x5000 (d + k), 6)" if "k < n" for k
    using sample_kc_walk [of "d + k" pid] assms that by (simp add: add.assoc)
  then show pa: "user_pa ?m 0x1000 (0x400000 + of_nat d) k = cell 0x5000 (d + k)" if "k < n" for k
    using w [OF that] by (auto simp: user_pa_def)
  have p: "pg_ok 0x5000" by (simp add: pg_ok_def)
  have "inj_on (user_pa ?m 0x1000 (0x400000 + of_nat d)) {..<n}"
    using assms by (intro inj_onI) (auto simp: pa cell_eq_iff [OF p p])
  then show "user_buffer acc ?m 0x1000 (0x400000 + of_nat d) n" if "permits acc 6"
    using that w sample_kc_other [of pid] assms by (fastforce simp: user_buffer_def pa cell_page [OF p])
qed

theorem kcall_rejects_witness:
  "kcall_handler False (sample_call 1 0x400000) (sample_kc 2) = Inr (-1, sample_kc 2)
   \<and> kcall_handler False (sample_call 0 0xC0000000) (sample_kc 1) = Inr (-1, sample_kc 1)
   \<and> kcall_handler False (sample_call 2 0) (sample_kc 1) = Inr (-1, sample_kc 1)"
  by (intro conjI kcall_rejects) (simp_all add: sample_call_def sample_kc_def sample_pg_def PROC_MMAN_PID_def)

theorem kcall_meminfo_reports_witness:
  "\<exists>m'. kcall_handler False (sample_call 1 0x400000) (sample_kc 1) = Inr (0, (sample_kc 1)\<lparr>kc_pg := (kc_pg (sample_kc 1))\<lparr>pmem := m'\<rparr>\<rparr>)
     \<and> user_word m' 0x1000 0x4000A0 = Some 1 \<and> user_word m' 0x1000 0x400000 = Some 0x100000 \<and> user_word m' 0x1000 0x400004 = Some 0x3000000"
proof -
  let ?s = "sample_kc 1"
  have f: "pd_reg (kc_pg ?s) = 0x1000" "high_vma (kc_pg ?s) = 0xC0000000" "no_mmaps (kc_info ?s) = 1" "current_thread (kc_kst ?s) = 8"
    "proc_id (procs (kc_kst ?s) t) = 1" "length (memmaps (kc_info ?s)) = 1"
    "map_addr (memmaps (kc_info ?s) ! 0) = 0x700100000" "map_len (memmaps (kc_info ?s) ! 0) = 0x3000000" for t
    by (simp_all add: sample_kc_def sample_pg_def)
  show ?thesis
    using kcall_meminfo_reports [of "sample_call 1 0x400000" "0x400000" ?s "0x100000" False] sample_kc_pages(3) [of 1] sample_kc_buffer(2) [of 0 164 2 1]
    by (auto simp: f sample_call_def PROC_MMAN_PID_def NO_MEM_REGIONS_def permits_def)
qed

end
