(* ===== verification/Userland.thy ===== *)
theory Userland
  imports Kcall
begin

text \<open>
  Kernel calls as a user program makes them: the library of \<^verbatim>\<open>sys/arch/i686/syscall.c\<close> with its assembly stub
  \<^verbatim>\<open>kcall_stub.asm\<close>, the kernel's entry stub \<^verbatim>\<open>arch/i686/kcall.asm\<close>, and the memory manager,
  \<^verbatim>\<open>serv/mman/main.c\<close>, that uses them. The registers of the user program are explicit, its stack is in its
  own address space; what the C compiler itself puts on the stack is left out.
\<close>

section \<open>Definitions\<close>

record user_regs =
  u_eax :: reg_t
  u_ebx :: reg_t
  u_ecx :: reg_t
  u_edx :: reg_t
  u_esi :: reg_t
  u_edi :: reg_t
  u_ebp :: reg_t
  u_esp :: reg_t

record user_state =
  us_regs :: user_regs
  us_kc :: kcall_state

abbreviation us_mem :: "user_state \<Rightarrow> mem" where
  "us_mem st \<equiv> pmem (kc_pg (us_kc st))"

abbreviation us_pd :: "user_state \<Rightarrow> paddr_t" where
  "us_pd st \<equiv> pd_reg (kc_pg (us_kc st))"

text \<open>The stub runs in user mode: a push needs pages that user mode may write, a pop such that it may read.\<close>

definition user_access :: "u32 \<Rightarrow> mem \<Rightarrow> paddr_t \<Rightarrow> vaddr_t \<Rightarrow> bool" where
  "user_access acc m pd va \<longleftrightarrow> (case page_walk m pd va of None \<Rightarrow> False | Some (_, fl) \<Rightarrow> permits acc fl)"

definition user_push :: "u32 \<Rightarrow> user_state \<Rightarrow> user_state outcome" where
  "user_push v st =
     (let sp = u_esp (us_regs st) - 4
      in bindE (user_stores 6 (us_pd st) (bytes32 sp v) (us_mem st)) (\<lambda>m.
           Inr (st\<lparr>us_regs := (us_regs st)\<lparr>u_esp := sp\<rparr>, us_kc := (us_kc st)\<lparr>kc_pg := (kc_pg (us_kc st))\<lparr>pmem := m\<rparr>\<rparr>\<rparr>)))"

definition user_pop :: "user_state \<Rightarrow> (u32 \<times> user_state) outcome" where
  "user_pop st =
     (let sp = u_esp (us_regs st)
      in case find (\<lambda>va. \<not> user_access 4 (us_mem st) (us_pd st) va) [sp, sp + 1, sp + 2, sp + 3] of
           Some va \<Rightarrow> Inl (Page_Fault va)
         | None \<Rightarrow> (case user_word (us_mem st) (us_pd st) sp of
             None \<Rightarrow> Inl (Page_Fault sp)
           | Some v \<Rightarrow> Inr (v, st\<lparr>us_regs := (us_regs st)\<lparr>u_esp := sp + 4\<rparr>\<rparr>)))"

text \<open>
  The kernel's side: the pushed registers are the frame of the call; the return value is in \<open>eax\<close>, and \<^verbatim>\<open>sysexit\<close>
  takes the instruction pointer from \<open>edx\<close> and the stack pointer from \<open>ecx\<close>, which the stub pops from the
  saved \<open>edi\<close> and \<open>ebp\<close>.
\<close>

definition sysenter_frame :: "user_regs \<Rightarrow> kcall_frame_t" where
  "sysenter_frame r = \<lparr>kcall_number = u_eax r, kcall_args = [u_ebx r, u_ecx r, u_edx r, u_esi r]\<rparr>"

definition arch_sysenter_stub :: "bool \<Rightarrow> user_state \<Rightarrow> user_state outcome" where
  "arch_sysenter_stub debug st =
     (let r = us_regs st
      in bindE (kcall_handler debug (sysenter_frame r) (us_kc st)) (\<lambda>(retval, kc).
           Inr (st\<lparr>us_regs := r\<lparr>u_eax := retval, u_edx := u_edi r, u_ecx := u_ebp r, u_esp := u_ebp r\<rparr>, us_kc := kc\<rparr>)))"

text \<open>The user's stub; \<open>ret\<close> is the address of the label \<^verbatim>\<open>usr_sysenter_stub_ret\<close>.\<close>

definition arch_invoke_kcall :: "bool \<Rightarrow> vaddr_t \<Rightarrow> user_state \<Rightarrow> (u32 \<times> user_state) outcome" where
  "arch_invoke_kcall debug ret st =
     bindE (user_push (u_ebp (us_regs st)) st) (\<lambda>st.
     bindE (user_push (u_edi (us_regs st)) st) (\<lambda>st.
     bindE (arch_sysenter_stub debug (st\<lparr>us_regs := (us_regs st)\<lparr>u_ebp := u_esp (us_regs st), u_edi := ret\<rparr>\<rparr>)) (\<lambda>st.
     bindE (user_pop st) (\<lambda>(edi, st).
     bindE (user_pop st) (\<lambda>(ebp, st).
       Inr (u_eax (us_regs st), st\<lparr>us_regs := (us_regs st)\<lparr>u_edi := edi, u_ebp := ebp\<rparr>\<rparr>))))))"

definition usr_kcall_debug :: "bool \<Rightarrow> vaddr_t \<Rightarrow> vaddr_t \<Rightarrow> user_state \<Rightarrow> (u32 \<times> user_state) outcome" where
  "usr_kcall_debug debug ret msg st = arch_invoke_kcall debug ret (st\<lparr>us_regs := (us_regs st)\<lparr>u_ebx := msg, u_eax := 0\<rparr>\<rparr>)"

definition usr_kcall_meminfo :: "bool \<Rightarrow> vaddr_t \<Rightarrow> vaddr_t \<Rightarrow> user_state \<Rightarrow> (u32 \<times> user_state) outcome" where
  "usr_kcall_meminfo debug ret meminfo st = arch_invoke_kcall debug ret (st\<lparr>us_regs := (us_regs st)\<lparr>u_ebx := meminfo, u_eax := 1\<rparr>\<rparr>)"

text \<open>
  The memory manager up to its endless loop, with the value of \<^verbatim>\<open>err\<close> there. \<open>str\<close> is the address of the string
  \<^verbatim>\<open>TEST\<close>, \<open>meminfo\<close> that of the static buffer.
\<close>

definition mman_main :: "bool \<Rightarrow> vaddr_t \<Rightarrow> vaddr_t \<Rightarrow> vaddr_t \<Rightarrow> user_state \<Rightarrow> (u32 \<times> user_state) outcome" where
  "mman_main debug ret str meminfo st =
     bindE (usr_kcall_debug debug ret str st) (\<lambda>(_, st). usr_kcall_meminfo debug ret meminfo st)"

section \<open>The stack of the user\<close>

lemma user_word_cong:
  assumes "page_walk m' pd = page_walk m pd" "\<forall>k < 4. \<forall>pa fl. page_walk m pd (va + of_nat k) = Some (pa, fl) \<longrightarrow> m' pa = m pa"
  shows "user_word m' pd va = user_word m pd va"
proof -
  have b: "user_byte m' pd (va + of_nat k) = user_byte m pd (va + of_nat k)" if "k < 4" for k
    using assms that by (cases "page_walk m pd (va + of_nat k)") (auto simp: user_byte_def)
  show ?thesis using b [of 0] b [of 1] b [of 2] b [of 3] by (simp add: user_word_def)
qed

text \<open>A memory that differs from another only in \<open>X\<close>, outside the paging structures: the address space is the same.\<close>

definition same_space :: "paddr_t set \<Rightarrow> paddr_t \<Rightarrow> nat \<Rightarrow> mem \<Rightarrow> mem \<Rightarrow> bool" where
  "same_space X pd lim m m' \<longleftrightarrow> page_walk m' pd = page_walk m pd \<and> pd_ok m' pd lim \<and> other_page m' pd = other_page m pd
     \<and> (\<forall>x. x \<notin> X \<longrightarrow> m' x = m x)"

lemma same_space_trans: "same_space X pd lim m m' \<Longrightarrow> same_space Y pd lim m' m'' \<Longrightarrow> same_space (X \<union> Y) pd lim m m''"
  by (simp add: same_space_def)

lemma same_space_buffer:
  assumes "same_space X pd lim m m'"
  shows "user_pa m' pd = user_pa m pd" "user_buffer acc m' pd p n = user_buffer acc m pd p n"
proof -
  show e: "user_pa m' pd = user_pa m pd" using assms by (simp add: same_space_def user_pa_def [abs_def])
  show "user_buffer acc m' pd p n = user_buffer acc m pd p n" using assms by (simp add: same_space_def user_buffer_def e)
qed

lemma permits_6: "permits 6 fl \<Longrightarrow> permits 4 fl" "permits 6 fl \<Longrightarrow> permits 2 fl"
proof -
  assume "permits 6 fl"
  then have "4 AND (6 AND fl) = 4" "2 AND (6 AND fl) = 2" by (simp_all add: permits_def)
  then show "permits 4 fl" "permits 2 fl" by (simp_all add: permits_def flip: and.assoc)
qed

abbreviation user_stack :: "user_state \<Rightarrow> paddr_t set" where
  "user_stack st \<equiv> user_pa (us_mem st) (us_pd st) (u_esp (us_regs st) - 8) ` {..<8}"

text \<open>The two saved registers, as one store into the eight bytes below the stack pointer.\<close>

lemma user_pushes:
  assumes "pd_ok (us_mem st) (us_pd st) lim" "user_buffer 6 (us_mem st) (us_pd st) (u_esp (us_regs st) - 8) 8"
  shows "\<exists>m. bindE (user_push a st) (user_push b) = Inr (st\<lparr>us_regs := (us_regs st)\<lparr>u_esp := u_esp (us_regs st) - 8\<rparr>,
        us_kc := (us_kc st)\<lparr>kc_pg := (kc_pg (us_kc st))\<lparr>pmem := m\<rparr>\<rparr>\<rparr>)
    \<and> same_space (user_stack st) (us_pd st) lim (us_mem st) m
    \<and> user_word m (us_pd st) (u_esp (us_regs st) - 8) = Some b \<and> user_word m (us_pd st) (u_esp (us_regs st) - 4) = Some a"
proof -
  let ?p = "u_esp (us_regs st) - 8" and ?ws = "word_bytes 4 a @ word_bytes 0 b"
  have d: "distinct (map fst ?ws)" "fst ` set ?ws \<subseteq> {..<8}" by (auto simp: word_bytes_def)
  have e: "bytes32 (u_esp (us_regs st) - 4) a = map (\<lambda>(k, b). (?p + of_nat k, b)) (word_bytes 4 a)"
    "bytes32 ?p b = map (\<lambda>(k, b). (?p + of_nat k, b)) (word_bytes 0 b)"
    using bytes32_offsets [of ?p 4 a] bytes32_offsets [of ?p 0 b] by (simp_all add: algebra_simps)
  obtain m where m: "user_stores 6 (us_pd st) (map (\<lambda>(k, b). (?p + of_nat k, b)) ?ws) (us_mem st) = Inr m"
    "page_walk m (us_pd st) = page_walk (us_mem st) (us_pd st)"
    "\<forall>k v. set (word_bytes k v) \<subseteq> set ?ws \<longrightarrow> user_word m (us_pd st) (?p + of_nat k) = Some v"
    "\<forall>x. x \<notin> user_pa (us_mem st) (us_pd st) ?p ` {..<8} \<longrightarrow> m x = us_mem st x"
    "pd_ok m (us_pd st) lim" "other_page m (us_pd st) = other_page (us_mem st) (us_pd st)"
    using user_buffer_stores [OF assms d] by blast
  have "bindE (user_push a st) (user_push b) = Inr (st\<lparr>us_regs := (us_regs st)\<lparr>u_esp := ?p\<rparr>, us_kc := (us_kc st)\<lparr>kc_pg := (kc_pg (us_kc st))\<lparr>pmem := m\<rparr>\<rparr>\<rparr>)"
    using m(1) unfolding map_append user_stores_append user_push_def Let_def e(1)
    by (auto simp: bindE_Inr_iff bindE_assoc e(2))
  moreover have "user_word m (us_pd st) ?p = Some b" "user_word m (us_pd st) (u_esp (us_regs st) - 4) = Some a"
    using m(3) [rule_format, of 0 b] m(3) [rule_format, of 4 a] by (simp_all add: algebra_simps)
  ultimately show ?thesis using m(2,4-6) unfolding same_space_def by blast
qed

text \<open>
  A kernel call through the stubs: when the kernel leaves the address translation and the saved registers alone, the
  caller gets the result, and its registers \<open>ebx\<close>, \<open>esi\<close>, \<open>edi\<close>, \<open>ebp\<close> and \<open>esp\<close> are what they were.
\<close>

lemma invoke_ok:
  fixes st :: user_state
  defines "m \<equiv> us_mem st" and "pd \<equiv> us_pd st" and "r \<equiv> us_regs st"
  assumes ok: "pd_ok m pd lim" and stk: "user_buffer 6 m pd (u_esp r - 8) 8"
    and call: "\<And>m1. same_space (user_pa m pd (u_esp r - 8) ` {..<8}) pd lim m m1
        \<Longrightarrow> \<exists>kc. kcall_handler debug (sysenter_frame r) ((us_kc st)\<lparr>kc_pg := (kc_pg (us_kc st))\<lparr>pmem := m1\<rparr>\<rparr>) = Inr (v, kc)
              \<and> pd_reg (kc_pg kc) = pd \<and> page_walk (pmem (kc_pg kc)) pd = page_walk m pd \<and> Q kc
              \<and> (\<forall>x \<in> user_pa m pd (u_esp r - 8) ` {..<8}. pmem (kc_pg kc) x = m1 x)"
  shows "\<exists>kc. arch_invoke_kcall debug ret st = Inr (v, st\<lparr>us_regs := r\<lparr>u_eax := v, u_ecx := u_esp r - 8, u_edx := ret\<rparr>, us_kc := kc\<rparr>) \<and> Q kc"
proof -
  let ?p = "u_esp r - 8"
  obtain m1 where m1: "bindE (user_push (u_ebp r) st) (user_push (u_edi r)) = Inr (st\<lparr>us_regs := r\<lparr>u_esp := ?p\<rparr>,
        us_kc := (us_kc st)\<lparr>kc_pg := (kc_pg (us_kc st))\<lparr>pmem := m1\<rparr>\<rparr>\<rparr>)"
    and ss: "same_space (user_pa m pd ?p ` {..<8}) pd lim m m1"
    and w: "user_word m1 pd ?p = Some (u_edi r)" "user_word m1 pd (u_esp r - 4) = Some (u_ebp r)"
    using user_pushes [OF ok [unfolded m_def pd_def] stk [unfolded m_def pd_def r_def], of "u_ebp r" "u_edi r"]
    unfolding m_def pd_def r_def by blast
  obtain kc where kc: "kcall_handler debug (sysenter_frame r) ((us_kc st)\<lparr>kc_pg := (kc_pg (us_kc st))\<lparr>pmem := m1\<rparr>\<rparr>) = Inr (v, kc)"
    "pd_reg (kc_pg kc) = pd" "page_walk (pmem (kc_pg kc)) pd = page_walk m pd" "Q kc" "\<forall>x \<in> user_pa m pd ?p ` {..<8}. pmem (kc_pg kc) x = m1 x"
    using call [OF ss] by blast
  have pw: "page_walk m1 pd = page_walk m pd" using ss by (simp add: same_space_def)
  have st8: "pmem (kc_pg kc) pa = m1 pa" if "k < 8" "page_walk m1 pd (?p + of_nat k) = Some (pa, fl)" for k pa fl
    using kc(5) that pw by (force simp: user_pa_def)
  have wk: "page_walk (pmem (kc_pg kc)) pd = page_walk m1 pd" using kc(3) pw by simp
  have same: "user_word (pmem (kc_pg kc)) pd (?p + of_nat d) = user_word m1 pd (?p + of_nat d)" if "d \<le> 4" for d
  proof (rule user_word_cong [OF wk], intro allI impI)
    fix k :: nat and pa fl
    assume "k < 4" "page_walk m1 pd (?p + of_nat d + of_nat k) = Some (pa, fl)"
    then show "pmem (kc_pg kc) pa = m1 pa" using st8 [of "d + k" pa fl] that by (simp add: add.assoc)
  qed
  have u1: "user_word (pmem (kc_pg kc)) pd ?p = Some (u_edi r)" using same [of 0] w(1) by simp
  have u2: "user_word (pmem (kc_pg kc)) pd (u_esp r - 4) = Some (u_ebp r)"
    using same [of 4] w(2) by simp
  have push2: "\<exists>s1. user_push (u_ebp r) st = Inr s1 \<and> user_push (u_edi r) s1 = Inr (st\<lparr>us_regs := r\<lparr>u_esp := ?p\<rparr>,
        us_kc := (us_kc st)\<lparr>kc_pg := (kc_pg (us_kc st))\<lparr>pmem := m1\<rparr>\<rparr>\<rparr>) \<and> u_edi (us_regs s1) = u_edi r"
    using m1 by (auto simp: bindE_Inr_iff user_push_def Let_def r_def)
  have fr: "sysenter_frame (r\<lparr>u_esp := ?p, u_ebp := ?p, u_edi := ret\<rparr>) = sysenter_frame r" by (simp add: sysenter_frame_def)
  have rd: "user_access 4 (pmem (kc_pg kc)) pd (?p + of_nat k)" if "k < 8" for k
    using stk that unfolding user_buffer_def by (auto simp: user_access_def kc(3) permits_6)
  have acc: "find (\<lambda>va. \<not> user_access 4 (pmem (kc_pg kc)) pd va) [u_esp r - 8, u_esp r - 8 + 1, u_esp r - 8 + 2, u_esp r - 8 + 3] = None"
    "find (\<lambda>va. \<not> user_access 4 (pmem (kc_pg kc)) pd va) [u_esp r - 4, u_esp r - 4 + 1, u_esp r - 4 + 2, u_esp r - 4 + 3] = None"
    using rd [of 0] rd [of 1] rd [of 2] rd [of 3] rd [of 4] rd [of 5] rd [of 6] rd [of 7] by (simp_all add: find_None_iff algebra_simps)
  have "u_esp r - 8 + 4 = u_esp r - 4" by simp
  then have "arch_invoke_kcall debug ret st = Inr (v, st\<lparr>us_regs := r\<lparr>u_eax := v, u_ecx := ?p, u_edx := ret\<rparr>, us_kc := kc\<rparr>)"
    using push2 kc(1,2) u1 u2 acc
    by (auto simp: arch_invoke_kcall_def arch_sysenter_stub_def user_pop_def Let_def fr r_def [symmetric] simp del: find.simps)
  then show ?thesis using kc(4) by blast
qed

section \<open>The message of the debug call\<close>

fun user_text :: "mem \<Rightarrow> paddr_t \<Rightarrow> vaddr_t \<Rightarrow> string \<Rightarrow> bool" where
  "user_text m pd va [] \<longleftrightarrow> user_byte m pd va = Some 0"
| "user_text m pd va (c # s) \<longleftrightarrow> user_byte m pd va = Some (of_char c) \<and> c \<noteq> CHR 0x00 \<and> user_text m pd (va + 1) s"

lemma of_char_u8: "char_of (unat (of_char c :: u8)) = c" "of_char c = (0 :: u8) \<longleftrightarrow> c = CHR 0x00"
proof -
  have "unat (of_nat (of_char c) :: u8) = of_char c" by (simp only: unat_of_nat) simp
  then have "unat (of_char c :: u8) = of_char c" by (simp add: of_char_def)
  then show e: "char_of (unat (of_char c :: u8)) = c" by simp
  show "of_char c = (0 :: u8) \<longleftrightarrow> c = CHR 0x00" using e by (auto simp: char_of_def)
qed

lemma user_string_text: "user_text m pd va s \<Longrightarrow> length s < n \<Longrightarrow> user_string n pd va m = Inr s"
proof (induction s arbitrary: n va)
  case Nil
  then show ?case by (cases n) (auto simp: user_byte_def split: option.splits)
next
  case (Cons c s)
  then obtain n' where "n = Suc n'" "length s < n'" by (cases n) auto
  then show ?case using Cons.IH [of "va + 1" n'] Cons.prems(1) by (auto simp: user_byte_def of_char_u8 split: option.splits)
qed

lemma user_text_cong:
  assumes "page_walk m' pd = page_walk m pd"
    and "\<And>k pa fl. k \<le> length s \<Longrightarrow> page_walk m pd (va + of_nat k) = Some (pa, fl) \<Longrightarrow> m' pa = m pa"
  shows "user_text m' pd va s \<longleftrightarrow> user_text m pd va s"
  using assms(2)
proof (induction s arbitrary: va)
  case Nil
  from Nil.prems [of 0] show ?case by (auto simp: user_byte_def assms(1) split: option.splits)
next
  case (Cons c s)
  have "user_text m' pd (va + 1) s \<longleftrightarrow> user_text m pd (va + 1) s"
    using Cons.prems [of "Suc _"] by (intro Cons.IH) (simp add: ac_simps)
  then show ?case using Cons.prems [of 0] by (auto simp: user_byte_def assms(1) split: option.splits)
qed

lemma debug_call:
  assumes "kcall_number frm = 0" "kcall_args frm ! 0 = p" "p < high_vma (kc_pg s)" "current_thread (kc_kst s) \<noteq> 0"
    and "user_text (pmem (kc_pg s)) (pd_reg (kc_pg s)) p str" "length str < 900" "CHR 0x00 \<notin> set str"
  shows "kcall_handler debug frm s = Inr (of_nat (length str + 23),
    s\<lparr>kc_con := fold (console_put (color_attrib (kc_con s))) (log_line ''DEBUG'' ''kern/kcall.c'' 43 str) (kc_con s)\<rparr>)"
proof -
  have "user_string (2 ^ 32) (pd_reg (kc_pg s)) p (pmem (kc_pg s)) = Inr str"
    using assms(5,6) by (intro user_string_text) simp_all
  then show ?thesis
    using assms(1-4,6,7) klog_line [of "''DEBUG''" "''kern/kcall.c''" str 43 "[]" "kc_con s"]
    by (simp add: kcall_handler_def NO_KCALLS_def kcall_table_def kcall_debug_def validate_def ASSERT_def Let_def ac_simps)
qed

section \<open>The two calls of the library\<close>

lemma usr_debug_ok:
  assumes ok: "pd_ok (us_mem st) (us_pd st) lim" and stk: "user_buffer 6 (us_mem st) (us_pd st) (u_esp (us_regs st) - 8) 8"
    and msg: "user_text (us_mem st) (us_pd st) p str" "length str < 900" "CHR 0x00 \<notin> set str" "p < high_vma (kc_pg (us_kc st))"
    and sep: "user_pa (us_mem st) (us_pd st) p ` {..length str} \<inter> user_stack st = {}"
    and cur: "current_thread (kc_kst (us_kc st)) \<noteq> 0"
  shows "\<exists>m'. usr_kcall_debug debug ret p st = Inr (of_nat (length str + 23), st\<lparr>
        us_regs := (us_regs st)\<lparr>u_ebx := p, u_eax := of_nat (length str + 23), u_ecx := u_esp (us_regs st) - 8, u_edx := ret\<rparr>,
        us_kc := (us_kc st)\<lparr>kc_pg := (kc_pg (us_kc st))\<lparr>pmem := m'\<rparr>,
          kc_con := fold (console_put (color_attrib (kc_con (us_kc st)))) (log_line ''DEBUG'' ''kern/kcall.c'' 43 str) (kc_con (us_kc st))\<rparr>\<rparr>)
    \<and> same_space (user_stack st) (us_pd st) lim (us_mem st) m'"
proof -
  let ?st = "st\<lparr>us_regs := (us_regs st)\<lparr>u_ebx := p, u_eax := 0\<rparr>\<rparr>" and ?S = "user_stack st" and ?m = "us_mem st" and ?pd = "us_pd st"
  let ?con = "fold (console_put (color_attrib (kc_con (us_kc st)))) (log_line ''DEBUG'' ''kern/kcall.c'' 43 str) (kc_con (us_kc st))"
  let ?kc = "\<lambda>m'. (us_kc st)\<lparr>kc_pg := (kc_pg (us_kc st))\<lparr>pmem := m'\<rparr>, kc_con := ?con\<rparr>"
  have "\<exists>kc. kcall_handler debug (sysenter_frame (us_regs ?st)) ((us_kc ?st)\<lparr>kc_pg := (kc_pg (us_kc ?st))\<lparr>pmem := m1\<rparr>\<rparr>) = Inr (of_nat (length str + 23), kc)
      \<and> pd_reg (kc_pg kc) = us_pd ?st \<and> page_walk (pmem (kc_pg kc)) (us_pd ?st) = page_walk (us_mem ?st) (us_pd ?st)
      \<and> (\<exists>m'. kc = ?kc m' \<and> same_space ?S ?pd lim ?m m')
      \<and> (\<forall>x \<in> user_stack ?st. pmem (kc_pg kc) x = m1 x)"
    if m1: "same_space (user_stack ?st) (us_pd ?st) lim (us_mem ?st) m1" for m1
  proof -
    have "user_text m1 ?pd p str \<longleftrightarrow> user_text ?m ?pd p str"
    proof (rule user_text_cong)
      fix k pa fl
      assume "k \<le> length str" "page_walk ?m ?pd (p + of_nat k) = Some (pa, fl)"
      then have "pa \<in> user_pa ?m ?pd p ` {..length str}" by (force simp: user_pa_def)
      then have "pa \<notin> ?S" using sep by blast
      then show "m1 pa = ?m pa" using m1 by (simp add: same_space_def)
    qed (use m1 in \<open>simp add: same_space_def\<close>)
    then have "kcall_handler debug (sysenter_frame (us_regs ?st)) ((us_kc ?st)\<lparr>kc_pg := (kc_pg (us_kc ?st))\<lparr>pmem := m1\<rparr>\<rparr>)
        = Inr (of_nat (length str + 23), ?kc m1)"
      using msg cur by (subst debug_call [where p = p and str = str]) (simp_all add: sysenter_frame_def)
    then show ?thesis using m1 by (intro exI [of _ "?kc m1"]) (auto simp: same_space_def)
  qed
  then have "\<exists>kc. arch_invoke_kcall debug ret ?st = Inr (of_nat (length str + 23),
        ?st\<lparr>us_regs := (us_regs ?st)\<lparr>u_eax := of_nat (length str + 23), u_ecx := u_esp (us_regs ?st) - 8, u_edx := ret\<rparr>, us_kc := kc\<rparr>)
      \<and> (\<exists>m'. kc = ?kc m' \<and> same_space ?S ?pd lim ?m m')"
    by (intro invoke_ok [where lim = lim]) (use ok stk in \<open>simp_all del: of_nat_add\<close>)
  then show ?thesis unfolding usr_kcall_debug_def by auto
qed

lemma usr_meminfo_ok:
  assumes ok: "pd_ok (us_mem st) (us_pd st) lim" and stk: "user_buffer 6 (us_mem st) (us_pd st) (u_esp (us_regs st) - 8) 8"
    and buf: "user_buffer 2 (us_mem st) (us_pd st) p 164" "p < high_vma (kc_pg (us_kc st))"
    and sep: "user_pa (us_mem st) (us_pd st) p ` {..<164} \<inter> user_stack st = {}"
    and cur: "current_thread (kc_kst (us_kc st)) \<noteq> 0"
      "proc_id (procs (kc_kst (us_kc st)) (tcb_proc (tcbs (kc_kst (us_kc st)) (current_thread (kc_kst (us_kc st)))))) = PROC_MMAN_PID"
    and maps: "unat (no_mmaps (kc_info (us_kc st))) \<le> NO_MEM_REGIONS"
      "unat (no_mmaps (kc_info (us_kc st))) \<le> length (memmaps (kc_info (us_kc st)))"
  shows "\<exists>m'. usr_kcall_meminfo debug ret p st = Inr (0, st\<lparr>
        us_regs := (us_regs st)\<lparr>u_ebx := p, u_eax := 0, u_ecx := u_esp (us_regs st) - 8, u_edx := ret\<rparr>,
        us_kc := (us_kc st)\<lparr>kc_pg := (kc_pg (us_kc st))\<lparr>pmem := m'\<rparr>\<rparr>\<rparr>)
    \<and> same_space (user_stack st \<union> user_pa (us_mem st) (us_pd st) p ` {..<164}) (us_pd st) lim (us_mem st) m'
    \<and> user_word m' (us_pd st) (p + 160) = Some (no_mmaps (kc_info (us_kc st)))
    \<and> (\<forall>i < unat (no_mmaps (kc_info (us_kc st))).
         user_word m' (us_pd st) (p + 8 * of_nat i) = Some (ucast (map_addr (memmaps (kc_info (us_kc st)) ! i)))
       \<and> user_word m' (us_pd st) (p + 8 * of_nat i + 4) = Some (ucast (map_len (memmaps (kc_info (us_kc st)) ! i))))"
proof -
  let ?st = "st\<lparr>us_regs := (us_regs st)\<lparr>u_ebx := p, u_eax := 1\<rparr>\<rparr>" and ?S = "user_stack st" and ?m = "us_mem st" and ?pd = "us_pd st"
  let ?kc = "\<lambda>m'. (us_kc st)\<lparr>kc_pg := (kc_pg (us_kc st))\<lparr>pmem := m'\<rparr>\<rparr>" and ?B = "user_pa (us_mem st) (us_pd st) p ` {..<164}"
  let ?words = "\<lambda>m'. user_word m' ?pd (p + 160) = Some (no_mmaps (kc_info (us_kc st)))
    \<and> (\<forall>i < unat (no_mmaps (kc_info (us_kc st))).
         user_word m' ?pd (p + 8 * of_nat i) = Some (ucast (map_addr (memmaps (kc_info (us_kc st)) ! i)))
       \<and> user_word m' ?pd (p + 8 * of_nat i + 4) = Some (ucast (map_len (memmaps (kc_info (us_kc st)) ! i))))"
  have "\<exists>kc. kcall_handler debug (sysenter_frame (us_regs ?st)) ((us_kc ?st)\<lparr>kc_pg := (kc_pg (us_kc ?st))\<lparr>pmem := m1\<rparr>\<rparr>) = Inr (0, kc)
      \<and> pd_reg (kc_pg kc) = us_pd ?st \<and> page_walk (pmem (kc_pg kc)) (us_pd ?st) = page_walk (us_mem ?st) (us_pd ?st)
      \<and> (\<exists>m'. kc = ?kc m' \<and> same_space (?S \<union> ?B) ?pd lim ?m m' \<and> ?words m')
      \<and> (\<forall>x \<in> user_stack ?st. pmem (kc_pg kc) x = m1 x)"
    if m1: "same_space (user_stack ?st) (us_pd ?st) lim (us_mem ?st) m1" for m1
  proof -
    have m1': "same_space ?S ?pd lim ?m m1" using m1 by simp
    have "pd_ok m1 ?pd lim" using m1 by (simp add: same_space_def)
    then obtain m' where m': "kcall_handler debug (sysenter_frame (us_regs ?st)) (?kc m1) = Inr (0, ?kc m')"
      "same_space ?B ?pd lim m1 m'" "?words m'"
      using meminfo_call [of "sysenter_frame (us_regs ?st)" p "?kc m1" lim debug] buf cur maps same_space_buffer(1) [OF m1'] same_space_buffer(2) [OF m1', of 2 p 164]
      by (auto simp: sysenter_frame_def same_space_def)
    have "m' x = m1 x" if "x \<in> ?S" for x
    proof -
      have "x \<notin> ?B" using sep that by blast
      then show ?thesis using m'(2) by (simp add: same_space_def)
    qed
    then show ?thesis using m'(1,3) same_space_trans [OF m1' m'(2)]
      by (intro exI [of _ "?kc m'"]) (auto simp: same_space_def)
  qed
  then have "\<exists>kc. arch_invoke_kcall debug ret ?st = Inr (0,
        ?st\<lparr>us_regs := (us_regs ?st)\<lparr>u_eax := 0, u_ecx := u_esp (us_regs ?st) - 8, u_edx := ret\<rparr>, us_kc := kc\<rparr>)
      \<and> (\<exists>m'. kc = ?kc m' \<and> same_space (?S \<union> ?B) ?pd lim ?m m' \<and> ?words m')"
    by (intro invoke_ok [where lim = lim]) (use ok stk in simp_all)
  then show ?thesis unfolding usr_kcall_meminfo_def by auto
qed

section \<open>Properties\<close>

text \<open>C39: the memory manager reaches its loop, having asked the kernel for the memory map. Let its stack (with user and
  write access), its buffer (with write access) and the string \<^verbatim>\<open>TEST\<close> be mapped below the kernel, each byte to a place of its own outside the paging
  structures and the bytes of the stack apart from those of the buffer and of the string, and let its
  thread run with the memory manager's identifier. Then both calls return through the entry and exit stubs,
  the second with 0; the console shows the line of the debug call; the buffer holds the number of regions and
  for every region the low words of its address and its length; \<open>esi\<close>, \<open>edi\<close>, \<open>ebp\<close> and \<open>esp\<close> are as before
  the calls (\<open>ebx\<close>, which the calling convention also asks to keep, is not); the address translation is the
  same and no byte of memory outside the buffer and the eight bytes below the stack pointer has changed.\<close>

theorem mman_main_reaches_loop:
  fixes st :: user_state and p str :: vaddr_t
  defines "m \<equiv> us_mem st" and "pd \<equiv> us_pd st" and "r \<equiv> us_regs st" and "kc \<equiv> us_kc st"
  assumes "pd_ok m pd lim" "user_buffer 6 m pd (u_esp r - 8) 8"
    and "user_text m pd str ''TEST''" "str < high_vma (kc_pg kc)" "user_pa m pd str ` {..4} \<inter> user_pa m pd (u_esp r - 8) ` {..<8} = {}"
    and "user_buffer 2 m pd p 164" "p < high_vma (kc_pg kc)" "user_pa m pd p ` {..<164} \<inter> user_pa m pd (u_esp r - 8) ` {..<8} = {}"
    and "current_thread (kc_kst kc) \<noteq> 0"
    and "proc_id (procs (kc_kst kc) (tcb_proc (tcbs (kc_kst kc) (current_thread (kc_kst kc))))) = PROC_MMAN_PID"
    and "unat (no_mmaps (kc_info kc)) \<le> NO_MEM_REGIONS" "unat (no_mmaps (kc_info kc)) \<le> length (memmaps (kc_info kc))"
  shows "\<exists>m'. mman_main debug ret str p st = Inr (0, st\<lparr>us_regs := r\<lparr>u_eax := 0, u_ebx := p, u_ecx := u_esp r - 8, u_edx := ret\<rparr>,
        us_kc := kc\<lparr>kc_pg := (kc_pg kc)\<lparr>pmem := m'\<rparr>,
          kc_con := fold (console_put (color_attrib (kc_con kc))) (''[DEBUG:kern/kcall.c:43] TEST'' @ [CHR 0x0A]) (kc_con kc)\<rparr>\<rparr>)
    \<and> user_word m' pd (p + 160) = Some (no_mmaps (kc_info kc))
    \<and> (\<forall>i < unat (no_mmaps (kc_info kc)).
         user_word m' pd (p + 8 * of_nat i) = Some (ucast (map_addr (memmaps (kc_info kc) ! i)))
       \<and> user_word m' pd (p + 8 * of_nat i + 4) = Some (ucast (map_len (memmaps (kc_info kc) ! i))))
    \<and> page_walk m' pd = page_walk m pd
    \<and> (\<forall>x. x \<notin> user_pa m pd p ` {..<164} \<union> user_pa m pd (u_esp r - 8) ` {..<8} \<longrightarrow> m' x = m x)"
proof -
  note [simp] = m_def pd_def r_def kc_def
  let ?S = "user_stack st" and ?B = "user_pa m pd p ` {..<164}"
  define msg where "msg = ''TEST''"
  let ?con = "fold (console_put (color_attrib (kc_con kc))) (log_line ''DEBUG'' ''kern/kcall.c'' 43 msg) (kc_con kc)"
  have msg: "user_text m pd str msg" "length msg = 4" "CHR 0x00 \<notin> set msg" "of_nat (length msg + 23) = (27 :: u32)"
    using assms(7) by (simp_all add: msg_def)
  have "dec_text 43 = ''43''" by (simp add: dec_text_def digits.simps) code_simp
  then have line: "log_line ''DEBUG'' ''kern/kcall.c'' 43 msg = ''[DEBUG:kern/kcall.c:43] TEST'' @ [CHR 0x0A]" by (simp add: log_line_def msg_def)
  obtain m1 where m1: "usr_kcall_debug debug ret str st = Inr (27, st\<lparr>
        us_regs := r\<lparr>u_ebx := str, u_eax := 27, u_ecx := u_esp r - 8, u_edx := ret\<rparr>,
        us_kc := kc\<lparr>kc_pg := (kc_pg kc)\<lparr>pmem := m1\<rparr>, kc_con := ?con\<rparr>\<rparr>)"
    (is "_ = Inr (_, ?st)") and ss1: "same_space ?S pd lim m m1"
    using usr_debug_ok [of st lim str msg debug ret] assms(5,6,8,9,13) msg by auto
  have pa: "user_pa m1 pd = user_pa m pd" and bufs: "user_buffer acc m1 pd q n = user_buffer acc m pd q n" for acc q n
    using same_space_buffer [OF ss1] by auto
  have "pd_ok m1 pd lim" using ss1 by (simp add: same_space_def)
  then obtain m2 where m2: "usr_kcall_meminfo debug ret p ?st = Inr (0, ?st\<lparr>
        us_regs := (us_regs ?st)\<lparr>u_ebx := p, u_eax := 0, u_ecx := u_esp r - 8, u_edx := ret\<rparr>,
        us_kc := (us_kc ?st)\<lparr>kc_pg := (kc_pg (us_kc ?st))\<lparr>pmem := m2\<rparr>\<rparr>\<rparr>)"
    and ss2: "same_space (?S \<union> ?B) pd lim m1 m2"
    and words: "user_word m2 pd (p + 160) = Some (no_mmaps (kc_info kc))"
      "\<forall>i < unat (no_mmaps (kc_info kc)).
         user_word m2 pd (p + 8 * of_nat i) = Some (ucast (map_addr (memmaps (kc_info kc) ! i)))
       \<and> user_word m2 pd (p + 8 * of_nat i + 4) = Some (ucast (map_len (memmaps (kc_info kc) ! i)))"
    using usr_meminfo_ok [of ?st lim p debug ret] assms(6,10-16) pa bufs by auto
  have "same_space (?S \<union> (?S \<union> ?B)) pd lim m m2" using same_space_trans [OF ss1 ss2] .
  then show ?thesis unfolding line [symmetric]
    using m1 m2 words by (intro exI [of _ m2]) (simp add: mman_main_def same_space_def)
qed

section \<open>Witnesses\<close>

definition sample_us_mem :: mem where
  "sample_us_mem = (pmem (kc_pg (sample_kc 1)))(0x5200 := 84, 0x5201 := 69, 0x5202 := 83, 0x5203 := 84)"

definition sample_us :: user_state where
  "sample_us = \<lparr>us_regs = \<lparr>u_eax = 0, u_ebx = 0, u_ecx = 0, u_edx = 0, u_esi = 7, u_edi = 8, u_ebp = 9, u_esp = 0x401000\<rparr>,
     us_kc = (sample_kc 1)\<lparr>kc_pg := (kc_pg (sample_kc 1))\<lparr>pmem := sample_us_mem\<rparr>, kc_con := blank_console\<rparr>\<rparr>"

lemma same_space_upd:
  assumes "pd_ok m pd lim" "other_page m pd (x AND PAGE_MASK)"
  shows "same_space {x} pd lim m (m(x := b))"
proof -
  have "only_in {x AND PAGE_MASK} m (m(cell (x AND PAGE_MASK) (unat x mod 4096) := b))"
    using assms(2) by (intro only_in_upd) (simp_all add: other_page_def)
  then have "only_in {x AND PAGE_MASK} m (m(x := b))" by (simp flip: addr_cell)
  then show ?thesis
    using only_in_walk [of "{x AND PAGE_MASK}" m "m(x := b)" pd lim] assms by (auto simp: same_space_def fun_eq_iff)
qed

lemma sample_us_space: "same_space {0x5200, 0x5201, 0x5202, 0x5203} 0x1000 0x100000 (pmem (kc_pg (sample_kc 1))) sample_us_mem"
proof -
  let ?m = "pmem (kc_pg (sample_kc 1))"
  have add: "same_space (insert x X) 0x1000 0x100000 ?m (m'(x := b))"
    if "same_space X 0x1000 0x100000 ?m m'" "x AND PAGE_MASK = 0x5000" for X m' x b
  proof -
    have "pd_ok m' 0x1000 0x100000" "other_page m' 0x1000 (x AND PAGE_MASK)"
      using that sample_kc_other [of 1] by (simp_all add: same_space_def)
    from same_space_trans [OF that(1) same_space_upd [OF this, of b]] show ?thesis by simp
  qed
  have "same_space {} 0x1000 0x100000 ?m ?m" using sample_kc_pages(3) [of 1] by (simp add: same_space_def)
  from add [OF add [OF add [OF add [OF this]]], of "0x5200" "0x5201" "0x5202" "0x5203" 84 69 83 84]
  show ?thesis unfolding sample_us_mem_def by (simp add: PAGE_MASK_def insert_commute)
qed

theorem mman_main_reaches_loop_witness:
  "\<exists>st'. mman_main False 0x400100 0x400200 0x400000 sample_us = Inr (0, st')
     \<and> kc_con (us_kc st') = fold (console_put 0xF) (''[DEBUG:kern/kcall.c:43] TEST'' @ [CHR 0x0A]) blank_console
     \<and> user_word (us_mem st') 0x1000 0x4000A0 = Some 1 \<and> user_word (us_mem st') 0x1000 0x400000 = Some 0x100000
     \<and> u_edi (us_regs st') = 8 \<and> u_ebp (us_regs st') = 9 \<and> u_esp (us_regs st') = 0x401000"
proof -
  let ?m0 = "pmem (kc_pg (sample_kc 1))"
  note S = same_space_buffer [OF sample_us_space]
  have f: "us_mem sample_us = sample_us_mem" "us_pd sample_us = 0x1000" "high_vma (kc_pg (us_kc sample_us)) = 0xC0000000"
    "no_mmaps (kc_info (us_kc sample_us)) = 1" "current_thread (kc_kst (us_kc sample_us)) = 8"
    "proc_id (procs (kc_kst (us_kc sample_us)) t) = 1" "length (memmaps (kc_info (us_kc sample_us))) = 1"
    "map_addr (memmaps (kc_info (us_kc sample_us)) ! 0) = 0x700100000" "u_esp (us_regs sample_us) = 0x401000"
    "kc_con (us_kc sample_us) = blank_console" "color_attrib blank_console = 0xF"
    "u_edi (us_regs sample_us) = 8" "u_ebp (us_regs sample_us) = 9" for t
    by (simp_all add: sample_us_def sample_kc_def sample_pg_def blank_console_def)
  have ok: "pd_ok sample_us_mem 0x1000 0x100000" using sample_us_space by (simp add: same_space_def)
  have buf: "user_buffer 2 sample_us_mem 0x1000 0x400000 164" "user_buffer 6 sample_us_mem 0x1000 0x400FF8 8"
    using sample_kc_buffer(2) [of 0 164 2 1] sample_kc_buffer(2) [of "0xFF8" 8 6 1] by (simp_all add: S permits_def)
  have pa: "user_pa sample_us_mem 0x1000 0x400000 k = cell 0x5000 k" if "k < 164" for k
    using sample_kc_buffer(1) [of 0 164 k 1] that by (simp add: S)
  have stk: "user_pa sample_us_mem 0x1000 0x400FF8 k = cell 0x5000 (0xFF8 + k)" if "k < 8" for k
    using sample_kc_buffer(1) [of "0xFF8" 8 k 1] that by (simp add: S)
  have str: "user_pa sample_us_mem 0x1000 0x400200 k = cell 0x5000 (0x200 + k)" if "k \<le> 4" for k
    using sample_kc_buffer(1) [of "0x200" 5 k 1] that by (simp add: S)
  have p: "pg_ok 0x5000" by (simp add: pg_ok_def)
  have sep: "user_pa sample_us_mem 0x1000 0x400000 ` {..<164} \<inter> user_pa sample_us_mem 0x1000 0x400FF8 ` {..<8} = {}"
    "user_pa sample_us_mem 0x1000 0x400200 ` {..4} \<inter> user_pa sample_us_mem 0x1000 0x400FF8 ` {..<8} = {}"
    by (auto simp: pa stk str cell_eq_iff [OF p p])
  have byte: "user_byte sample_us_mem 0x1000 (0x400200 + of_nat k) = Some (sample_us_mem (cell 0x5000 (0x200 + k)))" if "k \<le> 4" for k
    using sample_kc_walk [of "0x200 + k" 1] that sample_us_space by (auto simp: user_byte_def same_space_def)
  have "user_text sample_us_mem 0x1000 0x400200 ''TEST''"
    using byte [of 0] byte [of 1] byte [of 2] byte [of 3] byte [of 4]
    by (simp add: sample_us_mem_def cell_def) (simp add: sample_kc_def cell_def store32_def)
  then show ?thesis
    using mman_main_reaches_loop [of sample_us "0x100000" "0x400200" "0x400000" False "0x400100"] ok buf sep
    by (auto simp: f PROC_MMAN_PID_def NO_MEM_REGIONS_def)
qed

end
