(* ===== verification/Kernel_Run.thy ===== *)
theory Kernel_Run
  imports Startup Userland
begin

text \<open>
  The kernel after its start, as a machine driven by events: hardware interrupts (\<open>Interrupt\<close>), kernel calls through the stub
  of \<^verbatim>\<open>arch/i686/kcall.asm\<close> (\<open>Userland\<close>), the stores that the processor lets the running user thread make, and changes of
  the devices. An invariant over its states, that every event keeps it and that accepted events do not fault, and the isolation
  of the processes in every state that is reached from \<^verbatim>\<open>bootstrap\<close> (\<open>Startup\<close>).
\<close>

section \<open>Events\<close>

record 'd running =
  rn_m :: "'d machine"
  rn_pg :: pgstate
  rn_info :: kernel_info_t

abbreviation rn_kst :: "'d running \<Rightarrow> kstate" where
  "rn_kst k \<equiv> m_kst (rn_m k)"

abbreviation rn_mem :: "'d running \<Rightarrow> mem" where
  "rn_mem k \<equiv> pmem (rn_pg k)"

text \<open>\<open>Store\<close> is an instruction of the user thread that writes a byte; \<open>Device\<close> puts the devices in any other state.\<close>

datatype 'd event = Irq irq_context | Call user_regs | Store vaddr_t u8 | Device 'd

text \<open>The state a kernel call starts in, in the address space of the running thread, and what it leaves.\<close>

definition call_state :: "'d running \<Rightarrow> kcall_state" where
  "call_state k = \<lparr>kc_pg = (rn_pg k)\<lparr>pd_reg := cr3 (rn_kst k)\<rparr>, kc_kst = rn_kst k, kc_con = m_con (rn_m k), kc_info = rn_info k\<rparr>"

definition after_call :: "kcall_state \<Rightarrow> 'd running \<Rightarrow> 'd running" where
  "after_call kc k = k\<lparr>rn_m := (rn_m k)\<lparr>m_kst := kc_kst kc, m_con := kc_con kc\<rparr>, rn_pg := (rn_pg k)\<lparr>pmem := pmem (kc_pg kc)\<rparr>, rn_info := kc_info kc\<rparr>"

text \<open>
  A store that the page tables do not allow user mode is a page fault, and the handler of \<^verbatim>\<open>kern/kmem.c\<close> halts the kernel
  then (\<open>page_fault_handler\<close>).
\<close>

fun kernel_event :: "'d bus \<Rightarrow> bool \<Rightarrow> 'd event \<Rightarrow> 'd running \<Rightarrow> 'd running outcome" where
  "kernel_event bus debug (Irq ctx) k = bindE (interrupt_handler bus ctx (rn_m k)) (\<lambda>m. Inr (k\<lparr>rn_m := m\<rparr>))"
| "kernel_event bus debug (Call r) k = 
     bindE (arch_sysenter_stub debug \<lparr>us_regs = r, us_kc = call_state k\<rparr>) (\<lambda>st. Inr (after_call (us_kc st) k))"
| "kernel_event bus debug (Store va b) k = (case page_walk (rn_mem k) (cr3 (rn_kst k)) va of
     Some (pa, fl) \<Rightarrow> if bit fl 1 \<and> bit fl 2 then Inr (k\<lparr>rn_pg := (rn_pg k)\<lparr>pmem := (rn_mem k)(pa := b)\<rparr>\<rparr>) else Inl (Page_Fault va)
   | None \<Rightarrow> Inl (Page_Fault va))"
| "kernel_event bus debug (Device d) k = Inr (k\<lparr>rn_m := (rn_m k)\<lparr>m_dev := d\<rparr>\<rparr>)"

text \<open>
  The events the invariant speaks of: the sixteen lines of the controllers, and any kernel call, except that the buffer the memory manager
  passes to \<^verbatim>\<open>meminfo\<close> must not reach pages that are mapped for the kernel only. The kernel does not check that (\<^verbatim>\<open>VALIDATE_USR_PTR\<close> only compares with the
  kernel's base), and it is the one thing the isolation of the processes depends on.
\<close>

definition by_mman :: "'d running \<Rightarrow> bool" where
  "by_mman k \<longleftrightarrow> proc_id (procs (rn_kst k) (tcb_proc (tcbs (rn_kst k) (current_thread (rn_kst k))))) = PROC_MMAN_PID"

definition user_range :: "mem \<Rightarrow> paddr_t \<Rightarrow> vaddr_t \<Rightarrow> nat \<Rightarrow> bool" where
  "user_range m pd p n \<longleftrightarrow> (\<forall>i < n. \<forall>pa fl. page_walk m pd (p + of_nat i) = Some (pa, fl) \<longrightarrow> bit fl 2)"

fun event_ok :: "'d running \<Rightarrow> 'd event \<Rightarrow> bool" where
  "event_ok k (Irq ctx) \<longleftrightarrow> 32 \<le> int_no ctx \<and> int_no ctx < 48"
| "event_ok k (Call r) \<longleftrightarrow> (u_eax r = 1 \<and> by_mman k \<and> u_ebx r < high_vma (rn_pg k) \<longrightarrow> user_range (rn_mem k) (cr3 (rn_kst k)) (u_ebx r) 164)"
| "event_ok k (Store va b) \<longleftrightarrow> True"
| "event_ok k (Device d) \<longleftrightarrow> True"

text \<open>The runs of the kernel, with the thread that was running at every event.\<close>

inductive kernel_runs :: "'d bus \<Rightarrow> bool \<Rightarrow> 'd running \<Rightarrow> u32 list \<Rightarrow> 'd running \<Rightarrow> bool" for bus debug where
  stay: "kernel_runs bus debug k [] k"
| step: "kernel_runs bus debug k ts k1 \<Longrightarrow> event_ok k1 e \<Longrightarrow> kernel_event bus debug e k1 = Inr k2
    \<Longrightarrow> kernel_runs bus debug k (ts @ [current_thread (rn_kst k1)]) k2"

text \<open>
  Events that the kernel finishes without a fault: a call that it refuses; \<^verbatim>\<open>meminfo\<close> with a buffer of the memory
  manager that is mapped, for user mode, and writable; \<^verbatim>\<open>debug\<close> with a string that fits the buffer of \<^verbatim>\<open>kprintf\<close>; a store to a page that user mode may write.
\<close>

fun event_accepted :: "'d running \<Rightarrow> 'd event \<Rightarrow> bool" where
  "event_accepted k (Irq ctx) \<longleftrightarrow> 32 \<le> int_no ctx \<and> int_no ctx < 48"
| "event_accepted k (Call r) \<longleftrightarrow> 2 \<le> u_eax r \<or> high_vma (rn_pg k) \<le> u_ebx r \<or> (u_eax r = 1 \<and> \<not> by_mman k)
     \<or> (u_eax r = 1 \<and> user_buffer 2 (rn_mem k) (cr3 (rn_kst k)) (u_ebx r) 164 \<and> user_range (rn_mem k) (cr3 (rn_kst k)) (u_ebx r) 164)
     \<or> (u_eax r = 0 \<and> (\<exists>str. user_text (rn_mem k) (cr3 (rn_kst k)) (u_ebx r) str \<and> length str < 900 \<and> CHR 0x00 \<notin> set str))"
| "event_accepted k (Store va b) \<longleftrightarrow> (\<exists>pa. page_walk (rn_mem k) (cr3 (rn_kst k)) va = Some (pa, 6))"
| "event_accepted k (Device d) \<longleftrightarrow> True"

section \<open>Address spaces\<close>

text \<open>The frames that user mode can reach through a directory.\<close>

definition user_frames :: "mem \<Rightarrow> paddr_t \<Rightarrow> paddr_t set" where
  "user_frames m pd = {q. \<exists>va pa fl. page_walk m pd va = Some (pa, fl) \<and> bit fl 2 \<and> q = pa AND PAGE_MASK}"

text \<open>Every directory is well formed, no frame of a user is part of any paging structure, and no two directories share one.\<close>

definition spaces_ok :: "mem \<Rightarrow> paddr_t set \<Rightarrow> nat \<Rightarrow> bool" where
  "spaces_ok m D lim \<longleftrightarrow> (\<forall>pd \<in> D. pd_ok m pd lim)
     \<and> (\<forall>pd \<in> D. \<forall>pd' \<in> D. \<forall>q \<in> user_frames m pd. other_page m pd' q)
     \<and> (\<forall>pd \<in> D. \<forall>pd' \<in> D. pd \<noteq> pd' \<longrightarrow> user_frames m pd \<inter> user_frames m pd' = {})"

lemma user_frames_cong: "page_walk m' pd = page_walk m pd \<Longrightarrow> user_frames m' pd = user_frames m pd"
  by (simp add: user_frames_def)

text \<open>A change of memory within a set of frames.\<close>

definition confined :: "paddr_t set \<Rightarrow> mem \<Rightarrow> mem \<Rightarrow> bool" where
  "confined F m m' \<longleftrightarrow> (\<forall>x. x AND PAGE_MASK \<notin> F \<longrightarrow> m' x = m x)"

lemma confined_refl [simp]: "confined F m m"
  by (simp add: confined_def)

lemma confined_trans: "confined F m m1 \<Longrightarrow> confined G m1 m2 \<Longrightarrow> confined (F \<union> G) m m2"
  by (simp add: confined_def)

lemma confined_mono: "confined F m m' \<Longrightarrow> F \<subseteq> G \<Longrightarrow> confined G m m'"
  by (auto simp: confined_def)

lemma confined_only_in: "confined F m m' \<Longrightarrow> only_in F m m'"
  by (simp add: confined_def only_in_def same_page_bytes cell_page)

lemma spaces_keep:
  assumes ok: "spaces_ok m D lim" and pd: "pd \<in> D" and o: "confined (user_frames m pd) m m'"
  shows "spaces_ok m' D lim" "\<And>pd'. pd' \<in> D \<Longrightarrow> page_walk m' pd' = page_walk m pd'"
proof -
  have K: "pd_ok m' pd' lim" "page_walk m' pd' = page_walk m pd'" "\<And>q. other_page m' pd' q = other_page m pd' q" if d: "pd' \<in> D" for pd'
  proof -
    have p: "pd_ok m pd' lim" and W: "q \<in> user_frames m pd \<Longrightarrow> other_page m pd' q" for q using ok pd d by (auto simp: spaces_ok_def)
    show "pd_ok m' pd' lim" "page_walk m' pd' = page_walk m pd'" "\<And>q. other_page m' pd' q = other_page m pd' q"
      using only_in_walk [OF confined_only_in [OF o] p W] by simp_all
  qed
  have F: "user_frames m' pd' = user_frames m pd'" if "pd' \<in> D" for pd' by (rule user_frames_cong [OF K(2) [OF that]])
  show "spaces_ok m' D lim" using ok unfolding spaces_ok_def by (auto simp: K F)
  show "page_walk m' pd' = page_walk m pd'" if "pd' \<in> D" for pd' by (rule K(2) [OF that])
qed

lemma user_store_confined: "page_walk m pd va = Some (pa, fl) \<Longrightarrow> bit fl 2 \<Longrightarrow> confined (user_frames m pd) m (m(pa := b))"
  by (auto simp: confined_def user_frames_def)

lemma user_stores_confined:
  assumes "spaces_ok m D lim" "pd \<in> D" "user_stores acc pd ws m = Inr m'"
    and "\<And>va b pa fl. (va, b) \<in> set ws \<Longrightarrow> page_walk m pd va = Some (pa, fl) \<Longrightarrow> bit fl 2"
  shows "confined (user_frames m pd) m m'"
  using assms
proof (induction ws arbitrary: m)
  case (Cons w ws)
  obtain va b where w: "w = (va, b)" by (cases w)
  from Cons.prems(3) obtain pa fl where pa: "page_walk m pd va = Some (pa, fl)" and r: "user_stores acc pd ws (m(pa := b)) = Inr m'"
    by (auto simp: w split: option.splits if_splits)
  have "bit fl 2" using Cons.prems(4) [of va b pa fl] pa by (simp add: w)
  note o = user_store_confined [OF pa this, of b]
  note K = spaces_keep [OF Cons.prems(1,2) o]
  have k: "page_walk (m(pa := b)) pd = page_walk m pd" by (rule K(2) [OF Cons.prems(2)])
  have "confined (user_frames (m(pa := b)) pd) (m(pa := b)) m'"
  proof (rule Cons.IH [OF K(1) Cons.prems(2) r])
    show "bit f 2" if "(va', b') \<in> set ws" "page_walk (m(pa := b)) pd va' = Some (pa', f)" for va' b' pa' f
      using Cons.prems(4) that k by auto
  qed
  then show ?case using confined_trans [OF o, of "user_frames m pd" m'] user_frames_cong [OF k] by simp
qed simp

section \<open>The invariant\<close>

text \<open>
  The scheduler has the threads \<open>T\<close>, thread \<open>t\<close> runs in the directory \<open>D t\<close>, the address spaces are separate, the timer's
  line leads to the scheduler and no other line has a handler.
\<close>

definition running_ok :: "bool \<Rightarrow> u32 multiset \<Rightarrow> (u32 \<Rightarrow> paddr_t) \<Rightarrow> nat \<Rightarrow> 'd running \<Rightarrow> bool" where
  "running_ok debug T D lim k \<longleftrightarrow> (\<exists>a. sched_rel (rn_kst k) a \<and> all_threads a = T)
     \<and> (\<forall>t \<in># T. page_dir (procs (rn_kst k) (tcb_proc (tcbs (rn_kst k) t))) = D t)
     \<and> spaces_ok (rn_mem k) (D ` set_mset T) lim
     \<and> m_callback (rn_m k) ! 32 = Some Hwclock_irq_handler \<and> (\<forall>n. 32 < n \<and> n < 48 \<longrightarrow> m_callback (rn_m k) ! n = None)
     \<and> m_current_callback (rn_m k) = Some (rr_tick_handler debug) \<and> unat (no_mmaps (rn_info k)) \<le> NO_MEM_REGIONS"

lemma running_ok_current:
  assumes "running_ok debug T D lim k"
  shows "current_thread (rn_kst k) \<in># T" "current_thread (rn_kst k) \<noteq> 0" "cr3 (rn_kst k) = D (current_thread (rn_kst k))" "cr3 (rn_kst k) \<in> D ` set_mset T"
proof -
  let ?t = "current_thread (rn_kst k)"
  obtain qs r where a: "sched_rel (rn_kst k) (qs, r)" "all_threads (qs, r) = T" using assms by (auto simp: running_ok_def)
  have t: "?t = r" "tcb_fits r" "selected (rn_kst k) r" using a(1) by (auto simp: sched_rel_def)
  show m: "?t \<in># T" using a(2) t(1) by auto
  show "?t \<noteq> 0" using t tcb_fits_nonzero by blast
  show "cr3 (rn_kst k) = D ?t" using t m assms by (auto simp: selected_def running_ok_def)
  then show "cr3 (rn_kst k) \<in> D ` set_mset T" using m by simp
qed

section \<open>Interrupts\<close>

lemma hardware_interrupt:
  assumes "m_callback m ! 32 = Some Hwclock_irq_handler" "\<forall>n. 32 < n \<and> n < 48 \<longrightarrow> m_callback m ! n = None"
    and "m_current_callback m = Some cb" "32 \<le> int_no ctx" "int_no ctx < 48" "cb ctx (m_kst m) = Inr k'"
  shows "\<exists>m'. interrupt_handler bus ctx m = Inr m' \<and> (m_kst m' = m_kst m \<or> m_kst m' = k')
    \<and> m_callback m' = m_callback m \<and> m_current_callback m' = m_current_callback m"
proof -
  obtain sp d where sp: "PIC_check_spurious bus (m_dev m) = (sp, d)" by fastforce
  obtain j con where pr: "kprintf (''Received interrupt %d '' @ [CHR 0x0A]) [VInt (int_no ctx - 32)] (m_con m) = Inr (j, con)"
    using kprintf_interrupt by blast
  have n: "unat (int_no ctx) < NO_INTERRUPTS" "int_no ctx = 32 \<or> 32 < unat (int_no ctx) \<and> unat (int_no ctx) < 48"
    using assms(4,5) by (auto simp: NO_INTERRUPTS_def word_less_nat_alt word_le_nat_alt word_unat_eq_iff)
  show ?thesis
    using assms(1-3,6) sp pr n
    by (cases "int_no ctx = 32") (auto simp: interrupt_handler_def run_callback_def call_irq_def hwclock_irq_handler_def Let_def)
qed

lemma irq_event:
  assumes k: "running_ok debug T D lim k" and n: "32 \<le> int_no ctx" "int_no ctx < 48"
  shows "\<exists>m'. interrupt_handler bus ctx (rn_m k) = Inr m' \<and> running_ok debug T D lim (k\<lparr>rn_m := m'\<rparr>)
    \<and> (\<forall>u. u \<noteq> current_thread (rn_kst k) \<longrightarrow> exec_ctx (tcbs (m_kst m') u) = exec_ctx (tcbs (rn_kst k) u))"
proof -
  note K = k [unfolded running_ok_def]
  obtain qs r where a: "sched_rel (rn_kst k) (qs, r)" "all_threads (qs, r) = T" using K by auto
  obtain s' where s': "rr_tick_handler debug ctx (rn_kst k) = Inr s'"
    "sched_rel s' (a_schedule (prio_of (rn_kst k) r) (quantum_of (rn_kst k) r \<le> tick_nsec (rn_kst k)) (qs, r))"
    "\<forall>u. exec_ctx (tcbs s' u) = (if u = r then save_irq_context ctx (exec_ctx (tcbs (rn_kst k) u)) else exec_ctx (tcbs (rn_kst k) u))"
    using rr_tick_aux [OF a(1), of debug ctx] by blast
  have al: "\<exists>a. sched_rel s' a \<and> all_threads a = T"
    using s'(2) a_schedule_members [OF sched_rel_facts(2) [OF a(1)]] a(2) by blast
  obtain m' where m': "interrupt_handler bus ctx (rn_m k) = Inr m'" "m_kst m' = rn_kst k \<or> m_kst m' = s'"
    "m_callback m' = m_callback (rn_m k)" "m_current_callback m' = m_current_callback (rn_m k)"
    using hardware_interrupt [of "rn_m k" "rr_tick_handler debug" ctx s' bus] K s'(1) n by auto
  have r: "current_thread (rn_kst k) = r" by (rule sched_rel_facts(1) [OF a(1)])
  have "running_ok debug T D lim (k\<lparr>rn_m := m'\<rparr>) \<and> (\<forall>u. u \<noteq> r \<longrightarrow> exec_ctx (tcbs (m_kst m') u) = exec_ctx (tcbs (rn_kst k) u))"
    using m'(2) K m'(3,4) al s'(3) rr_tick_frame [OF s'(1)] by (elim disjE) (simp_all add: running_ok_def)
  then show ?thesis using m'(1) r by blast
qed

section \<open>Kernel calls\<close>

lemma meminfo_loop_length: "meminfo_loop n i p maps pd m = Inr m' \<Longrightarrow> n = 0 \<or> i + n \<le> length maps"
proof (induction n arbitrary: i m)
  case (Suc n)
  then obtain m1 where "i < length maps" "meminfo_loop n (Suc i) p maps pd m1 = Inr m'"
    by (auto simp: bindE_Inr_iff split: if_splits)
  then show ?case using Suc.IH [of "Suc i" m1] by auto
qed simp

text \<open>The states a kernel call can leave: only the memory manager's buffer is stored to.\<close>

definition call_leaves :: "kcall_frame_t \<Rightarrow> kcall_state \<Rightarrow> kcall_state \<Rightarrow> bool" where
  "call_leaves frm s kc \<longleftrightarrow> kc_kst kc = kc_kst s \<and> kc_info kc = kc_info s
     \<and> (pmem (kc_pg kc) = pmem (kc_pg s) \<or> kcall_number frm = 1 \<and> kcall_args frm ! 0 < high_vma (kc_pg s)
         \<and> proc_id (procs (kc_kst s) (tcb_proc (tcbs (kc_kst s) (current_thread (kc_kst s))))) = PROC_MMAN_PID
         \<and> (\<exists>ws. user_stores 2 (pd_reg (kc_pg s)) ws (pmem (kc_pg s)) = Inr (pmem (kc_pg kc))
              \<and> (\<forall>(va, b) \<in> set ws. \<exists>i < 164. va = kcall_args frm ! 0 + of_nat i)))"

lemma meminfo_leaves:
  assumes call: "kcall_meminfo (current_thread (kc_kst s)) (kcall_args frm) s = Inr (r, kc)" and n: "unat (no_mmaps (kc_info s)) \<le> NO_MEM_REGIONS"
    and num: "kcall_number frm = 1"
  shows "call_leaves frm s kc"
proof (cases "kc = s")
  case False
  let ?p = "kcall_args frm ! 0" and ?n = "unat (no_mmaps (kc_info s))" and ?maps = "memmaps (kc_info s)" and ?pd = "pd_reg (kc_pg s)" and ?m = "pmem (kc_pg s)"
  let ?off = "map (\<lambda>(k, b). (?p + of_nat k, b))"
  let ?ws = "word_bytes 160 (no_mmaps (kc_info s)) @ region_bytes ?n 0 ?maps"
  obtain m1 m2 where m1: "user_stores 2 ?pd (?off (word_bytes 160 (no_mmaps (kc_info s)))) ?m = Inr m1"
    and m2: "meminfo_loop ?n 0 ?p ?maps ?pd m1 = Inr m2" and kc: "kc = s\<lparr>kc_pg := (kc_pg s)\<lparr>pmem := m2\<rparr>\<rparr>"
    and p: "?p < high_vma (kc_pg s)" and id: "proc_id (procs (kc_kst s) (tcb_proc (tcbs (kc_kst s) (current_thread (kc_kst s))))) = PROC_MMAN_PID"
    using call False bytes32_offsets [of ?p 160] by (auto simp: kcall_meminfo_def validate_def Let_def bindE_Inr_iff no_mem_regions_addr_def split: if_splits)
  have "?n \<le> length ?maps" using meminfo_loop_length [OF m2] by auto
  then have "user_stores 2 ?pd (?off (region_bytes ?n 0 ?maps)) m1 = Inr m2"
    using m2 meminfo_loop_stores [of 0 ?n ?maps ?p ?pd m1] by simp
  then have st: "user_stores 2 ?pd (?off ?ws) ?m = Inr m2" using m1 by (simp add: user_stores_append)
  have lt: "k < 164" if "(k, b) \<in> set ?ws" for k b
    using that region_bytes_bounds [of k b ?n 0 ?maps] n by (auto simp: word_bytes_def NO_MEM_REGIONS_def)
  then have "\<forall>(va, b) \<in> set (?off ?ws). \<exists>i < 164. va = ?p + of_nat i" by auto
  with st have "\<exists>ws. user_stores 2 ?pd ws ?m = Inr m2 \<and> (\<forall>(va, b) \<in> set ws. \<exists>i < 164. va = ?p + of_nat i)" by blast
  then show ?thesis using id num p unfolding call_leaves_def by (simp add: kc)
qed (simp add: call_leaves_def)

lemma call_effect:
  assumes "kcall_handler debug frm s = Inr (r, kc)" "unat (no_mmaps (kc_info s)) \<le> NO_MEM_REGIONS"
  shows "call_leaves frm s kc"
proof -
  consider "1 < kcall_number frm" | "kcall_number frm = 0" | "kcall_number frm = 1"
    by (cases "unat (kcall_number frm) \<le> 1") (auto simp: word_less_nat_alt word_unat_eq_iff le_Suc_eq)
  then show ?thesis
  proof cases
    case 3
    then show ?thesis using assms meminfo_leaves by (auto simp: kcall_handler_def NO_KCALLS_def kcall_table_def bindE_Inr_iff Let_def)
  qed (use assms in \<open>auto simp: kcall_handler_def NO_KCALLS_def kcall_table_def kcall_debug_def call_leaves_def bindE_Inr_iff Let_def split: if_splits\<close>)
qed

lemma call_returns:
  assumes k: "running_ok debug T D lim k" and maps: "unat (no_mmaps (rn_info k)) \<le> length (memmaps (rn_info k))" and r: "event_accepted k (Call r)"
  shows "\<exists>x kc. kcall_handler debug (sysenter_frame r) (call_state k) = Inr (x, kc)"
proof -
  note R = running_ok_current [OF k]
  let ?s = "call_state k" and ?f = "sysenter_frame r"
  have f: "kc_pg ?s = (rn_pg k)\<lparr>pd_reg := cr3 (rn_kst k)\<rparr>" "kc_kst ?s = rn_kst k" "kc_info ?s = rn_info k" "kcall_number ?f = u_eax r" "kcall_args ?f ! 0 = u_ebx r"
    by (simp_all add: call_state_def sysenter_frame_def)
  have ok: "pd_ok (pmem (kc_pg ?s)) (pd_reg (kc_pg ?s)) lim" "unat (no_mmaps (kc_info ?s)) \<le> NO_MEM_REGIONS"
    using k R(4) by (auto simp: f running_ok_def spaces_ok_def)
  have low: "u_eax r = 0 \<or> u_eax r = 1" if "\<not> 2 \<le> u_eax r"
    using that by (auto simp: word_le_nat_alt word_unat_eq_iff)
  consider "2 \<le> u_eax r" | "\<not> 2 \<le> u_eax r" "high_vma (rn_pg k) \<le> u_ebx r" | "u_eax r = 1" "\<not> by_mman k"
    | "u_eax r = 1" "u_ebx r < high_vma (rn_pg k)" "by_mman k" "user_buffer 2 (rn_mem k) (cr3 (rn_kst k)) (u_ebx r) 164"
    | str where "u_eax r = 0" "u_ebx r < high_vma (rn_pg k)" "user_text (rn_mem k) (cr3 (rn_kst k)) (u_ebx r) str" "length str < 900" "CHR 0x00 \<notin> set str"
    using r by fastforce
  then show ?thesis
  proof cases
    case 4
    then show ?thesis using meminfo_call [of ?f "u_ebx r" ?s lim debug] ok R(2) maps by (auto simp: f by_mman_def)
  next
    case 5
    then show ?thesis using debug_call [of ?f "u_ebx r" ?s str debug] R(2) by (simp add: f)
  qed (use R(2) low in \<open>auto simp: kcall_handler_def NO_KCALLS_def kcall_table_def kcall_debug_def kcall_meminfo_def validate_def ASSERT_def Let_def f by_mman_def
      word_le_nat_alt word_less_nat_alt\<close>)
qed

section \<open>Runs\<close>

text \<open>What one event may change: the memory of the thread that runs, and the saved context of that thread.\<close>

lemma event_keeps:
  assumes k: "running_ok debug T D lim k" and e: "event_ok k e" and run: "kernel_event bus debug e k = Inr k'"
  defines "t \<equiv> current_thread (rn_kst k)"
  shows "running_ok debug T D lim k'" "confined (user_frames (rn_mem k) (D t)) (rn_mem k) (rn_mem k')"
    "\<And>u. u \<noteq> t \<Longrightarrow> exec_ctx (tcbs (rn_kst k') u) = exec_ctx (tcbs (rn_kst k) u)"
proof -
  note R = running_ok_current [OF k] and K = k [unfolded running_ok_def]
  have sp: "spaces_ok (rn_mem k) (D ` set_mset T) lim" using K by blast
  have mem: "running_ok debug T D lim (k\<lparr>rn_pg := pg, rn_m := (rn_m k)\<lparr>m_con := con, m_dev := d\<rparr>\<rparr>)"
    if "confined (user_frames (rn_mem k) (cr3 (rn_kst k))) (rn_mem k) (pmem pg)" for pg con d
    using K spaces_keep(1) [OF sp R(4) that] by (simp add: running_ok_def)
  have "running_ok debug T D lim k' \<and> confined (user_frames (rn_mem k) (D t)) (rn_mem k) (rn_mem k')
    \<and> (\<forall>u. u \<noteq> t \<longrightarrow> exec_ctx (tcbs (rn_kst k') u) = exec_ctx (tcbs (rn_kst k) u))"
  proof (cases e)
    case (Irq ctx)
    then obtain m' where "interrupt_handler bus ctx (rn_m k) = Inr m'" "running_ok debug T D lim (k\<lparr>rn_m := m'\<rparr>)"
      "\<forall>u. u \<noteq> t \<longrightarrow> exec_ctx (tcbs (m_kst m') u) = exec_ctx (tcbs (rn_kst k) u)"
      using irq_event [OF k, of ctx bus] e by (auto simp: t_def)
    then show ?thesis using run by (auto simp: Irq)
  next
    case (Call r)
    obtain x kc where call: "kcall_handler debug (sysenter_frame r) (call_state k) = Inr (x, kc)" and k': "k' = after_call kc k"
      using run by (auto simp: Call arch_sysenter_stub_def bindE_Inr_iff Let_def)
    have L: "call_leaves (sysenter_frame r) (call_state k) kc" using call_effect [OF call] K by (simp add: call_state_def)
    have o: "confined (user_frames (rn_mem k) (cr3 (rn_kst k))) (rn_mem k) (pmem (kc_pg kc))"
    proof (cases "pmem (kc_pg kc) = rn_mem k")
      case False
      then obtain ws where ws: "user_stores 2 (cr3 (rn_kst k)) ws (rn_mem k) = Inr (pmem (kc_pg kc))" "\<forall>(va, b) \<in> set ws. \<exists>i < 164. va = u_ebx r + of_nat i"
        and c: "u_eax r = 1" "by_mman k" "u_ebx r < high_vma (rn_pg k)" using L by (auto simp: call_leaves_def call_state_def sysenter_frame_def by_mman_def)
      have "user_range (rn_mem k) (cr3 (rn_kst k)) (u_ebx r) 164" using e c by (simp add: Call)
      then show ?thesis using user_stores_confined [OF sp R(4) ws(1)] ws(2) by (fastforce simp: user_range_def)
    qed simp
    have "k' = k\<lparr>rn_pg := (rn_pg k)\<lparr>pmem := pmem (kc_pg kc)\<rparr>, rn_m := (rn_m k)\<lparr>m_con := kc_con kc, m_dev := m_dev (rn_m k)\<rparr>\<rparr>"
      using L by (simp add: k' after_call_def call_leaves_def call_state_def)
    then show ?thesis using mem [of "(rn_pg k)\<lparr>pmem := pmem (kc_pg kc)\<rparr>" "m_dev (rn_m k)" "kc_con kc"] o R(3) by (simp add: t_def)
  next
    case (Store va b)
    then obtain pa fl where w: "page_walk (rn_mem k) (cr3 (rn_kst k)) va = Some (pa, fl)" "bit fl 2"
      and k': "k' = k\<lparr>rn_pg := (rn_pg k)\<lparr>pmem := (rn_mem k)(pa := b)\<rparr>\<rparr>"
      using run by (auto split: option.splits if_splits)
    have o: "confined (user_frames (rn_mem k) (cr3 (rn_kst k))) (rn_mem k) ((rn_mem k)(pa := b))" by (rule user_store_confined [OF w])
    then show ?thesis using mem [of "(rn_pg k)\<lparr>pmem := (rn_mem k)(pa := b)\<rparr>" "m_dev (rn_m k)" "m_con (rn_m k)"] R(3) by (simp add: k' t_def)
  next
    case (Device d)
    then show ?thesis using run mem [of "rn_pg k" d "m_con (rn_m k)"] by auto
  qed
  then show "running_ok debug T D lim k'" "confined (user_frames (rn_mem k) (D t)) (rn_mem k) (rn_mem k')"
    "\<And>u. u \<noteq> t \<Longrightarrow> exec_ctx (tcbs (rn_kst k') u) = exec_ctx (tcbs (rn_kst k) u)" by blast+
qed

lemma runs_keep:
  assumes "kernel_runs bus debug k ts k'" "running_ok debug T D lim k"
  shows "running_ok debug T D lim k' \<and> set ts \<subseteq> set_mset T \<and> confined (\<Union>t \<in> set ts. user_frames (rn_mem k) (D t)) (rn_mem k) (rn_mem k')
    \<and> (\<forall>t \<in># T. page_walk (rn_mem k') (D t) = page_walk (rn_mem k) (D t))
    \<and> (\<forall>u. u \<notin> set ts \<longrightarrow> exec_ctx (tcbs (rn_kst k') u) = exec_ctx (tcbs (rn_kst k) u))"
  using assms
proof (induction rule: kernel_runs.induct)
  case (step k ts k1 e k2)
  let ?t = "current_thread (rn_kst k1)"
  from step have IH: "running_ok debug T D lim k1" "set ts \<subseteq> set_mset T" "confined (\<Union>t \<in> set ts. user_frames (rn_mem k) (D t)) (rn_mem k) (rn_mem k1)"
    "\<forall>t \<in># T. page_walk (rn_mem k1) (D t) = page_walk (rn_mem k) (D t)"
    "\<forall>u. u \<notin> set ts \<longrightarrow> exec_ctx (tcbs (rn_kst k1) u) = exec_ctx (tcbs (rn_kst k) u)" by blast+
  note E = event_keeps [OF IH(1) step.hyps(2,3)] and R = running_ok_current [OF IH(1)]
  have sp: "spaces_ok (rn_mem k1) (D ` set_mset T) lim" using IH(1) by (simp add: running_ok_def)
  have o: "confined (user_frames (rn_mem k) (D ?t)) (rn_mem k1) (rn_mem k2)" using E(2) user_frames_cong [of "rn_mem k1" "D ?t" "rn_mem k"] IH(4) R(1) by simp
  have w: "page_walk (rn_mem k2) (D t) = page_walk (rn_mem k) (D t)" if "t \<in># T" for t
    using spaces_keep(2) [OF sp _ E(2), of "D t"] IH(4) R(1) that by simp
  show ?case using E(1,3) R(1) IH(2,5) w confined_trans [OF IH(3) o] by (simp add: Un_commute)
qed simp

lemma runs_keep_other:
  assumes runs: "kernel_runs bus debug k ts k'" and k: "running_ok debug T D lim k" and t: "t \<in># T" "\<forall>u \<in> set ts. D u \<noteq> D t"
    and x: "x AND PAGE_MASK \<in> user_frames (rn_mem k) (D t)"
  shows "rn_mem k' x = rn_mem k x"
proof -
  note R = runs_keep [OF runs k]
  have "x AND PAGE_MASK \<notin> user_frames (rn_mem k) (D u)" if u: "u \<in> set ts" for u
  proof -
    have "D u \<noteq> D t" "u \<in># T" using u t(2) R by auto
    then have "user_frames (rn_mem k) (D u) \<inter> user_frames (rn_mem k) (D t) = {}" using k t(1) unfolding running_ok_def spaces_ok_def by blast
    then show ?thesis using x by blast
  qed
  then show ?thesis using R by (auto simp: confined_def)
qed

section \<open>The processes of the boot modules\<close>

lemma supervisor_frames:
  assumes "\<forall>i < 1024. \<not> bit (pde m pd i) 2" "pd_ok m pd lim" "page_walk m pd va = Some (pa, fl)"
  shows "\<not> bit fl 2"
proof -
  have "vpn va div 1024 < 1024" using unat_u32_lt [of va] by (simp add: less_mult_imp_div_less)
  then show ?thesis using assms by (auto simp: page_walk_pte [OF assms(2)] Let_def bit_simps split: if_splits)
qed

lemma module_user_frames:
  assumes ml: "module_loaded m0 m bd pd lo hi md" and bd: "pd_ok m0 bd lim" "\<forall>i < 1024. \<not> bit (pde m0 bd i) 2"
  shows "user_frames m pd \<subseteq> frame m pd ` private_pages m0 md"
proof
  fix q assume "q \<in> user_frames m pd"
  then obtain va pa fl where w: "page_walk m pd va = Some (pa, fl)" "bit fl 2" "q = pa AND PAGE_MASK" by (auto simp: user_frames_def)
  have pd: "pd_ok m pd hi" using ml by (simp add: module_loaded_def)
  have "vpn va \<in> private_pages m0 md"
    using module_view(3) [OF ml bd(1)] supervisor_frames [OF bd(2,1), of va pa fl] w(1,2) by (metis (no_types, lifting))
  moreover from this have "pg_ok (frame m pd (vpn va))" using ml unfolding module_loaded_def owned_def other_page_def by blast
  moreover have "bit (pte_at m pd (vpn va)) 0" using w(1) by (auto simp: page_walk_pte [OF pd] Let_def split: if_splits)
  ultimately show "q \<in> frame m pd ` private_pages m0 md"
    using walk_frame(1) [OF pd, of va] w(1,3) by (auto simp: cell_page simp del: Un_iff)
qed

lemma beyond_other: "pd_ok m pd lim \<Longrightarrow> pg_ok q \<Longrightarrow> lim \<le> unat q \<Longrightarrow> other_page m pd q"
  unfolding pd_ok_def other_page_def by fastforce

lemma placed_spaces:
  assumes bd: "pd_ok m0 bd lo" "\<forall>i < 1024. \<not> bit (pde m0 bd i) 2" and lim: "lim 0 = lo" "\<forall>j < n. lim j \<le> lim (Suc j)"
    and ml: "\<And>j. j < n \<Longrightarrow> module_loaded m0 m bd (pd j) (lim j) (lim (Suc j)) (mods ! j)"
  shows "spaces_ok m (pd ` {..<n}) (lim n)" "inj_on pd {..<n}"
proof -
  let ?F = "\<lambda>j. frame m (pd j) ` private_pages m0 (mods ! j)"
  note mono = limits_mono [OF lim(2)]
  have F: "user_frames m (pd j) \<subseteq> ?F j" if "j < n" for j by (rule module_user_frames [OF ml [OF that] bd])
  have Q: "other_page m (pd j) q" "lim j \<le> unat q" "unat q < lim (Suc j)" "pg_ok q" if jq: "j < n" "q \<in> ?F j" for j q
  proof -
    obtain u where u: "q = frame m (pd j) u" "u \<in> private_pages m0 (mods ! j)" using jq(2) by blast
    then have "other_page m (pd j) q \<and> lim j \<le> unat q \<and> unat q + 4096 \<le> lim (Suc j)"
      using ml [OF jq(1)] unfolding module_loaded_def owned_def by blast
    then show "other_page m (pd j) q" "lim j \<le> unat q" "unat q < lim (Suc j)" "pg_ok q" by (simp_all add: other_page_def)
  qed
  have apart: "pd i \<noteq> pd j \<and> ?F i \<inter> ?F j = {}" if "i < n" "j < n" "i < j" for i j
    using module_frames_apart [OF ml [OF that(1)] ml [OF that(2)]] mono [of "Suc i" j] that by simp
  have apart': "pd i \<noteq> pd j \<and> ?F i \<inter> ?F j = {}" if "i < n" "j < n" "i \<noteq> j" for i j
    using apart [of i j] apart [of j i] that by (metis Int_commute linorder_neqE_nat)
  then show "inj_on pd {..<n}" by (auto simp: inj_on_def)
  have other: "other_page m (pd i) q" if "i < n" "j < n" "q \<in> ?F j" for i j q
  proof -
    consider "i = j" | "i < j" | "j < i" by linarith
    then show ?thesis
    proof cases
      case 1
      then show ?thesis using Q(1) that by blast
    next
      case 2
      have "pd_ok m (pd i) (lim (Suc i))" using ml [OF that(1)] by (simp add: module_loaded_def)
      then show ?thesis by (rule beyond_other) (use Q(2,4) [OF that(2,3)] mono [of "Suc i" j] 2 that in simp_all)
    next
      case 3
      have "lo \<le> unat q" "unat q < lim i" using Q(2,3) [OF that(2,3)] mono [of 0 j] mono [of "Suc j" i] lim(1) 3 that by simp_all
      moreover from this have "other_page m0 bd q" using beyond_other [OF bd(1) Q(4) [OF that(2,3)]] by simp
      ultimately show ?thesis using ml [OF that(1)] by (simp add: module_loaded_def)
    qed
  qed
  have "pd_ok m (pd j) (lim n)" if "j < n" for j
  proof -
    have "pd_ok m (pd j) (lim (Suc j))" using ml [OF that] by (simp add: module_loaded_def)
    then show ?thesis by (rule pd_ok_mono) (use mono [of "Suc j" n] that in simp)
  qed
  moreover have "other_page m (pd i) q" if "i < n" "j < n" "q \<in> user_frames m (pd j)" for i j q
    by (rule other [OF that(1,2) subsetD [OF F [OF that(2)] that(3)]])
  moreover have "user_frames m (pd i) \<inter> user_frames m (pd j) = {}" if "i < n" "j < n" "pd i \<noteq> pd j" for i j
  proof -
    have "i \<noteq> j" using that(3) by blast
    then have "?F i \<inter> ?F j = {}" using apart' [OF that(1,2)] by simp
    then show ?thesis using Int_mono [OF F [OF that(1)] F [OF that(2)]] by (simp only: subset_empty)
  qed
  ultimately show "spaces_ok m (pd ` {..<n}) (lim n)" unfolding spaces_ok_def by blast
qed

definition running_boot :: "'d boot \<Rightarrow> 'd running" where
  "running_boot b = \<lparr>rn_m = bo_m b, rn_pg = kn_pg (bo_km b), rn_info = kn_info (bo_km b)\<rparr>"

definition thread_dir :: "kstate \<Rightarrow> u32 \<Rightarrow> paddr_t" where
  "thread_dir k t = page_dir (procs k (tcb_proc (tcbs k t)))"

abbreviation boot_dir :: "'d boot \<Rightarrow> boot_links \<Rightarrow> nat \<Rightarrow> paddr_t" where
  "boot_dir b bl i \<equiv> thread_dir (m_kst (bo_m b)) (boot_thread bl i)"

lemma boot_running:
  fixes b :: "'d boot"
  defines "k \<equiv> running_boot b"
  assumes bd: "pd_ok m0 bd lo" "\<forall>i < 1024. \<not> bit (pde m0 bd i) 2" and mp: "modules_placed m0 (rn_mem k) bd lo mods n bl (rn_kst k)" and n: "0 < n"
    and rel: "sched_rel (rn_kst k) (map (boot_thread bl) [1..<n] # replicate 15 [], boot_thread bl 0)"
    and tr: "timer_ready mst slv (rr_tick_handler debug) (rn_m k)" "\<forall>i. 32 < i \<and> i < 48 \<longrightarrow> m_callback (rn_m k) ! i = None"
    and info: "unat (no_mmaps (rn_info k)) \<le> NO_MEM_REGIONS"
  shows "\<exists>lim. running_ok debug (mset (map (boot_thread bl) [0..<n])) (thread_dir (rn_kst k)) lim k"
    "\<And>i j. i < n \<Longrightarrow> j < n \<Longrightarrow> i \<noteq> j \<Longrightarrow> thread_dir (rn_kst k) (boot_thread bl i) \<noteq> thread_dir (rn_kst k) (boot_thread bl j)"
proof -
  obtain pd lim where lim: "lim 0 = lo" "\<forall>j < n. lim j \<le> lim (Suc j)"
    and ml: "\<And>j. j < n \<Longrightarrow> module_loaded m0 (rn_mem k) bd (pd j) (lim j) (lim (Suc j)) (mods ! j)"
    and d: "\<And>j. j < n \<Longrightarrow> thread_dir (rn_kst k) (boot_thread bl j) = pd j"
    using mp by (auto simp: modules_placed_def thread_dir_def Let_def)
  note P = placed_spaces [OF bd lim ml]
  have T: "all_threads (map (boot_thread bl) [1..<n] # replicate 15 [], boot_thread bl 0) = mset (map (boot_thread bl) [0..<n])"
    using n by (simp add: upt_conv_Cons)
  have "thread_dir (rn_kst k) ` set_mset (mset (map (boot_thread bl) [0..<n])) = pd ` {..<n}" using d by (force simp: image_iff)
  moreover have "\<exists>a. sched_rel (rn_kst k) a \<and> all_threads a = mset (map (boot_thread bl) [0..<n])" using rel T by blast
  ultimately have "running_ok debug (mset (map (boot_thread bl) [0..<n])) (thread_dir (rn_kst k)) (lim n) k"
    unfolding running_ok_def using P(1) tr info by (simp add: timer_ready_def thread_dir_def)
  then show "\<exists>lim. running_ok debug (mset (map (boot_thread bl) [0..<n])) (thread_dir (rn_kst k)) lim k" by blast
  show "thread_dir (rn_kst k) (boot_thread bl i) \<noteq> thread_dir (rn_kst k) (boot_thread bl j)" if "i < n" "j < n" "i \<noteq> j" for i j
    using P(2) that by (simp add: d inj_on_eq_iff)
qed

lemma bootstrap_running:
  fixes bt :: "'d boot" and info :: kernel_info_t
  defines "n \<equiv> unat (no_modules info)"
  assumes "start_ok kt lk info (bo_km bt)" "build_ok debug (pmem (kn_pg (bo_km bt))) (modules info) n" "0 < n" "tasks_apart (m_kst (bo_m bt)) bl n"
    and "pic_on_bus bus mst slv" "length (m_callback (bo_m bt)) = 256" "\<forall>i. 32 < i \<and> i < 48 \<longrightarrow> m_callback (bo_m bt) ! i = None"
    and "\<not> bit (irr (mst (m_dev (bo_m bt)))) 7" "\<not> bit (irr (slv (m_dev (bo_m bt)))) 7"
    and "unat (tv_nsec (m_clock (bo_m bt))) \<le> 1000000000" "unat (no_mmaps info) \<le> NO_MEM_REGIONS"
  shows "\<exists>regs b lim. bootstrap debug bus kt lk bl al info bt = Inr (regs, b)
    \<and> running_ok debug (mset (map (boot_thread bl) [0..<n])) (thread_dir (m_kst (bo_m b))) lim (running_boot b)
    \<and> (\<forall>i < n. \<forall>j < n. i \<noteq> j \<longrightarrow> boot_dir b bl i \<noteq> boot_dir b bl j) \<and> no_mmaps (kn_info (bo_km b)) = no_mmaps info"
proof -
  let ?regs = "\<lparr>r_ds = 0x23, r_edi = 0, r_esi = 0, r_ebp = 0, r_ebx = 0, r_edx = 0, r_ecx = 0, r_eax = 0,
    r_eip = e_entry (module_hdr (pmem (kn_pg (bo_km bt))) (modules info ! 0)), r_cs = 0x1B, r_eflags = THREAD_DEFAULT_EFLAGS, r_esp = 0x80000000, r_ss = 0x23\<rparr>"
  let ?bd = "kt_boot_page_directory kt - high_vma (kn_pg (bo_km bt))"
  have cs: "\<forall>c \<in> set []. int_no c = 32" "unat (tv_sec (m_clock (bo_m bt))) + length [] < 2 ^ 64" using unsigned_less [of "tv_sec (m_clock (bo_m bt))"] by simp_all
  obtain b m0 lo where boot: "bootstrap debug bus kt lk bl al info bt = Inr (?regs, b)"
    and rel: "sched_rel (m_kst (bo_m b)) (map (boot_thread bl) [1..<n] # replicate 15 [], boot_thread bl 0)"
    and m0: "pd_ok m0 ?bd lo" "\<forall>i < 1024. \<not> bit (pde m0 ?bd i) 2" "modules_placed m0 (pmem (kn_pg (bo_km b))) ?bd lo (modules info) n bl (m_kst (bo_m b))"
    and tr: "timer_ready mst slv (rr_tick_handler debug) (bo_m b)"
      "m_callback (bo_m b) = (m_callback (bo_m bt))[14 := Some Page_fault_handler, 32 := Some Hwclock_irq_handler]" "no_mmaps (kn_info (bo_km b)) = no_mmaps info"
    using bootstrap_run [OF assms(2-5) [unfolded n_def] assms(6,7,9-11) cs, of al] unfolding n_def by blast
  have f: "rn_mem (running_boot b) = pmem (kn_pg (bo_km b))" "rn_kst (running_boot b) = m_kst (bo_m b)" "rn_m (running_boot b) = bo_m b"
    "rn_info (running_boot b) = kn_info (bo_km b)" by (simp_all add: running_boot_def)
  have cb: "\<forall>i. 32 < i \<and> i < 48 \<longrightarrow> m_callback (bo_m b) ! i = None" using assms(8) by (simp add: tr(2))
  obtain lim where k: "running_ok debug (mset (map (boot_thread bl) [0..<n])) (thread_dir (m_kst (bo_m b))) lim (running_boot b)"
    and dist: "\<And>i j. i < n \<Longrightarrow> j < n \<Longrightarrow> i \<noteq> j \<Longrightarrow> boot_dir b bl i \<noteq> boot_dir b bl j"
    using boot_running [of m0 ?bd lo b "modules info" n bl mst slv, unfolded f, OF m0 assms(4) rel tr(1) cb] assms(12) tr(3) by auto
  show ?thesis using boot k dist tr(3) by blast
qed

lemma boot_runs_keep:
  fixes b :: "'d boot"
  defines "m \<equiv> pmem (kn_pg (bo_km b))"
  assumes k: "running_ok debug (mset (map (boot_thread bl) [0..<n])) (thread_dir (m_kst (bo_m b))) lim (running_boot b)"
    and dist: "\<And>i j. i < n \<Longrightarrow> j < n \<Longrightarrow> i \<noteq> j \<Longrightarrow> boot_dir b bl i \<noteq> boot_dir b bl j"
    and runs: "kernel_runs bus debug (running_boot b) ts k'"
  shows "(\<exists>i < n. current_thread (rn_kst k') = boot_thread bl i \<and> cr3 (rn_kst k') = boot_dir b bl i)
    \<and> (\<forall>i < n. page_walk (rn_mem k') (boot_dir b bl i) = page_walk m (boot_dir b bl i))
    \<and> (\<forall>i < n. boot_thread bl i \<notin> set ts \<longrightarrow> exec_ctx (tcbs (rn_kst k') (boot_thread bl i)) = exec_ctx (tcbs (m_kst (bo_m b)) (boot_thread bl i))
          \<and> (\<forall>x. x AND PAGE_MASK \<in> user_frames m (boot_dir b bl i) \<longrightarrow> rn_mem k' x = m x))
    \<and> confined (\<Union>i < n. user_frames m (boot_dir b bl i)) m (rn_mem k')
    \<and> (\<forall>ctx. 32 \<le> int_no ctx \<and> int_no ctx < 48 \<longrightarrow> (\<exists>k''. kernel_event bus debug (Irq ctx) k' = Inr k''))"
proof -
  note R = runs_keep [OF runs k]
  have k': "running_ok debug (mset (map (boot_thread bl) [0..<n])) (thread_dir (m_kst (bo_m b))) lim k'"
    and sub: "set ts \<subseteq> boot_thread bl ` {..<n}" using R by auto
  have f: "rn_mem (running_boot b) = m" "rn_kst (running_boot b) = m_kst (bo_m b)" by (simp_all add: running_boot_def m_def)
  have "\<exists>i < n. current_thread (rn_kst k') = boot_thread bl i \<and> cr3 (rn_kst k') = boot_dir b bl i"
    using running_ok_current(1,3) [OF k'] by auto
  moreover have "rn_mem k' x = m x" if "i < n" "boot_thread bl i \<notin> set ts" "x AND PAGE_MASK \<in> user_frames m (boot_dir b bl i)" for i x
  proof -
    have "thread_dir (m_kst (bo_m b)) u \<noteq> boot_dir b bl i" if u: "u \<in> set ts" for u
    proof -
      obtain j where "j < n" "u = boot_thread bl j" using u sub by auto
      then show ?thesis using dist [of j i] u \<open>i < n\<close> \<open>boot_thread bl i \<notin> set ts\<close> by auto
    qed
    then show ?thesis using runs_keep_other [OF runs k, of "boot_thread bl i" x] that by (auto simp: f)
  qed
  moreover have "confined (\<Union>i < n. user_frames m (boot_dir b bl i)) m (rn_mem k')"
  proof (rule confined_mono)
    show "confined (\<Union>t \<in> set ts. user_frames m (thread_dir (m_kst (bo_m b)) t)) m (rn_mem k')" using R by (simp add: f)
    show "(\<Union>t \<in> set ts. user_frames m (thread_dir (m_kst (bo_m b)) t)) \<subseteq> (\<Union>i < n. user_frames m (boot_dir b bl i))" using sub by blast
  qed
  moreover have "\<exists>k''. kernel_event bus debug (Irq ctx) k' = Inr k''" if "32 \<le> int_no ctx" "int_no ctx < 48" for ctx
    using irq_event [OF k' that, of bus] by auto
  ultimately show ?thesis using R by (simp add: f)
qed

section \<open>Properties\<close>

text \<open>C1: processes are isolated, from the start on. Let the early boot code have left a state as \<open>start_ok\<close> asks, with
  no interrupt handler registered, a memory map that fits the reply to the memory manager, and the
  controllers on the bus; in a kernel built with assertions, let the modules meet them (\<open>build_ok\<close>). Then \<^verbatim>\<open>bootstrap\<close> succeeds and no two of the processes it makes share a frame they can reach from user
  mode. Take any state that is reached then by hardware interrupts in any order, kernel calls, arbitrary
  stores of the running threads and changes of the devices. The calls may have any arguments with one proviso, which the kernel does
  not check: when the memory manager calls \<^verbatim>\<open>meminfo\<close>, what is mapped of its buffer must be mapped for user mode (\<open>event_ok\<close>). In it the running
  thread is one of a boot module and runs in that module's address space; the address translation of every process is what it was; a
  process whose thread did not run has its registers and every byte of its memory as they were; no byte outside the processes'
  own frames has changed, page tables and module images included; and every hardware interrupt is handled without a fault.\<close>

theorem kernel_isolates_processes:
  fixes bt :: "'d boot" and info :: kernel_info_t
  defines "n \<equiv> unat (no_modules info)"
  assumes "start_ok kt lk info (bo_km bt)" "build_ok debug (pmem (kn_pg (bo_km bt))) (modules info) n" "0 < n" "tasks_apart (m_kst (bo_m bt)) bl n"
    and "pic_on_bus bus mst slv" "length (m_callback (bo_m bt)) = 256" "\<forall>i. 32 < i \<and> i < 48 \<longrightarrow> m_callback (bo_m bt) ! i = None"
    and "\<not> bit (irr (mst (m_dev (bo_m bt)))) 7" "\<not> bit (irr (slv (m_dev (bo_m bt)))) 7"
    and "unat (tv_nsec (m_clock (bo_m bt))) \<le> 1000000000" "unat (no_mmaps info) \<le> NO_MEM_REGIONS"
  shows "\<exists>regs b. bootstrap debug bus kt lk bl al info bt = Inr (regs, b)
    \<and> (\<forall>i < n. \<forall>j < n. i \<noteq> j \<longrightarrow> user_frames (pmem (kn_pg (bo_km b))) (boot_dir b bl i) \<inter> user_frames (pmem (kn_pg (bo_km b))) (boot_dir b bl j) = {})
    \<and> (\<forall>ts k'. kernel_runs bus debug (running_boot b) ts k' \<longrightarrow>
         (\<exists>i < n. current_thread (rn_kst k') = boot_thread bl i \<and> cr3 (rn_kst k') = boot_dir b bl i)
       \<and> (\<forall>i < n. page_walk (rn_mem k') (boot_dir b bl i) = page_walk (pmem (kn_pg (bo_km b))) (boot_dir b bl i))
       \<and> (\<forall>i < n. boot_thread bl i \<notin> set ts \<longrightarrow>
            exec_ctx (tcbs (rn_kst k') (boot_thread bl i)) = exec_ctx (tcbs (m_kst (bo_m b)) (boot_thread bl i))
          \<and> (\<forall>x. x AND PAGE_MASK \<in> user_frames (pmem (kn_pg (bo_km b))) (boot_dir b bl i) \<longrightarrow> rn_mem k' x = pmem (kn_pg (bo_km b)) x))
       \<and> confined (\<Union>i < n. user_frames (pmem (kn_pg (bo_km b))) (boot_dir b bl i)) (pmem (kn_pg (bo_km b))) (rn_mem k')
       \<and> (\<forall>ctx. 32 \<le> int_no ctx \<and> int_no ctx < 48 \<longrightarrow> (\<exists>k''. kernel_event bus debug (Irq ctx) k' = Inr k'')))"
proof -
  obtain regs b lim where b: "bootstrap debug bus kt lk bl al info bt = Inr (regs, b)"
    and k: "running_ok debug (mset (map (boot_thread bl) [0..<n])) (thread_dir (m_kst (bo_m b))) lim (running_boot b)"
    and dist: "\<And>i j. i < n \<Longrightarrow> j < n \<Longrightarrow> i \<noteq> j \<Longrightarrow> boot_dir b bl i \<noteq> boot_dir b bl j"
    using bootstrap_running [OF assms(2-5) [unfolded n_def] assms(6-), of al] unfolding n_def by blast
  have "user_frames (pmem (kn_pg (bo_km b))) (boot_dir b bl i) \<inter> user_frames (pmem (kn_pg (bo_km b))) (boot_dir b bl j) = {}" if "i < n" "j < n" "i \<noteq> j" for i j
    using k dist [OF that] that(1,2) by (simp add: running_ok_def spaces_ok_def running_boot_def)
  then show ?thesis using b boot_runs_keep [OF k dist] by (intro exI [of _ regs] exI [of _ b]) simp
qed

text \<open>C3: progress and preservation. In a well-formed state of the running kernel every accepted event - a hardware interrupt, a call
  that is refused or has good arguments (for \<^verbatim>\<open>meminfo\<close> a buffer of pages that are mapped for user mode and writable), a store to a page user mode may write, a change of the devices - is carried out
  without a fault, and the state after it is well formed for the same threads, directories and limit.\<close>

theorem kernel_events_type_safe:
  assumes "running_ok debug T D lim k" "unat (no_mmaps (rn_info k)) \<le> length (memmaps (rn_info k))" "event_accepted k e"
  shows "\<exists>k'. kernel_event bus debug e k = Inr k' \<and> running_ok debug T D lim k'"
proof -
  have "\<exists>k'. kernel_event bus debug e k = Inr k'"
  proof (cases e)
    case (Irq ctx)
    then show ?thesis using irq_event [OF assms(1), of ctx bus] assms(3) by auto
  next
    case (Call r)
    then obtain x kc where "kcall_handler debug (sysenter_frame r) (call_state k) = Inr (x, kc)"
      using call_returns [OF assms(1,2), of r] assms(3) by auto
    then show ?thesis by (simp add: Call arch_sysenter_stub_def)
  qed (use assms(3) in auto)
  moreover have "event_ok k e"
  proof (cases e)
    case (Call r)
    moreover have "\<not> 2 \<le> (1 :: u32)" by (simp add: word_le_nat_alt)
    ultimately show ?thesis using assms(3) by auto
  qed (use assms(3) in auto)
  ultimately show ?thesis using event_keeps(1) [OF assms(1)] by blast
qed

section \<open>Witnesses\<close>

lemma sample_boot_facts:
  "unat (no_modules sample_boot_info) = 2" "tasks_apart (m_kst (bo_m sample_boot)) sample_bl 2"
  "length (m_callback (bo_m sample_boot)) = 256" "\<forall>i. 32 < i \<and> i < 48 \<longrightarrow> m_callback (bo_m sample_boot) ! i = None"
  "\<not> bit (irr (fst (m_dev (bo_m sample_boot)))) 7" "\<not> bit (irr (snd (m_dev (bo_m sample_boot)))) 7"
  "unat (tv_nsec (m_clock (bo_m sample_boot))) \<le> 1000000000" "no_mmaps sample_boot_info = 0"
  "pmem (kn_pg (bo_km sample_boot)) = sample_mem" "modules sample_boot_info = sample_modules"
  using sample_tasks_apart
  by (simp_all add: sample_boot_def sample_boot_info_def sample_machine_def i8259_reset_def zero_kinfo_def)

theorem kernel_isolates_processes_witness:
  "\<exists>regs b t k'. bootstrap True pc_bus sample_tables sample_kmem_links sample_bl sample_links sample_boot_info sample_boot = Inr (regs, b)
     \<and> kernel_runs pc_bus True (running_boot b) [t] k'
     \<and> page_walk (rn_mem k') (boot_dir b sample_bl 1) = page_walk (pmem (kn_pg (bo_km b))) (boot_dir b sample_bl 1)"
proof -
  obtain regs b where b: "bootstrap True pc_bus sample_tables sample_kmem_links sample_bl sample_links sample_boot_info sample_boot = Inr (regs, b)"
    and runs: "\<And>ts k'. kernel_runs pc_bus True (running_boot b) ts k' \<Longrightarrow>
       (\<forall>i < 2. page_walk (rn_mem k') (boot_dir b sample_bl i) = page_walk (pmem (kn_pg (bo_km b))) (boot_dir b sample_bl i))
       \<and> (\<forall>ctx. 32 \<le> int_no ctx \<and> int_no ctx < 48 \<longrightarrow> (\<exists>k''. kernel_event pc_bus True (Irq ctx) k' = Inr k''))"
    using kernel_isolates_processes [where debug = True and info = sample_boot_info and bt = sample_boot and bl = sample_bl and al = sample_links, unfolded sample_boot_facts(1,9,10),
        OF sample_start sample_build _ sample_boot_facts(2) pc_bus_ok sample_boot_facts(3-7)] sample_boot_facts(8) by auto
  have z: "32 \<le> int_no zero_irq \<and> int_no zero_irq < 48" by (simp add: zero_irq_def)
  have "kernel_runs pc_bus True (running_boot b) [] (running_boot b)" by (rule kernel_runs.stay)
  note st = this and k = runs [OF this]
  then obtain k' where k': "kernel_event pc_bus True (Irq zero_irq) (running_boot b) = Inr k'" using z by blast
  then have "kernel_runs pc_bus True (running_boot b) [current_thread (rn_kst (running_boot b))] k'"
    using kernel_runs.step [OF st, of "Irq zero_irq" k'] z by simp
  then show ?thesis using b runs by (metis one_less_numeral_iff semiring_norm(76))
qed

theorem kernel_events_type_safe_witness:
  "\<exists>regs b k'. bootstrap True pc_bus sample_tables sample_kmem_links sample_bl sample_links sample_boot_info sample_boot = Inr (regs, b)
     \<and> kernel_event pc_bus True (Irq zero_irq) (running_boot b) = Inr k'"
proof -
  obtain regs b lim where b: "bootstrap True pc_bus sample_tables sample_kmem_links sample_bl sample_links sample_boot_info sample_boot = Inr (regs, b)"
    and k: "running_ok True (mset (map (boot_thread sample_bl) [0..<2])) (thread_dir (m_kst (bo_m b))) lim (running_boot b)"
    and nm: "no_mmaps (kn_info (bo_km b)) = 0"
    using bootstrap_running [where debug = True and info = sample_boot_info and bt = sample_boot and bl = sample_bl and al = sample_links, unfolded sample_boot_facts(1,9,10),
        OF sample_start sample_build _ sample_boot_facts(2) pc_bus_ok sample_boot_facts(3-7)] sample_boot_facts(8) by auto
  have "event_accepted (running_boot b) (Irq zero_irq)" by (simp add: zero_irq_def)
  then show ?thesis using b kernel_events_type_safe [OF k, of "Irq zero_irq" pc_bus] nm by (auto simp: running_boot_def)
qed

end
