(* ===== verification/Phys_Alloc.thy ===== *)
theory Phys_Alloc
  imports Early
begin

text \<open>
  The physical memory allocators of \<^verbatim>\<open>kern/mem/phys_alloc.c\<close> and \<^verbatim>\<open>kern/mem/stack_alloc.c\<close>: a region of
  memory for the allocators' own data, the scan of the boot loader's memory map, and a stack of free frames.
  The two files are not part of the build yet, and they read a \<^verbatim>\<open>struct multiboot_info\<close> and a member
  \<^verbatim>\<open>size\<close> of the memory map entries that the repository's \<^verbatim>\<open>multiboot.h\<close> does not declare: the three
  members of the structure are arguments here (\<open>mmap_length\<close>, \<open>mmap_addr\<close> and \<open>upper_kb\<close> for its \<^verbatim>\<open>mem_upper\<close>), and so is the
  function \<open>entry_size\<close> that reads the size of the entry at an address.
\<close>

section \<open>State\<close>

definition NO_PHYS_MEM_REGION :: nat where "NO_PHYS_MEM_REGION = 3"
definition PHYS_MEM_REGION_KERNEL :: nat where "PHYS_MEM_REGION_KERNEL = 2"

record phys_mem_region_t =
  pr_start :: paddr_t
  pr_end :: paddr_t
  no_frames_available :: paddr_t
  no_frames_in_use :: paddr_t
  pr_size :: size_t

record metadata_region_info_t =
  md_start :: paddr_t
  md_end :: paddr_t
  md_current_offset :: paddr_t

text \<open>
  The static variables of the two files. \<^verbatim>\<open>memory_region\<close> points into \<^verbatim>\<open>memory_regions\<close> and is given by its
  index; \<^verbatim>\<open>free_frames_stack_top\<close> is a signed \<^verbatim>\<open>int\<close>. \<^verbatim>\<open>region_allocators\<close> is never written.
\<close>

record phys =
  ph_mem :: mem
  ph_console :: console
  memory_regions :: "phys_mem_region_t list"
  total_frames_available :: size_t
  metadata_region_info :: metadata_region_info_t
  free_frames_stack_top :: u32
  free_frames_stack :: paddr_t
  memory_region :: "nat option"

text \<open>The addresses the linker script defines.\<close>

record phys_links =
  pl_metadata_vma :: vaddr_t
  pl_metadata_size :: u32
  pl_high_vma :: vaddr_t
  pl_kernel_start :: vaddr_t
  pl_kernel_end :: vaddr_t

definition zero_region :: phys_mem_region_t where
  "zero_region = \<lparr>pr_start = 0, pr_end = 0, no_frames_available = 0, no_frames_in_use = 0, pr_size = 0\<rparr>"

definition phys_start :: "mem \<Rightarrow> console \<Rightarrow> phys" where
  "phys_start m con = \<lparr>ph_mem = m, ph_console = con, memory_regions = replicate NO_PHYS_MEM_REGION zero_region,
     total_frames_available = 0, metadata_region_info = \<lparr>md_start = 0, md_end = 0, md_current_offset = 0\<rparr>,
     free_frames_stack_top = -1, free_frames_stack = 0, memory_region = None\<rparr>"

section \<open>Operations\<close>

definition DMA_REGION_MIN_SIZE :: size_t where "DMA_REGION_MIN_SIZE = push_bit 20 1"
definition KERNEL_REGION_MIN_SIZE :: size_t where "KERNEL_REGION_MIN_SIZE = push_bit 20 1"

definition reserve_metadata_space :: "size_t \<Rightarrow> phys \<Rightarrow> paddr_t \<times> phys" where
  "reserve_metadata_space sz s =
     (let md = metadata_region_info s
      in if md_end md < md_current_offset md + sz then (0, s)
         else (md_current_offset md, s\<lparr>metadata_region_info := md\<lparr>md_current_offset := md_current_offset md + sz\<rparr>\<rparr>))"

text \<open>
  The range of an entry of the memory map: the 64-bit sums are cut to the width of an address. Both scans leave out
  an entry that is not available or that holds the map itself.
\<close>

definition entry_start :: "multiboot_memory_map_t \<Rightarrow> paddr_t" where
  "entry_start e = ucast (map_addr e)"

definition entry_end :: "multiboot_memory_map_t \<Rightarrow> paddr_t" where
  "entry_end e = ucast (map_addr e + map_len e)"

definition entry_skipped :: "paddr_t \<Rightarrow> multiboot_memory_map_t \<Rightarrow> bool" where
  "entry_skipped mmap_addr e \<longleftrightarrow> map_type e \<noteq> MULTIBOOT_MEMORY_AVAILABLE
     \<or> (entry_start e \<le> mmap_addr \<and> mmap_addr \<le> entry_end e)"

text \<open>The step of both scans from one entry to the next; \<^verbatim>\<open>sizeof(multiboot_memory_map_t*)\<close> is 4.\<close>

abbreviation next_entry :: "(mem \<Rightarrow> paddr_t \<Rightarrow> u32) \<Rightarrow> mem \<Rightarrow> paddr_t \<Rightarrow> paddr_t" where
  "next_entry entry_size m a \<equiv> a + (entry_size m a + 4)"

fun count_frames :: "(mem \<Rightarrow> paddr_t \<Rightarrow> u32) \<Rightarrow> nat \<Rightarrow> mem \<Rightarrow> paddr_t \<Rightarrow> paddr_t \<Rightarrow> paddr_t \<Rightarrow> size_t \<Rightarrow> size_t outcome" where
  "count_frames entry_size 0 m mmap_addr curr_addr mmap_end_addr n = Inl No_Return"
| "count_frames entry_size (Suc fuel) m mmap_addr curr_addr mmap_end_addr n =
     (if curr_addr < mmap_end_addr
      then let entry = read_memmap m curr_addr;
               n = (if entry_skipped mmap_addr entry then n else n + ucast (map_len entry div 4096))
           in count_frames entry_size fuel m mmap_addr (next_entry entry_size m curr_addr) mmap_end_addr n
      else Inr n)"

definition init_free_memory ::
  "bool \<Rightarrow> (mem \<Rightarrow> paddr_t \<Rightarrow> u32) \<Rightarrow> nat \<Rightarrow> phys_links \<Rightarrow> u32 \<Rightarrow> paddr_t \<Rightarrow> u32 \<Rightarrow> phys \<Rightarrow> phys outcome" where
  "init_free_memory debug entry_size fuel lk mmap_length mmap_addr upper_kb s =
     (let mmap_end_addr = mmap_addr + mmap_length;
          kernel_size = pl_kernel_end lk - pl_kernel_start lk;
          metadata_region_size = pl_metadata_size lk;
          s = s\<lparr>metadata_region_info := \<lparr>md_start = pl_metadata_vma lk,
                  md_end = pl_metadata_vma lk + metadata_region_size, md_current_offset = pl_metadata_vma lk\<rparr>\<rparr>
      in bindE (kprintf (''Detected %d MB of free memory'' @ [CHR 0x0A]) [VInt (upper_kb div 1024)] (ph_console s)) (\<lambda>(_, con).
         if upper_kb * 1024 < DMA_REGION_MIN_SIZE + KERNEL_REGION_MIN_SIZE
         then Inl (Panic ''Insufficient physical memory available!'')
         else bindE (count_frames entry_size fuel (ph_mem s) mmap_addr mmap_addr mmap_end_addr (total_frames_available s)) (\<lambda>n.
         let occupied = kernel_size div PAGE_SIZE + metadata_region_size div PAGE_SIZE;
             n = n - occupied
         in bindE (kprintf (''%d frames available'' @ [CHR 0x0A]) [VInt n] con) (\<lambda>(_, con).
            bindE (if debug then kprintf (''The kernel occupies %d frames'' @ [CHR 0x0A]) [VInt occupied] con else Inr (0, con)) (\<lambda>(_, con).
            let kernel_end_page_align = (pl_kernel_end lk AND 0xFFFFF000) + PAGE_SIZE;
                kernel_memory_region_size = push_bit 20 2;
                kernel_memory_region_start = kernel_end_page_align - pl_high_vma lk;
                r = memory_regions s ! PHYS_MEM_REGION_KERNEL
            in Inr (s\<lparr>ph_console := con, total_frames_available := n,
                 memory_regions := (memory_regions s)[PHYS_MEM_REGION_KERNEL :=
                   r\<lparr>pr_size := kernel_memory_region_size, pr_start := kernel_memory_region_start,
                     pr_end := kernel_memory_region_start + kernel_memory_region_size\<rparr>]\<rparr>))))))"

subsection \<open>The stack of free frames\<close>

text \<open>The inner loop of \<^verbatim>\<open>stack_alloc_init\<close>: the pages of one entry, pushed while frames are missing.\<close>

function push_frames :: "paddr_t \<Rightarrow> paddr_t \<Rightarrow> size_t \<Rightarrow> size_t \<Rightarrow> phys \<Rightarrow> size_t \<times> phys" where
  "push_frames addr mmap_region_addr_end no_frames_required no_frames_acquired s =
     (if addr < mmap_region_addr_end \<and> no_frames_acquired < no_frames_required
      then let t = free_frames_stack_top s + 1
           in push_frames (addr + PAGE_SIZE) mmap_region_addr_end no_frames_required (no_frames_acquired + 1)
                (s\<lparr>free_frames_stack_top := t, ph_mem := store32 (ph_mem s) (free_frames_stack s + 4 * t) addr\<rparr>)
      else (no_frames_acquired, s))"
  by pat_completeness auto
termination
proof (relation "measure (\<lambda>(addr, lim, req, got, s). unat req - unat got)", goal_cases)
  case (2 addr lim req got s t)
  then show ?case using unat_inc [of got req] by (auto simp: word_less_nat_alt)
qed simp

declare push_frames.simps [simp del]

fun scan_regions :: "(mem \<Rightarrow> paddr_t \<Rightarrow> u32) \<Rightarrow> nat \<Rightarrow> paddr_t \<Rightarrow> paddr_t \<Rightarrow> paddr_t \<Rightarrow> paddr_t \<Rightarrow> size_t \<Rightarrow> size_t \<Rightarrow> phys \<Rightarrow> (size_t \<times> phys) outcome" where
  "scan_regions entry_size 0 mmap_addr curr_addr mmap_end_addr region_start no_frames_required no_frames_acquired s = Inl No_Return"
| "scan_regions entry_size (Suc fuel) mmap_addr curr_addr mmap_end_addr region_start no_frames_required no_frames_acquired s =
     (if curr_addr < mmap_end_addr \<and> no_frames_acquired < no_frames_required
      then let entry = read_memmap (ph_mem s) curr_addr;
               mmap_region_addr_start = entry_start entry;
               mmap_region_addr_end = entry_end entry
           in if entry_skipped mmap_addr entry
                \<or> \<not> (mmap_region_addr_start \<le> region_start \<or> region_start < mmap_region_addr_end)
              then scan_regions entry_size fuel mmap_addr (next_entry entry_size (ph_mem s) curr_addr) mmap_end_addr region_start
                     no_frames_required no_frames_acquired s
              else let addr = (if region_start < mmap_region_addr_start then mmap_region_addr_start else region_start);
                       (no_frames_acquired, s) = push_frames addr mmap_region_addr_end no_frames_required no_frames_acquired s
                   in scan_regions entry_size fuel mmap_addr (next_entry entry_size (ph_mem s) curr_addr) mmap_end_addr region_start
                        no_frames_required no_frames_acquired s
      else Inr (no_frames_acquired, s))"

definition frames_required :: "phys_mem_region_t \<Rightarrow> paddr_t" where
  "frames_required region =
     (let no_frames_required = pr_size region div PAGE_SIZE * 4 div PAGE_SIZE
      in if no_frames_required = 0 then 1 else no_frames_required)"

definition stack_alloc_init ::
  "(mem \<Rightarrow> paddr_t \<Rightarrow> u32) \<Rightarrow> nat \<Rightarrow> u32 \<Rightarrow> paddr_t \<Rightarrow> nat \<Rightarrow> phys \<Rightarrow> phys outcome" where
  "stack_alloc_init entry_size fuel mmap_length mmap_addr region s =
     (let mmap_end_addr = mmap_addr + mmap_length;
          no_frames_required = frames_required (memory_regions s ! region);
          s = s\<lparr>memory_region := Some region, memory_regions := (memory_regions s)[region :=
                 (memory_regions s ! region)\<lparr>no_frames_in_use := 0, no_frames_available := 0\<rparr>]\<rparr>;
          (addr, s) = reserve_metadata_space (no_frames_required * 4) s;
          s = s\<lparr>free_frames_stack := addr\<rparr>
      in if free_frames_stack s = 0 then Inl (Panic ''No space left in metadata region!'')
         else bindE (scan_regions entry_size fuel mmap_addr mmap_addr mmap_end_addr (pr_start (memory_regions s ! region))
                       no_frames_required 0 s) (\<lambda>(no_frames_acquired, s).
                if no_frames_acquired \<noteq> no_frames_required then Inl (Panic ''Stack allocator: Insufficient memory!'')
                else Inr (s\<lparr>memory_regions := (memory_regions s)[region :=
                       (memory_regions s ! region)\<lparr>no_frames_available := no_frames_acquired\<rparr>]\<rparr>)))"

text \<open>The counters of the region the allocator was initialised with.\<close>

definition count_frame :: "u32 \<Rightarrow> phys \<Rightarrow> phys outcome" where
  "count_frame d s =
     (case memory_region s of
        None \<Rightarrow> Inl Null_Deref
      | Some r \<Rightarrow> Inr (s\<lparr>memory_regions := (memory_regions s)[r := (memory_regions s ! r)
            \<lparr>no_frames_in_use := no_frames_in_use (memory_regions s ! r) + d,
              no_frames_available := no_frames_available (memory_regions s ! r) - d\<rparr>]\<rparr>))"

definition stack_alloc_frame :: "phys \<Rightarrow> (paddr_t \<times> phys) outcome" where
  "stack_alloc_frame s =
     (if 0 \<le> sint (free_frames_stack_top s)
      then let frame_addr = load32 (ph_mem s) (free_frames_stack s + 4 * free_frames_stack_top s)
           in bindE (count_frame 1 (s\<lparr>free_frames_stack_top := free_frames_stack_top s - 1\<rparr>)) (\<lambda>s. Inr (frame_addr, s))
      else bindE (kprintf ''Stack allocator: No free frames left!'' [] (ph_console s)) (\<lambda>(_, con).
             Inr (0, s\<lparr>ph_console := con\<rparr>)))"

definition stack_free_frame :: "paddr_t \<Rightarrow> phys \<Rightarrow> phys outcome" where
  "stack_free_frame addr s =
     (let t = free_frames_stack_top s + 1
      in count_frame (-1) (s\<lparr>free_frames_stack_top := t, ph_mem := store32 (ph_mem s) (free_frames_stack s + 4 * t) addr\<rparr>))"

text \<open>The interface of an allocator and the stack allocator as an instance of it.\<close>

record frame_allocator_t =
  fa_init :: "u32 \<Rightarrow> paddr_t \<Rightarrow> nat \<Rightarrow> phys \<Rightarrow> phys outcome"
  fa_alloc :: "phys \<Rightarrow> (paddr_t \<times> phys) outcome"
  fa_free :: "paddr_t \<Rightarrow> phys \<Rightarrow> phys outcome"

definition stack_allocator :: "(mem \<Rightarrow> paddr_t \<Rightarrow> u32) \<Rightarrow> nat \<Rightarrow> frame_allocator_t" where
  "stack_allocator entry_size fuel =
     \<lparr>fa_init = stack_alloc_init entry_size fuel, fa_alloc = stack_alloc_frame, fa_free = stack_free_frame\<rparr>"

section \<open>The array of the stack\<close>

text \<open>Slot \<open>i\<close> of the array, and the bytes of an array of \<open>cap\<close> slots.\<close>

definition slot :: "paddr_t \<Rightarrow> nat \<Rightarrow> paddr_t" where
  "slot stk i = stk + of_nat (4 * i)"

definition array_ok :: "nat \<Rightarrow> paddr_t \<Rightarrow> bool" where
  "array_ok cap stk \<longleftrightarrow> aligned4 stk \<and> unat stk + 4 * cap < 2 ^ 32"

definition in_array :: "nat \<Rightarrow> paddr_t \<Rightarrow> u32 \<Rightarrow> bool" where
  "in_array cap stk x \<longleftrightarrow> unat stk \<le> unat x \<and> unat x < unat stk + 4 * cap"

lemma unat_slot: "array_ok cap stk \<Longrightarrow> i < cap \<Longrightarrow> unat (slot stk i) = unat stk + 4 * i"
  unfolding slot_def array_ok_def by (rule unat_plus_of_nat) simp

lemma slot_aligned:
  assumes "array_ok cap stk" "i < cap"
  shows "aligned4 (slot stk i)"
  using assms unat_slot [OF assms] by (auto simp: aligned4_def array_ok_def)

lemma slot_load_store:
  assumes "array_ok cap stk" "i < cap" "j < cap"
  shows "load32 (store32 m (slot stk i) v) (slot stk j) = (if i = j then v else load32 m (slot stk j))"
proof -
  have "slot stk i = slot stk j \<longleftrightarrow> i = j"
    using unat_slot [OF assms(1,2)] unat_slot [OF assms(1,3)] by (auto simp: word_unat_eq_iff)
  then show ?thesis
    using word_cells.ld_st [OF slot_aligned [OF assms(1,2)] slot_aligned [OF assms(1,3)]] by simp
qed

lemma slot_store_outside:
  assumes "array_ok cap stk" "i < cap" "\<not> in_array cap stk x"
  shows "store32 m (slot stk i) v x = m x"
proof -
  have "x \<noteq> slot stk i + of_nat k" if "k < 4" for k
  proof
    assume "x = slot stk i + of_nat k"
    then have "unat x = unat stk + 4 * i + k"
      using aligned4_plus [OF slot_aligned [OF assms(1,2)] that] unat_slot [OF assms(1,2)] by simp
    then show False using assms(2,3) that by (simp add: in_array_def)
  qed
  from this [of 0] this [of 1] this [of 2] this [of 3] show ?thesis by (simp add: store32_def)
qed

section \<open>The stack as a sequence\<close>

text \<open>
  The array holds the frames \<open>fs\<close>, the top one first; \<open>stack_rep\<close> adds the counters of the region.
\<close>

definition stack_at :: "nat \<Rightarrow> phys \<Rightarrow> paddr_t list \<Rightarrow> bool" where
  "stack_at cap s fs \<longleftrightarrow> array_ok cap (free_frames_stack s) \<and> length fs \<le> cap
     \<and> free_frames_stack_top s = of_nat (length fs) - 1
     \<and> (\<forall>i < length fs. load32 (ph_mem s) (slot (free_frames_stack s) i) = rev fs ! i)"

definition stack_rep :: "nat \<Rightarrow> phys \<Rightarrow> paddr_t list \<Rightarrow> bool" where
  "stack_rep cap s fs \<longleftrightarrow> stack_at cap s fs
     \<and> (\<exists>r. memory_region s = Some r \<and> r < length (memory_regions s)
          \<and> no_frames_available (memory_regions s ! r) = of_nat (length fs))"

text \<open>The counters of the region in use, and what an operation leaves alone.\<close>

definition in_use :: "phys \<Rightarrow> u32" where
  "in_use s = (case memory_region s of None \<Rightarrow> 0 | Some r \<Rightarrow> no_frames_in_use (memory_regions s ! r))"

lemma in_use_upd [simp]:
  "in_use (s\<lparr>free_frames_stack_top := t\<rparr>) = in_use s" "in_use (s\<lparr>ph_mem := m\<rparr>) = in_use s" "in_use (s\<lparr>ph_console := c\<rparr>) = in_use s"
  by (auto simp: in_use_def split: option.split)

definition stack_frame :: "nat \<Rightarrow> phys \<Rightarrow> phys \<Rightarrow> bool" where
  "stack_frame cap s s' \<longleftrightarrow> free_frames_stack s' = free_frames_stack s \<and> memory_region s' = memory_region s
     \<and> metadata_region_info s' = metadata_region_info s
     \<and> (\<forall>x. \<not> in_array cap (free_frames_stack s) x \<longrightarrow> ph_mem s' x = ph_mem s x)"

lemma stack_frame_refl [simp]: "stack_frame cap s s"
  by (simp add: stack_frame_def)

lemma stack_frame_trans: "stack_frame cap s s1 \<Longrightarrow> stack_frame cap s1 s2 \<Longrightarrow> stack_frame cap s s2"
  by (simp add: stack_frame_def)

lemma stack_cap: "stack_at cap s fs \<Longrightarrow> length fs < 2 ^ 30"
  by (auto simp: stack_at_def array_ok_def)

lemma stack_top_sint: "stack_at cap s fs \<Longrightarrow> (0 \<le> sint (free_frames_stack_top s)) = (fs \<noteq> [])"
proof -
  assume st: "stack_at cap s fs"
  have l: "length fs < 2 ^ 30" by (rule stack_cap [OF st])
  show ?thesis
  proof (cases fs)
    case (Cons f gs)
    then have "free_frames_stack_top s = of_nat (length gs)" using st by (simp add: stack_at_def)
    moreover have "sint (of_nat (length gs) :: u32) = int (length gs)"
      using l Cons by (simp add: sint_uint unsigned_of_nat take_bit_nat_eq_self signed_take_bit_int_eq_self)
    ultimately show ?thesis using Cons by simp
  qed (use st in \<open>simp add: stack_at_def\<close>)
qed

text \<open>Storing above the top is a push.\<close>

lemma stack_at_push:
  fixes f :: paddr_t
  assumes st: "stack_at cap s fs" and room: "length fs < cap"
  defines "t \<equiv> free_frames_stack_top s + 1"
  defines "s' \<equiv> s\<lparr>free_frames_stack_top := t, ph_mem := store32 (ph_mem s) (free_frames_stack s + 4 * t) f\<rparr>"
  shows "stack_at cap s' (f # fs)" "stack_frame cap s s'"
proof -
  have t: "t = of_nat (length fs)" using st by (simp add: t_def stack_at_def)
  then have a: "free_frames_stack s + 4 * t = slot (free_frames_stack s) (length fs)" by (simp add: slot_def)
  have ok: "array_ok cap (free_frames_stack s)" using st by (simp add: stack_at_def)
  show "stack_frame cap s s'" using slot_store_outside [OF ok room] by (simp add: stack_frame_def s'_def a)
  have "load32 (store32 (ph_mem s) (slot (free_frames_stack s) (length fs)) f) (slot (free_frames_stack s) i) = rev (f # fs) ! i"
    if "i < length (f # fs)" for i
    using that st room slot_load_store [OF ok room, of i] by (auto simp: stack_at_def nth_append less_Suc_eq)
  then show "stack_at cap s' (f # fs)" unfolding stack_at_def s'_def a using ok room by (simp add: t)
qed

lemma count_frame_ok:
  assumes "memory_region s = Some r" "r < length (memory_regions s)"
  shows "\<exists>s'. count_frame d s = Inr s' \<and> stack_frame cap s s' \<and> ph_mem s' = ph_mem s
    \<and> free_frames_stack_top s' = free_frames_stack_top s \<and> length (memory_regions s') = length (memory_regions s)
    \<and> no_frames_available (memory_regions s' ! r) = no_frames_available (memory_regions s ! r) - d \<and> in_use s' = in_use s + d"
  using assms by (simp add: count_frame_def stack_frame_def in_use_def)

lemma alloc_ok:
  assumes rep: "stack_rep cap s (f # fs)"
  shows "\<exists>s'. stack_alloc_frame s = Inr (f, s') \<and> stack_rep cap s' fs \<and> stack_frame cap s s' \<and> in_use s' = in_use s + 1"
proof -
  from rep obtain r where st: "stack_at cap s (f # fs)" and r: "memory_region s = Some r" "r < length (memory_regions s)"
    and av: "no_frames_available (memory_regions s ! r) = of_nat (Suc (length fs))" by (auto simp: stack_rep_def)
  have t: "free_frames_stack_top s = of_nat (length fs)" using st by (simp add: stack_at_def)
  have l: "load32 (ph_mem s) (free_frames_stack s + 4 * free_frames_stack_top s) = f"
    using st t by (auto simp: stack_at_def slot_def nth_append)
  let ?s = "s\<lparr>free_frames_stack_top := free_frames_stack_top s - 1\<rparr>"
  have r': "memory_region ?s = Some r" "r < length (memory_regions ?s)" using r by simp_all
  obtain s' where s': "count_frame 1 ?s = Inr s'" "stack_frame cap ?s s'" "ph_mem s' = ph_mem ?s"
    "free_frames_stack_top s' = free_frames_stack_top ?s" "length (memory_regions s') = length (memory_regions ?s)"
    "no_frames_available (memory_regions s' ! r) = no_frames_available (memory_regions ?s ! r) - 1" "in_use s' = in_use ?s + 1"
    using count_frame_ok [OF r', of 1 cap] by blast
  have "stack_at cap s' fs"
    using st s'(2-4) t by (auto simp: stack_at_def stack_frame_def nth_append)
  then have "stack_rep cap s' fs" using s' r av by (auto simp: stack_rep_def stack_frame_def)
  then show ?thesis
    using stack_top_sint [OF st] s' l by (auto simp: stack_alloc_frame_def stack_frame_def)
qed

lemma alloc_empty:
  assumes rep: "stack_rep cap s []"
  shows "\<exists>s'. stack_alloc_frame s = Inr (0, s') \<and> stack_rep cap s' [] \<and> stack_frame cap s s' \<and> in_use s' = in_use s"
proof -
  note k = kprintf_plain [of "''Stack allocator: No free frames left!''" "[]" "ph_console s"]
  have st: "stack_at cap s []" using rep by (simp add: stack_rep_def)
  show ?thesis
    using stack_top_sint [OF st] k rep by (simp add: stack_alloc_frame_def stack_rep_def stack_at_def stack_frame_def)
qed

lemma free_ok:
  assumes rep: "stack_rep cap s fs" and room: "length fs < cap"
  shows "\<exists>s'. stack_free_frame f s = Inr s' \<and> stack_rep cap s' (f # fs) \<and> stack_frame cap s s' \<and> in_use s' = in_use s - 1"
proof -
  from rep obtain r where st: "stack_at cap s fs" and r: "memory_region s = Some r" "r < length (memory_regions s)"
    and av: "no_frames_available (memory_regions s ! r) = of_nat (length fs)" by (auto simp: stack_rep_def)
  define s1 where "s1 = s\<lparr>free_frames_stack_top := free_frames_stack_top s + 1,
    ph_mem := store32 (ph_mem s) (free_frames_stack s + 4 * (free_frames_stack_top s + 1)) f\<rparr>"
  note push = stack_at_push [OF st room, of f, folded s1_def]
  have r': "memory_region s1 = Some r" "r < length (memory_regions s1)" using r by (simp_all add: s1_def)
  obtain s' where s': "count_frame (-1) s1 = Inr s'" "stack_frame cap s1 s'" "ph_mem s' = ph_mem s1"
    "free_frames_stack_top s' = free_frames_stack_top s1" "length (memory_regions s') = length (memory_regions s1)"
    "no_frames_available (memory_regions s' ! r) = no_frames_available (memory_regions s1 ! r) - (-1)" "in_use s' = in_use s1 + (-1)"
    using count_frame_ok [OF r', of "-1" cap] by blast
  have "stack_at cap s' (f # fs)" using push(1) s'(2-4) by (simp add: stack_at_def stack_frame_def)
  then have "stack_rep cap s' (f # fs)" using s' r' av by (auto simp: stack_rep_def stack_frame_def s1_def)
  moreover have "stack_frame cap s s'" by (rule stack_frame_trans [OF push(2) s'(2)])
  moreover have "stack_free_frame f s = Inr s'" using s'(1) by (simp add: stack_free_frame_def s1_def)
  moreover have "in_use s' = in_use s - 1" using s'(7) by (simp add: s1_def)
  ultimately show ?thesis by blast
qed

text \<open>The stack is a page source, as the boot frames, the pages of the heap and the objects of a page are.\<close>

interpretation frame_stack: frame_source stack_alloc_frame "\<lambda>s fs. distinct fs \<and> stack_rep cap s fs" for cap
proof
  fix s f fs
  assume "distinct (f # fs) \<and> stack_rep cap s (f # fs)"
  then show "\<exists>s'. stack_alloc_frame s = Inr (f, s') \<and> distinct fs \<and> stack_rep cap s' fs"
    using alloc_ok [of cap s f fs] by auto
qed simp

section \<open>Sequences of requests\<close>

text \<open>
  A client's requests, run on the allocator, collecting the frames it hands out; and on a plain sequence.
\<close>

datatype frame_request = Alloc_Frame | Free_Frame paddr_t

fun frame_ops :: "frame_request list \<Rightarrow> phys \<Rightarrow> (paddr_t list \<times> phys) outcome" where
  "frame_ops [] s = Inr ([], s)"
| "frame_ops (Alloc_Frame # ops) s =
     bindE (stack_alloc_frame s) (\<lambda>(f, s). bindE (frame_ops ops s) (\<lambda>(rs, s). Inr (f # rs, s)))"
| "frame_ops (Free_Frame f # ops) s = bindE (stack_free_frame f s) (frame_ops ops)"

fun a_frame_ops :: "frame_request list \<Rightarrow> paddr_t list \<Rightarrow> paddr_t list \<times> paddr_t list" where
  "a_frame_ops [] fs = ([], fs)"
| "a_frame_ops (Alloc_Frame # ops) [] = (let (rs, fs) = a_frame_ops ops [] in (0 # rs, fs))"
| "a_frame_ops (Alloc_Frame # ops) (f # fs) = (let (rs, fs) = a_frame_ops ops fs in (f # rs, fs))"
| "a_frame_ops (Free_Frame f # ops) fs = a_frame_ops ops (f # fs)"

text \<open>No request frees a frame into a full array.\<close>

fun frees_fit :: "nat \<Rightarrow> frame_request list \<Rightarrow> nat \<Rightarrow> bool" where
  "frees_fit cap [] n \<longleftrightarrow> True"
| "frees_fit cap (Alloc_Frame # ops) n \<longleftrightarrow> frees_fit cap ops (n - 1)"
| "frees_fit cap (Free_Frame f # ops) n \<longleftrightarrow> n < cap \<and> frees_fit cap ops (n + 1)"

text \<open>Frames in use and on the stack add up to the same number, whatever happens while the stack is not empty.\<close>

lemma frame_ops_ok:
  assumes "stack_rep cap s fs" "frees_fit cap ops (length fs)"
  shows "\<exists>s'. frame_ops ops s = Inr (fst (a_frame_ops ops fs), s') \<and> stack_rep cap s' (snd (a_frame_ops ops fs))
    \<and> stack_frame cap s s' \<and> in_use s' + of_nat (length (snd (a_frame_ops ops fs))) = in_use s + of_nat (length fs)"
  using assms
proof (induction ops fs arbitrary: s rule: a_frame_ops.induct)
  case (2 ops)
  obtain s1 where s1: "stack_alloc_frame s = Inr (0, s1)" "stack_rep cap s1 []" "stack_frame cap s s1" "in_use s1 = in_use s"
    using alloc_empty [OF "2.prems"(1)] by blast
  then show ?case using "2.IH" [of s1] "2.prems"(2) by (auto simp: split_beta intro: stack_frame_trans)
next
  case (3 ops f fs)
  obtain s1 where s1: "stack_alloc_frame s = Inr (f, s1)" "stack_rep cap s1 fs" "stack_frame cap s s1" "in_use s1 = in_use s + 1"
    using alloc_ok [OF "3.prems"(1)] by blast
  then show ?case using "3.IH" [of s1] "3.prems"(2) by (auto simp: split_beta algebra_simps intro: stack_frame_trans)
next
  case (4 f ops fs)
  obtain s1 where s1: "stack_free_frame f s = Inr s1" "stack_rep cap s1 (f # fs)" "stack_frame cap s s1" "in_use s1 = in_use s - 1"
    using free_ok [OF "4.prems"(1), of f] "4.prems"(2) by auto
  then show ?case using "4.IH" [of s1] "4.prems"(2) by (auto simp: algebra_simps intro: stack_frame_trans)
qed auto

section \<open>Scanning the memory map\<close>

definition pages_from :: "paddr_t \<Rightarrow> paddr_t \<Rightarrow> paddr_t list" where
  "pages_from lo hi = map (\<lambda>i. lo + of_nat (4096 * i)) [0..<pages_up (unat hi - unat lo)]"

lemma pages_from_empty: "\<not> lo < hi \<Longrightarrow> pages_from lo hi = []"
  by (simp add: pages_from_def word_less_nat_alt)

lemma pages_from_step:
  assumes "lo < hi" "unat hi \<le> 2 ^ 32 - 4096"
  shows "pages_from lo hi = lo # pages_from (lo + PAGE_SIZE) hi"
proof -
  have u: "unat (lo + PAGE_SIZE) = unat lo + 4096"
    using assms by (simp add: PAGE_SIZE_def word_less_nat_alt unat_word_ariths)
  have "pages_up (unat hi - unat lo) = Suc (pages_up (unat hi - unat (lo + PAGE_SIZE)))"
    using pages_up_step [of "unat hi - unat lo"] assms(1) u by (simp add: word_less_nat_alt)
  moreover have "[0..<Suc n] = 0 # map Suc [0..<n]" for n by (metis map_Suc_upt upt_conv_Cons zero_less_Suc)
  ultimately show ?thesis
    by (simp add: pages_from_def PAGE_SIZE_def comp_def algebra_simps del: upt_Suc)
qed

text \<open>The loop pushes the pages in their order until it has enough of them.\<close>

lemma push_frames_ok:
  fixes addr :: paddr_t
  assumes "stack_at cap s (rev gs)" "unat hi \<le> 2 ^ 32 - 4096" "unat req \<le> cap" "length gs \<le> unat req"
  defines "gs' \<equiv> take (unat req) (gs @ pages_from addr hi)"
  shows "\<exists>m t. push_frames addr hi req (of_nat (length gs)) s = (of_nat (length gs'), s\<lparr>ph_mem := m, free_frames_stack_top := t\<rparr>)
    \<and> stack_at cap (s\<lparr>ph_mem := m, free_frames_stack_top := t\<rparr>) (rev gs')
    \<and> stack_frame cap s (s\<lparr>ph_mem := m, free_frames_stack_top := t\<rparr>)"
  using assms(1,4) unfolding gs'_def
proof (induction "unat req - length gs" arbitrary: addr gs s)
  case 0
  then have e: "length gs = unat req" by simp
  then have "\<not> (of_nat (length gs) :: u32) < req" by simp
  then have "push_frames addr hi req (of_nat (length gs)) s = (of_nat (length gs), s)" by (simp add: push_frames.simps)
  then show ?case using 0 e by (intro exI [of _ "ph_mem s"] exI [of _ "free_frames_stack_top s"]) simp
next
  case (Suc n)
  then have lt: "(of_nat (length gs) :: u32) < req"
    using unat_u32_lt [of req] by (simp add: word_less_nat_alt unat_of_nat_u32)
  show ?case
  proof (cases "addr < hi")
    case True
    let ?t = "free_frames_stack_top s + 1"
    let ?s = "s\<lparr>free_frames_stack_top := ?t, ph_mem := store32 (ph_mem s) (free_frames_stack s + 4 * ?t) addr\<rparr>"
    have room: "length (rev gs) < cap" using Suc.hyps(2) assms(3) by simp
    have at: "stack_at cap ?s (rev (gs @ [addr]))" using stack_at_push(1) [OF Suc.prems(1) room, of addr] by simp
    have le: "length (gs @ [addr]) \<le> unat req" "n = unat req - length (gs @ [addr])" using Suc.hyps(2) by simp_all
    from Suc.hyps(1) [OF le(2) at le(1), of "addr + PAGE_SIZE"]
    obtain m t where mt: "push_frames (addr + PAGE_SIZE) hi req (of_nat (length (gs @ [addr]))) ?s
        = (of_nat (length (take (unat req) ((gs @ [addr]) @ pages_from (addr + PAGE_SIZE) hi))), ?s\<lparr>ph_mem := m, free_frames_stack_top := t\<rparr>)"
      "stack_at cap (?s\<lparr>ph_mem := m, free_frames_stack_top := t\<rparr>) (rev (take (unat req) ((gs @ [addr]) @ pages_from (addr + PAGE_SIZE) hi)))"
      "stack_frame cap ?s (?s\<lparr>ph_mem := m, free_frames_stack_top := t\<rparr>)" by blast
    have pf: "(gs @ [addr]) @ pages_from (addr + PAGE_SIZE) hi = gs @ pages_from addr hi"
      using pages_from_step [OF True assms(2)] by simp
    have "push_frames addr hi req (of_nat (length gs)) s = push_frames (addr + PAGE_SIZE) hi req (of_nat (length (gs @ [addr]))) ?s"
      using True lt by (subst push_frames.simps) (simp add: Let_def add.commute)
    moreover have "stack_frame cap s (?s\<lparr>ph_mem := m, free_frames_stack_top := t\<rparr>)"
      by (rule stack_frame_trans [OF stack_at_push(2) [OF Suc.prems(1) room, of addr] mt(3)])
    ultimately show ?thesis using mt(1,2) unfolding pf by (intro exI [of _ m] exI [of _ t]) simp
  next
    case False
    then have "push_frames addr hi req (of_nat (length gs)) s = (of_nat (length gs), s)" by (simp add: push_frames.simps)
    then show ?thesis using Suc.prems False
      by (intro exI [of _ "ph_mem s"] exI [of _ "free_frames_stack_top s"]) (simp add: pages_from_empty)
  qed
qed

text \<open>
  The memory map that a scan meets from address \<open>a\<close> to the end \<open>b\<close>: the entries at the addresses the steps lead to.
  \<open>reads_map\<close> says that nothing but the bytes of the map decides what \<open>entry_size\<close> returns.
\<close>

fun map_at :: "(mem \<Rightarrow> paddr_t \<Rightarrow> u32) \<Rightarrow> mem \<Rightarrow> nat \<Rightarrow> nat \<Rightarrow> multiboot_memory_map_t list \<Rightarrow> bool" where
  "map_at entry_size m a b [] \<longleftrightarrow> b \<le> a"
| "map_at entry_size m a b (e # es) \<longleftrightarrow> a < b \<and> a + 24 \<le> b \<and> read_memmap m (of_nat a) = e
     \<and> a + unat (entry_size m (of_nat a)) + 4 < 2 ^ 32 \<and> map_at entry_size m (a + unat (entry_size m (of_nat a)) + 4) b es"

definition reads_map :: "(mem \<Rightarrow> paddr_t \<Rightarrow> u32) \<Rightarrow> nat \<Rightarrow> nat \<Rightarrow> bool" where
  "reads_map entry_size a b \<longleftrightarrow> (\<forall>m m' x. (\<forall>y. a \<le> unat y \<and> unat y < b \<longrightarrow> m y = m' y)
     \<longrightarrow> a \<le> unat x \<and> unat x + 24 \<le> b \<longrightarrow> entry_size m x = entry_size m' x)"

lemma read_memmap_cong:
  assumes "\<And>y. unat x \<le> unat y \<Longrightarrow> unat y < unat x + 24 \<Longrightarrow> m y = m' y" "unat x + 24 < 2 ^ 32"
  shows "read_memmap m x = read_memmap m' x"
proof -
  have l: "load32 m (x + of_nat k) = load32 m' (x + of_nat k)" if "k + 4 \<le> 24" for k
  proof (rule load32_cong)
    fix i :: nat assume "i < 4"
    then have "unat (x + of_nat (k + i)) = unat x + (k + i)" using that assms(2) by (intro unat_plus_of_nat) simp
    then show "m (x + of_nat k + of_nat i) = m' (x + of_nat k + of_nat i)"
      using assms(1) [of "x + of_nat (k + i)"] that \<open>i < 4\<close> by (simp add: add.assoc)
  qed
  show ?thesis
    using l [of 0] l [of 4] l [of 8] l [of 12] l [of 16] l [of 20]
    by (simp add: read_memmap_def load64_def add.assoc)
qed

lemma map_at_cong:
  assumes "map_at entry_size m a b es" "\<And>y. lo \<le> unat y \<Longrightarrow> unat y < b \<Longrightarrow> m' y = m y"
    and "lo \<le> a" "b < 2 ^ 32" "reads_map entry_size lo b"
  shows "map_at entry_size m' a b es"
  using assms(1,3)
proof (induction es arbitrary: a)
  case (Cons e es)
  have a: "unat (of_nat a :: u32) = a" using Cons.prems(1) assms(4) by (intro unat_of_nat_u32) simp
  have sz: "entry_size m' (of_nat a) = entry_size m (of_nat a)"
    using assms(2,5) Cons.prems a unfolding reads_map_def by (metis map_at.simps(2))
  have "read_memmap m' (of_nat a) = read_memmap m (of_nat a)"
    using Cons.prems assms(2,4) a by (intro read_memmap_cong) auto
  then show ?case using Cons.prems Cons.IH [of "a + unat (entry_size m (of_nat a)) + 4"] sz by simp
qed simp

text \<open>The frames that one entry of the map contributes.\<close>

definition entry_frames :: "paddr_t \<Rightarrow> paddr_t \<Rightarrow> multiboot_memory_map_t \<Rightarrow> paddr_t list" where
  "entry_frames mmap_addr region_start e =
     (if entry_skipped mmap_addr e then [] else pages_from (max region_start (entry_start e)) (entry_end e))"

definition entry_ok :: "multiboot_memory_map_t \<Rightarrow> bool" where
  "entry_ok e \<longleftrightarrow> entry_start e \<le> entry_end e \<and> unat (entry_end e) \<le> 2 ^ 32 - 4096"

text \<open>One turn of the scan.\<close>

lemma entry_frames_push:
  fixes rs mmap_addr :: paddr_t
  assumes ok: "entry_ok e" and st: "stack_at cap s (rev gs)" and req: "unat req \<le> cap" "length gs \<le> unat req"
  defines "gs' \<equiv> take (unat req) (gs @ entry_frames mmap_addr rs e)"
  shows "\<exists>m t. (if entry_skipped mmap_addr e \<or> \<not> (entry_start e \<le> rs \<or> rs < entry_end e) then (of_nat (length gs), s)
      else push_frames (if rs < entry_start e then entry_start e else rs) (entry_end e) req (of_nat (length gs)) s)
      = (of_nat (length gs'), s\<lparr>ph_mem := m, free_frames_stack_top := t\<rparr>)
    \<and> stack_at cap (s\<lparr>ph_mem := m, free_frames_stack_top := t\<rparr>) (rev gs')
    \<and> stack_frame cap s (s\<lparr>ph_mem := m, free_frames_stack_top := t\<rparr>)"
proof (cases "entry_skipped mmap_addr e")
  case True
  then show ?thesis using st req(2) unfolding gs'_def
    by (intro exI [of _ "ph_mem s"] exI [of _ "free_frames_stack_top s"]) (simp add: entry_frames_def)
next
  case False
  have hi: "unat (entry_end e) \<le> 2 ^ 32 - 4096" and se: "entry_start e \<le> entry_end e" using ok by (simp_all add: entry_ok_def)
  have c: "entry_start e \<le> rs \<or> rs < entry_end e" using se by (meson less_le_trans not_le)
  have mx: "(if rs < entry_start e then entry_start e else rs) = max rs (entry_start e)"
    by (auto simp: max_def not_le dest: less_imp_le)
  show ?thesis
    using push_frames_ok [OF st hi req, of "max rs (entry_start e)"] False c
    unfolding gs'_def mx by (simp add: entry_frames_def)
qed

lemma scan_regions_step:
  fixes curr fin :: paddr_t
  assumes "curr < fin" "got < req"
    and "(if entry_skipped mmap_addr (read_memmap (ph_mem s) curr)
          \<or> \<not> (entry_start (read_memmap (ph_mem s) curr) \<le> rs \<or> rs < entry_end (read_memmap (ph_mem s) curr)) then (got, s)
        else push_frames (if rs < entry_start (read_memmap (ph_mem s) curr) then entry_start (read_memmap (ph_mem s) curr) else rs)
          (entry_end (read_memmap (ph_mem s) curr)) req got s) = (got', s')"
  shows "scan_regions entry_size (Suc n) mmap_addr curr fin rs req got s
    = scan_regions entry_size n mmap_addr (next_entry entry_size (ph_mem s') curr) fin rs req got' s'"
  using assms by (auto simp: Let_def split: if_splits)

lemma scan_regions_ok:
  assumes "map_at entry_size (ph_mem s) a b es" "list_all entry_ok es" "reads_map entry_size lo b" "lo \<le> a" "b < 2 ^ 32"
    and "\<And>y. lo \<le> unat y \<Longrightarrow> unat y < b \<Longrightarrow> \<not> in_array cap (free_frames_stack s) y"
    and "stack_at cap s (rev gs)" "unat req \<le> cap" "length gs \<le> unat req" "length es < fuel" "a < 2 ^ 32"
  shows "\<exists>m t. scan_regions entry_size fuel mmap_addr (of_nat a) (of_nat b) rs req (of_nat (length gs)) s
      = Inr (of_nat (length (take (unat req) (gs @ concat (map (entry_frames mmap_addr rs) es)))), s\<lparr>ph_mem := m, free_frames_stack_top := t\<rparr>)
    \<and> stack_at cap (s\<lparr>ph_mem := m, free_frames_stack_top := t\<rparr>) (rev (take (unat req) (gs @ concat (map (entry_frames mmap_addr rs) es))))
    \<and> stack_frame cap s (s\<lparr>ph_mem := m, free_frames_stack_top := t\<rparr>)"
  using assms
proof (induction es arbitrary: a gs s fuel)
  case Nil
  from Nil.prems obtain n where f: "fuel = Suc n" by (cases fuel) auto
  have "\<not> (of_nat a :: u32) < of_nat b"
    using Nil.prems(1,5,11) by (simp add: word_less_nat_alt unat_of_nat_u32)
  then show ?case using Nil.prems f by (intro exI [of _ "ph_mem s"] exI [of _ "free_frames_stack_top s"]) simp
next
  case (Cons e es)
  from Cons.prems obtain n where f: "fuel = Suc n" "length es < n" by (cases fuel) auto
  have ab: "a < b" "a + 24 \<le> b" and e: "read_memmap (ph_mem s) (of_nat a) = e" using Cons.prems(1) by simp_all
  have lt: "(of_nat a :: u32) < of_nat b" using ab(1) Cons.prems(5) by (simp add: word_less_nat_alt unat_of_nat_u32)
  have ok: "entry_ok e" using Cons.prems(2) by simp
  show ?case
  proof (cases "length gs = unat req")
    case True
    then have "\<not> (of_nat (length gs) :: u32) < req" by simp
    then show ?thesis using Cons.prems True f by (intro exI [of _ "ph_mem s"] exI [of _ "free_frames_stack_top s"]) simp
  next
    case False
    then have gr: "(of_nat (length gs) :: u32) < req"
      using Cons.prems(9) unat_u32_lt [of req] by (simp add: word_less_nat_alt unat_of_nat_u32)
    define gs1 where "gs1 = take (unat req) (gs @ entry_frames mmap_addr rs e)"
    obtain m1 t1 where step: "scan_regions entry_size (Suc n) mmap_addr (of_nat a) (of_nat b) rs req (of_nat (length gs)) s
        = scan_regions entry_size n mmap_addr (next_entry entry_size m1 (of_nat a)) (of_nat b) rs req (of_nat (length gs1)) (s\<lparr>ph_mem := m1, free_frames_stack_top := t1\<rparr>)"
      and st1: "stack_at cap (s\<lparr>ph_mem := m1, free_frames_stack_top := t1\<rparr>) (rev gs1)"
      and fr1: "stack_frame cap s (s\<lparr>ph_mem := m1, free_frames_stack_top := t1\<rparr>)"
      using entry_frames_push [OF ok Cons.prems(7-9), of mmap_addr rs, folded gs1_def]
        scan_regions_step [OF lt gr, of mmap_addr s rs, unfolded e] by fastforce
    let ?s1 = "s\<lparr>ph_mem := m1, free_frames_stack_top := t1\<rparr>"
    have same: "m1 y = ph_mem s y" if "lo \<le> unat y" "unat y < b" for y
      using fr1 Cons.prems(6) [OF that] by (simp add: stack_frame_def)
    have at1: "map_at entry_size m1 a b (e # es)"
      by (rule map_at_cong [OF Cons.prems(1) same Cons.prems(4,5,3)])
    let ?a1 = "a + unat (entry_size m1 (of_nat a)) + 4"
    have at2: "map_at entry_size (ph_mem ?s1) ?a1 b es" and a1: "?a1 < 2 ^ 32" using at1 by simp_all
    have nx: "next_entry entry_size m1 (of_nat a) = of_nat ?a1" by (simp add: add.assoc)
    have tk: "take (unat req) (gs1 @ concat (map (entry_frames mmap_addr rs) es))
        = take (unat req) (gs @ concat (map (entry_frames mmap_addr rs) (e # es)))"
      by (simp add: gs1_def min_def)
    have "\<exists>m t. scan_regions entry_size n mmap_addr (of_nat ?a1) (of_nat b) rs req (of_nat (length gs1)) ?s1
        = Inr (of_nat (length (take (unat req) (gs1 @ concat (map (entry_frames mmap_addr rs) es)))), ?s1\<lparr>ph_mem := m, free_frames_stack_top := t\<rparr>)
      \<and> stack_at cap (?s1\<lparr>ph_mem := m, free_frames_stack_top := t\<rparr>) (rev (take (unat req) (gs1 @ concat (map (entry_frames mmap_addr rs) es))))
      \<and> stack_frame cap ?s1 (?s1\<lparr>ph_mem := m, free_frames_stack_top := t\<rparr>)"
      by (rule Cons.IH [OF at2 _ Cons.prems(3) _ Cons.prems(5) _ st1 Cons.prems(8) _ f(2) a1])
        (use Cons.prems(2,4,6) in \<open>simp_all add: gs1_def\<close>)
    then show ?thesis
      unfolding f(1) step nx tk using stack_frame_trans [OF fr1] by auto
  qed
qed

section \<open>Initialisation\<close>

lemma frames_required_pos: "0 < unat (frames_required r)"
  by (simp add: frames_required_def Let_def unat_gt_0)

text \<open>The number is that of the frames an array of addresses would need, not that of the frames of the region.\<close>

lemma frames_required_eq: "unat (frames_required r) = max 1 (unat (pr_size r) div 4096 * 4 div 4096)"
proof -
  have l: "unat (pr_size r) div 4096 * 4 < 4294967296" using unat_u32_lt [of "pr_size r"] by linarith
  have "unat (pr_size r div PAGE_SIZE * 4) = unat (pr_size r) div 4096 * 4"
    using l by (simp add: PAGE_SIZE_def unat_word_ariths unat_div)
  then have u: "unat (pr_size r div PAGE_SIZE * 4 div PAGE_SIZE) = unat (pr_size r) div 4096 * 4 div 4096"
    by (simp add: PAGE_SIZE_def unat_div)
  show ?thesis
  proof (cases "pr_size r div PAGE_SIZE * 4 div PAGE_SIZE = 0")
    case True
    then have "unat (pr_size r) div 4096 * 4 div 4096 = 0" using u by simp
    then show ?thesis using True by (simp add: frames_required_def)
  next
    case False
    then have "0 < unat (pr_size r) div 4096 * 4 div 4096"
      unfolding u [symmetric] by (simp only: unat_gt_0 not_False_eq_True)
    then show ?thesis using False u by (simp add: frames_required_def)
  qed
qed

text \<open>
  What the stack allocator is given: a memory map at \<open>mmap_addr\<close> with the entries \<open>es\<close>, an empty stack, and room for
  its array in the metadata region, apart from the map.
\<close>

definition memory_map :: "(mem \<Rightarrow> paddr_t \<Rightarrow> u32) \<Rightarrow> nat \<Rightarrow> u32 \<Rightarrow> paddr_t \<Rightarrow> mem \<Rightarrow> multiboot_memory_map_t list \<Rightarrow> bool" where
  "memory_map entry_size fuel mmap_length mmap_addr m es \<longleftrightarrow>
     map_at entry_size m (unat mmap_addr) (unat mmap_addr + unat mmap_length) es \<and> list_all entry_ok es \<and> length es < fuel
     \<and> unat mmap_addr + unat mmap_length < 2 ^ 32 \<and> reads_map entry_size (unat mmap_addr) (unat mmap_addr + unat mmap_length)"

definition stack_room :: "u32 \<Rightarrow> paddr_t \<Rightarrow> nat \<Rightarrow> metadata_region_info_t \<Rightarrow> bool" where
  "stack_room mmap_length mmap_addr n md \<longleftrightarrow> md_current_offset md \<noteq> 0 \<and> aligned4 (md_current_offset md)
     \<and> unat (md_current_offset md) + 4 * n \<le> unat (md_end md)
     \<and> (unat mmap_addr + unat mmap_length \<le> unat (md_current_offset md) \<or> unat (md_current_offset md) + 4 * n \<le> unat mmap_addr)"

abbreviation map_frames :: "paddr_t \<Rightarrow> paddr_t \<Rightarrow> multiboot_memory_map_t list \<Rightarrow> paddr_t list" where
  "map_frames mmap_addr region_start es \<equiv> concat (map (entry_frames mmap_addr region_start) es)"

lemma reserve_ok:
  assumes "unat (md_current_offset (metadata_region_info s)) + unat sz \<le> unat (md_end (metadata_region_info s))"
  shows "reserve_metadata_space sz s = (md_current_offset (metadata_region_info s), s\<lparr>metadata_region_info :=
    (metadata_region_info s)\<lparr>md_current_offset := md_current_offset (metadata_region_info s) + sz\<rparr>\<rparr>)"
proof -
  have "unat (md_current_offset (metadata_region_info s) + sz) = unat (md_current_offset (metadata_region_info s)) + unat sz"
    using assms unat_u32_lt [of "md_end (metadata_region_info s)"] by (intro unat_add_no_wrap) simp
  then show ?thesis using assms by (simp add: reserve_metadata_space_def word_less_nat_alt Let_def)
qed

lemma stack_alloc_init_ok:
  fixes es :: "multiboot_memory_map_t list"
  assumes mm: "memory_map entry_size fuel mmap_length mmap_addr (ph_mem s) es" and r: "r < length (memory_regions s)"
    and top: "free_frames_stack_top s = -1"
  defines "n \<equiv> unat (frames_required (memory_regions s ! r))"
    and "md \<equiv> metadata_region_info s" and "fs \<equiv> map_frames mmap_addr (pr_start (memory_regions s ! r)) es"
  assumes room: "stack_room mmap_length mmap_addr n md"
  shows "if length fs < n then stack_alloc_init entry_size fuel mmap_length mmap_addr r s = Inl (Panic ''Stack allocator: Insufficient memory!'')
    else \<exists>s'. stack_alloc_init entry_size fuel mmap_length mmap_addr r s = Inr s' \<and> stack_rep n s' (rev (take n fs)) \<and> in_use s' = 0
      \<and> free_frames_stack s' = md_current_offset md \<and> unat (md_current_offset (metadata_region_info s')) = unat (md_current_offset md) + 4 * n
      \<and> (\<forall>x. \<not> in_array n (md_current_offset md) x \<longrightarrow> ph_mem s' x = ph_mem s x)"
proof -
  let ?req = "frames_required (memory_regions s ! r)"
  have e: "unat md4 < 4294967296" for md4 :: u32 by (rule unat_u32_lt)
  have n4: "unat (?req * 4) = 4 * n"
    using room e [of "md_end md"] by (simp add: n_def stack_room_def unat_word_ariths)
  define s1 where "s1 = s\<lparr>memory_region := Some r, memory_regions := (memory_regions s)[r :=
      (memory_regions s ! r)\<lparr>no_frames_in_use := 0, no_frames_available := 0\<rparr>],
      metadata_region_info := md\<lparr>md_current_offset := md_current_offset md + ?req * 4\<rparr>, free_frames_stack := md_current_offset md\<rparr>"
  have rv: "reserve_metadata_space (?req * 4) (s\<lparr>memory_region := Some r, memory_regions := (memory_regions s)[r :=
      (memory_regions s ! r)\<lparr>no_frames_in_use := 0, no_frames_available := 0\<rparr>]\<rparr>)
    = (md_current_offset md, s\<lparr>memory_region := Some r, memory_regions := (memory_regions s)[r :=
      (memory_regions s ! r)\<lparr>no_frames_in_use := 0, no_frames_available := 0\<rparr>],
      metadata_region_info := md\<lparr>md_current_offset := md_current_offset md + ?req * 4\<rparr>\<rparr>)"
    by (subst reserve_ok) (use room n4 in \<open>simp_all add: stack_room_def md_def\<close>)
  have at: "stack_at n s1 (rev [])"
    using room top e [of "md_end md"] by (simp add: stack_at_def s1_def array_ok_def stack_room_def)
  have out: "\<not> in_array n (free_frames_stack s1) y" if "unat mmap_addr \<le> unat y" "unat y < unat mmap_addr + unat mmap_length" for y
    using that room by (auto simp: in_array_def s1_def stack_room_def)
  obtain m t where scan: "scan_regions entry_size fuel mmap_addr mmap_addr (mmap_addr + mmap_length) (pr_start (memory_regions s ! r)) ?req 0 s1
      = Inr (of_nat (length (take n fs)), s1\<lparr>ph_mem := m, free_frames_stack_top := t\<rparr>)"
    and st: "stack_at n (s1\<lparr>ph_mem := m, free_frames_stack_top := t\<rparr>) (rev (take n fs))"
    and fr: "stack_frame n s1 (s1\<lparr>ph_mem := m, free_frames_stack_top := t\<rparr>)"
    using scan_regions_ok [of entry_size s1 "unat mmap_addr" "unat mmap_addr + unat mmap_length" es "unat mmap_addr" n "[]"
        ?req fuel mmap_addr "pr_start (memory_regions s ! r)"] mm at out
    unfolding fs_def memory_map_def by (auto simp: n_def s1_def)
  have init: "stack_alloc_init entry_size fuel mmap_length mmap_addr r s =
      (if of_nat (length (take n fs)) \<noteq> ?req then Inl (Panic ''Stack allocator: Insufficient memory!'')
       else Inr (s1\<lparr>ph_mem := m, free_frames_stack_top := t, memory_regions := (memory_regions s1)[r := (memory_regions s1 ! r)
         \<lparr>no_frames_available := of_nat (length (take n fs))\<rparr>]\<rparr>))"
    using scan room r unfolding stack_alloc_init_def Let_def rv by (simp add: s1_def [symmetric] stack_room_def)
  have ln: "of_nat (length (take n fs)) \<noteq> ?req \<longleftrightarrow> length fs < n"
  proof -
    have "unat (of_nat (length (take n fs)) :: u32) = length (take n fs)" using e [of ?req] by (intro unat_of_nat_u32) (simp add: n_def)
    then show ?thesis by (auto simp: word_unat_eq_iff n_def)
  qed
  show ?thesis
  proof (cases "length fs < n")
    case False
    then have l: "of_nat (length (take n fs)) = ?req" "length (take n fs) = n" using ln by auto
    let ?s = "s1\<lparr>ph_mem := m, free_frames_stack_top := t, memory_regions := (memory_regions s1)[r := (memory_regions s1 ! r)
         \<lparr>no_frames_available := of_nat (length (take n fs))\<rparr>]\<rparr>"
    have "stack_rep n ?s (rev (take n fs))" using st r by (simp add: stack_rep_def stack_at_def s1_def)
    moreover have "unat (md_current_offset md + ?req * 4) = unat (md_current_offset md) + 4 * n"
      using room n4 e [of "md_end md"] by (subst unat_add_no_wrap) (simp_all add: stack_room_def)
    moreover have "in_use ?s = 0" using r by (simp add: in_use_def s1_def)
    ultimately show ?thesis using False l fr init by (auto simp: stack_frame_def s1_def)
  qed (use init ln in simp)
qed

subsection \<open>Counting\<close>

text \<open>The frames of the map as \<^verbatim>\<open>init_free_memory\<close> counts them.\<close>

definition usable_frames :: "paddr_t \<Rightarrow> multiboot_memory_map_t list \<Rightarrow> u32" where
  "usable_frames mmap_addr es = sum_list (map (\<lambda>e. if entry_skipped mmap_addr e then 0 else ucast (map_len e div 4096)) es)"

lemma count_frames_ok:
  assumes "map_at entry_size m a b es" "length es < fuel" "a < 2 ^ 32" "b < 2 ^ 32"
  shows "count_frames entry_size fuel m mmap_addr (of_nat a) (of_nat b) n = Inr (n + usable_frames mmap_addr es)"
  using assms
proof (induction es arbitrary: a fuel n)
  case Nil
  then have "\<not> (of_nat a :: u32) < of_nat b" by (simp add: word_less_nat_alt unat_of_nat_u32)
  then show ?case using Nil.prems by (cases fuel) (simp_all add: usable_frames_def)
next
  case (Cons e es)
  from Cons.prems obtain k where f: "fuel = Suc k" "length es < k" by (cases fuel) auto
  have lt: "(of_nat a :: u32) < of_nat b" using Cons.prems by (simp add: word_less_nat_alt unat_of_nat_u32)
  let ?a = "a + unat (entry_size m (of_nat a)) + 4"
  have "count_frames entry_size fuel m mmap_addr (of_nat a) (of_nat b) n = count_frames entry_size k m mmap_addr (of_nat ?a) (of_nat b)
      (if entry_skipped mmap_addr e then n else n + ucast (map_len e div 4096))"
    using Cons.prems(1) lt by (simp add: f(1) Let_def add.assoc)
  also have "\<dots> = Inr ((if entry_skipped mmap_addr e then n else n + ucast (map_len e div 4096)) + usable_frames mmap_addr es)"
    using Cons.prems(1,4) f(2) by (intro Cons.IH) simp_all
  finally show ?case by (simp add: usable_frames_def add.assoc)
qed

text \<open>A line with one number in it.\<close>

lemma kprintf_number:
  assumes "CHR ''%'' \<notin> set pre" "CHR ''%'' \<notin> set post" "length pre + length post < 1000"
  shows "\<exists>n con'. kprintf (pre @ ''%d'' @ post) [VInt v] con = Inr (n, con')"
proof -
  let ?ts = "map Lit pre @ Dec v # map Lit post"
  have "toks_text (CHR '' '', 0) ?ts = pre @ dec_text v @ post"
    using map_Lit(4) [of "(CHR '' '', 0)" pre] map_Lit(4) [of "(CHR '' '', 0)" post "[]"] by simp
  moreover have "list_all tok_wf ?ts" using assms(1,2) by (auto simp: list_all_iff)
  moreover have "pre @ ''%d'' @ post = concat (map tok_fmt ?ts)" using map_Lit(1) [of pre] map_Lit(1) [of post] by simp
  moreover have "[VInt v] = concat (map tok_arg ?ts) @ []"
    unfolding map_append concat_append list.map concat.simps map_Lit(2) by simp
  moreover have "sum_list (map tok_count ?ts) = length pre + length post" using map_Lit(3) [of pre] map_Lit(3) [of post] by simp
  ultimately show ?thesis using kprintf_toks [of ?ts _ "[VInt v]" "[]" con] assms(3) dec_text_length [of v] by auto
qed

text \<open>Where the region of the kernel starts: the page after the kernel, as a physical address.\<close>

definition kernel_region_start :: "phys_links \<Rightarrow> paddr_t" where
  "kernel_region_start lk = (pl_kernel_end lk AND 0xFFFFF000) + PAGE_SIZE - pl_high_vma lk"

lemma init_free_memory_ok:
  assumes mm: "memory_map entry_size fuel mmap_length mmap_addr (ph_mem s) es" and up: "2 ^ 21 \<le> unat (upper_kb * 1024)"
  shows "\<exists>con. init_free_memory debug entry_size fuel lk mmap_length mmap_addr upper_kb s = Inr (s\<lparr>
    metadata_region_info := \<lparr>md_start = pl_metadata_vma lk, md_end = pl_metadata_vma lk + pl_metadata_size lk, md_current_offset = pl_metadata_vma lk\<rparr>,
    ph_console := con, total_frames_available := total_frames_available s + usable_frames mmap_addr es
      - ((pl_kernel_end lk - pl_kernel_start lk) div PAGE_SIZE + pl_metadata_size lk div PAGE_SIZE),
    memory_regions := (memory_regions s)[PHYS_MEM_REGION_KERNEL := (memory_regions s ! PHYS_MEM_REGION_KERNEL)
      \<lparr>pr_size := 0x200000, pr_start := kernel_region_start lk, pr_end := kernel_region_start lk + 0x200000\<rparr>]\<rparr>)"
proof -
  have cnt: "count_frames entry_size fuel (ph_mem s) mmap_addr mmap_addr (mmap_addr + mmap_length) n = Inr (n + usable_frames mmap_addr es)" for n
    using count_frames_ok [of entry_size "ph_mem s" "unat mmap_addr" "unat mmap_addr + unat mmap_length" es fuel mmap_addr n] mm
    by (simp add: memory_map_def)
  have p: "\<exists>k con'. kprintf (''Detected %d MB of free memory'' @ [CHR 0x0A]) [VInt v] con = Inr (k, con')"
    "\<exists>k con'. kprintf (''%d frames available'' @ [CHR 0x0A]) [VInt v] con = Inr (k, con')"
    "\<exists>k con'. kprintf (''The kernel occupies %d frames'' @ [CHR 0x0A]) [VInt v] con = Inr (k, con')" for v con
    using kprintf_number [of "''Detected ''" "'' MB of free memory'' @ [CHR 0x0A]" v con] kprintf_number [of "[]" "'' frames available'' @ [CHR 0x0A]" v con]
      kprintf_number [of "''The kernel occupies ''" "'' frames'' @ [CHR 0x0A]" v con] by simp_all
  have mn: "\<not> upper_kb * 1024 < DMA_REGION_MIN_SIZE + KERNEL_REGION_MIN_SIZE"
    using up by (simp add: DMA_REGION_MIN_SIZE_def KERNEL_REGION_MIN_SIZE_def word_less_nat_alt)
  obtain k1 con1 where p1: "kprintf (''Detected %d MB of free memory'' @ [CHR 0x0A]) [VInt (upper_kb div 1024)] (ph_console s) = Inr (k1, con1)"
    using p(1) by blast
  obtain k2 con2 where p2: "kprintf (''%d frames available'' @ [CHR 0x0A]) [VInt (total_frames_available s + usable_frames mmap_addr es
      - ((pl_kernel_end lk - pl_kernel_start lk) div PAGE_SIZE + pl_metadata_size lk div PAGE_SIZE))] con1 = Inr (k2, con2)"
    using p(2) by blast
  obtain k3 con3 where p3: "kprintf (''The kernel occupies %d frames'' @ [CHR 0x0A])
      [VInt ((pl_kernel_end lk - pl_kernel_start lk) div PAGE_SIZE + pl_metadata_size lk div PAGE_SIZE)] con2 = Inr (k3, con3)"
    using p(3) by blast
  show ?thesis
    using cnt p1 p2 p3 mn by (cases debug) (auto simp: init_free_memory_def Let_def kernel_region_start_def)
qed

section \<open>Properties\<close>

text \<open>A map of one entry, 16 MiB of memory from 1 MiB on, and the kernel's place in it.\<close>

definition sample_map_mem :: mem where
  "sample_map_mem = (\<lambda>_. 0)(0x1002 := 0x10, 0x100B := 1, 0x1010 := 1, 0x1014 := 20)"

definition sample_entry_size :: "mem \<Rightarrow> paddr_t \<Rightarrow> u32" where
  "sample_entry_size m a = load32 m (a + 20)"

definition sample_entry :: multiboot_memory_map_t where
  "sample_entry = \<lparr>map_addr = 0x100000, map_len = 0x1000000, map_type = 1, map_zero = 20\<rparr>"

definition sample_phys_links :: phys_links where
  "sample_phys_links = \<lparr>pl_metadata_vma = 0xC0200000, pl_metadata_size = 0x10000, pl_high_vma = 0xC0000000,
     pl_kernel_start = 0xC0100000, pl_kernel_end = 0xC0180000\<rparr>"

lemma sample_reads_map: "reads_map sample_entry_size 0x1000 0x1018"
  unfolding reads_map_def sample_entry_size_def
proof (intro allI impI)
  fix m m' :: mem and x :: u32
  assume m: "\<forall>y. 0x1000 \<le> unat y \<and> unat y < 0x1018 \<longrightarrow> m y = m' y" and x: "0x1000 \<le> unat x \<and> unat x + 24 \<le> 0x1018"
  show "load32 m (x + 20) = load32 m' (x + 20)"
  proof (rule load32_cong)
    fix i :: nat assume i: "i < 4"
    then have "unat (x + of_nat (20 + i)) = unat x + (20 + i)" using x by (intro unat_plus_of_nat) simp
    then show "m (x + 20 + of_nat i) = m' (x + 20 + of_nat i)" using m [rule_format, of "x + of_nat (20 + i)"] x i by (simp add: add.assoc)
  qed
qed

lemma sample_memory_map: "memory_map sample_entry_size 2 24 0x1000 sample_map_mem [sample_entry]"
proof -
  have "read_memmap sample_map_mem 0x1000 = sample_entry"
    by (simp add: read_memmap_def load64_def load32_def sample_map_mem_def sample_entry_def)
  moreover have "sample_entry_size sample_map_mem 0x1000 = 20"
    by (simp add: sample_entry_size_def load32_def sample_map_mem_def)
  moreover have "entry_ok sample_entry" by (simp add: entry_ok_def entry_start_def entry_end_def sample_entry_def)
  ultimately show ?thesis using sample_reads_map by (simp add: memory_map_def)
qed

text \<open>C25: the stack allocator hands out frames last in, first out. Every sequence of requests that never frees
  into a full array returns what the same sequence of pops and pushes on a plain list returns (0 when the list is
  empty), the array represents the resulting list, nothing but the array is written in memory, and the frames in
  use and on the stack add up to the same number as before.\<close>

theorem stack_ops_refine:
  assumes "stack_rep cap s fs" "frees_fit cap ops (length fs)"
  shows "\<exists>s'. frame_ops ops s = Inr (fst (a_frame_ops ops fs), s') \<and> stack_rep cap s' (snd (a_frame_ops ops fs))
    \<and> in_use s' + of_nat (length (snd (a_frame_ops ops fs))) = in_use s + of_nat (length fs)
    \<and> (\<forall>x. \<not> in_array cap (free_frames_stack s) x \<longrightarrow> ph_mem s' x = ph_mem s x)"
  using frame_ops_ok [OF assms] by (auto simp: stack_frame_def)

definition sample_stack :: phys where
  "sample_stack = (phys_start (store32 (\<lambda>_. 0) 0x2000 0x5000) blank_console)\<lparr>free_frames_stack := 0x2000, free_frames_stack_top := 0,
     memory_region := Some 2, memory_regions := [zero_region, zero_region, zero_region\<lparr>no_frames_available := 1\<rparr>]\<rparr>"

theorem stack_ops_refine_witness:
  "\<exists>s'. frame_ops [Alloc_Frame, Alloc_Frame, Free_Frame 0x7000, Free_Frame 0x6000, Alloc_Frame] sample_stack = Inr ([0x5000, 0, 0x6000], s')
    \<and> stack_rep 4 s' [0x7000]"
proof -
  have "stack_rep 4 sample_stack [0x5000]"
    by (auto simp: stack_rep_def stack_at_def sample_stack_def phys_start_def array_ok_def aligned4_def slot_def)
  from stack_ops_refine [OF this, of "[Alloc_Frame, Alloc_Frame, Free_Frame 0x7000, Free_Frame 0x6000, Alloc_Frame]"]
  show ?thesis by auto
qed

text \<open>C26: initialising the stack allocator over a memory map, with room for its array in the metadata region (without it
  there is another panic, \<^verbatim>\<open>No space left in metadata region!\<close>), either panics, exactly if the map has too few usable frames
  from the start of the region on, or leaves the required number of them on the stack, the last one on top, in an
  array cut off the metadata region, with no frame in use and no other memory changed.\<close>

theorem stack_alloc_init_establishes:
  assumes "memory_map entry_size fuel mmap_length mmap_addr (ph_mem s) es" "r < length (memory_regions s)"
    and "free_frames_stack_top s = -1"
    and "stack_room mmap_length mmap_addr (unat (frames_required (memory_regions s ! r))) (metadata_region_info s)"
  shows "case stack_alloc_init entry_size fuel mmap_length mmap_addr r s of
      Inl e \<Rightarrow> e = Panic ''Stack allocator: Insufficient memory!''
        \<and> length (map_frames mmap_addr (pr_start (memory_regions s ! r)) es) < unat (frames_required (memory_regions s ! r))
    | Inr s' \<Rightarrow> stack_rep (unat (frames_required (memory_regions s ! r))) s'
          (rev (take (unat (frames_required (memory_regions s ! r))) (map_frames mmap_addr (pr_start (memory_regions s ! r)) es)))
        \<and> unat (frames_required (memory_regions s ! r)) \<le> length (map_frames mmap_addr (pr_start (memory_regions s ! r)) es)
        \<and> in_use s' = 0 \<and> free_frames_stack s' = md_current_offset (metadata_region_info s)
        \<and> unat (md_current_offset (metadata_region_info s')) = unat (md_current_offset (metadata_region_info s)) + 4 * unat (frames_required (memory_regions s ! r))
        \<and> (\<forall>x. \<not> in_array (unat (frames_required (memory_regions s ! r))) (free_frames_stack s') x \<longrightarrow> ph_mem s' x = ph_mem s x)"
  using stack_alloc_init_ok [OF assms] by (auto split: if_splits)

definition sample_region :: phys where
  "sample_region = (phys_start sample_map_mem blank_console)\<lparr>
     metadata_region_info := \<lparr>md_start = 0x200000, md_end = 0x210000, md_current_offset = 0x200000\<rparr>,
     memory_regions := [\<lparr>pr_start = 0x181000, pr_end = 0x981000, no_frames_available = 0, no_frames_in_use = 0, pr_size = 0x800000\<rparr>]\<rparr>"

theorem stack_alloc_init_establishes_witness:
  "case stack_alloc_init sample_entry_size 2 24 0x1000 0 sample_region of
     Inl e \<Rightarrow> False | Inr s' \<Rightarrow> stack_rep 2 s' [0x182000, 0x181000] \<and> in_use s' = 0 \<and> free_frames_stack s' = 0x200000"
proof -
  have rq: "frames_required (memory_regions sample_region ! 0) = 2"
    by (simp add: sample_region_def phys_start_def frames_required_def PAGE_SIZE_def)
  have mp: "map_frames 0x1000 0x181000 [sample_entry] = pages_from 0x181000 0x1100000"
    by (simp add: entry_frames_def entry_skipped_def sample_entry_def MULTIBOOT_MEMORY_AVAILABLE_def entry_start_def entry_end_def max_def)
  also have "\<dots> = 0x181000 # 0x182000 # pages_from 0x183000 0x1100000"
    using pages_from_step [of "0x181000" "0x1100000"] pages_from_step [of "0x182000" "0x1100000"] by (simp add: PAGE_SIZE_def)
  finally have fs: "map_frames 0x1000 0x181000 [sample_entry] = 0x181000 # 0x182000 # pages_from 0x183000 0x1100000" .
  have "memory_map sample_entry_size 2 24 0x1000 (ph_mem sample_region) [sample_entry]"
    using sample_memory_map by (simp add: sample_region_def phys_start_def)
  from stack_alloc_init_establishes [OF this, of 0] fs rq show ?thesis
    by (simp add: sample_region_def phys_start_def stack_room_def aligned4_def split: sum.splits)
qed

text \<open>C27: the two initialisations composed, as the comment at the end of \<^verbatim>\<open>init_free_memory\<close> has them: the free frames of the
  map less those of the kernel are counted, and of the 2 MiB region of the kernel the stack allocator receives a single
  frame, the first usable one after the kernel: the number of frames is divided by the page size once more than it
  should be. The second request for a frame is refused.\<close>

theorem kernel_region_single_frame:
  assumes "memory_map entry_size fuel mmap_length mmap_addr m es" "2 ^ 21 \<le> unat (upper_kb * 1024)"
    and "stack_room mmap_length mmap_addr 1 \<lparr>md_start = pl_metadata_vma lk, md_end = pl_metadata_vma lk + pl_metadata_size lk,
      md_current_offset = pl_metadata_vma lk\<rparr>"
    and "map_frames mmap_addr (kernel_region_start lk) es = f # fs"
  shows "\<exists>s1 s2 s3 s4. init_free_memory debug entry_size fuel lk mmap_length mmap_addr upper_kb (phys_start m con) = Inr s1
    \<and> total_frames_available s1 = usable_frames mmap_addr es
        - ((pl_kernel_end lk - pl_kernel_start lk) div PAGE_SIZE + pl_metadata_size lk div PAGE_SIZE)
    \<and> pr_size (memory_regions s1 ! PHYS_MEM_REGION_KERNEL) = 2 * 1024 * 1024
    \<and> fa_init (stack_allocator entry_size fuel) mmap_length mmap_addr PHYS_MEM_REGION_KERNEL s1 = Inr s2
    \<and> fa_alloc (stack_allocator entry_size fuel) s2 = Inr (f, s3)
    \<and> fa_alloc (stack_allocator entry_size fuel) s3 = Inr (0, s4)"
proof -
  have mm: "memory_map entry_size fuel mmap_length mmap_addr (ph_mem (phys_start m con)) es" using assms(1) by (simp add: phys_start_def)
  from init_free_memory_ok [OF mm assms(2), of debug lk] obtain s1 where
    i: "init_free_memory debug entry_size fuel lk mmap_length mmap_addr upper_kb (phys_start m con) = Inr s1"
    and s1: "total_frames_available s1 = usable_frames mmap_addr es
        - ((pl_kernel_end lk - pl_kernel_start lk) div PAGE_SIZE + pl_metadata_size lk div PAGE_SIZE)"
      "memory_regions s1 = [zero_region, zero_region, zero_region\<lparr>pr_size := 0x200000, pr_start := kernel_region_start lk, pr_end := kernel_region_start lk + 0x200000\<rparr>]"
      "ph_mem s1 = m" "free_frames_stack_top s1 = -1" "metadata_region_info s1 = \<lparr>md_start = pl_metadata_vma lk,
        md_end = pl_metadata_vma lk + pl_metadata_size lk, md_current_offset = pl_metadata_vma lk\<rparr>"
    by (auto simp: phys_start_def NO_PHYS_MEM_REGION_def PHYS_MEM_REGION_KERNEL_def numeral_eq_Suc)
  have rq: "frames_required (memory_regions s1 ! PHYS_MEM_REGION_KERNEL) = 1"
    and ps: "pr_start (memory_regions s1 ! PHYS_MEM_REGION_KERNEL) = kernel_region_start lk"
    and sz: "pr_size (memory_regions s1 ! PHYS_MEM_REGION_KERNEL) = 2 * 1024 * 1024"
    by (simp_all add: s1 PHYS_MEM_REGION_KERNEL_def frames_required_def PAGE_SIZE_def)
  have mm1: "memory_map entry_size fuel mmap_length mmap_addr (ph_mem s1) es" using assms(1) s1(3) by simp
  have r1: "PHYS_MEM_REGION_KERNEL < length (memory_regions s1)" by (simp add: s1(2) PHYS_MEM_REGION_KERNEL_def)
  have "\<exists>s2. stack_alloc_init entry_size fuel mmap_length mmap_addr PHYS_MEM_REGION_KERNEL s1 = Inr s2 \<and> stack_rep 1 s2 [f]"
    using stack_alloc_init_ok [OF mm1 r1 s1(4), unfolded rq ps] assms(3,4) s1(5) by auto
  then obtain s2 s3 s4 where "stack_alloc_init entry_size fuel mmap_length mmap_addr PHYS_MEM_REGION_KERNEL s1 = Inr s2"
    "stack_alloc_frame s2 = Inr (f, s3)" "stack_alloc_frame s3 = Inr (0, s4)"
    using alloc_ok [of 1 _ f "[]"] alloc_empty [of 1] by metis
  then show ?thesis using i s1(1) sz by (auto simp: stack_allocator_def)
qed

theorem kernel_region_single_frame_witness:
  "\<exists>s1 s2 s3 s4. init_free_memory True sample_entry_size 2 sample_phys_links 24 0x1000 0x4000 (phys_start sample_map_mem blank_console) = Inr s1
    \<and> total_frames_available s1 = 4096 - (128 + 16)
    \<and> fa_init (stack_allocator sample_entry_size 2) 24 0x1000 PHYS_MEM_REGION_KERNEL s1 = Inr s2
    \<and> fa_alloc (stack_allocator sample_entry_size 2) s2 = Inr (0x181000, s3) \<and> fa_alloc (stack_allocator sample_entry_size 2) s3 = Inr (0, s4)"
proof -
  have "kernel_region_start sample_phys_links = 0x181000"
    by (simp add: kernel_region_start_def sample_phys_links_def PAGE_SIZE_def)
  moreover have "map_frames 0x1000 0x181000 [sample_entry] = 0x181000 # pages_from 0x182000 0x1100000"
    using pages_from_step [of "0x181000" "0x1100000"]
    by (simp add: entry_frames_def entry_skipped_def sample_entry_def MULTIBOOT_MEMORY_AVAILABLE_def entry_start_def entry_end_def max_def PAGE_SIZE_def)
  ultimately have "map_frames 0x1000 (kernel_region_start sample_phys_links) [sample_entry] = 0x181000 # pages_from 0x182000 0x1100000" by simp
  moreover have "stack_room 24 0x1000 1 \<lparr>md_start = pl_metadata_vma sample_phys_links, md_end = pl_metadata_vma sample_phys_links
      + pl_metadata_size sample_phys_links, md_current_offset = pl_metadata_vma sample_phys_links\<rparr>"
    by (simp add: stack_room_def sample_phys_links_def aligned4_def)
  moreover have "usable_frames 0x1000 [sample_entry] = 4096"
    by (simp add: usable_frames_def entry_skipped_def sample_entry_def MULTIBOOT_MEMORY_AVAILABLE_def entry_start_def entry_end_def)
  moreover have "(pl_kernel_end sample_phys_links - pl_kernel_start sample_phys_links) div PAGE_SIZE = 128"
    "pl_metadata_size sample_phys_links div PAGE_SIZE = 16" by (simp_all add: sample_phys_links_def PAGE_SIZE_def)
  ultimately show ?thesis
    using kernel_region_single_frame [where debug = True and con = blank_console and lk = sample_phys_links and upper_kb = "0x4000",
        OF sample_memory_map] by auto
qed

end
