(* ===== verification/Panic_Report.thy ===== *)
theory Panic_Report
  imports Console
begin

text \<open>
  What the kernel prints when it gives up: \<^verbatim>\<open>panic\<close> of \<^verbatim>\<open>kern/util.c\<close>, the architecture's part of it in
  \<^verbatim>\<open>arch/i686/panic.c\<close> and the walk over the stack frames in \<^verbatim>\<open>arch/i686/trace.asm\<close>, and the handler of a smashed
  stack in \<^verbatim>\<open>kern/crt.c\<close>. The other theories only record that the kernel stopped, as the fault \<open>Panic\<close>.
\<close>

section \<open>Definitions\<close>

definition MAX_STACK_TRACE_SIZE :: nat where "MAX_STACK_TRACE_SIZE = 32"

text \<open>The control registers the report shows, and the frame pointer from which the walk starts.\<close>

record trap_regs =
  tr_cr0 :: u32
  tr_cr2 :: u32
  tr_cr3 :: u32
  tr_cr4 :: u32
  tr_ebp :: u32

text \<open>
  A frame holds the frame pointer of the caller and, above it, the return address; the frame pointer of the
  outermost function is zero. The counter of the loop is the length of the array.
\<close>

fun arch_stack_walk :: "nat \<Rightarrow> u32 \<Rightarrow> mem \<Rightarrow> u32 list" where
  "arch_stack_walk 0 ebx m = []"
| "arch_stack_walk (Suc ecx) ebx m =
     (if ebx = 0 then [] else load32 m (ebx + 4) # arch_stack_walk ecx (load32 m ebx) m)"

fun print_callers :: "u32 list \<Rightarrow> nat \<Rightarrow> console \<Rightarrow> console outcome" where
  "print_callers saved_eips 0 con = Inr con"
| "print_callers saved_eips (Suc i) con =
     bindE (kprintf (''0x%08x'' @ [CHR 0x0A]) [VInt (saved_eips ! i)] con) (\<lambda>(_, con). print_callers saved_eips i con)"

definition stack_trace :: "u32 \<Rightarrow> mem \<Rightarrow> console \<Rightarrow> console outcome" where
  "stack_trace ebp m con =
     (let saved_eips = arch_stack_walk MAX_STACK_TRACE_SIZE ebp m
      in bindE (kprintf (''Stack trace:'' @ [CHR 0x0A]) [] con) (\<lambda>(_, con). print_callers saved_eips (length saved_eips) con))"

definition fmt_string :: string where
  "fmt_string = ''cr0: 0x%08x'' @ [CHR 0x0A] @ ''cr2: 0x%08x'' @ [CHR 0x0A] @ ''cr3: 0x%08x'' @ [CHR 0x0A] @ ''cr4: 0x%08x'' @ [CHR 0x0A]"

definition arch_panic_hook :: "trap_regs \<Rightarrow> mem \<Rightarrow> console \<Rightarrow> console outcome" where
  "arch_panic_hook r m con =
     bindE (kprintf fmt_string [VInt (tr_cr0 r), VInt (tr_cr2 r), VInt (tr_cr3 r), VInt (tr_cr4 r)] con) (\<lambda>(_, con).
       stack_trace (tr_ebp r) m con)"

text \<open>The console when \<^verbatim>\<open>panic\<close> halts.\<close>

definition panic :: "string \<Rightarrow> trap_regs \<Rightarrow> mem \<Rightarrow> console \<Rightarrow> console outcome" where
  "panic msg r m con =
     bindE (kprintf (''!!!PANIC!!!'' @ [CHR 0x0A] @ ''%s'' @ [CHR 0x0A]) [VStr (Some msg)] con) (\<lambda>(_, con). arch_panic_hook r m con)"

definition stack_chk_fail :: "trap_regs \<Rightarrow> mem \<Rightarrow> console \<Rightarrow> console outcome" where
  "stack_chk_fail = panic ''Kernel stack smashing detected!''"

section \<open>Text\<close>

text \<open>A number as the report prints it: eight hexadecimal digits.\<close>

definition hex8 :: "u32 \<Rightarrow> string" where
  "hex8 n = pad_left (CHR ''0'', 8) (hex_text n)"

lemma width_8: "tok_pad pad (HexPad (CHR ''0'') ''8'' n) = (CHR ''0'', 8)"
  by simp

lemma hex8_length: "length (hex8 n) = 8"
  using hex_text_length [of n] by (simp add: hex8_def pad_left_def)

lemma hex_text_chars: "CHR 0x00 \<notin> set (hex_text n)"
proof
  assume "CHR 0x00 \<in> set (hex_text n)"
  then obtain d where "d \<in> set (digits 16 (unat n))" "hexchars ! d = CHR 0x00" by (auto simp: hex_text_def)
  moreover from this have "hexchars ! d \<in> set hexchars" using digits_bound [of 16 d "unat n"] by (intro nth_mem) (simp add: hexchars_def)
  moreover have "CHR 0x00 \<notin> set hexchars" by (simp add: hexchars_def)
  ultimately show False by simp
qed

lemma hex8_chars: "CHR 0x00 \<notin> set (hex8 n)"
  using hex_text_chars by (auto simp: hex8_def pad_left_def)

lemma c_string_id: "CHR 0x00 \<notin> set s \<Longrightarrow> c_string s = s"
  by (induction s) (auto simp: c_string_def)

lemma c_string_append: "CHR 0x00 \<notin> set s \<Longrightarrow> c_string (s @ t) = s @ c_string t"
  by (induction s) (auto simp: c_string_def)

lemma write_string_append:
  assumes "CHR 0x00 \<notin> set a"
  shows "console_write_string b (console_write_string a s) = console_write_string (a @ b) s"
proof -
  have "color_attrib (fold (console_put attr) cs s) = color_attrib s" for attr cs
    by (induction cs arbitrary: s) (simp_all add: console_put_color)
  then show ?thesis by (simp add: console_write_string_def c_string_append [OF assms] c_string_id [OF assms])
qed

definition caller_line :: "u32 \<Rightarrow> string" where
  "caller_line a = ''0x'' @ hex8 a @ [CHR 0x0A]"

definition reg_line :: "string \<Rightarrow> u32 \<Rightarrow> string" where
  "reg_line name v = name @ '': 0x'' @ hex8 v @ [CHR 0x0A]"

lemma line_chars: "CHR 0x00 \<notin> set (caller_line a)" "CHR 0x00 \<notin> set name \<Longrightarrow> CHR 0x00 \<notin> set (reg_line name v)"
  by (simp_all add: caller_line_def reg_line_def hex8_chars)

lemma print_caller: "kprintf (''0x%08x'' @ [CHR 0x0A]) [VInt a] con = Inr (3, console_write_string (caller_line a) con)"
proof -
  let ?ts = "[Lit (CHR ''0''), Lit (CHR ''x''), HexPad (CHR ''0'') ''8'' a, Lit (CHR 0x0A)]"
  have "toks_text (CHR '' '', 0) ?ts = caller_line a" by (simp add: caller_line_def hex8_def)
  then show ?thesis
    using kprintf_toks [of ?ts "''0x%08x'' @ [CHR 0x0A]" "[VInt a]" "[]" con] by (simp add: is_digit_def caller_line_def hex8_length)
qed

lemma print_callers_text:
  "i \<le> length as \<Longrightarrow> print_callers as i con = Inr (console_write_string (concat (map caller_line (rev (take i as)))) con)"
proof (induction i arbitrary: con)
  case 0
  then show ?case by (simp add: console_write_string_def c_string_def)
next
  case (Suc i)
  have "rev (take (Suc i) as) = as ! i # rev (take i as)" using Suc.prems by (simp add: take_Suc_conv_app_nth)
  then show ?case
    using Suc.IH [of "console_write_string (caller_line (as ! i)) con"] Suc.prems
      write_string_append [OF line_chars(1), of "concat (map caller_line (rev (take i as)))" "as ! i" con]
    by (simp add: print_caller [simplified])
qed

lemma print_all_callers: "print_callers as (length as) con = Inr (console_write_string (concat (map caller_line (rev as))) con)"
  using print_callers_text [of "length as" as] by simp

lemma print_regs:
  "kprintf fmt_string [VInt a, VInt b, VInt c, VInt d] con =
     Inr (32, console_write_string (reg_line ''cr0'' a @ reg_line ''cr2'' b @ reg_line ''cr3'' c @ reg_line ''cr4'' d) con)"
proof -
  let ?r = "\<lambda>n v. map Lit (n @ '': 0x'') @ [HexPad (CHR ''0'') ''8'' v, Lit (CHR 0x0A)]"
  let ?ts = "?r ''cr0'' a @ ?r ''cr2'' b @ ?r ''cr3'' c @ ?r ''cr4'' d"
  have t: "toks_text (CHR '' '', 0) ?ts = reg_line ''cr0'' a @ reg_line ''cr2'' b @ reg_line ''cr3'' c @ reg_line ''cr4'' d"
    by (simp add: reg_line_def hex8_def)
  have "list_all tok_wf ?ts" "fmt_string = concat (map tok_fmt ?ts)" "[VInt a, VInt b, VInt c, VInt d] = concat (map tok_arg ?ts) @ []"
    by (simp_all add: is_digit_def fmt_string_def)
  note k = kprintf_toks [OF this, unfolded t, of con]
  show ?thesis by (subst k) (simp_all add: reg_line_def hex8_length)
qed

text \<open>The chain of frames from a frame pointer, and their return addresses, the innermost first.\<close>

fun frames_from :: "mem \<Rightarrow> u32 \<Rightarrow> u32 list \<Rightarrow> bool" where
  "frames_from m ebp [] \<longleftrightarrow> ebp = 0"
| "frames_from m ebp (a # as) \<longleftrightarrow> ebp \<noteq> 0 \<and> load32 m (ebp + 4) = a \<and> frames_from m (load32 m ebp) as"

lemma stack_walk_frames: "frames_from m ebp as \<Longrightarrow> arch_stack_walk n ebp m = take n as"
proof (induction n arbitrary: ebp as)
  case (Suc n)
  then show ?case by (cases as) auto
qed simp

section \<open>The report\<close>

text \<open>C40: a panic prints its message, the control registers in hexadecimal, and the return addresses of the chain of stack frames, the
  outermost caller first; of a chain of more than 32 frames it shows the innermost 32. Nothing else is printed, and
  printing does not fail.\<close>

theorem panic_reports:
  assumes "frames_from m (tr_ebp r) as" "CHR 0x00 \<notin> set msg" "length msg < 1000"
  shows "panic msg r m con = Inr (console_write_string
    (''!!!PANIC!!!'' @ [CHR 0x0A] @ msg @ [CHR 0x0A]
     @ reg_line ''cr0'' (tr_cr0 r) @ reg_line ''cr2'' (tr_cr2 r) @ reg_line ''cr3'' (tr_cr3 r) @ reg_line ''cr4'' (tr_cr4 r)
     @ ''Stack trace:'' @ [CHR 0x0A] @ concat (map caller_line (rev (take 32 as)))) con)"
proof -
  let ?head = "''!!!PANIC!!!'' @ [CHR 0x0A] @ msg @ [CHR 0x0A]"
  let ?ts = "map Lit (''!!!PANIC!!!'' @ [CHR 0x0A]) @ [Str (Some msg), Lit (CHR 0x0A)]"
  have t: "toks_text (CHR '' '', 0) ?ts = ?head" by simp
  have p: "kprintf (''!!!PANIC!!!'' @ [CHR 0x0A] @ ''%s'' @ [CHR 0x0A]) [VStr (Some msg)] con = Inr (of_nat (13 + length msg), console_write_string ?head con)" for con
    using kprintf_toks [of ?ts "''!!!PANIC!!!'' @ [CHR 0x0A] @ ''%s'' @ [CHR 0x0A]" "[VStr (Some msg)]" "[]" con] assms(3) unfolding t by simp
  have s: "kprintf (''Stack trace:'' @ [CHR 0x0A]) [] con = Inr (13, console_write_string (''Stack trace:'' @ [CHR 0x0A]) con)" for con
    using kprintf_plain [of "''Stack trace:'' @ [CHR 0x0A]" "[]" con] by simp
  let ?cs = "concat (map caller_line (rev (take 32 as)))"
  have st: "stack_trace (tr_ebp r) m con = Inr (console_write_string ((''Stack trace:'' @ [CHR 0x0A]) @ ?cs) con)" for con
    unfolding stack_trace_def s Let_def stack_walk_frames [OF assms(1)] MAX_STACK_TRACE_SIZE_def bindE_simps prod.case print_all_callers
    by (subst write_string_append) simp_all
  have nz: "CHR 0x00 \<notin> set (reg_line ''cr0'' a @ reg_line ''cr2'' b @ reg_line ''cr3'' c @ reg_line ''cr4'' d)" for a b c d
    using line_chars(2) by simp
  show ?thesis
    unfolding panic_def arch_panic_hook_def p print_regs st bindE_simps prod.case
    using assms(2) nz by (simp add: write_string_append)
qed

definition sample_stack_mem :: mem where
  "sample_stack_mem = store32 (store32 (store32 (store32 (\<lambda>_. 0) 0x1000 0x1040) 0x1004 0xC0101234) 0x1040 0) 0x1044 0xC0100042"

theorem panic_reports_witness:
  "panic ''Out of free frames'' \<lparr>tr_cr0 = 0x80010011, tr_cr2 = 0, tr_cr3 = 0x105000, tr_cr4 = 0, tr_ebp = 0x1000\<rparr> sample_stack_mem blank_console =
   Inr (console_write_string (''!!!PANIC!!!'' @ [CHR 0x0A] @ ''Out of free frames'' @ [CHR 0x0A] @ reg_line ''cr0'' 0x80010011 @ reg_line ''cr2'' 0
     @ reg_line ''cr3'' 0x105000 @ reg_line ''cr4'' 0 @ ''Stack trace:'' @ [CHR 0x0A] @ ''0xc0100042'' @ [CHR 0x0A] @ ''0xc0101234'' @ [CHR 0x0A]) blank_console)"
proof -
  have "frames_from sample_stack_mem 0x1000 [0xC0101234, 0xC0100042]"
    by (simp add: sample_stack_mem_def word_cells.ld_st aligned4_def)
  moreover have "caller_line 0xC0100042 = ''0xc0100042'' @ [CHR 0x0A]" "caller_line 0xC0101234 = ''0xc0101234'' @ [CHR 0x0A]"
    by (simp_all add: caller_line_def hex8_def hex_text_def hexchars_def digits.simps pad_left_def)
  ultimately show ?thesis
    using panic_reports [of sample_stack_mem "\<lparr>tr_cr0 = 0x80010011, tr_cr2 = 0, tr_cr3 = 0x105000, tr_cr4 = 0, tr_ebp = 0x1000\<rparr>" "[0xC0101234, 0xC0100042]"
        "''Out of free frames''" blank_console]
    by simp
qed

end
