(* ===== verification/Spec2Isabelle.thy ===== *)
theory Spec2Isabelle
  imports Kernel_Run Phys_Alloc Panic_Report
begin

text \<open>
  A model of mugo, a microkernel for the i686, and proofs about it. File names below are relative to \<^verbatim>\<open>src/\<close>.

  \<^bold>\<open>The program.\<close> A Multiboot 2 loader enters \<^verbatim>\<open>early_main\<close> (\<^verbatim>\<open>arch/i686/early.c\<close>) with paging off. It reads the
  loader's tags into the kernel information record, moves the boot modules next to the kernel and fills the boot page
  tables. With paging on, \<^verbatim>\<open>bootstrap\<close> (\<^verbatim>\<open>kern/main.c\<close>) initialises the console, maps the kernel's memory in a
  new page directory (\<^verbatim>\<open>kern/kmem.c\<close>) and the heap (\<^verbatim>\<open>kern/kmalloc.c\<close>), loads every boot module as a process
  through the ELF loader (\<^verbatim>\<open>lib/libelf/elf.c\<close>) and the page-table code (\<^verbatim>\<open>arch/i686/paging_utils.c\<close>), sets up
  segments, interrupts and the clock (\<^verbatim>\<open>arch/i686/init.c\<close>), and starts the round-robin scheduler
  (\<^verbatim>\<open>kern/sched_rr.c\<close>). From then on the kernel runs on interrupts: the dispatcher (\<^verbatim>\<open>arch/i686/interrupt.c\<close>)
  calls the clock driver, which calls the scheduler, which chooses the context the interrupt returns to; and on kernel
  calls of user programs (\<^verbatim>\<open>kern/kcall.c\<close>).

  \<^bold>\<open>Conventions.\<close> Machine integers are words of their width and wrap. Structures are records, pointers are
  32-bit addresses. Memory is a function from addresses to bytes (\<^typ>\<open>mem\<close>), read and written by little-endian
  loads and stores; where the code works on objects of a fixed kind (threads, processes, list headers), the objects
  are kept in maps from their addresses. A function that can stop the kernel returns \<^typ>\<open>'a outcome\<close>, an error
  (a panic, a failed assertion, a division by zero, a null dereference, an access out of bounds, a page fault, a loop
  that does not end within its fuel) or a result. \<open>debug\<close> says whether the build defines \<^verbatim>\<open>DEBUG\<close>; without it
  assertions are nothing. The theorems are stated for any \<open>debug\<close>, with one kind of condition for the build with assertions only: loading a
  module asserts that \<^verbatim>\<open>p_memsz\<close> is a multiple of the page size, which neither the image format nor the other build asks for
  (\<open>asserted_sizes\<close>), and that there are fewer than eight modules (both in \<open>build_ok\<close>), and a kernel call asserts that there is a current
  thread. The addresses the linker script defines are records
  of arguments (\<open>early_links\<close>, \<open>kmem_links\<close>, \<open>arch_links\<close>, \<open>boot_links\<close>, \<open>phys_links\<close>), and the devices
  behind the input and output ports are a transition function (\<open>bus\<close>). Page tables are read at their physical
  address, also where the code reaches them through a mapping of the kernel; \<open>kphys\<close> is the translation of the
  kernel's own addresses. Addresses of user space are translated by a walk, byte by byte: the kernel's stores need the write bit, as
  \<^verbatim>\<open>boot.asm\<close> sets \<^verbatim>\<open>CR0.WP\<close>, accesses of user mode the user bit, and its stores both (\<open>permits\<close>). The text buffer of the console is a memory of its
  own (\<open>con_mem\<close>): stores of the driver beyond its 25 rows go to the cells behind it, and neither fault nor reach other
  memory in the model; \<open>Console\<close> states which cells they are. The first memory map of the information record, from which boot frames are cut, is kept in
  the fields \<open>mm_addr\<close> and \<open>mm_len\<close> of \<open>pgstate\<close>, and \<open>high_vma\<close> there stands for \<^verbatim>\<open>K_HIGH_VMA\<close>.

  \<^bold>\<open>Fuel.\<close> Most loops are recursive functions with a termination proof. Fuel is used where the code can
  really loop forever or run far: \<open>2\<^sup>20\<close> turns for the loops over page tables, which is the number of pages of the address space,
  \<open>4096\<close> for the loop over the objects of one page, and an argument of the model for the scans of the loader's tags
  and memory maps, whose theorems only ask that it exceeds the number of entries. The theorems show that the result is
  reached, never only what a result would be.

  \<^bold>\<open>The theories.\<close>

  \<^item> \<open>Mugo_Prelude\<close>: types of \<^verbatim>\<open>include/types/base.h\<close>, faults, \<^verbatim>\<open>ASSERT\<close> of \<^verbatim>\<open>kern/assert.h\<close>, byte memory, and the locales
    \<open>cell_store\<close> and \<open>chain_store\<close> for free lists threaded through their elements (interpreted on word cells).
  \<^item> \<open>Pages\<close>: pages as arrays of words, and the locale \<open>frame_source\<close>, the contract of everything that hands out pages
    or objects. It is interpreted on the boot frames, the pages of the heap, the objects of a heap page and the frame
    stack, so that each of them hands out different frames.
  \<^item> \<open>Stdlib\<close>: \<^verbatim>\<open>lib/stdlib/stdlib.c\<close>. \<open>itoa\<close> and \<open>xtoa\<close> print the digits of their argument (locale \<open>digit_printer\<close>),
    \<open>vsprintf_s\<close> prints what its format means, \<open>memcpy\<close>, \<open>memset\<close> and \<open>strlen\<close> do what they should.
  \<^item> \<open>Klist\<close>: \<^verbatim>\<open>kern/list.h\<close>, a circular list that implements a queue (locale \<open>fifo\<close>).
  \<^item> \<open>Kobjs\<close>, \<open>Thread\<close>: \<^verbatim>\<open>kern/kobjs.h\<close> and \<^verbatim>\<open>arch/i686/thread.c\<close>; creating, saving, restoring and selecting a thread.
  \<^item> \<open>Sched_RR\<close>: \<^verbatim>\<open>kern/sched_rr.c\<close>, \<^verbatim>\<open>kern/sched.c\<close>. The abstract scheduler has a list of threads per priority
    and the running thread; initialisation establishes the relation, a tick and a scheduling decision refine the abstract ones
    (locale \<open>tick_policy\<close>), and over any sequence of ticks no thread is lost, quanta are kept and priorities are strict.
  \<^item> \<open>Kmalloc\<close>: \<^verbatim>\<open>kern/kmalloc.c\<close>. The abstract heap has a pool of pages and for each size class a page with its
    free objects; \<open>kmalloc\<close> and \<open>kfree\<close> refine it (locale \<open>object_pool\<close>).
  \<^item> \<open>Paging\<close>: \<^verbatim>\<open>arch/i686/paging_utils.c\<close>, \<^verbatim>\<open>arch_paging.h\<close>. A walk of the page tables is the specification; mapping a range
    changes the translation of exactly its pages.
  \<^item> \<open>Elf\<close>: \<^verbatim>\<open>lib/libelf/elf.c\<close>. The header checks, and the loaded image read through the page tables.
  \<^item> \<open>Console\<close>: \<^verbatim>\<open>arch/i686/drivers/vga.c\<close>, \<^verbatim>\<open>kern/kprint.c\<close>, \<^verbatim>\<open>kern/log.h\<close>; every cell of the screen after a text
    is printed, in closed form (locale \<open>char_device\<close>).
  \<^item> \<open>Pic\<close>: \<^verbatim>\<open>arch/i686/drivers/pic.c\<close> against a model of the two 8259 controllers.
  \<^item> \<open>Descriptors\<close>: \<^verbatim>\<open>arch/i686/boot/gdt.c\<close>, \<^verbatim>\<open>arch/i686/idt.c\<close> (locale \<open>split_address\<close> for addresses cut into fields).
  \<^item> \<open>Interrupt\<close>: \<^verbatim>\<open>arch/i686/interrupt.c\<close>, \<^verbatim>\<open>arch/i686/drivers/timer.c\<close>, \<^verbatim>\<open>arch/i686/init.c\<close>, \<^verbatim>\<open>kern/time.c\<close>; a
    timer interrupt advances the clock, runs the scheduler and ends the interrupt at the controller.
  \<^item> \<open>Kinfo\<close>, \<open>Early\<close>: \<^verbatim>\<open>include/arch/info.h\<close>, \<^verbatim>\<open>arch/i686/early.c\<close>; the tags, the packing of the modules and exactly what the boot page tables map.
  \<^item> \<open>Kmem\<close>: \<^verbatim>\<open>kern/kmem.c\<close>; which page of the kernel is mapped where and with which permissions.
  \<^item> \<open>Kcall\<close>: \<^verbatim>\<open>kern/kcall.c\<close>; what a call reports and which calls are refused.
  \<^item> \<open>Boot\<close>: \<^verbatim>\<open>kern/main.c\<close>; every module becomes a process of its own and no two share a frame.
  \<^item> \<open>Startup\<close>: the whole of \<^verbatim>\<open>bootstrap\<close>, from conditions on the state the early boot code leaves (\<open>start_ok\<close>): the kernel's memory,
    the identity-mapped boot memory, the modules, the heap, the scheduler and the clock, up to the first instruction of the first module.
  \<^item> \<open>Phys_Alloc\<close>: \<^verbatim>\<open>kern/mem/phys_alloc.c\<close>, \<^verbatim>\<open>kern/mem/stack_alloc.c\<close>; the stack of free frames refines a list.
  \<^item> \<open>Userland\<close>: \<^verbatim>\<open>sys/arch/i686/syscall.c\<close>, the stubs \<^verbatim>\<open>kcall_stub.asm\<close> and \<^verbatim>\<open>arch/i686/kcall.asm\<close>, and
    \<^verbatim>\<open>serv/mman/main.c\<close>; a call from the user's registers and stack into the kernel and back, and the memory manager.
  \<^item> \<open>Kernel_Run\<close>: the kernel after its start as a machine driven by interrupts, kernel calls and the stores of user threads; an
    invariant that every event keeps, progress for the events the kernel accepts, and the isolation of the processes in every
    state reached from \<^verbatim>\<open>bootstrap\<close>, provided that the memory manager asks for no reply into pages of the kernel, which \<^verbatim>\<open>kcall.c\<close> would write. It is an interleaving of whole handlers, as interrupts are off inside the kernel.
  \<^item> \<open>Panic_Report\<close>: \<^verbatim>\<open>kern/util.c\<close>, \<^verbatim>\<open>arch/i686/panic.c\<close>, \<^verbatim>\<open>arch/i686/trace.asm\<close>, \<^verbatim>\<open>kern/crt.c\<close>; the text of a panic.

  \<^bold>\<open>Not modelled.\<close> The assembly code that enters protected mode and loads the tables; of the other stubs only
  the register moves of the interrupt return (in \<open>Thread\<close>) and the kernel call (in \<open>Userland\<close>). The translation look-aside
  buffer: the kernel never flushes it, and either adds translations, which the processor does not cache before they
  exist, or loads the directory it has built afterwards. What the compiler does on its own (its frames, the stack
  canary of \<^verbatim>\<open>lib/crt/crt.c\<close>). Code nothing calls: \<^verbatim>\<open>proc_create\<close> (empty), \<^verbatim>\<open>kclock_gettime\<close> (a stub), \<^verbatim>\<open>msr_read\<close>, the
  16- and 32-bit port operations, and the Multiboot structures the kernel never reads. The amd64 and riscv
  directories, which nothing builds.
\<close>

end
